(* ===== verification/Prelude.thy ===== *)
theory Prelude
  imports Main "HOL-Library.Word" "HOL-Library.Monad_Syntax"
begin

unbundle bit_operations_syntax

text \<open>
  Shared vocabulary of the development: the fixed-width integer types of
  \<^verbatim>\<open>typedefs.h\<close>, the outcome of code that may fail to return (\<^verbatim>\<open>assert.h\<close>), bounded
  reads and writes of C arrays, and the little-endian byte view of machine words.

  A computation that may not return normally has type \<^typ>\<open>'a option\<close>.  \<^term>\<open>None\<close>
  stands for every way in which control does not come back with a value: a failed
  \<^verbatim>\<open>assert\<close> (which prints and then loops forever), an access outside the object a
  pointer points into, a division by zero, or a loop that never ends.
\<close>

section \<open>Machine integers\<close>

type_synonym u8 = "8 word"
type_synonym u16 = "16 word"
type_synonym u32 = "32 word"
type_synonym u64 = "64 word"

named_theorems unat_arith_simps \<open>reading word arithmetic as arithmetic on nat\<close>
named_theorems byte_simps \<open>bytes of words and words of bytes\<close>

lemma unat_of_nat_u64 [unat_arith_simps]: "i < 2 ^ 64 \<Longrightarrow> unat (of_nat i :: u64) = i"
  by (simp add: unat_of_nat take_bit_nat_eq_self)

lemma unat_of_nat_u32 [unat_arith_simps]: "i < 2 ^ 32 \<Longrightarrow> unat (of_nat i :: u32) = i"
  by (simp add: unat_of_nat take_bit_nat_eq_self)

lemma unat_add_le: "unat a + unat b < 2 ^ LENGTH('a) \<Longrightarrow> unat (a + b) = unat a + unat b"
  for a b :: "'a::len word"
  by (simp add: unat_word_ariths)

lemma unat_sub_le: "unat b \<le> unat a \<Longrightarrow> unat (a - b) = unat a - unat b"
  for a b :: "'a::len word"
  by (simp add: unat_sub word_le_nat_alt)

lemma unat_min: "unat (min a b) = min (unat a) (unat b)"
  for a b :: "'a::len word"
  by (simp add: min_def word_le_nat_alt)

lemma unat_max: "unat (max a b) = max (unat a) (unat b)"
  for a b :: "'a::len word"
  by (simp add: max_def word_le_nat_alt)

lemma unat_pos_iff: "0 < unat a \<longleftrightarrow> a \<noteq> 0"
  for a :: "'a::len word"
  by (simp add: unat_gt_0)

lemma unat_u32_lt: "unat (a :: u32) < 4294967296"
proof -
  have "unat a < 2 ^ LENGTH(32)" by (rule unsigned_less)
  then show ?thesis by simp
qed

lemma unat_u64_lt: "unat (a :: u64) < 18446744073709551616"
proof -
  have "unat a < 2 ^ LENGTH(64)" by (rule unsigned_less)
  then show ?thesis by simp
qed

lemma unat_ucast_u32: "unat (ucast (w :: u32) :: u64) = unat w"
  by (simp add: unsigned_ucast_eq take_bit_nat_eq_self order_less_trans [OF unat_u32_lt])

lemma mod_wrap_once: "a < 2 * n \<Longrightarrow> a mod n = (if a < n then a else a - n)"
  for a n :: nat
  by (simp add: le_mod_geq)

lemma div_mod_extend:
  fixes n m k :: nat
  assumes "n mod k + m < k"
  shows "(n + m) div k = n div k" "(n + m) mod k = n mod k + m"
proof -
  have split: "n + m = (n mod k + m) + n div k * k" by simp
  have nz: "k \<noteq> 0" using assms by (cases k) simp_all
  have "(n mod k + m + n div k * k) div k = n div k + (n mod k + m) div k"
    by (rule div_mult_self1 [OF nz])
  then show "(n + m) div k = n div k" by (simp only: split [symmetric] div_less [OF assms] add_0_right)
  have "(n mod k + m + n div k * k) mod k = (n mod k + m) mod k"
    by (rule mod_mult_self1)
  then show "(n + m) mod k = n mod k + m" by (simp only: split [symmetric] mod_less [OF assms])
qed

lemma div_mod_complete:
  fixes n m k :: nat
  assumes "n mod k + m = k" and "0 < k"
  shows "(n + m) div k = Suc (n div k)" "(n + m) mod k = 0"
proof -
  have split: "n + m = Suc (n div k) * k" using assms(1) by (simp add: algebra_simps) (metis mod_mult_div_eq add.assoc add.commute)
  show "(n + m) div k = Suc (n div k)" by (subst split) (use assms(2) in simp)
  show "(n + m) mod k = 0" by (subst split) simp
qed

section \<open>Outcomes\<close>

text \<open>The \<^verbatim>\<open>assert\<close> macro: a false condition reports and then spins forever.\<close>

definition c_assert :: "bool \<Rightarrow> unit option" where
  "c_assert e = (if e then Some () else None)"

lemma c_assert_simps [simp]: "c_assert True = Some ()" "c_assert False = None"
  by (simp_all add: c_assert_def)

lemma c_assert_bind_eq_Some [simp]:
  "(c_assert e \<bind> f) = Some x \<longleftrightarrow> e \<and> f () = Some x"
  by (cases e) simp_all

text \<open>Unsigned remainder: a zero divisor traps.\<close>

definition c_umod :: "'a::len word \<Rightarrow> 'a word \<Rightarrow> 'a word option" where
  "c_umod a b = (if b = 0 then None else Some (a mod b))"

section \<open>Bounded access to arrays\<close>

text \<open>
  A C array owned by one object is a list of its current length.  \<^verbatim>\<open>slice\<close> reads a
  run of elements, \<^verbatim>\<open>blit\<close> overwrites one; both are \<^term>\<open>None\<close> when the run leaves the
  array.
\<close>

definition slice :: "'a list \<Rightarrow> nat \<Rightarrow> nat \<Rightarrow> 'a list option" where
  "slice xs off n = (if off + n \<le> length xs then Some (take n (drop off xs)) else None)"

definition blit :: "'a list \<Rightarrow> nat \<Rightarrow> 'a list \<Rightarrow> 'a list option" where
  "blit dst off src =
     (if off + length src \<le> length dst
      then Some (take off dst @ src @ drop (off + length src) dst) else None)"

lemma slice_Some_iff [simp]:
  "slice xs off n = Some ys \<longleftrightarrow> off + n \<le> length xs \<and> ys = take n (drop off xs)"
  by (auto simp: slice_def)

lemma blit_Some_iff [simp]:
  "blit dst off src = Some ys \<longleftrightarrow>
     off + length src \<le> length dst \<and> ys = take off dst @ src @ drop (off + length src) dst"
  by (auto simp: blit_def)

lemma length_blit: "blit dst off src = Some ys \<Longrightarrow> length ys = length dst"
  by auto

lemma nth_blit:
  assumes "blit dst off src = Some ys" and "i < length dst"
  shows "ys ! i = (if off \<le> i \<and> i < off + length src then src ! (i - off) else dst ! i)"
  using assms by (auto simp: nth_append min_def)

section \<open>Words as little-endian bytes\<close>

definition le_bytes :: "nat \<Rightarrow> 'a::len word \<Rightarrow> u8 list" where
  "le_bytes n w = map (\<lambda>i. ucast (drop_bit (8 * i) w)) [0..<n]"

fun of_le_bytes :: "u8 list \<Rightarrow> 'a::len word" where
  "of_le_bytes [] = 0"
| "of_le_bytes (b # bs) = ucast b OR push_bit 8 (of_le_bytes bs)"

lemma length_le_bytes [simp]: "length (le_bytes n w) = n"
  by (simp add: le_bytes_def)

lemma nth_le_bytes [simp]: "i < n \<Longrightarrow> le_bytes n w ! i = ucast (drop_bit (8 * i) w)"
  by (simp add: le_bytes_def)

lemma bit_of_le_bytes:
  "bit (of_le_bytes bs :: 'a::len word) k \<longleftrightarrow>
     k < LENGTH('a) \<and> k div 8 < length bs \<and> bit (bs ! (k div 8)) (k mod 8)"
proof (induction bs arbitrary: k)
  case Nil
  then show ?case by simp
next
  case (Cons b bs)
  show ?case
  proof (cases "k < 8")
    case True
    then show ?thesis by (auto simp: bit_simps)
  next
    case False
    then obtain j where k: "k = j + 8"
      by (metis add.commute le_add_diff_inverse not_le)
    have "\<not> bit b k" using False bit_imp_le_length [of b k] by auto
    moreover have "(j + 8) div 8 = Suc (j div 8)" by simp
    ultimately show ?thesis using Cons.IH [of j] by (auto simp: bit_simps k)
  qed
qed

lemma of_le_bytes_le_bytes [byte_simps]:
  fixes w :: "'a::len word"
  assumes "LENGTH('a) \<le> 8 * n"
  shows "(of_le_bytes (le_bytes n w) :: 'a word) = w"
proof (rule bit_word_eqI)
  fix k
  assume k: "k < LENGTH('a)"
  then have n: "k div 8 < n" using assms by simp
  have "8 * (k div 8) + k mod 8 = k" by simp
  then show "bit (of_le_bytes (le_bytes n w) :: 'a word) k = bit w k"
    using k n by (auto simp: bit_of_le_bytes bit_simps add.commute)
qed

lemma le_bytes_of_le_bytes [byte_simps]:
  assumes "8 * length bs \<le> LENGTH('a)" and "n = length bs"
  shows "le_bytes n (of_le_bytes bs :: 'a::len word) = bs"
proof (rule nth_equalityI)
  show "length (le_bytes n (of_le_bytes bs :: 'a word)) = length bs" using assms by simp
next
  fix i
  assume "i < length (le_bytes n (of_le_bytes bs :: 'a word))"
  then have i: "i < length bs" "i < n" using assms(2) by simp_all
  show "le_bytes n (of_le_bytes bs :: 'a word) ! i = bs ! i"
  proof (rule bit_word_eqI)
    fix k
    assume "k < LENGTH(8)"
    then have k: "k < 8" by simp
    have "k + 8 * i < LENGTH('a)" using k i assms(1) by simp
    moreover have "(k + 8 * i) div 8 = i" and "(k + 8 * i) mod 8 = k" using k by simp_all
    ultimately show "bit (le_bytes n (of_le_bytes bs :: 'a word) ! i) k = bit (bs ! i) k"
      using i k by (simp add: bit_simps bit_of_le_bytes)
  qed
qed

end
