(* ===== verification/PortIO.thy ===== *)
theory PortIO
  imports Prelude
begin

text \<open>
  Port input and output (\<^verbatim>\<open>arch/includes/io.h\<close>, \<^verbatim>\<open>arch/amd64/io.s\<close>) and the COM1 driver of
  \<^verbatim>\<open>drivers/serial.c\<close>.  The devices behind the ports are not part of the program: they are a
  parameter \<^verbatim>\<open>dev\<close> that answers a read from a port, given everything that happened on the bus
  before it.  The state of the program's side is the trace of its bus accesses, oldest first.
\<close>

section \<open>The bus\<close>

datatype io_event =
    Outb u16 u8
  | Outw u16 u16
  | Outl u16 u32
  | Inb u16
  | Inw u16
  | Inl u16

type_synonym trace = "io_event list"
type_synonym device = "trace \<Rightarrow> u16 \<Rightarrow> u32"

definition outb :: "u16 \<Rightarrow> u8 \<Rightarrow> trace \<Rightarrow> trace" where
  "outb port v t = t @ [Outb port v]"

definition outw :: "u16 \<Rightarrow> u16 \<Rightarrow> trace \<Rightarrow> trace" where
  "outw port v t = t @ [Outw port v]"

definition outl :: "u16 \<Rightarrow> u32 \<Rightarrow> trace \<Rightarrow> trace" where
  "outl port v t = t @ [Outl port v]"

text \<open>\<^verbatim>\<open>inb\<close> is declared to return 16 bits: the routine clears \<^verbatim>\<open>eax\<close> before it reads \<^verbatim>\<open>al\<close>.\<close>

definition inb :: "device \<Rightarrow> u16 \<Rightarrow> trace \<Rightarrow> u16 \<times> trace" where
  "inb dev port t = (ucast (ucast (dev t port) :: u8), t @ [Inb port])"

definition inw :: "device \<Rightarrow> u16 \<Rightarrow> trace \<Rightarrow> u16 \<times> trace" where
  "inw dev port t = (ucast (dev t port), t @ [Inw port])"

definition inl :: "device \<Rightarrow> u16 \<Rightarrow> trace \<Rightarrow> u32 \<times> trace" where
  "inl dev port t = (dev t port, t @ [Inl port])"

named_theorems io_defs \<open>the port instructions\<close>

lemmas [io_defs] = outb_def outw_def outl_def inb_def inw_def inl_def

section \<open>The serial port\<close>

definition PORT :: u16 where "PORT = 0x3f8"

definition serial_init :: "device \<Rightarrow> trace \<Rightarrow> nat \<times> trace" where
  "serial_init dev t =
     (let t = outb (PORT + 1) 0x00 t;
          t = outb (PORT + 3) 0x80 t;
          t = outb (PORT + 0) 0x03 t;
          t = outb (PORT + 1) 0x00 t;
          t = outb (PORT + 3) 0x03 t;
          t = outb (PORT + 2) 0xC7 t;
          t = outb (PORT + 4) 0x0B t;
          t = outb (PORT + 4) 0x1E t;
          t = outb (PORT + 0) 0xAE t;
          (c, t) = inb dev (PORT + 0) t
      in if c \<noteq> 0xAE then (1, t) else (0, outb (PORT + 4) 0x0F t))"

definition is_transmit_empty :: "device \<Rightarrow> trace \<Rightarrow> bool \<times> trace" where
  "is_transmit_empty dev t = (let (c, t) = inb dev (PORT + 5) t in (c AND 0x20 \<noteq> 0, t))"

text \<open>The busy-wait: it ends only if the line status register ever reports the transmitter empty.\<close>

partial_function (option) wait_transmit :: "device \<Rightarrow> trace \<Rightarrow> trace option" where
  "wait_transmit dev t =
     (let (empty, t') = is_transmit_empty dev t
      in if empty then Some t' else wait_transmit dev t')"

definition serial_print_char :: "device \<Rightarrow> u8 \<Rightarrow> trace \<Rightarrow> trace option" where
  "serial_print_char dev a t = do {
     t' \<leftarrow> wait_transmit dev t;
     Some (outb PORT a t')
   }"

text \<open>
  \<^verbatim>\<open>busy dev t k\<close>: after \<^verbatim>\<open>t\<close>, the first \<^verbatim>\<open>k\<close> polls of the line status register find the transmitter
  busy; \<^verbatim>\<open>ready\<close> is one poll that finds it empty.
\<close>

definition polled :: "trace \<Rightarrow> nat \<Rightarrow> trace" where
  "polled t k = t @ replicate k (Inb (PORT + 5))"

definition ready :: "device \<Rightarrow> trace \<Rightarrow> bool" where
  "ready dev t \<longleftrightarrow> fst (is_transmit_empty dev t)"

lemma polled_0 [simp]: "polled t 0 = t"
  by (simp add: polled_def)

lemma polled_Suc: "polled (t @ [Inb (PORT + 5)]) k = polled t (Suc k)"
  by (simp add: polled_def)

lemma is_transmit_empty_eq: "is_transmit_empty dev t = (ready dev t, polled t 1)"
  by (simp add: ready_def is_transmit_empty_def inb_def polled_def)

lemma wait_transmit_Some:
  "(\<And>j. j < k \<Longrightarrow> \<not> ready dev (polled t j)) \<Longrightarrow> ready dev (polled t k) \<Longrightarrow>
     wait_transmit dev t = Some (polled t (Suc k))"
proof (induction k arbitrary: t)
  case 0
  then show ?case by (simp add: wait_transmit.simps is_transmit_empty_eq)
next
  case (Suc k)
  have "\<not> ready dev t" using Suc.prems(1) [of 0] by simp
  moreover have "wait_transmit dev (polled t 1) = Some (polled (polled t 1) (Suc k))"
  proof (rule Suc.IH)
    show "\<not> ready dev (polled (polled t 1) j)" if "j < k" for j
      using Suc.prems(1) [of "Suc j"] that by (simp add: polled_def)
    show "ready dev (polled (polled t 1) k)" using Suc.prems(2) by (simp add: polled_def)
  qed
  ultimately show ?case
    by (subst wait_transmit.simps) (simp add: is_transmit_empty_eq polled_def)
qed

lemma wait_transmit_returned:
  assumes "wait_transmit dev t = Some t'"
  shows "\<exists>k. t' = polled t (Suc k) \<and> ready dev (polled t k) \<and> (\<forall>j<k. \<not> ready dev (polled t j))"
proof (rule wait_transmit.raw_induct [where P = "\<lambda>dev t t'. \<exists>k. t' = polled t (Suc k) \<and>
      ready dev (polled t k) \<and> (\<forall>j<k. \<not> ready dev (polled t j))", OF _ assms])
  fix f :: "device \<Rightarrow> trace \<Rightarrow> trace option" and dev :: device and t t' :: trace
  assume IH: "\<And>dev t t'. f dev t = Some t' \<Longrightarrow> \<exists>k. t' = polled t (Suc k) \<and>
      ready dev (polled t k) \<and> (\<forall>j<k. \<not> ready dev (polled t j))"
    and eq: "(let (empty, t') = is_transmit_empty dev t in if empty then Some t' else f dev t') = Some t'"
  show "\<exists>k. t' = polled t (Suc k) \<and> ready dev (polled t k) \<and> (\<forall>j<k. \<not> ready dev (polled t j))"
  proof (cases "ready dev t")
    case True
    then show ?thesis using eq by (intro exI [of _ 0]) (simp add: is_transmit_empty_eq)
  next
    case False
    then obtain k where "t' = polled (polled t 1) (Suc k)" "ready dev (polled (polled t 1) k)"
        "\<forall>j<k. \<not> ready dev (polled (polled t 1) j)"
      using IH [of dev "polled t 1" t'] eq by (auto simp: is_transmit_empty_eq)
    then show ?thesis using False
      by (intro exI [of _ "Suc k"]) (auto simp: polled_def less_Suc_eq_0_disj)
  qed
qed

section \<open>Properties\<close>

text \<open>
  \<^verbatim>\<open>serial_print_char\<close> returns exactly when some poll of the line status register
  finds the transmitter empty; it then has polled up to and including the first such poll and
  sent its byte once, right after it, and never while the transmitter was busy.
\<close>

theorem serial_print_char_spec:
  "serial_print_char dev a t = Some t' \<longleftrightarrow>
     (\<exists>k. t' = polled t (Suc k) @ [Outb PORT a] \<and> ready dev (polled t k) \<and>
        (\<forall>j<k. \<not> ready dev (polled t j)))"
proof
  assume "serial_print_char dev a t = Some t'"
  then obtain t1 where "wait_transmit dev t = Some t1" "t' = t1 @ [Outb PORT a]"
    by (auto simp: serial_print_char_def outb_def split: bind_splits)
  then show "\<exists>k. t' = polled t (Suc k) @ [Outb PORT a] \<and> ready dev (polled t k) \<and>
        (\<forall>j<k. \<not> ready dev (polled t j))"
    using wait_transmit_returned by blast
next
  assume "\<exists>k. t' = polled t (Suc k) @ [Outb PORT a] \<and> ready dev (polled t k) \<and>
        (\<forall>j<k. \<not> ready dev (polled t j))"
  then obtain k where k: "t' = polled t (Suc k) @ [Outb PORT a]" "ready dev (polled t k)"
      "\<forall>j<k. \<not> ready dev (polled t j)"
    by blast
  then have "wait_transmit dev t = Some (polled t (Suc k))" by (simp add: wait_transmit_Some)
  then show "serial_print_char dev a t = Some t'"
    using k(1) by (simp add: serial_print_char_def outb_def)
qed

theorem serial_print_char_spec_witness:
  "serial_print_char (\<lambda>t p. if length t < 2 then 0 else 0x60) 65 [] =
     Some (polled [] 3 @ [Outb PORT 65])"
proof -
  let ?dev = "\<lambda>t p. if length t < 2 then 0 else 0x60"
  have "ready ?dev (polled [] 2) \<and> (\<forall>j<2. \<not> ready ?dev (polled [] j))"
    by (auto simp: ready_def is_transmit_empty_def inb_def polled_def)
  then show ?thesis
    using serial_print_char_spec [of ?dev 65 "[]" "polled [] 3 @ [Outb PORT 65]"]
    by (metis numeral_2_eq_2 numeral_3_eq_3)
qed

end
