(* ===== verification/Kprintf.thy ===== *)
theory Kprintf
  imports PortIO
begin

text \<open>
  Formatted output, \<^verbatim>\<open>src/kernel/kprintf.c\<close>.  Characters are HOL characters and C strings are
  \<^typ>\<open>string\<close>s without their terminating zero.  The \<^verbatim>\<open>print_context\<close> is a writer function over a
  state of any type; its calls may fail to return, so it yields an option.  The variable
  argument list is a list of 64-bit slots and strings; taking an argument that is not there,
  or a string where a number was passed, is undefined and hence \<^term>\<open>None\<close>.

  Field widths, precisions and the negation of a \<^verbatim>\<open>long long\<close> are checked against the range of
  their C types (signed overflow is undefined).  The counts of bytes written are unbounded
  integers: they would only overflow after two gigabytes of output.
\<close>

section \<open>Writers and arguments\<close>

type_synonym 's writer = "string \<Rightarrow> 's \<Rightarrow> 's option"

datatype arg = Num u64 | Str "string option"

definition NUL :: char where "NUL = CHR 0x00"

definition c_int :: "int \<Rightarrow> int option" where
  "c_int x = (if - (2 ^ 31) \<le> x \<and> x < 2 ^ 31 then Some x else None)"

definition c_llong :: "int \<Rightarrow> int option" where
  "c_llong x = (if - (2 ^ 63) \<le> x \<and> x < 2 ^ 63 then Some x else None)"

text \<open>\<^verbatim>\<open>va_arg\<close> at the types the source uses.\<close>

fun va_slot :: "arg list \<Rightarrow> (u64 \<times> arg list) option" where
  "va_slot (Num w # ap) = Some (w, ap)"
| "va_slot _ = None"

fun va_str :: "arg list \<Rightarrow> (string option \<times> arg list) option" where
  "va_str (Str s # ap) = Some (s, ap)"
| "va_str _ = None"

definition as_int :: "u64 \<Rightarrow> int" where
  "as_int w = sint (ucast w :: 32 word)"

definition as_uint :: "u64 \<Rightarrow> int" where
  "as_uint w = uint (ucast w :: 32 word)"

definition as_llong :: "u64 \<Rightarrow> int" where
  "as_llong w = sint w"

section \<open>Numbers\<close>

text \<open>
  The digit loop stores at most 32 characters, least significant first: \<^verbatim>\<open>room\<close> counts the free
  places of \<^verbatim>\<open>str\<close>.
\<close>

definition char_at :: "string \<Rightarrow> nat \<Rightarrow> char option" where
  "char_at cs i = (if i < length cs then Some (cs ! i) else None)"

fun digit_loop :: "string \<Rightarrow> nat \<Rightarrow> nat \<Rightarrow> nat \<Rightarrow> string option" where
  "digit_loop cs base 0 n = Some []"
| "digit_loop cs base (Suc room) n =
     (if n = 0 then Some []
      else do {
        c \<leftarrow> char_at cs (n mod base);
        rest \<leftarrow> digit_loop cs base room (n div base);
        Some (c # rest)
      })"

fun write_each :: "'s writer \<Rightarrow> string \<Rightarrow> 's \<Rightarrow> 's option" where
  "write_each wr [] s = Some s"
| "write_each wr (c # cs) s = do { s' \<leftarrow> wr [c] s; write_each wr cs s' }"

function pad_loop :: "'s writer \<Rightarrow> char \<Rightarrow> int \<Rightarrow> int \<Rightarrow> int \<Rightarrow> 's \<Rightarrow> (int \<times> 's) option" where
  "pad_loop wr t prefix used c s =
     (if prefix - used > 0
      then do { s' \<leftarrow> wr [t] s; pad_loop wr t (prefix - 1) used (c + 1) s' }
      else Some (c, s))"
  by pat_completeness auto
termination
  by (relation "measure (\<lambda>(wr, t, prefix, used, c, s). nat (prefix - used))") auto

declare pad_loop.simps [simp del]

definition emit_number ::
  "'s writer \<Rightarrow> string \<Rightarrow> int \<Rightarrow> bool \<Rightarrow> bool \<Rightarrow> 's \<Rightarrow> (int \<times> 's) option" where
  "emit_number wr str prefix zero_padding right_padding s = do {
     let t = (if zero_padding then CHR ''0'' else CHR '' '');
     let orig_i = int (length str);
     (c, s) \<leftarrow> (if \<not> right_padding then pad_loop wr t prefix orig_i 0 s else Some (0, s));
     s \<leftarrow> write_each wr (rev str) s;
     let c = c + orig_i;
     (if right_padding then pad_loop wr t prefix orig_i c s else Some (c, s))
   }"

definition print_unum ::
  "'s writer \<Rightarrow> u64 \<Rightarrow> nat \<Rightarrow> string \<Rightarrow> int \<Rightarrow> bool \<Rightarrow> bool \<Rightarrow> 's \<Rightarrow> (int \<times> 's) option" where
  "print_unum wr n base char_set prefix zero_padding right_padding s = do {
     str \<leftarrow> (if n = 0 then do { c \<leftarrow> char_at char_set 0; Some [c] }
            else digit_loop char_set base 32 (unat n));
     emit_number wr str prefix zero_padding right_padding s
   }"

text \<open>
  The signed version negates first; the most negative \<^verbatim>\<open>long long\<close> has no negation.  The sign goes
  into \<^verbatim>\<open>str\<close> behind the digits, so it is written in front of them.
\<close>

definition print_num ::
  "'s writer \<Rightarrow> int \<Rightarrow> nat \<Rightarrow> string \<Rightarrow> int \<Rightarrow> bool \<Rightarrow> bool \<Rightarrow> 's \<Rightarrow> (int \<times> 's) option" where
  "print_num wr n base char_set prefix zero_padding right_padding s = do {
     let is_signed = n < 0;
     n \<leftarrow> (if is_signed then c_llong (n * -1) else Some n);
     str \<leftarrow> (if n = 0 then do { c \<leftarrow> char_at char_set 0; Some [c] }
            else digit_loop char_set base 32 (nat n));
     str \<leftarrow> (if is_signed
            then (if length str < 32 then Some (str @ [CHR ''-'']) else None)
            else Some str);
     emit_number wr str prefix zero_padding right_padding s
   }"

definition print_int :: "'s writer \<Rightarrow> int \<Rightarrow> int \<Rightarrow> bool \<Rightarrow> bool \<Rightarrow> 's \<Rightarrow> (int \<times> 's) option" where
  "print_int wr n prefix zero_padding right_padding s =
     print_num wr n 10 ''0123456789'' prefix zero_padding right_padding s"

definition print_hex :: "'s writer \<Rightarrow> int \<Rightarrow> int \<Rightarrow> bool \<Rightarrow> bool \<Rightarrow> 's \<Rightarrow> (int \<times> 's) option" where
  "print_hex wr n prefix zero_padding right_padding s =
     print_num wr n 16 ''0123456789abcdef'' prefix zero_padding right_padding s"

definition print_uhex :: "'s writer \<Rightarrow> u64 \<Rightarrow> int \<Rightarrow> bool \<Rightarrow> bool \<Rightarrow> 's \<Rightarrow> (int \<times> 's) option" where
  "print_uhex wr n prefix zero_padding right_padding s =
     print_unum wr n 16 ''0123456789abcdef'' prefix zero_padding right_padding s"

definition print_octal :: "'s writer \<Rightarrow> int \<Rightarrow> int \<Rightarrow> bool \<Rightarrow> bool \<Rightarrow> 's \<Rightarrow> (int \<times> 's) option" where
  "print_octal wr n prefix zero_padding right_padding s =
     print_num wr n 8 ''012345678'' prefix zero_padding right_padding s"

section \<open>Strings\<close>

text \<open>
  \<^verbatim>\<open>print_string\<close> returns what it adds to the caller's \<^verbatim>\<open>rc\<close>: one per character written by the
  loop, plus the padding.
\<close>

fun string_loop :: "'s writer \<Rightarrow> int \<Rightarrow> int \<Rightarrow> string \<Rightarrow> int \<Rightarrow> 's \<Rightarrow> (int \<times> 's) option" where
  "string_loop wr precision bl [] rc s = Some (rc, s)"
| "string_loop wr precision bl (c # cs) rc s =
     (if precision \<noteq> -1 \<and> 0 = bl then Some (rc, s)
      else do {
        let bl = (if precision \<noteq> -1 then bl - 1 else bl);
        s \<leftarrow> wr [c] s;
        string_loop wr precision bl cs (rc + 1) s
      })"

definition print_string ::
  "'s writer \<Rightarrow> string \<Rightarrow> int \<Rightarrow> int \<Rightarrow> bool \<Rightarrow> int \<Rightarrow> 's \<Rightarrow> (int \<times> 's) option" where
  "print_string wr str rc prefix right_padding precision s = do {
     let l = int (length str);
     (c, s) \<leftarrow> (if \<not> right_padding
               then do {
                 c_assert (prefix \<noteq> 0 \<longrightarrow> -1 = precision);
                 pad_loop wr (CHR '' '') prefix l 0 s
               }
               else Some (0, s));
     (rc, s) \<leftarrow> string_loop wr precision precision str rc s;
     (c, s) \<leftarrow> (if right_padding
               then do {
                 c_assert (-1 = precision);
                 pad_loop wr (CHR '' '') prefix l c s
               }
               else Some (c, s));
     Some (rc + c, s)
   }"

section \<open>The format interpreter\<close>

text \<open>The format string with its terminating zero, read through an index as through the pointer.\<close>

definition fmt_at :: "string \<Rightarrow> nat \<Rightarrow> char option" where
  "fmt_at fmt i = (if i < length fmt then Some (fmt ! i) else if i = length fmt then Some NUL else None)"

definition is_digit :: "char \<Rightarrow> bool" where
  "is_digit c \<longleftrightarrow> 48 \<le> (of_char c :: nat) \<and> (of_char c :: nat) \<le> 57"

definition digit_val :: "char \<Rightarrow> int" where
  "digit_val c = int (of_char c) - 48"

lemma fmt_at_less: "fmt_at fmt i = Some c \<Longrightarrow> c \<noteq> NUL \<Longrightarrow> i < length fmt"
  by (auto simp: fmt_at_def split: if_splits)

text \<open>
  \<^verbatim>\<open>parse_precision\<close> yields the number and the position the caller's pointer is left at: on the
  last digit (or the dot) when a number was read, on the star for \<^verbatim>\<open>.*\<close>.
\<close>

function parse_precision :: "string \<Rightarrow> nat \<Rightarrow> nat \<Rightarrow> int \<Rightarrow> (int \<times> nat) option" where
  "parse_precision fmt s i rc = do {
     c \<leftarrow> fmt_at fmt s;
     (if c = NUL then Some (rc, s)
      else if c = CHR ''*'' then do { c_assert (i = 0); Some (-1, s) }
      else if \<not> is_digit c then Some (rc, s - 1)
      else do {
        rc \<leftarrow> c_int (rc * 10);
        rc \<leftarrow> c_int (rc + digit_val c);
        parse_precision fmt (s + 1) (i + 1) rc
      })
   }"
  by pat_completeness auto
termination
  by (relation "measure (\<lambda>(fmt, s, i, rc). length fmt - s)") (auto dest: fmt_at_less)

declare parse_precision.simps [simp del]

record fmt_state =
  fs_rc :: int
  fs_prefix :: int
  fs_long :: nat
  fs_zero :: bool
  fs_right :: bool
  fs_cont :: bool
  fs_precision :: int

definition fmt_init :: fmt_state where
  "fmt_init = \<lparr>fs_rc = 0, fs_prefix = 0, fs_long = 0, fs_zero = False, fs_right = False,
               fs_cont = False, fs_precision = -1\<rparr>"

text \<open>The end of each conversion: \<^verbatim>\<open>cont = 0\<close> and the reset that follows the switch.\<close>

definition fmt_done :: "fmt_state \<Rightarrow> int \<Rightarrow> fmt_state" where
  "fmt_done st n = st\<lparr>fs_rc := fs_rc st + n, fs_cont := False, fs_prefix := 0, fs_zero := False,
                      fs_right := False, fs_precision := -1\<rparr>"

text \<open>The signed conversions \<^verbatim>\<open>%d\<close> and \<^verbatim>\<open>%i\<close>: a precision becomes a zero-padded width.\<close>

definition conv_signed ::
  "'s writer \<Rightarrow> fmt_state \<Rightarrow> arg list \<Rightarrow> 's \<Rightarrow> (fmt_state \<times> arg list \<times> 's) option" where
  "conv_signed wr st ap s = do {
     let st = (if -1 \<noteq> fs_precision st
               then st\<lparr>fs_zero := True, fs_prefix := fs_precision st, fs_right := False\<rparr> else st);
     (w, ap) \<leftarrow> va_slot ap;
     (n, s) \<leftarrow> print_int wr (if fs_long st = 2 \<or> fs_long st = 1 then as_llong w else as_int w)
       (fs_prefix st) (fs_zero st) (fs_right st) s;
     Some ((fmt_done st n)\<lparr>fs_long := 0\<rparr>, ap, s)
   }"

text \<open>
  \<^verbatim>\<open>%u\<close> also goes through the signed \<^verbatim>\<open>print_int\<close>: at the \<^verbatim>\<open>long\<close> levels the unsigned value is
  converted to \<^verbatim>\<open>long long\<close> on the way.  The \<^verbatim>\<open>l\<close> count is not reset.
\<close>

definition conv_unsigned ::
  "'s writer \<Rightarrow> fmt_state \<Rightarrow> arg list \<Rightarrow> 's \<Rightarrow> (fmt_state \<times> arg list \<times> 's) option" where
  "conv_unsigned wr st ap s = do {
     c_assert (-1 = fs_precision st);
     (w, ap) \<leftarrow> va_slot ap;
     (n, s) \<leftarrow> print_int wr (if fs_long st = 2 \<or> fs_long st = 1 then as_llong w else as_uint w)
       (fs_prefix st) (fs_zero st) (fs_right st) s;
     Some (fmt_done st n, ap, s)
   }"

definition conv_string ::
  "'s writer \<Rightarrow> fmt_state \<Rightarrow> arg list \<Rightarrow> 's \<Rightarrow> (fmt_state \<times> arg list \<times> 's) option" where
  "conv_string wr st ap s = do {
     c_assert (\<not> fs_zero st);
     (a, ap) \<leftarrow> va_str ap;
     (rc, s) \<leftarrow> print_string wr (case a of None \<Rightarrow> ''(NULL)'' | Some str \<Rightarrow> str) (fs_rc st)
       (fs_prefix st) (fs_right st) (fs_precision st) s;
     Some (fmt_done (st\<lparr>fs_rc := rc\<rparr>) 0, ap, s)
   }"

definition conv_hex ::
  "'s writer \<Rightarrow> fmt_state \<Rightarrow> arg list \<Rightarrow> 's \<Rightarrow> (fmt_state \<times> arg list \<times> 's) option" where
  "conv_hex wr st ap s = do {
     c_assert (-1 = fs_precision st);
     (w, ap) \<leftarrow> va_slot ap;
     (n, s) \<leftarrow> print_uhex wr w (fs_prefix st) (fs_zero st) (fs_right st) s;
     Some (fmt_done st n, ap, s)
   }"

definition conv_octal ::
  "'s writer \<Rightarrow> fmt_state \<Rightarrow> arg list \<Rightarrow> 's \<Rightarrow> (fmt_state \<times> arg list \<times> 's) option" where
  "conv_octal wr st ap s = do {
     c_assert (-1 = fs_precision st);
     (w, ap) \<leftarrow> va_slot ap;
     (n, s) \<leftarrow> print_octal wr (as_uint w) (fs_prefix st) (fs_zero st) (fs_right st) s;
     Some (fmt_done st n, ap, s)
   }"

definition conv_char ::
  "'s writer \<Rightarrow> fmt_state \<Rightarrow> arg list \<Rightarrow> 's \<Rightarrow> (fmt_state \<times> arg list \<times> 's) option" where
  "conv_char wr st ap s = do {
     (w, ap) \<leftarrow> va_slot ap;
     s \<leftarrow> wr [char_of (unat (ucast w :: u8))] s;
     Some (fmt_done st 1, ap, s)
   }"

text \<open>
  The cases of the switch that only change the conversion's flags, width, precision and length;
  the position in the result is the one before the loop's \<^verbatim>\<open>s++\<close>.
\<close>

definition is_flag :: "char \<Rightarrow> bool" where
  "is_flag c \<longleftrightarrow> c = CHR ''.'' \<or> is_digit c \<or> c = CHR ''-'' \<or> c = CHR ''l''"

definition vk_dot ::
  "string \<Rightarrow> fmt_state \<Rightarrow> nat \<Rightarrow> arg list \<Rightarrow> (fmt_state \<times> nat \<times> arg list) option" where
  "vk_dot fmt st i ap = do {
     let i = i + 1;
     c1 \<leftarrow> fmt_at fmt i;
     c_assert (c1 \<noteq> NUL);
     (p, i) \<leftarrow> parse_precision fmt i 0 0;
     c2 \<leftarrow> fmt_at fmt i;
     c_assert (c2 \<noteq> NUL);
     (if p = -1
      then do { (w, ap) \<leftarrow> va_slot ap; Some (st\<lparr>fs_precision := as_int w\<rparr>, i, ap) }
      else Some (st\<lparr>fs_precision := p\<rparr>, i, ap))
   }"

definition vk_flag ::
  "string \<Rightarrow> fmt_state \<Rightarrow> nat \<Rightarrow> char \<Rightarrow> arg list \<Rightarrow> (fmt_state \<times> nat \<times> arg list) option" where
  "vk_flag fmt st i c ap =
     (if c = CHR ''.'' then vk_dot fmt st i ap
      else if c = CHR ''0'' then do {
        p \<leftarrow> c_int (fs_prefix st * 10);
        Some (if p = 0 then st\<lparr>fs_prefix := p, fs_zero := True\<rparr> else st\<lparr>fs_prefix := p\<rparr>, i, ap)
      }
      else if c = CHR ''-'' then do {
        c_assert (fs_prefix st = 0);
        Some (st\<lparr>fs_right := True\<rparr>, i, ap)
      }
      else if is_digit c then do {
        p \<leftarrow> c_int (fs_prefix st * 10);
        p \<leftarrow> c_int (p + digit_val c);
        Some (st\<lparr>fs_prefix := p\<rparr>, i, ap)
      }
      else do {
        c_assert (fs_long st + 1 \<le> 2);
        Some (st\<lparr>fs_long := fs_long st + 1\<rparr>, i, ap)
      })"

text \<open>
  The cases that end a conversion.  An unknown one prints a message and fails an assertion.
\<close>

definition vk_convert ::
  "'s writer \<Rightarrow> fmt_state \<Rightarrow> char \<Rightarrow> arg list \<Rightarrow> 's \<Rightarrow> (fmt_state \<times> arg list \<times> 's) option" where
  "vk_convert wr st c ap s =
     (if c = CHR ''i'' \<or> c = CHR ''d'' then conv_signed wr st ap s
      else if c = CHR ''u'' then conv_unsigned wr st ap s
      else if c = CHR ''s'' then conv_string wr st ap s
      else if c = CHR ''p'' \<or> c = CHR ''x'' then conv_hex wr st ap s
      else if c = CHR ''o'' then conv_octal wr st ap s
      else if c = CHR ''%'' then do { s \<leftarrow> wr ''%'' s; Some (fmt_done st 1, ap, s) }
      else if c = CHR ''c'' then conv_char wr st ap s
      else None)"

text \<open>One iteration of the loop of \<^verbatim>\<open>vkcprintf\<close> on the character at \<^verbatim>\<open>i\<close>.\<close>

definition vk_step ::
  "'s writer \<Rightarrow> string \<Rightarrow> fmt_state \<Rightarrow> nat \<Rightarrow> char \<Rightarrow> arg list \<Rightarrow> 's \<Rightarrow>
     (fmt_state \<times> nat \<times> arg list \<times> 's) option" where
  "vk_step wr fmt st i c ap s =
     (if \<not> fs_cont st \<and> c \<noteq> CHR ''%''
      then do { s \<leftarrow> wr [c] s; Some (st\<lparr>fs_rc := fs_rc st + 1\<rparr>, i, ap, s) }
      else if \<not> fs_cont st then Some (st\<lparr>fs_cont := True\<rparr>, i, ap, s)
      else if is_flag c then do { (st, i, ap) \<leftarrow> vk_flag fmt st i c ap; Some (st, i, ap, s) }
      else do { (st, ap, s) \<leftarrow> vk_convert wr st c ap s; Some (st, i, ap, s) })"

partial_function (option) vk_loop ::
  "'s writer \<Rightarrow> string \<Rightarrow> fmt_state \<Rightarrow> nat \<Rightarrow> arg list \<Rightarrow> 's \<Rightarrow> (int \<times> 's) option" where
  "vk_loop wr fmt st i ap s = do {
     c \<leftarrow> fmt_at fmt i;
     (if c = NUL then Some (fs_rc st, s)
      else do {
        (st, i, ap, s) \<leftarrow> vk_step wr fmt st i c ap s;
        vk_loop wr fmt st (i + 1) ap s
      })
   }"

definition vkcprintf :: "'s writer \<Rightarrow> string \<Rightarrow> arg list \<Rightarrow> 's \<Rightarrow> (int \<times> 's) option" where
  "vkcprintf wr fmt ap s = vk_loop wr fmt fmt_init 0 ap s"

section \<open>The two contexts\<close>

text \<open>
  \<^verbatim>\<open>sn_write\<close> writes into a caller's buffer, given as the list of its bytes; the context holds how
  far \<^verbatim>\<open>out\<close> has advanced and how much of \<^verbatim>\<open>size\<close> is left.  Storing outside the buffer is \<^term>\<open>None\<close>.
\<close>

record sn_context =
  sn_buf :: string
  sn_out :: nat
  sn_size :: int

definition sn_write :: "sn_context writer" where
  "sn_write cs ctx = do {
     let k = min (int (length cs)) (sn_size ctx);
     (if k < 0 then None
      else do {
        b \<leftarrow> blit (sn_buf ctx) (sn_out ctx) (take (nat k) cs);
        b \<leftarrow> blit b (sn_out ctx + nat k) [NUL];
        Some \<lparr>sn_buf = b, sn_out = sn_out ctx + nat k, sn_size = sn_size ctx - k\<rparr>
      })
   }"

definition ksnprintf :: "string \<Rightarrow> u64 \<Rightarrow> string \<Rightarrow> arg list \<Rightarrow> (int \<times> string) option" where
  "ksnprintf out n fmt ap = do {
     (rc, ctx) \<leftarrow> vkcprintf sn_write fmt ap \<lparr>sn_buf = out, sn_out = 0, sn_size = as_int n\<rparr>;
     Some (rc, sn_buf ctx)
   }"

fun context_serial_write :: "device \<Rightarrow> trace writer" where
  "context_serial_write dev [] t = Some t"
| "context_serial_write dev (c # cs) t = do {
     t \<leftarrow> serial_print_char dev (of_char c) t;
     context_serial_write dev cs t
   }"

definition vkprintf :: "device \<Rightarrow> string \<Rightarrow> arg list \<Rightarrow> trace \<Rightarrow> (int \<times> trace) option" where
  "vkprintf dev fmt ap t = vkcprintf (context_serial_write dev) fmt ap t"

definition kprintf :: "device \<Rightarrow> string \<Rightarrow> arg list \<Rightarrow> trace \<Rightarrow> (int \<times> trace) option" where
  "kprintf dev fmt ap t = vkprintf dev fmt ap t"

section \<open>The text a call produces\<close>

text \<open>
  Every routine only touches its context through the writer, one character at a time, so it is
  determined by the text it writes.  \<^verbatim>\<open>emit_text\<close>, \<^verbatim>\<open>unum_text\<close>, \<^verbatim>\<open>num_text\<close> and \<^verbatim>\<open>string_text\<close> are those
  texts; \<^verbatim>\<open>collect\<close> is the writer that appends to a string.
\<close>

definition collect :: "string writer" where
  "collect cs s = Some (s @ cs)"

definition send :: "'s writer \<Rightarrow> string \<Rightarrow> 's \<Rightarrow> (int \<times> 's) option" where
  "send wr out s = do { s' \<leftarrow> write_each wr out s; Some (int (length out), s') }"

definition emit_text :: "string \<Rightarrow> int \<Rightarrow> bool \<Rightarrow> bool \<Rightarrow> string" where
  "emit_text str prefix zero_padding right_padding =
     (let pad = replicate (nat (prefix - int (length str))) (if zero_padding then CHR ''0'' else CHR '' '')
      in if right_padding then rev str @ pad else pad @ rev str)"

definition unum_text :: "u64 \<Rightarrow> nat \<Rightarrow> string \<Rightarrow> int \<Rightarrow> bool \<Rightarrow> bool \<Rightarrow> string option" where
  "unum_text n base char_set prefix zero_padding right_padding = do {
     str \<leftarrow> (if n = 0 then do { c \<leftarrow> char_at char_set 0; Some [c] }
            else digit_loop char_set base 32 (unat n));
     Some (emit_text str prefix zero_padding right_padding)
   }"

definition num_text :: "int \<Rightarrow> nat \<Rightarrow> string \<Rightarrow> int \<Rightarrow> bool \<Rightarrow> bool \<Rightarrow> string option" where
  "num_text n base char_set prefix zero_padding right_padding = do {
     m \<leftarrow> (if n < 0 then c_llong (n * -1) else Some n);
     str \<leftarrow> (if m = 0 then do { c \<leftarrow> char_at char_set 0; Some [c] }
            else digit_loop char_set base 32 (nat m));
     str \<leftarrow> (if n < 0
            then (if length str < 32 then Some (str @ [CHR ''-'']) else None)
            else Some str);
     Some (emit_text str prefix zero_padding right_padding)
   }"

definition string_text :: "string \<Rightarrow> int \<Rightarrow> bool \<Rightarrow> int \<Rightarrow> string option" where
  "string_text str prefix right_padding precision =
     (let pad = replicate (nat (prefix - int (length str))) (CHR '' '');
          body = (if precision < 0 then str else take (nat precision) str)
      in if right_padding
         then do { c_assert (-1 = precision); Some (body @ pad) }
         else do { c_assert (prefix \<noteq> 0 \<longrightarrow> -1 = precision); Some (pad @ body) })"

lemma write_each_append:
  "write_each wr (xs @ ys) s = write_each wr xs s \<bind> write_each wr ys"
  by (induction xs arbitrary: s) (auto split: bind_splits)

lemma write_each_collect [simp]: "write_each collect out s = Some (s @ out)"
  by (induction out arbitrary: s) (auto simp: collect_def)

lemma send_collect [simp]: "send collect out s = Some (int (length out), s @ out)"
  by (simp add: send_def)

lemma pad_loop_eq:
  "pad_loop wr t prefix used c s =
     write_each wr (replicate (nat (prefix - used)) t) s \<bind> (\<lambda>s'. Some (c + int (nat (prefix - used)), s'))"
proof (induction "nat (prefix - used)" arbitrary: prefix c s)
  case 0
  then show ?case by (simp add: pad_loop.simps)
next
  case (Suc k)
  then have k: "k = nat (prefix - 1 - used)" "nat (prefix - used) = Suc k" "prefix - used > 0"
    by simp_all
  show ?case
    by (subst pad_loop.simps)
      (use k in \<open>simp add: Suc.hyps(1) [OF k(1)] flip: k(1) split: bind_splits\<close>)
qed

lemma emit_number_eq:
  "emit_number wr str prefix zp rp s = send wr (emit_text str prefix zp rp) s"
  by (auto simp: emit_number_def emit_text_def send_def pad_loop_eq write_each_append Let_def
      split: bind_splits)

lemma print_unum_eq:
  "print_unum wr n base cs prefix zp rp s =
     unum_text n base cs prefix zp rp \<bind> (\<lambda>out. send wr out s)"
  by (simp add: print_unum_def unum_text_def emit_number_eq split: bind_splits)

lemma print_num_eq:
  "print_num wr n base cs prefix zp rp s =
     num_text n base cs prefix zp rp \<bind> (\<lambda>out. send wr out s)"
  by (simp add: print_num_def num_text_def emit_number_eq Let_def split: bind_splits)

lemma string_loop_eq:
  "string_loop wr p bl cs rc s =
     (let out = (if p = -1 \<or> bl < 0 then cs else take (nat bl) cs)
      in write_each wr out s \<bind> (\<lambda>s'. Some (rc + int (length out), s')))"
proof (induction cs arbitrary: bl rc s)
  case Nil
  then show ?case by simp
next
  case (Cons c cs)
  consider "p = -1" | "p \<noteq> -1" "bl = 0" | "p \<noteq> -1" "bl < 0" | "p \<noteq> -1" "bl > 0" by linarith
  then show ?case
  proof cases
    case 1
    then show ?thesis using Cons.IH by (auto simp: Let_def split: bind_splits)
  next
    case 4
    then have "nat bl = Suc (nat (bl - 1))" by simp
    then show ?thesis using 4 by (auto simp: Cons.IH Let_def split: bind_splits)
  qed (auto simp: Cons.IH Let_def split: bind_splits)
qed

lemma print_string_eq:
  "print_string wr str rc prefix rp p s =
     string_text str prefix rp p \<bind> (\<lambda>out. send wr out s) \<bind> (\<lambda>(n, s). Some (rc + n, s))"
  by (auto simp: print_string_def string_text_def send_def pad_loop_eq string_loop_eq write_each_append
      Let_def c_assert_def split: bind_splits)

lemmas print_eqs = print_unum_eq print_num_eq print_string_eq

text \<open>
  One conversion, one iteration, and then the whole loop: the text and the new state come from
  the run that collects, and the writer only sees that text.  The count grows by the length of
  the text.
\<close>

lemma conv_via_text:
  "conv_signed wr st ap s = do { (st, ap, out) \<leftarrow> conv_signed collect st ap [];
     s \<leftarrow> write_each wr out s; Some (st, ap, s) }"
  "conv_unsigned wr st ap s = do { (st, ap, out) \<leftarrow> conv_unsigned collect st ap [];
     s \<leftarrow> write_each wr out s; Some (st, ap, s) }"
  "conv_string wr st ap s = do { (st, ap, out) \<leftarrow> conv_string collect st ap [];
     s \<leftarrow> write_each wr out s; Some (st, ap, s) }"
  "conv_hex wr st ap s = do { (st, ap, out) \<leftarrow> conv_hex collect st ap [];
     s \<leftarrow> write_each wr out s; Some (st, ap, s) }"
  "conv_octal wr st ap s = do { (st, ap, out) \<leftarrow> conv_octal collect st ap [];
     s \<leftarrow> write_each wr out s; Some (st, ap, s) }"
  "conv_char wr st ap s = do { (st, ap, out) \<leftarrow> conv_char collect st ap [];
     s \<leftarrow> write_each wr out s; Some (st, ap, s) }"
  by (auto simp: conv_signed_def conv_unsigned_def conv_string_def conv_hex_def conv_octal_def
      conv_char_def print_int_def print_uhex_def print_octal_def print_eqs send_def
      collect_def Let_def c_assert_def split: bind_splits prod.splits option.splits if_splits)

lemma conv_count:
  "conv_signed collect st ap [] = Some (st', ap', out) \<Longrightarrow> fs_rc st' = fs_rc st + int (length out)"
  "conv_unsigned collect st ap [] = Some (st', ap', out) \<Longrightarrow> fs_rc st' = fs_rc st + int (length out)"
  "conv_string collect st ap [] = Some (st', ap', out) \<Longrightarrow> fs_rc st' = fs_rc st + int (length out)"
  "conv_hex collect st ap [] = Some (st', ap', out) \<Longrightarrow> fs_rc st' = fs_rc st + int (length out)"
  "conv_octal collect st ap [] = Some (st', ap', out) \<Longrightarrow> fs_rc st' = fs_rc st + int (length out)"
  "conv_char collect st ap [] = Some (st', ap', out) \<Longrightarrow> fs_rc st' = fs_rc st + int (length out)"
  by (auto simp: conv_signed_def conv_unsigned_def conv_string_def conv_hex_def conv_octal_def
      conv_char_def print_int_def print_uhex_def print_octal_def print_eqs fmt_done_def
      collect_def Let_def c_assert_def split: bind_splits prod.splits option.splits if_splits)

lemma vk_convert_via_text:
  "vk_convert wr st c ap s = do { (st, ap, out) \<leftarrow> vk_convert collect st c ap [];
     s \<leftarrow> write_each wr out s; Some (st, ap, s) }"
  using conv_via_text [of wr]
  by (simp add: vk_convert_def collect_def)

lemma vk_convert_count:
  "vk_convert collect st c ap [] = Some (st', ap', out) \<Longrightarrow> fs_rc st' = fs_rc st + int (length out)"
  unfolding vk_convert_def
  by (simp add: conv_count split: if_splits) (auto simp: fmt_done_def collect_def)

lemma vk_step_via_text:
  "vk_step wr fmt st i c ap s = do { (st, i, ap, out) \<leftarrow> vk_step collect fmt st i c ap [];
     s \<leftarrow> write_each wr out s; Some (st, i, ap, s) }"
  unfolding vk_step_def
  by (subst vk_convert_via_text) (auto simp: collect_def split: bind_splits)

lemma parse_precision_mono: "parse_precision fmt s i rc = Some (p, s') \<Longrightarrow> s \<le> s' + 1"
proof (induction fmt s i rc rule: parse_precision.induct)
  case (1 fmt s i rc)
  from "1.prems" show ?case
    by (subst (asm) parse_precision.simps) (auto split: bind_splits if_splits dest!: "1.IH")
qed

lemma vk_dot_frame:
  "vk_dot fmt st i ap = Some (st', i', ap') \<Longrightarrow> i \<le> i' \<and> fs_rc st' = fs_rc st"
  by (auto simp: vk_dot_def Let_def dest!: parse_precision_mono split: bind_splits if_splits)

lemma vk_flag_frame:
  "vk_flag fmt st i c ap = Some (st', i', ap') \<Longrightarrow> i \<le> i' \<and> fs_rc st' = fs_rc st"
  unfolding vk_flag_def
  by (auto dest: vk_dot_frame split: bind_splits if_splits)

lemma vk_step_count:
  "vk_step collect fmt st i c ap [] = Some (st', i', ap', out) \<Longrightarrow>
     fs_rc st' = fs_rc st + int (length out)"
  unfolding vk_step_def
  by (auto simp: collect_def dest: vk_convert_count vk_flag_frame split: bind_splits if_splits)

lemma vk_step_mono: "vk_step wr fmt st i c ap s = Some (st', i', ap', s') \<Longrightarrow> i \<le> i'"
  unfolding vk_step_def
  by (auto dest: vk_flag_frame split: bind_splits if_splits)

lemma vk_loop_via_text_both:
  "vk_loop wr fmt st i ap s = do { (rc, out) \<leftarrow> vk_loop collect fmt st i ap [];
     s \<leftarrow> write_each wr out s; Some (rc, s) } \<and>
   vk_loop collect fmt st i ap acc = do { (rc, out) \<leftarrow> vk_loop collect fmt st i ap [];
     Some (rc, acc @ out) }"
proof (induction "length fmt - i" arbitrary: st i ap s acc rule: less_induct)
  case less
  consider "fmt_at fmt i = None" | "fmt_at fmt i = Some NUL"
    | c where "fmt_at fmt i = Some c" "c \<noteq> NUL" "vk_step collect fmt st i c ap [] = None"
    | c st1 i1 ap1 out1 where "fmt_at fmt i = Some c" "c \<noteq> NUL"
        "vk_step collect fmt st i c ap [] = Some (st1, i1, ap1, out1)"
    by (metis not_None_eq prod_cases4)
  then show ?case
  proof cases
    case 4
    have "length fmt - (i1 + 1) < length fmt - i"
      using vk_step_mono [OF 4(3)] fmt_at_less [OF 4(1,2)] by simp
    note IH = less.hyps [OF this, of st1 ap1]
    have "vk_loop collect fmt st1 (i1 + 1) ap1 out1 =
        do { (rc, out) \<leftarrow> vk_loop collect fmt st1 (i1 + 1) ap1 []; Some (rc, out1 @ out) }"
      using IH by blast
    moreover have "vk_loop collect fmt st1 (i1 + 1) ap1 (acc @ out1) =
        do { (rc, out) \<leftarrow> vk_loop collect fmt st1 (i1 + 1) ap1 []; Some (rc, (acc @ out1) @ out) }"
      using IH by blast
    moreover have "vk_loop wr fmt st1 (i1 + 1) ap1 s' =
        do { (rc, out) \<leftarrow> vk_loop collect fmt st1 (i1 + 1) ap1 [];
          s \<leftarrow> write_each wr out s'; Some (rc, s) }" for s'
      using IH by blast
    ultimately show ?thesis
      by (subst (1 2 3 4) vk_loop.simps)
        (use 4 in \<open>simp add: vk_step_via_text [of wr] vk_step_via_text [of collect _ _ _ _ _ acc]
          write_each_append split: bind_splits prod.splits\<close>)
  qed (subst (1 2 3 4) vk_loop.simps, simp add: vk_step_via_text [of wr]
        vk_step_via_text [of collect _ _ _ _ _ acc])+
qed

lemmas vk_loop_via_text = vk_loop_via_text_both [THEN conjunct1]

lemma vk_loop_count:
  "vk_loop collect fmt st i ap [] = Some (rc, out) \<Longrightarrow> rc = fs_rc st + int (length out)"
proof (induction "length fmt - i" arbitrary: st i ap rc out rule: less_induct)
  case less
  then obtain c where c: "fmt_at fmt i = Some c"
    by (subst (asm) (2) vk_loop.simps) (auto split: bind_splits)
  show ?case
  proof (cases "c = NUL")
    case True
    then show ?thesis using less.prems c by (subst (asm) vk_loop.simps) auto
  next
    case False
    then have i: "i < length fmt" using c by (simp add: fmt_at_less)
    obtain st1 i1 ap1 out1 where step: "vk_step collect fmt st i c ap [] = Some (st1, i1, ap1, out1)"
      and loop: "vk_loop collect fmt st1 (i1 + 1) ap1 out1 = Some (rc, out)"
      using less.prems c False by (subst (asm) vk_loop.simps) (auto split: bind_splits)
    obtain out2 where "vk_loop collect fmt st1 (i1 + 1) ap1 [] = Some (rc, out2)" "out = out1 @ out2"
      using loop by (subst (asm) vk_loop_via_text) (auto split: bind_splits)
    moreover have "length fmt - (i1 + 1) < length fmt - i"
      using vk_step_mono [OF step] i by simp
    ultimately show ?thesis using less.hyps vk_step_count [OF step] by fastforce
  qed
qed

section \<open>Reading numbers back\<close>

text \<open>
  \<^verbatim>\<open>read_nat\<close> is the value of a numeral over a digit set, most significant digit first;
  \<^verbatim>\<open>read_int\<close> takes an optional sign.
\<close>

definition digit_of :: "string \<Rightarrow> char \<Rightarrow> nat" where
  "digit_of cs c = length (takeWhile (\<lambda>x. x \<noteq> c) cs)"

definition read_nat :: "string \<Rightarrow> nat \<Rightarrow> string \<Rightarrow> nat" where
  "read_nat cs base str = foldl (\<lambda>v c. v * base + digit_of cs c) 0 str"

definition read_int :: "string \<Rightarrow> nat \<Rightarrow> string \<Rightarrow> int" where
  "read_int cs base str =
     (case str of [] \<Rightarrow> 0
      | c # ds \<Rightarrow> if c = CHR ''-'' then - int (read_nat cs base ds) else int (read_nat cs base str))"

lemma read_nat_snoc: "read_nat cs base (str @ [c]) = read_nat cs base str * base + digit_of cs c"
  by (simp add: read_nat_def)

lemma digit_of_nth: "distinct cs \<Longrightarrow> d < length cs \<Longrightarrow> digit_of cs (cs ! d) = d"
proof (induction cs arbitrary: d)
  case Nil
  then show ?case by simp
next
  case (Cons c cs)
  then show ?case by (cases d) (auto simp: digit_of_def)
qed

lemma digit_loop_reads_back:
  assumes "distinct cs" and "2 \<le> base" and "base \<le> length cs" and "n < base ^ room"
  shows "\<exists>str. digit_loop cs base room n = Some str \<and> set str \<subseteq> set cs \<and> length str \<le> room \<and>
     read_nat cs base (rev str) = n \<and> (n \<noteq> 0 \<longrightarrow> str \<noteq> [] \<and> last str \<noteq> cs ! 0)"
  using assms(4)
proof (induction room arbitrary: n)
  case 0
  then show ?case by (simp add: read_nat_def)
next
  case (Suc room)
  show ?case
  proof (cases "n = 0")
    case True
    then show ?thesis by (simp add: read_nat_def)
  next
    case False
    have "n mod base < base" using assms(2) by simp
    then have d: "n mod base < length cs" using assms(3) by simp
    have "n div base < base ^ room"
      using Suc.prems assms(2) by (simp add: less_mult_imp_div_less mult.commute)
    then obtain str where str: "digit_loop cs base room (n div base) = Some str" "set str \<subseteq> set cs"
        "length str \<le> room" "read_nat cs base (rev str) = n div base"
        "n div base \<noteq> 0 \<longrightarrow> str \<noteq> [] \<and> last str \<noteq> cs ! 0"
      using Suc.IH by blast
    have "cs ! (n mod base) \<noteq> cs ! 0" if "n div base = 0"
    proof -
      have "n mod base \<noteq> 0" using that False by (metis mod_mult_div_eq mult_0_right add_0_right)
      moreover have "0 < length cs" using d by linarith
      ultimately show ?thesis using assms(1) d by (simp add: nth_eq_iff_index_eq)
    qed
    moreover have "str = []" if "n div base = 0"
      using that str(1) by (cases room) auto
    ultimately show ?thesis
      using False d str assms(1)
      by (auto simp: char_at_def read_nat_snoc digit_of_nth)
  qed
qed

lemma decimal_reads_back:
  assumes "n < 10 ^ room"
  shows "\<exists>str. digit_loop ''0123456789'' 10 room n = Some str \<and>
     set str \<subseteq> set ''0123456789'' \<and> length str \<le> room \<and>
     read_nat ''0123456789'' 10 (rev str) = n \<and>
     (n \<noteq> 0 \<longrightarrow> str \<noteq> [] \<and> last str \<noteq> ''0123456789'' ! 0)"
  by (rule digit_loop_reads_back) (use assms in simp_all)

lemma hex_reads_back:
  assumes "n < 16 ^ room"
  shows "\<exists>str. digit_loop ''0123456789abcdef'' 16 room n = Some str \<and>
     set str \<subseteq> set ''0123456789abcdef'' \<and> length str \<le> room \<and>
     read_nat ''0123456789abcdef'' 16 (rev str) = n \<and>
     (n \<noteq> 0 \<longrightarrow> str \<noteq> [] \<and> last str \<noteq> ''0123456789abcdef'' ! 0)"
  by (rule digit_loop_reads_back) (use assms in simp_all)

lemma emit_text_plain: "emit_text str 0 zp rp = rev str"
  by (simp add: emit_text_def)

text \<open>Rules to run the interpreter on a given format.\<close>

lemma vk_loop_NUL: "i = length fmt \<Longrightarrow> vk_loop wr fmt st i ap s = Some (fs_rc st, s)"
  by (subst vk_loop.simps) (simp add: fmt_at_def)

lemma vk_loop_char: "i < length fmt \<Longrightarrow> fmt ! i \<noteq> NUL \<Longrightarrow>
  vk_loop wr fmt st i ap s = do {
    (st, i, ap, s) \<leftarrow> vk_step wr fmt st i (fmt ! i) ap s;
    vk_loop wr fmt st (i + 1) ap s }"
  by (subst vk_loop.simps) (simp add: fmt_at_def)

lemmas vk_run = vkcprintf_def vk_loop_char vk_loop_NUL vk_step_def vk_flag_def vk_convert_def
  is_flag_def is_digit_def digit_val_def NUL_def fmt_init_def fmt_done_def c_int_def c_llong_def

lemma digit_loop_numeral:
  "digit_loop cs base (numeral k) n =
     (if n = 0 then Some []
      else do {
        c \<leftarrow> char_at cs (n mod base);
        rest \<leftarrow> digit_loop cs base (pred_numeral k) (n div base);
        Some (c # rest)
      })"
  by (simp add: numeral_eq_Suc)

lemmas vk_convs = conv_signed_def conv_unsigned_def conv_hex_def conv_octal_def conv_string_def
  conv_char_def print_int_def print_uhex_def print_octal_def print_eqs send_def unum_text_def
  num_text_def string_text_def emit_text_def char_at_def collect_def as_int_def as_uint_def
  as_llong_def digit_loop_numeral Let_def

lemma vkcprintf_send:
  "vkcprintf wr fmt ap s = map_option snd (vkcprintf collect fmt ap []) \<bind> (\<lambda>out. send wr out s)"
proof -
  have "vkcprintf wr fmt ap s = do { (rc, out) \<leftarrow> vkcprintf collect fmt ap [];
     s \<leftarrow> write_each wr out s; Some (rc, s) }"
    unfolding vkcprintf_def by (rule vk_loop_via_text)
  moreover have "rc = int (length out)" if "vkcprintf collect fmt ap [] = Some (rc, out)" for rc out
    using that vk_loop_count [of fmt fmt_init 0 ap rc out] by (simp add: vkcprintf_def fmt_init_def)
  ultimately show ?thesis
    by (cases "vkcprintf collect fmt ap []") (auto simp: send_def)
qed

lemma digit_loop_length:
  "digit_loop cs base room n = Some str \<Longrightarrow> 2 \<le> base \<Longrightarrow> n < base ^ k \<Longrightarrow> length str \<le> k"
proof (induction room arbitrary: n str k)
  case 0
  then show ?case by simp
next
  case (Suc room)
  show ?case
  proof (cases "n = 0")
    case True
    then show ?thesis using Suc.prems by simp
  next
    case False
    then obtain j where k: "k = Suc j" using Suc.prems(3) by (cases k) auto
    then have "n div base < base ^ j"
      using Suc.prems(2,3) by (simp add: less_mult_imp_div_less mult.commute)
    then show ?thesis using Suc False k by (fastforce split: bind_splits)
  qed
qed

text \<open>The numeral a number is printed as, without padding.\<close>

lemma num_text_10:
  assumes "- (2 ^ 63) < n" and "n < 2 ^ 63"
  shows "\<exists>out. num_text n 10 ''0123456789'' 0 zp rp = Some out \<and> read_int ''0123456789'' 10 out = n \<and>
     length out \<le> 20 \<and> out \<noteq> [] \<and> (n \<noteq> 0 \<longrightarrow> hd out \<noteq> CHR ''0'')"
proof (cases "n = 0")
  case True
  then show ?thesis
    by (simp add: num_text_def char_at_def emit_text_plain read_int_def read_nat_def digit_of_def)
next
  case False
  let ?m = "nat \<bar>n\<bar>"
  have m: "?m < 10 ^ 19" using assms by simp
  then have m32: "?m < 10 ^ 32" by simp
  obtain str where str: "digit_loop ''0123456789'' 10 32 ?m = Some str"
      "set str \<subseteq> set ''0123456789''" "read_nat ''0123456789'' 10 (rev str) = ?m"
      "?m \<noteq> 0 \<longrightarrow> str \<noteq> [] \<and> last str \<noteq> ''0123456789'' ! 0"
    using decimal_reads_back [OF m32] by blast
  have len: "length str \<le> 19" using digit_loop_length [OF str(1) _ m] by simp
  have ne: "str \<noteq> []" "hd (rev str) \<noteq> CHR ''0''" using str(4) False by (simp_all add: hd_rev)
  have minus: "hd (rev str) \<noteq> CHR ''-''"
  proof -
    have "hd (rev str) \<in> set str" using ne(1) by (simp add: hd_rev)
    then have "hd (rev str) \<in> set ''0123456789''" using str(2) by blast
    then show ?thesis by auto
  qed
  obtain d ds where ds: "rev str = d # ds" using ne(1) by (cases "rev str") auto
  show ?thesis
  proof (cases "n < 0")
    case True
    then have "num_text n 10 ''0123456789'' 0 zp rp = Some (CHR ''-'' # rev str)"
      using str(1) len assms by (simp add: num_text_def emit_text_plain c_llong_def)
    then show ?thesis using True str(3) len by (simp add: read_int_def)
  next
    case nonneg: False
    then have "num_text n 10 ''0123456789'' 0 zp rp = Some (rev str)"
      using str(1) False by (simp add: num_text_def emit_text_plain)
    then show ?thesis using nonneg str(3) len ne minus ds
      by (auto simp: read_int_def)
  qed
qed

lemma unum_text_16:
  "\<exists>out. unum_text w 16 ''0123456789abcdef'' 0 zp rp = Some out \<and>
     read_nat ''0123456789abcdef'' 16 out = unat w \<and>
     length out \<le> 16 \<and> out \<noteq> [] \<and> (w \<noteq> 0 \<longrightarrow> hd out \<noteq> CHR ''0'')"
proof (cases "w = 0")
  case True
  then show ?thesis
    by (simp add: unum_text_def char_at_def emit_text_plain read_nat_def digit_of_def)
next
  case False
  have m: "unat w < 16 ^ 16" using unat_u64_lt [of w] by simp
  then have m32: "unat w < 16 ^ 32" by simp
  obtain str where str: "digit_loop ''0123456789abcdef'' 16 32 (unat w) = Some str"
      "read_nat ''0123456789abcdef'' 16 (rev str) = unat w"
      "unat w \<noteq> 0 \<longrightarrow> str \<noteq> [] \<and> last str \<noteq> ''0123456789abcdef'' ! 0"
    using hex_reads_back [OF m32] by blast
  have "length str \<le> 16" using digit_loop_length [OF str(1) _ m] by simp
  moreover have "unat w \<noteq> 0" using False by (simp add: unat_eq_0)
  ultimately show ?thesis
    using str False by (simp add: unum_text_def emit_text_plain hd_rev)
qed

text \<open>The calls \<^verbatim>\<open>%lld\<close> and \<^verbatim>\<open>%x\<close> reduce to one number each.\<close>

lemma lld_eq:
  "vkcprintf wr ''%lld'' [Num w] s =
     num_text (sint w) 10 ''0123456789'' 0 False False \<bind> (\<lambda>out. send wr out s)"
  by (auto simp: vk_run conv_signed_def va_slot.simps as_llong_def print_int_def print_num_eq Let_def
      send_def split: bind_splits)

lemma uhex_eq:
  "vkcprintf wr ''%x'' [Num w] s =
     unum_text w 16 ''0123456789abcdef'' 0 False False \<bind> (\<lambda>out. send wr out s)"
  by (auto simp: vk_run conv_hex_def print_uhex_def print_unum_eq Let_def send_def split: bind_splits)

lemma vk_loop_plain:
  assumes "CHR ''%'' \<notin> set fmt" and "NUL \<notin> set fmt" and "\<not> fs_cont st"
  shows "i \<le> length fmt \<Longrightarrow> vk_loop collect fmt st i ap acc =
     Some (fs_rc st + int (length fmt - i), acc @ drop i fmt)"
  using assms(3)
proof (induction "length fmt - i" arbitrary: i st acc)
  case 0
  then show ?case by (simp add: vk_loop_NUL)
next
  case (Suc k)
  then have i: "i < length fmt" and k: "k = length fmt - (i + 1)" by simp_all
  have c: "fmt ! i \<noteq> CHR ''%''" "fmt ! i \<noteq> NUL" using assms(1,2) i nth_mem by metis+
  have "vk_step collect fmt st i (fmt ! i) ap acc = Some (st\<lparr>fs_rc := fs_rc st + 1\<rparr>, i, ap, acc @ [fmt ! i])"
    using c(1) Suc.prems(2) by (simp add: vk_step_def collect_def)
  then show ?case
    using Suc.hyps(1) [OF k, of "st\<lparr>fs_rc := fs_rc st + 1\<rparr>" "acc @ [fmt ! i]"] i c(2) Suc.prems(2)
    by (simp add: vk_loop_char Cons_nth_drop_Suc)
qed

text \<open>
  Writing a text into a buffer: as much of it as the size allows, and behind it a zero.
\<close>

lemma sn_write_each:
  assumes "0 \<le> sn_size ctx" and "sn_out ctx \<le> length (sn_buf ctx)" and "cs \<noteq> []"
  shows "write_each sn_write cs ctx =
     (let k = min (length cs) (nat (sn_size ctx)) in
      if sn_out ctx + k < length (sn_buf ctx)
      then Some \<lparr>sn_buf = take (sn_out ctx) (sn_buf ctx) @ take k cs @ [NUL] @
                   drop (sn_out ctx + k + 1) (sn_buf ctx),
                 sn_out = sn_out ctx + k, sn_size = sn_size ctx - int k\<rparr>
      else None)"
  using assms
proof (induction cs arbitrary: ctx)
  case Nil
  then show ?case by simp
next
  case (Cons c cs)
  let ?k = "min 1 (nat (sn_size ctx))"
  let ?b = "take (sn_out ctx) (sn_buf ctx) @ take ?k [c] @ [NUL] @ drop (sn_out ctx + ?k + 1) (sn_buf ctx)"
  let ?ctx = "\<lparr>sn_buf = ?b, sn_out = sn_out ctx + ?k, sn_size = sn_size ctx - int ?k\<rparr>"
  have k: "nat (min 1 (sn_size ctx)) = ?k" using Cons.prems(1) by (simp add: min_def)
  have step: "sn_write [c] ctx = (if sn_out ctx + ?k < length (sn_buf ctx) then Some ?ctx else None)"
  proof (cases "sn_size ctx = 0")
    case True
    then show ?thesis using Cons.prems(2) by (simp add: sn_write_def blit_def Let_def)
  next
    case False
    then have "nat (min 1 (sn_size ctx)) = 1" "?k = 1" "min 1 (sn_size ctx) = 1"
      using Cons.prems(1) by simp_all
    then show ?thesis using Cons.prems(2)
      by (simp add: sn_write_def blit_def Let_def min_def) linarith
  qed
  show ?case
  proof (cases "cs = []")
    case True
    then show ?thesis using step by (simp add: Let_def)
  next
    case False
    show ?thesis
    proof (cases "sn_out ctx + ?k < length (sn_buf ctx)")
      case out: True
      have k01: "?k = 0 \<and> sn_size ctx = 0 \<or> ?k = 1 \<and> 1 \<le> sn_size ctx"
        using Cons.prems(1) by linarith
      have IH: "write_each sn_write cs ?ctx =
       (let k = min (length cs) (nat (sn_size ?ctx)) in
        if sn_out ?ctx + k < length (sn_buf ?ctx)
        then Some \<lparr>sn_buf = take (sn_out ?ctx) (sn_buf ?ctx) @ take k cs @ [NUL] @
                     drop (sn_out ?ctx + k + 1) (sn_buf ?ctx),
                   sn_out = sn_out ?ctx + k, sn_size = sn_size ?ctx - int k\<rparr>
        else None)"
        using Cons.prems(1) False out k01 by (intro Cons.IH) auto
      have b: "length ?b = length (sn_buf ctx)"
        "take (sn_out ctx + ?k) ?b = take (sn_out ctx) (sn_buf ctx) @ take ?k [c]"
        "\<And>j. drop (sn_out ctx + ?k + j + 1) ?b = drop (sn_out ctx + ?k + j + 1) (sn_buf ctx)"
        using out by (simp_all add: min_def add.commute)
      show ?thesis
      proof (cases "sn_size ctx = 0")
        case True
        then show ?thesis using IH step out b by (simp add: Let_def)
      next
        case False
        with Cons.prems(1) obtain j where "sn_size ctx = int (Suc j)"
          using zero_less_imp_eq_int [of "sn_size ctx"] by (metis Suc_pred of_nat_0_less_iff order_le_less)
        moreover have "nat (1 + int j) = Suc j" by simp
        moreover have "(x < Suc (n - 2)) = (Suc x < n)" if "1 < n" for x n :: nat using that by linarith
        ultimately show ?thesis using IH step out b by (auto simp: Let_def)
      qed
    next
      case out: False
      then have "\<not> sn_out ctx + min (length (c # cs)) (nat (sn_size ctx)) < length (sn_buf ctx)"
        by (auto simp: min_def split: if_splits)
      then show ?thesis using step out by (simp add: Let_def)
    qed
  qed
qed

section \<open>Properties\<close>



text \<open>
  A format without conversions is printed verbatim, whatever the context and the
  arguments.
\<close>

lemma kprintf_plain_text:
  assumes "CHR ''%'' \<notin> set fmt" and "NUL \<notin> set fmt"
  shows "vkcprintf wr fmt ap s = do { s \<leftarrow> write_each wr fmt s; Some (int (length fmt), s) }"
  by (subst vkcprintf_send)
    (simp add: vkcprintf_def vk_loop_plain [OF assms] fmt_init_def send_def)

lemma kprintf_plain_text_witness:
  "vkcprintf collect ''abc'' [] [] = Some (3, ''abc'')"
  by (subst kprintf_plain_text) (simp_all add: NUL_def collect_def)

text \<open>
  C26 (print_signed_reads_back): \<^verbatim>\<open>%lld\<close> prints every \<^verbatim>\<open>long long\<close> but the least one as a numeral of at most 20
  characters that reads back as the same number and has no superfluous leading zero; on the
  least one the negation overflows.
\<close>

theorem print_signed_reads_back:
  "if sint w = - (2 ^ 63) then vkcprintf wr ''%lld'' [Num w] s = None
   else \<exists>out. vkcprintf collect ''%lld'' [Num w] [] = Some (int (length out), out) \<and>
     read_int ''0123456789'' 10 out = sint w \<and> length out \<le> 20 \<and> out \<noteq> [] \<and>
     (if w = 0 then out = ''0'' else hd out \<noteq> CHR ''0'')"
proof (cases "sint w = - (2 ^ 63)")
  case True
  then show ?thesis by (simp add: lld_eq num_text_def c_llong_def)
next
  case False
  have b: "- (2 ^ 63) \<le> sint w" "sint w < 2 ^ 63"
    using sint_greater_eq [of w] sint_less [of w] by simp_all
  with False have "- (2 ^ 63) < sint w" by simp
  from num_text_10 [OF this b(2), of False False] obtain out where
    "num_text (sint w) 10 ''0123456789'' 0 False False = Some out"
    "read_int ''0123456789'' 10 out = sint w" "length out \<le> 20" "out \<noteq> []"
    "sint w \<noteq> 0 \<longrightarrow> hd out \<noteq> CHR ''0''" by blast
  moreover have "out = ''0''" if "w = 0"
    using calculation(1) that by (simp add: num_text_def char_at_def emit_text_plain)
  moreover have "sint w \<noteq> 0" if "w \<noteq> 0" using that by (metis signed_0 signed_word_eqI)
  ultimately show ?thesis using False by (simp add: lld_eq)
qed

theorem print_signed_reads_back_witness:
  "vkcprintf collect ''%lld'' [Num 0x8000000000000000] [] = None"
  using print_signed_reads_back [of "0x8000000000000000" collect "[]"] by simp

text \<open>
  \<^verbatim>\<open>%x\<close> prints every 64-bit value as at most 16 lower-case hexadecimal digits that
  read back as the same value, without superfluous leading zeros.
\<close>

theorem print_hex_reads_back:
  "\<exists>out. vkcprintf collect ''%x'' [Num w] [] = Some (int (length out), out) \<and>
     read_nat ''0123456789abcdef'' 16 out = unat w \<and> length out \<le> 16 \<and> out \<noteq> [] \<and>
     (if w = 0 then out = ''0'' else hd out \<noteq> CHR ''0'')"
proof -
  obtain out where "unum_text w 16 ''0123456789abcdef'' 0 False False = Some out"
    "read_nat ''0123456789abcdef'' 16 out = unat w" "length out \<le> 16" "out \<noteq> []"
    "w \<noteq> 0 \<longrightarrow> hd out \<noteq> CHR ''0''" using unum_text_16 [of w False False] by blast
  moreover have "out = ''0''" if "w = 0"
    using calculation(1) that by (simp add: unum_text_def char_at_def emit_text_plain)
  ultimately show ?thesis by (simp add: uhex_eq)
qed

text \<open>
  A field width pads a number to at least that many characters, with the sign and the
  digits unchanged: spaces or zeros in front, or (\<^verbatim>\<open>-\<close>) behind.
\<close>

lemma print_num_width:
  assumes "num_text n 10 ''0123456789'' 0 zp rp = Some core"
  shows "\<exists>pad. length pad = nat (width - int (length core)) \<and>
     set pad \<subseteq> {if zp then CHR ''0'' else CHR '' ''} \<and>
     print_int collect n width zp rp [] =
       Some (max width (int (length core)), if rp then core @ pad else pad @ core)"
proof -
  let ?pad = "replicate (nat (width - int (length core))) (if zp then CHR ''0'' else CHR '' '')"
  have "num_text n 10 ''0123456789'' width zp rp = Some (if rp then core @ ?pad else ?pad @ core)"
    using assms by (auto simp: num_text_def emit_text_def split: bind_splits if_splits)
  then have "print_int collect n width zp rp [] =
      Some (max width (int (length core)), if rp then core @ ?pad else ?pad @ core)"
    by (simp add: print_int_def print_num_eq max_def)
  then show ?thesis by (intro exI [of _ ?pad]) auto
qed

lemma print_num_width_witness:
  "\<exists>pad. length pad = 2 \<and> print_int collect (-42) 5 True False [] = Some (5, pad @ ''-42'')"
proof -
  have "num_text (-42) 10 ''0123456789'' 0 True False = Some ''-42''"
    by (simp add: num_text_def digit_loop_numeral char_at_def emit_text_plain c_llong_def)
  from print_num_width [OF this, of 5] show ?thesis by auto
qed

text \<open>
  \<^verbatim>\<open>%llu\<close> prints what \<^verbatim>\<open>%lld\<close> prints, so values from \<open>2^63\<close> on appear negative;
  and since \<^verbatim>\<open>%lu\<close> does not reset the length modifier, a format with three of them never returns.
\<close>

theorem unsigned_printed_signed:
  "vkcprintf wr ''%llu'' [Num w] s = vkcprintf wr ''%lld'' [Num w] s \<and>
   vkcprintf collect ''%llu'' [Num 0xFFFFFFFFFFFFFFFF] [] = Some (2, ''-1'') \<and>
   vkcprintf collect ''%lu%lu%lu'' [Num 1, Num 2, Num 3] [] = None"
proof (intro conjI)
  show "vkcprintf wr ''%llu'' [Num w] s = vkcprintf wr ''%lld'' [Num w] s"
    by (auto simp: vk_run conv_signed_def conv_unsigned_def print_int_def print_num_eq Let_def
        send_def split: bind_splits)
  show "vkcprintf collect ''%llu'' [Num 0xFFFFFFFFFFFFFFFF] [] = Some (2, ''-1'')"
    by (simp add: vk_run vk_convs)
  show "vkcprintf collect ''%lu%lu%lu'' [Num 1, Num 2, Num 3] [] = None"
    by (simp add: vk_run vk_convs)
qed

text \<open>
  C36 (ksnprintf_result): \<^verbatim>\<open>ksnprintf\<close> stores the part of the text that the size admits and one zero behind it,
  and nothing else; the zero is not counted in the size, so the buffer needs one byte more.
  When it has no such byte, the store is outside the buffer.  An empty text stores nothing.
\<close>

theorem ksnprintf_result:
  assumes "vkcprintf collect fmt ap [] = Some (rc, out)" and "0 \<le> as_int n"
  shows "ksnprintf buf n fmt ap =
    (let k = min (length out) (nat (as_int n)) in
     if out = [] then Some (0, buf)
     else if k < length buf then Some (int (length out), take k out @ [NUL] @ drop (k + 1) buf)
     else None)"
proof (cases "out = []")
  case True
  then show ?thesis using assms(1) by (simp add: ksnprintf_def vkcprintf_send [of sn_write] send_def)
next
  case False
  then show ?thesis
    using assms sn_write_each [of "\<lparr>sn_buf = buf, sn_out = 0, sn_size = as_int n\<rparr>" out]
    by (simp add: ksnprintf_def vkcprintf_send [of sn_write] send_def Let_def)
qed

theorem ksnprintf_result_witness:
  "ksnprintf ''....'' 4 ''abcdef'' [] = None \<and>
   ksnprintf ''....'' 3 ''abcdef'' [] = Some (6, [CHR ''a'', CHR ''b'', CHR ''c'', NUL])"
proof -
  have "vkcprintf collect ''abcdef'' [] [] = Some (6, ''abcdef'')"
    by (simp add: vk_run vk_convs)
  from ksnprintf_result [OF this, of 4 "''....''"]
      ksnprintf_result [OF this, of 3 "''....''"]
  show ?thesis by (simp add: as_int_def)
qed

text \<open>The bus accesses that send a text to an always-ready port.\<close>

definition sent :: "string \<Rightarrow> trace" where
  "sent out = concat (map (\<lambda>c. [Inb (PORT + 5), Outb PORT (of_char c)]) out)"

lemma sent_append [simp]: "sent (a @ b) = sent a @ sent b"
  by (simp add: sent_def)

lemma vkprintf_ready:
  assumes "\<forall>t. ready dev t" and "vkcprintf collect fmt ap [] = Some (rc, out)"
  shows "vkprintf dev fmt ap t = Some (rc, t @ sent out)"
proof -
  have send1: "context_serial_write dev [c] u = Some (u @ [Inb (PORT + 5), Outb PORT (of_char c)])" for c u
  proof -
    have "wait_transmit dev u = Some (polled u 1)"
      using wait_transmit_Some [of 0 dev u] assms(1) by simp
    then show ?thesis by (simp add: serial_print_char_def outb_def polled_def)
  qed
  have "write_each (context_serial_write dev) cs u =
      Some (u @ concat (map (\<lambda>c. [Inb (PORT + 5), Outb PORT (of_char c)]) cs))" for cs u
    by (induction cs arbitrary: u) (simp_all add: send1 del: context_serial_write.simps)
  moreover have "rc = int (length out)"
    using assms(2) vk_loop_count [of fmt fmt_init 0 ap] by (simp add: vkcprintf_def fmt_init_def)
  ultimately show ?thesis
    using assms(2) by (simp add: vkprintf_def sent_def
        vkcprintf_send [of "context_serial_write dev"] send_def)
qed

text \<open>
  With a transmitter that is always ready, \<^verbatim>\<open>kprintf\<close> returns whenever the format is
  good and sends exactly the text to the serial port, each character after one poll of the
  line status register.
\<close>

theorem kprintf_on_serial:
  assumes "\<forall>t. ready dev t" and "vkcprintf collect fmt ap [] = Some (rc, out)"
  shows "kprintf dev fmt ap t =
     Some (rc, t @ concat (map (\<lambda>c. [Inb (PORT + 5), Outb PORT (of_char c)]) out))"
  using vkprintf_ready [OF assms] by (simp add: kprintf_def sent_def)

theorem kprintf_on_serial_witness:
  "kprintf (\<lambda>t p. 0x20) ''hi'' [] [] =
     Some (2, [Inb 0x3fd, Outb 0x3f8 104, Inb 0x3fd, Outb 0x3f8 105])"
proof -
  have "vkcprintf collect ''hi'' [] [] = Some (2, ''hi'')" by (simp add: vk_run vk_convs)
  moreover have "\<forall>t. ready (\<lambda>t p. 0x20) t"
    by (simp add: ready_def is_transmit_empty_def inb_def)
  ultimately show ?thesis
    using kprintf_on_serial [of "\<lambda>t p. 0x20" "''hi''" "[]" 2 "''hi''" "[]"] by (simp add: PORT_def)
qed

end
