(* ===== verification/CMemory.thy ===== *)
theory CMemory
  imports Prelude
begin

text \<open>
  Byte-addressed memory and the routines of \<^verbatim>\<open>src/kernel/string.c\<close> over it.  A memory maps
  every 64-bit address to its byte; \<^verbatim>\<open>load_bytes\<close>/\<^verbatim>\<open>store_bytes\<close> are the accesses of any width
  (the machine is little-endian), and \<^verbatim>\<open>memcpy\<close> follows the source's four loops, which move
  eight, four, two and one byte at a time.
\<close>

type_synonym mem = "u64 \<Rightarrow> u8"

section \<open>Loads and stores\<close>

definition load_bytes :: "mem \<Rightarrow> u64 \<Rightarrow> nat \<Rightarrow> u8 list" where
  "load_bytes m a n = map (\<lambda>i. m (a + of_nat i)) [0..<n]"

definition store_bytes :: "mem \<Rightarrow> u64 \<Rightarrow> u8 list \<Rightarrow> mem" where
  "store_bytes m a bs =
     (\<lambda>x. if unat (x - a) < length bs then bs ! unat (x - a) else m x)"

definition load64 :: "mem \<Rightarrow> u64 \<Rightarrow> u64" where
  "load64 m a = of_le_bytes (load_bytes m a 8)"

definition load32 :: "mem \<Rightarrow> u64 \<Rightarrow> u32" where
  "load32 m a = of_le_bytes (load_bytes m a 4)"

definition load16 :: "mem \<Rightarrow> u64 \<Rightarrow> u16" where
  "load16 m a = of_le_bytes (load_bytes m a 2)"

definition store64 :: "mem \<Rightarrow> u64 \<Rightarrow> u64 \<Rightarrow> mem" where
  "store64 m a w = store_bytes m a (le_bytes 8 w)"

definition store32 :: "mem \<Rightarrow> u64 \<Rightarrow> u32 \<Rightarrow> mem" where
  "store32 m a w = store_bytes m a (le_bytes 4 w)"

definition store16 :: "mem \<Rightarrow> u64 \<Rightarrow> u16 \<Rightarrow> mem" where
  "store16 m a w = store_bytes m a (le_bytes 2 w)"

lemma length_load_bytes [simp]: "length (load_bytes m a n) = n"
  by (simp add: load_bytes_def)

lemma nth_load_bytes [simp]: "i < n \<Longrightarrow> load_bytes m a n ! i = m (a + of_nat i)"
  by (simp add: load_bytes_def)

lemma load_bytes_Suc: "load_bytes m a (Suc n) = m a # load_bytes m (a + 1) n"
proof (rule nth_equalityI)
  show "length (load_bytes m a (Suc n)) = length (m a # load_bytes m (a + 1) n)" by simp
next
  fix i assume "i < length (load_bytes m a (Suc n))"
  then show "load_bytes m a (Suc n) ! i = (m a # load_bytes m (a + 1) n) ! i"
    by (cases i) (simp_all add: ac_simps)
qed

lemma load_bytes_add:
  "load_bytes m a (k + n) = load_bytes m a k @ load_bytes m (a + of_nat k) n"
  by (rule nth_equalityI) (auto simp: nth_append of_nat_diff not_less)

lemma store_bytes_Nil [simp]: "store_bytes m a [] = m"
  by (simp add: store_bytes_def)

text \<open>The stored run reads back, and a run it does not touch reads as before.\<close>

lemma store_bytes_at:
  assumes "i < length bs" and "length bs \<le> 2 ^ 64"
  shows "store_bytes m a bs (a + of_nat i) = bs ! i"
  using assms by (simp add: store_bytes_def unat_of_nat_u64)

lemma load_store_same:
  assumes "length bs \<le> 2 ^ 64" and "n = length bs"
  shows "load_bytes (store_bytes m a bs) a n = bs"
  by (rule nth_equalityI) (use assms in \<open>simp_all add: store_bytes_at\<close>)

text \<open>
  \<^verbatim>\<open>apart a n b k\<close>: the runs \<open>[a, a + n)\<close> and \<open>[b, b + k)\<close> share no byte, and neither wraps
  around the end of the address space.
\<close>

definition region :: "u64 \<Rightarrow> nat \<Rightarrow> bool" where
  "region a n \<longleftrightarrow> unat a + n \<le> 2 ^ 64"

definition apart :: "u64 \<Rightarrow> nat \<Rightarrow> u64 \<Rightarrow> nat \<Rightarrow> bool" where
  "apart a n b k \<longleftrightarrow> region a n \<and> region b k \<and> (unat a + n \<le> unat b \<or> unat b + k \<le> unat a)"

lemma apart_sym: "apart a n b k \<Longrightarrow> apart b k a n"
  by (auto simp: apart_def)

lemma unat_region_nth:
  assumes "region a n" and "i < n"
  shows "unat (a + of_nat i) = unat a + i"
proof -
  have "unat (of_nat i :: u64) = i"
    using assms by (intro unat_of_nat_u64) (simp add: region_def)
  then show ?thesis using assms by (simp add: region_def unat_add_le)
qed

lemma store_bytes_other:
  assumes "apart a (length bs) b k" and "i < k"
  shows "store_bytes m a bs (b + of_nat i) = m (b + of_nat i)"
proof -
  have u: "unat (b + of_nat i) = unat b + i"
    using assms by (auto simp: apart_def intro: unat_region_nth)
  have "\<not> unat (b + of_nat i - a) < length bs"
    using assms u by (auto simp: apart_def region_def unat_sub_if')
  then show ?thesis by (simp add: store_bytes_def)
qed

lemma load_store_apart:
  assumes "apart a (length bs) b k"
  shows "load_bytes (store_bytes m a bs) b k = load_bytes m b k"
  by (rule nth_equalityI) (use assms in \<open>simp_all add: store_bytes_other\<close>)

lemma store_bytes_append:
  assumes "region a (length xs + length ys)"
  shows "store_bytes m a (xs @ ys) = store_bytes (store_bytes m a xs) (a + of_nat (length xs)) ys"
proof
  fix x
  let ?n = "length xs"
  show "store_bytes m a (xs @ ys) x = store_bytes (store_bytes m a xs) (a + of_nat ?n) ys x"
  proof (cases "unat (x - a) < ?n")
    case True
    have "\<not> unat (x - a - of_nat ?n) < length ys"
      using True assms unat_of_nat_u64 [of ?n]
      by (cases "ys = []") (auto simp: region_def unat_sub_if' [of "x - a"] Suc_le_eq)
    then show ?thesis using True by (simp add: store_bytes_def nth_append diff_diff_eq)
  next
    case False
    then have n: "unat (of_nat ?n :: u64) = ?n"
      using unat_u64_lt [of "x - a"] by (intro unat_of_nat_u64) simp
    with False have "unat (x - a - of_nat ?n) = unat (x - a) - ?n"
      by (subst unat_sub_le) simp_all
    then show ?thesis using False
      by (auto simp: store_bytes_def nth_append diff_diff_eq)
  qed
qed

section \<open>strlen, memset, memcpy\<close>

text \<open>
  \<^verbatim>\<open>strlen\<close> walks to the first zero byte; on memory with none it never stops, so it is a
  partial function.  \<^verbatim>\<open>memset\<close> stores the low byte of its \<^verbatim>\<open>int\<close> argument \<^verbatim>\<open>n\<close> times.
\<close>

partial_function (option) strlen_loop :: "mem \<Rightarrow> u64 \<Rightarrow> u64 \<Rightarrow> u64 option" where
  "strlen_loop m s z =
     (if m s \<noteq> 0 then strlen_loop m (s + 1) z else Some (s - z))"

definition strlen :: "mem \<Rightarrow> u64 \<Rightarrow> u64 option" where
  "strlen m s = strlen_loop m s s"

fun memset_loop :: "mem \<Rightarrow> u64 \<Rightarrow> u8 \<Rightarrow> nat \<Rightarrow> mem" where
  "memset_loop m p c 0 = m"
| "memset_loop m p c (Suc n) = memset_loop (m(p := c)) (p + 1) c n"

definition memset :: "mem \<Rightarrow> u64 \<Rightarrow> u32 \<Rightarrow> u64 \<Rightarrow> mem" where
  "memset m s c n = memset_loop m s (ucast c) (unat n)"

text \<open>The shape of each of \<^verbatim>\<open>memcpy\<close>'s loops: while \<^verbatim>\<open>w\<close> bytes remain, move \<^verbatim>\<open>w\<close> and advance.\<close>

function copy_loop ::
  "nat \<Rightarrow> (mem \<Rightarrow> u64 \<Rightarrow> u64 \<Rightarrow> mem) \<Rightarrow> mem \<Rightarrow> u64 \<Rightarrow> u64 \<Rightarrow> nat \<Rightarrow> mem \<times> u64 \<times> u64 \<times> nat" where
  "copy_loop w step m d s n =
     (if 0 < w \<and> w \<le> n
      then copy_loop w step (step m d s) (d + of_nat w) (s + of_nat w) (n - w)
      else (m, d, s, n))"
  by pat_completeness auto
termination
  by (relation "measure (\<lambda>(w, step, m, d, s, n). n)") auto

declare copy_loop.simps [simp del]

definition memcpy :: "mem \<Rightarrow> u64 \<Rightarrow> u64 \<Rightarrow> u64 \<Rightarrow> mem" where
  "memcpy m dest src n =
     (let (m, d, s, k) = copy_loop 8 (\<lambda>m d s. store64 m d (load64 m s)) m dest src (unat n);
          (m, d, s, k) = copy_loop 4 (\<lambda>m d s. store32 m d (load32 m s)) m d s k;
          (m, d, s, k) = copy_loop 2 (\<lambda>m d s. store16 m d (load16 m s)) m d s k;
          (m, d, s, k) = copy_loop 1 (\<lambda>m d s. m(d := m s)) m d s k
      in m)"

section \<open>What the routines compute\<close>

text \<open>
  The loops copy forwards, so the copy is the original source run whenever no store can hit a
  source byte that is still to be read: the runs are apart, or the destination does not lie
  above the source.
\<close>

definition copy_ok :: "u64 \<Rightarrow> u64 \<Rightarrow> nat \<Rightarrow> bool" where
  "copy_ok d s n \<longleftrightarrow>
     region d n \<and> region s n \<and> (unat d \<le> unat s \<or> unat s + n \<le> unat d)"

definition copied :: "mem \<Rightarrow> u64 \<Rightarrow> u64 \<Rightarrow> nat \<Rightarrow> mem" where
  "copied m d s n = store_bytes m d (load_bytes m s n)"

lemma copied_0 [simp]: "copied m d s 0 = m"
  by (simp add: copied_def load_bytes_def)

lemma copied_store64: "store64 m d (load64 m s) = copied m d s 8"
  by (simp add: store64_def load64_def copied_def byte_simps)

lemma copied_store32: "store32 m d (load32 m s) = copied m d s 4"
  by (simp add: store32_def load32_def copied_def byte_simps)

lemma copied_store16: "store16 m d (load16 m s) = copied m d s 2"
  by (simp add: store16_def load16_def copied_def byte_simps)

lemma copied_byte: "m(d := m s) = copied m d s 1"
  by (auto simp: copied_def store_bytes_def load_bytes_def fun_eq_iff unat_eq_0)

lemmas copied_steps = copied_store64 copied_store32 copied_store16 copied_byte

lemma copy_ok_step:
  assumes "copy_ok d s (k + n)"
  shows "copy_ok d s k" and "copy_ok (d + of_nat k) (s + of_nat k) n"
proof -
  show "copy_ok d s k" using assms by (auto simp: copy_ok_def region_def)
  show "copy_ok (d + of_nat k) (s + of_nat k) n"
  proof (cases "n = 0")
    case True
    then show ?thesis by (auto simp: copy_ok_def region_def intro: less_imp_le [OF unat_u64_lt, simplified])
  next
    case False
    then have "unat (d + of_nat k) = unat d + k" "unat (s + of_nat k) = unat s + k"
      using assms by (auto simp: copy_ok_def intro: unat_region_nth)
    then show ?thesis using assms by (auto simp: copy_ok_def region_def)
  qed
qed

lemma copied_add:
  assumes "copy_ok d s (k + n)"
  shows "copied (copied m d s k) (d + of_nat k) (s + of_nat k) n = copied m d s (k + n)"
proof (cases "n = 0")
  case True
  then show ?thesis by simp
next
  case False
  then have "unat (s + of_nat k) = unat s + k"
    using assms by (auto simp: copy_ok_def intro: unat_region_nth)
  then have "apart d k (s + of_nat k) n"
    using assms False by (auto simp: copy_ok_def region_def apart_def)
  then have "load_bytes (copied m d s k) (s + of_nat k) n = load_bytes m (s + of_nat k) n"
    by (simp add: copied_def load_store_apart)
  then show ?thesis
    using assms by (simp add: copied_def load_bytes_add store_bytes_append copy_ok_def)
qed

text \<open>Each loop copies a prefix and leaves less than its width.\<close>

lemma copy_loop_copies:
  assumes "0 < w" and "\<And>m d s. step m d s = copied m d s w" and "copy_ok d s n"
    and "n = q + n mod w"
  shows "copy_loop w step m d s n = (copied m d s q, d + of_nat q, s + of_nat q, n mod w)"
  using assms(3,4)
proof (induction n arbitrary: m d s q rule: less_induct)
  case (less n)
  show ?case
  proof (cases "w \<le> n")
    case False
    then show ?thesis using less.prems(2) by (subst copy_loop.simps) simp
  next
    case True
    then obtain r where n: "n = w + r" by (metis le_add_diff_inverse)
    obtain q' where q': "r = q' + r mod w" by (metis div_mult_mod_eq)
    have q: "q = w + q'" and qr: "w + r = w + q' + r mod w"
      using less.prems(2) n q' by simp_all
    have "copy_ok d s (w + q' + r mod w)" using less.prems(1) n qr by metis
    then have ok: "copy_ok d s (w + q')" by (rule copy_ok_step(1))
    have okr: "copy_ok (d + of_nat w) (s + of_nat w) r"
      using less.prems(1) unfolding n by (rule copy_ok_step(2))
    show ?thesis
      using less.IH [OF _ okr q', of "copied m d s w"] assms(1) True copied_add [OF ok, of m]
        assms(2) [of m d s]
      by (subst copy_loop.simps) (simp add: n q add.assoc)
  qed
qed

lemma copy_loop_resumes:
  assumes "0 < w" and "\<And>m d s. step m d s = copied m d s w" and "copy_ok d s (k + r)"
    and "r = q + r mod w"
  shows "copy_loop w step (copied m d s k) (d + of_nat k) (s + of_nat k) r =
           (copied m d s (k + q), d + of_nat (k + q), s + of_nat (k + q), r mod w)"
proof -
  have "copy_ok d s (k + q + r mod w)" using assms(3,4) by (metis add.assoc)
  then have ok: "copy_ok d s (k + q)" by (rule copy_ok_step(1))
  show ?thesis
    using copy_loop_copies [OF assms(1,2) copy_ok_step(2) [OF assms(3)] assms(4), of "copied m d s k"]
      copied_add [OF ok, of m]
    by (simp add: add.assoc)
qed

lemma memcpy_copied:
  assumes "copy_ok dest src (unat n)"
  shows "memcpy m dest src n = copied m dest src (unat n)"
proof -
  obtain N where N: "unat n = N" by simp
  obtain q8 q4 q2 where q: "N = q8 + N mod 8" "N mod 8 = q4 + N mod 8 mod 4"
      "N mod 8 mod 4 = q2 + N mod 8 mod 4 mod 2"
    by (metis div_mult_mod_eq)
  then have k: "N = 0 + N" "N = q8 + N mod 8" "N = q8 + q4 + N mod 8 mod 4"
      "N = q8 + q4 + q2 + N mod 8 mod 4 mod 2"
    by linarith+
  have ok: "copy_ok dest src N" using assms by (simp add: N)
  have q1: "N mod 8 mod 4 mod 2 = N mod 8 mod 4 mod 2 + N mod 8 mod 4 mod 2 mod 1" by simp
  have ok8: "copy_ok dest src (0 + N)" using ok by simp
  have ok4: "copy_ok dest src (q8 + N mod 8)" using ok k(2) by metis
  have ok2: "copy_ok dest src (q8 + q4 + N mod 8 mod 4)" using ok k(3) by metis
  have ok1: "copy_ok dest src (q8 + q4 + q2 + N mod 8 mod 4 mod 2)" using ok k(4) by metis
  note l8 = copy_loop_resumes [OF _ copied_store64 ok8 q(1), of m]
    and l4 = copy_loop_resumes [OF _ copied_store32 ok4 q(2), of m]
    and l2 = copy_loop_resumes [OF _ copied_store16 ok2 q(3), of m]
    and l1 = copy_loop_resumes [OF _ copied_byte ok1 q1, of m]
  show ?thesis
    unfolding memcpy_def Let_def N
    using l8 l4 l2 l1 by (simp flip: k(4))
qed

lemma store_bytes_outside: "length bs \<le> unat (x - a) \<Longrightarrow> store_bytes m a bs x = m x"
  by (simp add: store_bytes_def)

lemma memset_loop_eq:
  "n \<le> 2 ^ 64 \<Longrightarrow> memset_loop m p c n = store_bytes m p (replicate n c)"
proof (induction n arbitrary: m p)
  case 0
  then show ?case by simp
next
  case (Suc n)
  have "store_bytes (m(p := c)) (p + 1) (replicate n c) x = store_bytes m p (replicate (Suc n) c) x"
    for x
  proof (cases "x = p")
    case True
    have "\<not> unat (- 1 :: u64) < n"
      using Suc.prems by (simp add: unsigned_minus_1_eq_mask mask_eq_exp_minus_1)
    then show ?thesis using True by (simp add: store_bytes_def)
  next
    case False
    then have "1 \<le> unat (x - p)" by (metis eq_iff_diff_eq_0 less_one not_le unat_eq_0)
    then have "unat (x - p - 1) = unat (x - p) - 1" by (subst unat_sub_le) simp_all
    then show ?thesis using False \<open>1 \<le> unat (x - p)\<close>
      by (auto simp: store_bytes_def diff_diff_eq simp del: replicate_Suc)
  qed
  then show ?case using Suc by (simp add: fun_eq_iff del: replicate_Suc)
qed

lemma memset_eq: "memset m s c n = store_bytes m s (replicate (unat n) (ucast c))"
  unfolding memset_def by (rule memset_loop_eq) (use unat_u64_lt [of n] in simp)

lemma strlen_loop_stops:
  "m (p + of_nat k) = 0 \<Longrightarrow> (\<And>j. j < k \<Longrightarrow> m (p + of_nat j) \<noteq> 0) \<Longrightarrow>
     strlen_loop m p z = Some (p + of_nat k - z)"
proof (induction k arbitrary: p)
  case 0
  then show ?case by (simp add: strlen_loop.simps)
next
  case (Suc k)
  have "m p \<noteq> 0" using Suc.prems(2) [of 0] by simp
  moreover have "strlen_loop m (p + 1) z = Some (p + 1 + of_nat k - z)"
    using Suc.prems(1) Suc.prems(2) [of "Suc _"] by (intro Suc.IH) (simp_all add: add.assoc)
  ultimately show ?case by (simp add: strlen_loop.simps [of m p] add.assoc)
qed

lemma strlen_loop_Some:
  assumes "strlen_loop m p z = Some r"
  shows "\<exists>k. m (p + of_nat k) = 0 \<and> (\<forall>j<k. m (p + of_nat j) \<noteq> 0) \<and> r = p + of_nat k - z"
proof (rule strlen_loop.raw_induct
    [where P = "\<lambda>m p z r. \<exists>k. m (p + of_nat k) = 0 \<and> (\<forall>j<k. m (p + of_nat j) \<noteq> 0) \<and>
        r = p + of_nat k - z", OF _ assms])
  fix f :: "mem \<Rightarrow> u64 \<Rightarrow> u64 \<Rightarrow> u64 option" and m :: mem and p z r :: u64
  assume IH: "\<And>m p z r. f m p z = Some r \<Longrightarrow>
      \<exists>k. m (p + of_nat k) = 0 \<and> (\<forall>j<k. m (p + of_nat j) \<noteq> 0) \<and> r = p + of_nat k - z"
    and eq: "(if m p \<noteq> 0 then f m (p + 1) z else Some (p - z)) = Some r"
  show "\<exists>k. m (p + of_nat k) = 0 \<and> (\<forall>j<k. m (p + of_nat j) \<noteq> 0) \<and> r = p + of_nat k - z"
  proof (cases "m p = 0")
    case True
    then show ?thesis using eq by (intro exI [of _ 0]) simp
  next
    case False
    then obtain k where "m (p + 1 + of_nat k) = 0" "\<forall>j<k. m (p + 1 + of_nat j) \<noteq> 0"
        "r = p + 1 + of_nat k - z"
      using IH [of m "p + 1" z r] eq by auto
    then show ?thesis using False
      by (intro exI [of _ "Suc k"]) (auto simp: add.assoc less_Suc_eq_0_disj)
  qed
qed

section \<open>Properties\<close>

text \<open>
  \<^verbatim>\<open>memcpy\<close>, with its four loops of eight, four, two and one byte, leaves at the
  destination exactly the bytes that were at the source before the call, and changes no other
  byte of memory, whenever both runs lie inside the address space and the destination does
  not start inside the source run (in particular also for an overlapping copy to a lower
  address).
\<close>

theorem memcpy_correct:
  assumes "copy_ok dest src (unat n)"
  shows "load_bytes (memcpy m dest src n) dest (unat n) = load_bytes m src (unat n) \<and>
         (\<forall>x. unat n \<le> unat (x - dest) \<longrightarrow> memcpy m dest src n x = m x)"
  using unat_u64_lt [of n]
  by (simp_all add: memcpy_copied [OF assms] copied_def load_store_same store_bytes_outside)

text \<open>The overlapping case of an eleven-byte move by three: every width is used.\<close>

theorem memcpy_correct_witness:
  "copy_ok 100 103 (unat (11 :: u64)) \<and>
   load_bytes (memcpy (\<lambda>a. ucast a) 100 103 11) 100 (unat (11 :: u64))
     = load_bytes (\<lambda>a. ucast a) 103 (unat (11 :: u64))"
proof -
  have "copy_ok 100 103 (unat (11 :: u64))" by (simp add: copy_ok_def region_def)
  then show ?thesis using memcpy_correct [of 100 103 11 "\<lambda>a. ucast a"] by blast
qed

text \<open>
  \<^verbatim>\<open>strlen\<close> returns \<open>n\<close> exactly when \<open>n\<close> is the offset of the first zero byte at or
  after the start, and never returns exactly when no byte of memory is zero.
\<close>

lemma strlen_correct:
  "(strlen m s = Some n \<longleftrightarrow> m (s + n) = 0 \<and> (\<forall>j<unat n. m (s + of_nat j) \<noteq> 0)) \<and>
   (strlen m s = None \<longleftrightarrow> (\<forall>a. m a \<noteq> 0))"
proof (rule conjI)
  have stop: "strlen m s = Some n" if "m (s + n) = 0" "\<forall>j<unat n. m (s + of_nat j) \<noteq> 0" for n
    using that strlen_loop_stops [of m s "unat n" s] by (simp add: strlen_def)
  have ret: "m (s + n) = 0 \<and> (\<forall>j<unat n. m (s + of_nat j) \<noteq> 0)" if "strlen m s = Some n" for n
  proof -
    obtain k where k: "m (s + of_nat k) = 0" "\<forall>j<k. m (s + of_nat j) \<noteq> 0" "n = of_nat k"
      using strlen_loop_Some [of m s s n] \<open>strlen m s = Some n\<close> by (auto simp: strlen_def)
    have "unat n \<le> k" unfolding k(3) by (simp add: unat_of_nat)
    then show ?thesis using k by auto
  qed
  show "strlen m s = Some n \<longleftrightarrow> m (s + n) = 0 \<and> (\<forall>j<unat n. m (s + of_nat j) \<noteq> 0)"
    using stop ret by blast
  show "strlen m s = None \<longleftrightarrow> (\<forall>a. m a \<noteq> 0)"
  proof
    assume none: "strlen m s = None"
    show "\<forall>a. m a \<noteq> 0"
    proof
      fix a
      show "m a \<noteq> 0"
      proof
        assume "m a = 0"
        then have "m (s + of_nat (unat (a - s))) = 0" by simp
        then obtain k where "m (s + of_nat k) = 0" "\<forall>j<k. m (s + of_nat j) \<noteq> 0"
          using exists_least_iff [of "\<lambda>k. m (s + of_nat k) = 0"] by blast
        then show False using strlen_loop_stops [of m s k s] none by (simp add: strlen_def)
      qed
    qed
  next
    assume "\<forall>a. m a \<noteq> 0"
    then show "strlen m s = None" using ret by (cases "strlen m s") auto
  qed
qed

lemma strlen_correct_witness:
  "strlen (\<lambda>a. if a = 12 then 0 else 65) 10 = Some 2"
proof -
  let ?m = "\<lambda>a :: u64. if a = 12 then 0 else (65 :: u8)"
  have "?m (10 + of_nat j) \<noteq> 0" if "j < unat (2 :: u64)" for j
  proof -
    from that have "j = 0 \<or> j = 1" by auto
    then show ?thesis by auto
  qed
  then have "?m (10 + 2) = 0 \<and> (\<forall>j<unat (2 :: u64). ?m (10 + of_nat j) \<noteq> 0)" by simp
  then show ?thesis using strlen_correct [of ?m 10 2] by blast
qed

end
