(* ===== verification/Log.thy ===== *)
theory Log
  imports Kprintf CMemory
begin

text \<open>
  The log of \<^verbatim>\<open>log.c\<close>: messages with a level, single characters to the port and the screen, and the
  stack trace.  The file includes headers that the repository does not have; what it takes from
  them (\<^verbatim>\<open>write_serial\<close>, \<^verbatim>\<open>vbe_drawfont\<close>, the frame buffer, the current task) is a parameter.
\<close>

section \<open>Messages\<close>

definition LOG_SUCCESS :: int where "LOG_SUCCESS = 0"
definition LOG_ERROR :: int where "LOG_ERROR = 1"
definition LOG_WARN :: int where "LOG_WARN = 2"
definition LOG_NOTE :: int where "LOG_NOTE = 3"

definition log_prefix :: "int \<Rightarrow> string" where
  "log_prefix code =
     (if code = LOG_SUCCESS then ''[SUCCESS] ''
      else if code = LOG_NOTE then ''[NOTE] ''
      else if code = LOG_WARN then ''[WARN] ''
      else ''[ERROR] '')"

definition klog :: "device \<Rightarrow> int \<Rightarrow> string \<Rightarrow> arg list \<Rightarrow> trace \<Rightarrow> trace option" where
  "klog dev code fmt ap t = do {
     (_, t) \<leftarrow> kprintf dev (log_prefix code) [] t;
     (_, t) \<leftarrow> vkprintf dev fmt ap t;
     (_, t) \<leftarrow> kprintf dev ''\<newline>'' [] t;
     Some t
   }"

section \<open>The screen\<close>

text \<open>The globals of the file, the port and the memory with the frame buffer.\<close>

record log_state =
  log_to_screen :: int
  log_x :: u32
  log_y :: u32
  framebuffer :: u64
  framebuffer_width :: u32
  framebuffer_height :: u32
  log_mem :: mem
  log_io :: trace

fun fill_screen :: "nat \<Rightarrow> u64 \<Rightarrow> mem \<Rightarrow> mem" where
  "fill_screen 0 p m = m"
| "fill_screen (Suc n) p m = fill_screen n (p + 4) (store32 m p 0xFF0000)"

definition log_enable_screen :: "log_state \<Rightarrow> log_state" where
  "log_enable_screen st =
     (let st = st\<lparr>log_to_screen := 1\<rparr>;
          n = unat (framebuffer_width st * framebuffer_height st)
      in st\<lparr>log_mem := fill_screen n (framebuffer st) (log_mem st)\<rparr>)"

definition log_char ::
  "(u8 \<Rightarrow> trace \<Rightarrow> trace option) \<Rightarrow> (u32 \<Rightarrow> u32 \<Rightarrow> u8 \<Rightarrow> mem \<Rightarrow> mem) \<Rightarrow> u8 \<Rightarrow> log_state \<Rightarrow> log_state option" where
  "log_char write_serial vbe_drawfont c st = do {
     t \<leftarrow> write_serial c (log_io st);
     let st = st\<lparr>log_io := t\<rparr>;
     (if log_to_screen st \<noteq> 0
      then (if c = 10
            then Some (st\<lparr>log_x := 0, log_y := log_y st + 8\<rparr>)
            else do {
              let st = (if log_x st > 1000 then st\<lparr>log_y := log_y st + 8, log_x := 0\<rparr> else st);
              let st = st\<lparr>log_mem := vbe_drawfont (log_x st) (log_y st) c (log_mem st)\<rparr>;
              Some (st\<lparr>log_x := log_x st + 8\<rparr>)
            })
      else Some st)
   }"

section \<open>The stack trace\<close>

text \<open>
  A stack frame is the saved frame pointer and, behind it, the low half of the return address.
  \<^verbatim>\<open>get_current_sbp\<close> returns \<^verbatim>\<open>rbp\<close>.
\<close>

definition get_current_sbp :: "u64 \<Rightarrow> u64" where
  "get_current_sbp rbp = rbp"

fun backtrace_loop :: "device \<Rightarrow> mem \<Rightarrow> nat \<Rightarrow> u64 \<Rightarrow> trace \<Rightarrow> trace option" where
  "backtrace_loop dev m 0 stk t = Some t"
| "backtrace_loop dev m (Suc n) stk t =
     (if stk = 0 then Some t
      else do {
        (_, t) \<leftarrow> kprintf dev '' 0x%x\<newline>'' [Num (ucast (load32 m (stk + 8)))] t;
        backtrace_loop dev m n (load64 m stk) t
      })"

definition dump_backtrace :: "device \<Rightarrow> mem \<Rightarrow> u64 \<Rightarrow> u32 option \<Rightarrow> u32 \<Rightarrow> trace \<Rightarrow> trace option" where
  "dump_backtrace dev m rbp current_pid max_frames t = do {
     let stk = get_current_sbp rbp;
     (_, t) \<leftarrow> kprintf dev ''Stack trace:\<newline>'' [] t;
     t \<leftarrow> backtrace_loop dev m (unat max_frames) stk t;
     (case current_pid of
        None \<Rightarrow> Some t
      | Some pid \<Rightarrow> do { (_, t) \<leftarrow> kprintf dev '' PID: %x\<newline>'' [Num (ucast pid)] t; Some t })
   }"

section \<open>What is printed\<close>

lemma plain_text:
  assumes "CHR ''%'' \<notin> set fmt" "NUL \<notin> set fmt"
  shows "vkcprintf collect fmt ap [] = Some (int (length fmt), fmt)"
  using vk_loop_plain [OF assms, of fmt_init 0 ap "[]"] by (simp add: vkcprintf_def fmt_init_def)

lemma kprintf_ready:
  assumes "\<forall>t. ready dev t" "vkcprintf collect fmt ap [] = Some (rc, out)"
  shows "kprintf dev fmt ap t = Some (rc, t @ sent out)"
  using vkprintf_ready [OF assms] by (simp add: kprintf_def)

lemma kprintf_plain:
  assumes "\<forall>t. ready dev t" "CHR ''%'' \<notin> set fmt" "NUL \<notin> set fmt"
  shows "kprintf dev fmt ap t = Some (int (length fmt), t @ sent fmt)"
  by (rule kprintf_ready [OF assms(1) plain_text [OF assms(2,3)]])

definition hex_of :: "u64 \<Rightarrow> string" where
  "hex_of w = the (unum_text w 16 ''0123456789abcdef'' 0 False False)"

lemma hex_of: "unum_text w 16 ''0123456789abcdef'' 0 False False = Some (hex_of w)"
  using unum_text_16 [of w False False] by (auto simp: hex_of_def)

lemma hex_of_reads_back: "read_nat ''0123456789abcdef'' 16 (hex_of w) = unat w" "length (hex_of w) \<le> 16"
  using unum_text_16 [of w False False] by (auto simp: hex_of_def)

lemma backtrace_line:
  "vkcprintf collect '' 0x%x\<newline>'' [Num w] [] =
     Some (int (length (hex_of w)) + 4, '' 0x'' @ hex_of w @ ''\<newline>'')"
  by (simp add: vk_run conv_hex_def print_uhex_def print_unum_eq Let_def hex_of send_def collect_def)

lemma pid_line:
  "vkcprintf collect '' PID: %x\<newline>'' [Num w] [] =
     Some (int (length (hex_of w)) + 7, '' PID: '' @ hex_of w @ ''\<newline>'')"
  by (simp add: vk_run conv_hex_def print_uhex_def print_unum_eq Let_def hex_of send_def collect_def)

text \<open>
  On a port that is always ready, \<^verbatim>\<open>klog\<close> sends the level in brackets, the
  formatted text and a line break, for every level; codes without a level of their own print as
  errors.
\<close>

theorem klog_sends_line:
  assumes "\<forall>t. ready dev t" "vkcprintf collect fmt ap [] = Some (rc, out)"
  shows "klog dev code fmt ap t = Some (t @ sent (
     (if code = 0 then ''[SUCCESS] '' else if code = 3 then ''[NOTE] ''
      else if code = 2 then ''[WARN] '' else ''[ERROR] '') @ out @ ''\<newline>''))"
proof -
  have p: "log_prefix code = (if code = 0 then ''[SUCCESS] '' else if code = 3 then ''[NOTE] ''
      else if code = 2 then ''[WARN] '' else ''[ERROR] '')"
    by (simp add: log_prefix_def LOG_SUCCESS_def LOG_NOTE_def LOG_WARN_def)
  have "CHR ''%'' \<notin> set (log_prefix code)" "NUL \<notin> set (log_prefix code)"
    by (simp_all add: log_prefix_def NUL_def)
  note plain = kprintf_plain [OF assms(1) this]
  have "CHR ''%'' \<notin> set ''\<newline>''" "NUL \<notin> set ''\<newline>''" by (simp_all add: NUL_def)
  note line = kprintf_plain [OF assms(1) this]
  show ?thesis
    unfolding klog_def plain vkprintf_ready [OF assms] line p [symmetric] bind.bind_lunit prod.case
    by simp
qed

lemma always_ready: "\<forall>t. ready (\<lambda>t p. 0x20) t"
  by (simp add: ready_def is_transmit_empty_def inb_def)

theorem klog_sends_line_witness:
  "klog (\<lambda>t p. 0x20) 1 ''AHCI port is hung'' [] [] = Some (sent ''[ERROR] AHCI port is hung\<newline>'')"
proof -
  have "vkcprintf collect ''AHCI port is hung'' [] [] = Some (17, ''AHCI port is hung'')"
    using plain_text [of "''AHCI port is hung''" "[]"] by (simp add: NUL_def)
  from klog_sends_line [OF always_ready this, of 1 "[]"] show ?thesis by simp
qed

text \<open>The return addresses along the chain of frame pointers, at most \<^verbatim>\<open>n\<close> of them.\<close>

fun return_addresses :: "mem \<Rightarrow> nat \<Rightarrow> u64 \<Rightarrow> u32 list" where
  "return_addresses m 0 stk = []"
| "return_addresses m (Suc n) stk =
     (if stk = 0 then [] else load32 m (stk + 8) # return_addresses m n (load64 m stk))"

lemma backtrace_loop_sends:
  assumes "\<forall>t. ready dev t"
  shows "backtrace_loop dev m n stk t = Some (t @ sent (concat (map
     (\<lambda>ip. '' 0x'' @ hex_of (ucast ip) @ ''\<newline>'') (return_addresses m n stk))))"
proof (induction n arbitrary: stk t)
  case 0
  then show ?case by (simp add: sent_def)
next
  case (Suc n)
  show ?case
  proof (cases "stk = 0")
    case True
    then show ?thesis by (simp add: sent_def)
  next
    case False
    have "backtrace_loop dev m (Suc n) stk t = backtrace_loop dev m n (load64 m stk)
        (t @ sent ('' 0x'' @ hex_of (ucast (load32 m (stk + 8))) @ ''\<newline>''))"
      using False by (simp only: backtrace_loop.simps kprintf_ready [OF assms backtrace_line]
          if_False bind.bind_lunit prod.case)
    then show ?thesis unfolding Suc.IH using False by (simp add: sent_def del: backtrace_loop.simps)
  qed
qed

text \<open>
  However the frame pointers are linked (a cycle included),
  \<^verbatim>\<open>dump_backtrace\<close> returns: it prints the return addresses of the chain from \<^verbatim>\<open>rbp\<close> in order, up to
  the null pointer and never more than \<^verbatim>\<open>max_frames\<close>, and then the process number of the current
  task, if there is one.
\<close>

theorem dump_backtrace_lists_frames:
  assumes "\<forall>t. ready dev t"
  shows "dump_backtrace dev m rbp current_pid max_frames t = Some (t @ sent (
     ''Stack trace:\<newline>'' @
     concat (map (\<lambda>ip. '' 0x'' @ hex_of (ucast ip) @ ''\<newline>'') (return_addresses m (unat max_frames) rbp)) @
     (case current_pid of None \<Rightarrow> [] | Some pid \<Rightarrow> '' PID: '' @ hex_of (ucast pid) @ ''\<newline>'')))"
proof -
  have "CHR ''%'' \<notin> set ''Stack trace:\<newline>''" "NUL \<notin> set ''Stack trace:\<newline>''"
    by (simp_all add: NUL_def)
  note title = kprintf_plain [OF assms this]
  show ?thesis
    unfolding dump_backtrace_def Let_def get_current_sbp_def title bind.bind_lunit prod.case
      backtrace_loop_sends [OF assms]
    by (cases current_pid) (simp_all add: kprintf_ready [OF assms pid_line] sent_def)
qed

text \<open>A frame that links to itself.\<close>

theorem dump_backtrace_lists_frames_witness:
  "\<exists>out. dump_backtrace (\<lambda>t p. 0x20) (store64 (\<lambda>a. 0) 0x1000 0x1000) 0x1000 None 2 [] = Some out"
  unfolding dump_backtrace_lists_frames [OF always_ready] by blast

section \<open>The cursor\<close>

text \<open>\<^verbatim>\<open>log_char\<close> keeps the cursor on a grid of eight and draws at most at column 1000.\<close>

definition cursor_ok :: "log_state \<Rightarrow> bool" where
  "cursor_ok st \<longleftrightarrow> unat (log_x st) \<le> 1008 \<and> unat (log_x st) mod 8 = 0"

lemma log_char_keeps_cursor:
  assumes "log_char ws draw c st = Some st'" "cursor_ok st"
  shows "cursor_ok st'"
proof -
  have "unat (log_x st + 8) = unat (log_x st) + 8" if "\<not> 1000 < log_x st"
  proof -
    have "unat (log_x st) \<le> 1000" using that by (simp add: word_less_nat_alt not_less)
    then show ?thesis by (simp add: unat_add_le)
  qed
  moreover have "unat (log_x st) \<le> 1000" if "\<not> 1000 < log_x st"
    using that by (simp add: word_less_nat_alt not_less)
  ultimately show ?thesis
    using assms by (auto simp: log_char_def cursor_ok_def Let_def split: bind_splits if_splits)
qed

end
