(* ===== verification/Pci.thy ===== *)
theory Pci
  imports Kprintf
begin

text \<open>
  The PCI configuration space driver, \<^verbatim>\<open>drivers/pci.c\<close>: reads and writes of 32-bit registers through
  the ports \<^verbatim>\<open>0xCF8\<close> and \<^verbatim>\<open>0xCFC\<close>, the sizing of base address registers and the search for a
  device by its class.  The functions on the bus are an environment with their documented
  behaviour (\<^verbatim>\<open>pci_bus_device\<close>).
\<close>

section \<open>The driver\<close>

definition CONFIG_ADDRESS :: u16 where "CONFIG_ADDRESS = 0xCF8"
definition CONFIG_DATA :: u16 where "CONFIG_DATA = 0xCFC"
definition PCI_BAR_MEM :: u8 where "PCI_BAR_MEM = 1"
definition PCI_BAR_IO :: u8 where "PCI_BAR_IO = 2"

record pci_base_address_register =
  bar_address :: u32
  bar_size :: u32
  bar_type :: u8

record pci_general_device =
  base_mem_io :: u32
  interrupt_line :: u8

record pci_device =
  pci_vendor :: u16
  pci_device_id :: u16
  pci_bus :: u8
  pci_slot :: u8
  pci_header_type :: u8
  pci_gen :: pci_general_device

definition config_address :: "u8 \<Rightarrow> u8 \<Rightarrow> u8 \<Rightarrow> u8 \<Rightarrow> u32" where
  "config_address bus slt func offset =
     (push_bit 16 (ucast bus) OR push_bit 11 (ucast slt) OR push_bit 8 (ucast func) OR
      (ucast offset AND 0xFC) OR 0x80000000)"

definition pci_config_write32 :: "pci_device \<Rightarrow> u8 \<Rightarrow> u8 \<Rightarrow> u32 \<Rightarrow> trace \<Rightarrow> trace" where
  "pci_config_write32 d func offset data t =
     (let address = config_address (pci_bus d) (pci_slot d) func offset;
          t = outl CONFIG_ADDRESS address t
      in outl CONFIG_DATA data t)"

definition pci_config_read32 :: "device \<Rightarrow> pci_device \<Rightarrow> u8 \<Rightarrow> u8 \<Rightarrow> trace \<Rightarrow> u32 \<times> trace" where
  "pci_config_read32 dev d func offset t =
     (let address = config_address (pci_bus d) (pci_slot d) func offset;
          t = outl CONFIG_ADDRESS address t
      in inl dev CONFIG_DATA t)"

definition pci_get_bar ::
  "device \<Rightarrow> pci_device \<Rightarrow> u8 \<Rightarrow> trace \<times> pci_base_address_register \<Rightarrow> bool \<times> trace \<times> pci_base_address_register"
  where
  "pci_get_bar dev d bar_index s =
     (let (t, bar) = s in
      if bar_index > 5 then (False, t, bar)
      else (let offset = 0x10 + bar_index * 4;
                (physical_bar, t) = pci_config_read32 dev d 0 offset t;
                type = (if physical_bar AND 0x1 \<noteq> 0 then PCI_BAR_IO else PCI_BAR_MEM);
                original_bar = physical_bar;
                physical_bar = physical_bar AND 0xFFFFFFF0;
                t = pci_config_write32 d 0 offset 0xFFFFFFFF t;
                (bar_result, t) = pci_config_read32 dev d 0 offset t;
                bar_result = bar_result AND NOT 0xF;
                bar_result = NOT bar_result;
                bar_result = bar_result + 1;
                t = pci_config_write32 d 0 offset original_bar t
            in (True, t, bar\<lparr>bar_address := physical_bar, bar_size := bar_result, bar_type := type\<rparr>)))"

text \<open>The two loops of \<^verbatim>\<open>pci_devices_by_id\<close>; the flag is the return from inside.\<close>

fun scan_slots ::
  "device \<Rightarrow> u8 \<Rightarrow> u8 \<Rightarrow> u8 \<Rightarrow> u8 list \<Rightarrow> trace \<times> pci_device \<Rightarrow> bool \<times> trace \<times> pci_device" where
  "scan_slots dev class_id subclass_id bus [] s = (False, s)"
| "scan_slots dev class_id subclass_id bus (slt # slots) (t, d) =
     (let d = d\<lparr>pci_bus := bus\<rparr>;
          d = d\<lparr>pci_slot := slt\<rparr>;
          (v, t) = pci_config_read32 dev d 0 0x8 t;
          class_info = (ucast (drop_bit 16 v) :: u16);
          h_classcode = drop_bit 8 (class_info AND 0xFF00);
          h_subclass = class_info AND 0x00FF
      in if h_classcode \<noteq> ucast class_id then scan_slots dev class_id subclass_id bus slots (t, d)
         else if h_subclass \<noteq> ucast subclass_id then scan_slots dev class_id subclass_id bus slots (t, d)
         else (let (device_vendor, t) = pci_config_read32 dev d 0 0 t;
                   d = d\<lparr>pci_vendor := ucast (device_vendor AND 0xFFFF)\<rparr>;
                   d = d\<lparr>pci_device_id := ucast (drop_bit 16 device_vendor)\<rparr>;
                   (w, t) = pci_config_read32 dev d 0 0xC t;
                   d = d\<lparr>pci_header_type := ucast (drop_bit 16 w)\<rparr>;
                   d = d\<lparr>pci_header_type := pci_header_type d AND 0xFF\<rparr>
               in (True, t, d)))"

fun scan_buses ::
  "device \<Rightarrow> u8 \<Rightarrow> u8 \<Rightarrow> u8 list \<Rightarrow> trace \<times> pci_device \<Rightarrow> bool \<times> trace \<times> pci_device" where
  "scan_buses dev class_id subclass_id [] s = (False, s)"
| "scan_buses dev class_id subclass_id (bus # buses) s =
     (let (found, s) = scan_slots dev class_id subclass_id bus (map of_nat [0..<255]) s
      in if found then (True, s) else scan_buses dev class_id subclass_id buses s)"

definition pci_devices_by_id ::
  "device \<Rightarrow> u8 \<Rightarrow> u8 \<Rightarrow> trace \<times> pci_device \<Rightarrow> bool \<times> trace \<times> pci_device" where
  "pci_devices_by_id dev class_id subclass_id s =
     scan_buses dev class_id subclass_id (map of_nat [0..<255]) s"

text \<open>The loops of \<^verbatim>\<open>pci_populate_device_struct\<close>, over pairs of a bus and a slot.\<close>

fun populate_scan ::
  "device \<Rightarrow> u16 \<Rightarrow> u16 \<Rightarrow> (u8 \<times> u8) list \<Rightarrow> trace \<times> pci_device \<Rightarrow> (nat \<times> trace \<times> pci_device) option" where
  "populate_scan dev vendor dvc [] s = Some (0, s)"
| "populate_scan dev vendor dvc ((bus, slt) # places) (t, d) =
     (let tmp = d\<lparr>pci_bus := bus, pci_slot := slt\<rparr>;
          (device_vendor, t) = pci_config_read32 dev tmp 0 0 t
      in if ucast vendor \<noteq> device_vendor AND 0xFFFF then populate_scan dev vendor dvc places (t, d)
         else if ucast dvc \<noteq> drop_bit 16 device_vendor then populate_scan dev vendor dvc places (t, d)
         else (let d = d\<lparr>pci_bus := bus\<rparr>;
                   d = d\<lparr>pci_slot := slt\<rparr>;
                   (bar0, t) = pci_config_read32 dev d 0 0x10 t
               in if bar0 AND 0x1 = 0 then None
                  else Some (1, t, d\<lparr>pci_gen := (pci_gen d)\<lparr>base_mem_io := bar0 AND NOT 0x3\<rparr>\<rparr>)))"

definition pci_populate_device_struct ::
  "device \<Rightarrow> u16 \<Rightarrow> u16 \<Rightarrow> trace \<times> pci_device \<Rightarrow> (nat \<times> trace \<times> pci_device) option" where
  "pci_populate_device_struct dev vendor dvc s =
     (let (t, d) = s;
          d = d\<lparr>pci_vendor := vendor\<rparr>;
          d = d\<lparr>pci_device_id := dvc\<rparr>
      in populate_scan dev vendor dvc
           (concat (map (\<lambda>bus. map (\<lambda>slt. (of_nat bus, of_nat slt)) [0..<256]) [0..<256])) (t, d))"

definition pci_enable_interrupts :: "device \<Rightarrow> pci_device \<Rightarrow> trace \<Rightarrow> trace option" where
  "pci_enable_interrupts dev d t = do {
     let (register1, t) = pci_config_read32 dev d 0 0x4 t;
     let current_interrupt = (ucast (drop_bit 10 register1 AND 1) :: u8);
     (if current_interrupt \<noteq> 0
      then do { (_, t) \<leftarrow> kprintf dev ''PCI: Interrrupt already enabled\<newline>'' [] t; Some t }
      else do {
        let register1 = register1 OR push_bit 10 1;
        Some (pci_config_write32 d 0 0x4 register1 t)
      })
   }"

definition pci_set_interrupt_line :: "device \<Rightarrow> pci_device \<Rightarrow> u8 \<Rightarrow> trace \<Rightarrow> trace" where
  "pci_set_interrupt_line dev d line t =
     (let (register1, t) = pci_config_read32 dev d 0 0x3C t;
          register1 = register1 AND NOT 0xFF;
          register1 = register1 OR ucast line
      in pci_config_write32 d 0 0x3C register1 t)"

definition pci_get_interrupt_line :: "device \<Rightarrow> pci_device \<Rightarrow> trace \<Rightarrow> u8 \<times> trace" where
  "pci_get_interrupt_line dev d t =
     (let (v, t) = pci_config_read32 dev d 0 0x3C t in (ucast (v AND 0xFF), t))"

section \<open>What the functions on the bus do\<close>

text \<open>
  A write to \<^verbatim>\<open>0xCF8\<close> selects a register, an access of \<^verbatim>\<open>0xCFC\<close> reads or writes it.  \<^verbatim>\<open>wr\<close> is what a
  write leaves in a register, given the address, the old and the written value: hardware may keep
  some bits.
\<close>

record config_space =
  selected :: u32
  registers :: "u32 \<Rightarrow> u32"

fun pci_event :: "(u32 \<Rightarrow> u32 \<Rightarrow> u32 \<Rightarrow> u32) \<Rightarrow> io_event \<Rightarrow> config_space \<Rightarrow> config_space" where
  "pci_event wr (Outl p v) c =
     (if p = 0xCF8 then c\<lparr>selected := v\<rparr>
      else if p = 0xCFC
      then c\<lparr>registers := (registers c)(selected c := wr (selected c) (registers c (selected c)) v)\<rparr>
      else c)"
| "pci_event wr e c = c"

definition space_after :: "(u32 \<Rightarrow> u32 \<Rightarrow> u32 \<Rightarrow> u32) \<Rightarrow> config_space \<Rightarrow> trace \<Rightarrow> config_space" where
  "space_after wr c t = fold (pci_event wr) t c"

definition pci_bus_device :: "device \<Rightarrow> (u32 \<Rightarrow> u32 \<Rightarrow> u32 \<Rightarrow> u32) \<Rightarrow> config_space \<Rightarrow> bool" where
  "pci_bus_device dev wr c \<longleftrightarrow>
     (\<forall>t. dev t 0xCFC = registers (space_after wr c t) (selected (space_after wr c t)))"

text \<open>The registers after a trace.\<close>

definition regs_after :: "(u32 \<Rightarrow> u32 \<Rightarrow> u32 \<Rightarrow> u32) \<Rightarrow> config_space \<Rightarrow> trace \<Rightarrow> u32 \<Rightarrow> u32" where
  "regs_after wr c t = registers (space_after wr c t)"

named_theorems pci_simps \<open>effects of configuration accesses\<close>

lemma space_after_append: "space_after wr c (t @ u) = fold (pci_event wr) u (space_after wr c t)"
  by (simp add: space_after_def)

lemma config_read [pci_simps]:
  assumes "pci_bus_device dev wr c"
  shows "fst (pci_config_read32 dev d f off t) =
      regs_after wr c t (config_address (pci_bus d) (pci_slot d) f off)"
    and "regs_after wr c (snd (pci_config_read32 dev d f off t)) = regs_after wr c t"
  using assms by (simp_all add: pci_config_read32_def Let_def io_defs pci_bus_device_def regs_after_def
      space_after_append CONFIG_ADDRESS_def CONFIG_DATA_def)

lemma config_write [pci_simps]:
  "regs_after wr c (pci_config_write32 d f off v t) =
     (let a = config_address (pci_bus d) (pci_slot d) f off
      in (regs_after wr c t)(a := wr a (regs_after wr c t a) v))"
  by (simp add: pci_config_write32_def Let_def io_defs regs_after_def
      space_after_append CONFIG_ADDRESS_def CONFIG_DATA_def)

lemma config_read_eq:
  assumes "pci_bus_device dev wr c"
  shows "pci_config_read32 dev d f off t =
     (regs_after wr c t (config_address (pci_bus d) (pci_slot d) f off),
      snd (pci_config_read32 dev d f off t))"
  using config_read(1) [OF assms, of d f off t] by (metis prod.collapse)

lemma read_regs:
  assumes "pci_bus_device dev wr c" "pci_config_read32 dev d f off t = (v, t')"
  shows "v = regs_after wr c t (config_address (pci_bus d) (pci_slot d) f off)"
    and "regs_after wr c t' = regs_after wr c t"
  using config_read [OF assms(1), of d f off t] assms(2) by simp_all

section \<open>Sizing a base address register\<close>

text \<open>
  A memory register of \<^verbatim>\<open>2 ^ k\<close> bytes keeps the written address bits from \<^verbatim>\<open>k\<close> on and its four
  information bits; the bits between are wired to zero.
\<close>

definition memory_bar :: "nat \<Rightarrow> u32 \<Rightarrow> u32 \<Rightarrow> u32" where
  "memory_bar k old v = (v AND NOT (mask k)) OR (old AND 0xF)"

lemma low_nibble: "(0xF :: u32) = mask 4"
  by (simp add: mask_eq_exp_minus_1)

lemma bar_size_of_ones:
  assumes "4 \<le> k" "k < 32"
  shows "NOT (memory_bar k r 0xFFFFFFFF AND NOT 0xF) + 1 = (2 :: u32) ^ k"
proof -
  have "memory_bar k r 0xFFFFFFFF AND NOT 0xF = NOT (mask k)"
    unfolding memory_bar_def low_nibble
  proof (rule bit_word_eqI)
    have ones: "(0xFFFFFFFF :: u32) = mask 32" by (simp add: mask_eq_exp_minus_1)
    fix n assume "n < LENGTH(32)"
    then show "bit ((0xFFFFFFFF AND NOT (mask k) OR r AND mask 4) AND NOT (mask 4)) n =
        bit (NOT (mask k) :: u32) n"
      using assms unfolding ones by (auto simp: bit_simps)
  qed
  then show ?thesis by (simp add: mask_eq_exp_minus_1)
qed

lemma bar_restored:
  assumes "4 \<le> k" "r AND mask k = r AND 0xF"
  shows "memory_bar k (memory_bar k r v) r = r"
proof -
  have "(memory_bar k r v AND 0xF) = r AND 0xF"
    unfolding memory_bar_def low_nibble
    by (rule bit_word_eqI) (use assms(1) in \<open>auto simp: bit_simps\<close>)
  then have "memory_bar k (memory_bar k r v) r = (r AND NOT (mask k)) OR (r AND mask k)"
    by (simp add: memory_bar_def assms(2))
  then show ?thesis by (simp add: bit_word_eqI bit_simps) (metis (no_types, lifting) bit.conj_disj_distrib bit.disj_cancel_right word_and_max or.commute and.commute)
qed

text \<open>
  C35 (pci_get_bar_measures): for a memory register of \<^verbatim>\<open>2 ^ k\<close> bytes (\<^verbatim>\<open>4 \<le> k < 32\<close>) at an index of at
  most 5, \<^verbatim>\<open>pci_get_bar\<close> succeeds and reports its base, exactly its size and the type memory, and
  it leaves every register of the configuration space as it was.  An index above 5 is refused
  with no access to the bus.
\<close>

theorem pci_get_bar_measures:
  assumes "pci_bus_device dev wr c" "i \<le> 5"
    and "config_address (pci_bus d) (pci_slot d) 0 (0x10 + i * 4) = a"
    and "wr a = memory_bar k" "4 \<le> k" "k < 32"
    and "regs_after wr c t a = r" "r AND mask k = r AND 0xF" "\<not> bit r 0"
  shows "(\<exists>t'. pci_get_bar dev d i (t, bar) =
      (True, t', bar\<lparr>bar_address := r AND NOT 0xF, bar_size := 2 ^ k, bar_type := PCI_BAR_MEM\<rparr>) \<and>
      regs_after wr c t' = regs_after wr c t) \<and>
    (\<forall>j > 5. pci_get_bar dev d j (t, bar) = (False, t, bar))"
proof -
  let ?o = "0x10 + i * 4" and ?z = "0xFFFFFFFF :: u32"
  obtain v t1 where r1: "pci_config_read32 dev d 0 ?o t = (v, t1)" by fastforce
  let ?t2 = "pci_config_write32 d 0 ?o ?z t1"
  obtain w t3 where r2: "pci_config_read32 dev d 0 ?o ?t2 = (w, t3)" by fastforce
  let ?t4 = "pci_config_write32 d 0 ?o v t3"
  note e1 = read_regs [OF assms(1) r1] and e2 = read_regs [OF assms(1) r2]
  have v: "v = r" using e1(1) assms(3,7) by simp
  have t2: "regs_after wr c ?t2 = (regs_after wr c t)(a := memory_bar k r ?z)"
    by (simp add: config_write Let_def e1(2) assms(3,4,7))
  have w: "w = memory_bar k r ?z" using e2(1) by (simp add: t2 assms(3))
  have t4: "regs_after wr c ?t4 = regs_after wr c t"
    by (simp add: config_write Let_def e2(2) e1(2) assms(3,4,7) v bar_restored [OF assms(5,8)] fun_upd_idem)
  have "r AND 1 = 0" using assms(9) by (simp add: and_one_eq bit_0 even_iff_mod_2_eq_zero)
  moreover have "r AND 0xFFFFFFF0 = r AND - 16" by (rule arg_cong [of _ _ "(AND) r"]) simp
  ultimately have "pci_get_bar dev d i (t, bar) =
      (True, ?t4, bar\<lparr>bar_address := r AND NOT 0xF, bar_size := 2 ^ k, bar_type := PCI_BAR_MEM\<rparr>)"
    using assms(2) bar_size_of_ones [OF assms(5,6), of r]
    by (simp add: pci_get_bar_def r1 r2 v w linorder_not_less [symmetric] del: word_not_simps)
  moreover have "\<forall>j > 5. pci_get_bar dev d j (t, bar) = (False, t, bar)"
    by (simp add: pci_get_bar_def)
  ultimately show ?thesis using t4 by blast
qed

text \<open>A controller whose register 5 of function 0:2.0 has 4096 bytes at \<^verbatim>\<open>0xFEBF1000\<close>.\<close>

definition one_bar :: config_space where
  "one_bar = \<lparr>selected = 0, registers = (\<lambda>a. if a = 0x80001024 then 0xFEBF1000 else 0xFFFFFFFF)\<rparr>"

definition keep_bar :: "u32 \<Rightarrow> u32 \<Rightarrow> u32 \<Rightarrow> u32" where
  "keep_bar a = (if a = 0x80001024 then memory_bar 12 else (\<lambda>old v. old))"

definition bus_of :: "(u32 \<Rightarrow> u32 \<Rightarrow> u32 \<Rightarrow> u32) \<Rightarrow> config_space \<Rightarrow> device" where
  "bus_of wr c t p = registers (space_after wr c t) (selected (space_after wr c t))"

lemma bus_of_is_bus: "pci_bus_device (bus_of wr c) wr c"
  by (simp add: pci_bus_device_def bus_of_def)

definition at_slot2 :: pci_device where
  "at_slot2 = \<lparr>pci_vendor = 0, pci_device_id = 0, pci_bus = 0, pci_slot = 2, pci_header_type = 0,
     pci_gen = \<lparr>base_mem_io = 0, interrupt_line = 0\<rparr>\<rparr>"

theorem pci_get_bar_measures_witness:
  "\<exists>t'. pci_get_bar (bus_of keep_bar one_bar) at_slot2 5 ([], \<lparr>bar_address = 0, bar_size = 0, bar_type = 0\<rparr>) =
      (True, t', \<lparr>bar_address = 0xFEBF1000, bar_size = 4096, bar_type = 1\<rparr>) \<and>
      regs_after keep_bar one_bar t' = registers one_bar"
proof -
  have a: "config_address (pci_bus at_slot2) (pci_slot at_slot2) 0 (0x10 + 5 * 4) = 0x80001024"
    by (simp add: config_address_def at_slot2_def)
  have r: "regs_after keep_bar one_bar [] 0x80001024 = 0xFEBF1000"
    by (simp add: regs_after_def space_after_def one_bar_def)
  have m: "(0xFEBF1000 :: u32) AND mask 12 = 0xFEBF1000 AND 0xF"
    by (simp add: mask_eq_exp_minus_1)
  have b: "\<not> bit (0xFEBF1000 :: u32) 0" by simp
  have w: "keep_bar 0x80001024 = memory_bar 12" by (simp add: keep_bar_def)
  show ?thesis
    using conjunct1 [OF pci_get_bar_measures [OF bus_of_is_bus _ a w _ _ r m b,
        of "\<lparr>bar_address = 0, bar_size = 0, bar_type = 0\<rparr>"]]
    by (simp add: PCI_BAR_MEM_def regs_after_def space_after_def)
qed

section \<open>Searching the buses\<close>

definition has_class :: "(u32 \<Rightarrow> u32) \<Rightarrow> u8 \<Rightarrow> u8 \<Rightarrow> u8 \<times> u8 \<Rightarrow> bool" where
  "has_class R class_id subclass_id p \<longleftrightarrow>
     ucast (drop_bit 16 (R (config_address (fst p) (snd p) 0 0x8))) =
       (push_bit 8 (ucast class_id) OR ucast subclass_id :: u16)"

definition described :: "(u32 \<Rightarrow> u32) \<Rightarrow> u8 \<times> u8 \<Rightarrow> pci_device \<Rightarrow> pci_device" where
  "described R p d =
     (let id = R (config_address (fst p) (snd p) 0 0);
          header = R (config_address (fst p) (snd p) 0 0xC)
      in d\<lparr>pci_bus := fst p, pci_slot := snd p, pci_vendor := ucast id,
           pci_device_id := ucast (drop_bit 16 id), pci_header_type := ucast (drop_bit 16 header)\<rparr>)"

lemma class_bytes:
  "drop_bit 8 (w AND 0xFF00) = ucast c \<and> w AND 0x00FF = ucast s \<longleftrightarrow>
     w = (push_bit 8 (ucast (c :: u8)) OR ucast (s :: u8) :: u16)" (is "?l \<longleftrightarrow> ?r")
proof
  have high: "(0xFF00 :: u16) = push_bit 8 (mask 8)" and low: "(0xFF :: u16) = mask 8"
    by (simp_all add: mask_eq_exp_minus_1)
  assume ?l
  then have l: "drop_bit 8 (w AND 0xFF00) = ucast c" "w AND 0xFF = ucast s" by simp_all
  have "w = push_bit 8 (drop_bit 8 (w AND 0xFF00)) OR (w AND 0xFF)"
    unfolding high low by (rule bit_word_eqI) (auto simp: bit_simps)
  then show ?r unfolding l .
next
  have high: "(0xFF00 :: u16) = push_bit 8 (mask 8)" and low: "(0xFF :: u16) = mask 8"
    by (simp_all add: mask_eq_exp_minus_1)
  have b: "bit v n \<Longrightarrow> n < 8" for v :: u8 and n using bit_imp_le_length [of v n] by simp
  assume ?r
  then show ?l unfolding high low by (auto intro!: bit_word_eqI simp: bit_simps dest: b)
qed

lemma find_append:
  "find P (xs @ ys) = (case find P xs of None \<Rightarrow> find P ys | Some x \<Rightarrow> Some x)"
  by (induction xs) auto

lemma described_again [simp]:
  "described R p (described R q d) = described R p d"
  "described R p (d\<lparr>pci_bus := b\<rparr>) = described R p d"
  "described R p (d\<lparr>pci_slot := s\<rparr>) = described R p d"
  by (simp_all add: described_def Let_def)

lemma scan_slots_find:
  assumes "pci_bus_device dev wr c" "regs_after wr c t = R"
  shows "\<exists>t' d'. regs_after wr c t' = R \<and> (\<forall>p. described R p d' = described R p d) \<and>
     scan_slots dev ci si bus slots (t, d) =
       (case find (has_class R ci si) (map (Pair bus) slots) of
          None \<Rightarrow> (False, t', d') | Some p \<Rightarrow> (True, t', described R p d))"
  using assms(2)
proof (induction slots arbitrary: t d)
  case Nil
  then show ?case by auto
next
  case (Cons s slots)
  let ?d = "d\<lparr>pci_bus := bus, pci_slot := s\<rparr>"
  obtain v t1 where r1: "pci_config_read32 dev ?d 0 0x8 t = (v, t1)" by fastforce
  note e1 = read_regs [OF assms(1) r1, unfolded Cons.prems]
  let ?w = "ucast (drop_bit 16 v) :: u16"
  have match: "has_class R ci si (bus, s) \<longleftrightarrow>
      drop_bit 8 (?w AND 0xFF00) = ucast ci \<and> ?w AND 0x00FF = ucast si"
    unfolding class_bytes by (simp add: has_class_def e1(1))
  show ?case
  proof (cases "has_class R ci si (bus, s)")
    case False
    then have "scan_slots dev ci si bus (s # slots) (t, d) = scan_slots dev ci si bus slots (t1, ?d)"
      using match by (simp add: r1 Let_def)
    then show ?thesis
      using Cons.IH [OF e1(2), of ?d, unfolded described_again] False by (simp del: scan_slots.simps)
  next
    case True
    obtain i t2 where r2: "pci_config_read32 dev ?d 0 0 t1 = (i, t2)" by fastforce
    note e2 = read_regs [OF assms(1) r2, unfolded e1(2)]
    let ?e = "?d\<lparr>pci_vendor := ucast (i AND 0xFFFF), pci_device_id := ucast (drop_bit 16 i)\<rparr>"
    obtain h t3 where r3: "pci_config_read32 dev ?e 0 0xC t2 = (h, t3)" by fastforce
    note e3 = read_regs [OF assms(1) r3, unfolded e2(2)]
    have trim: "(ucast (i AND 0xFFFF) :: u16) = ucast i" "(ucast (drop_bit 16 h) AND 0xFF :: u8) = ucast (drop_bit 16 h)"
    proof -
      have m: "(0xFFFF :: u32) = mask 16" "(0xFF :: u8) = mask 8" by (simp_all add: mask_eq_exp_minus_1)
      show "(ucast (i AND 0xFFFF) :: u16) = ucast i"
        unfolding m by (rule bit_word_eqI) (auto simp: bit_simps)
      show "(ucast (drop_bit 16 h) AND 0xFF :: u8) = ucast (drop_bit 16 h)"
        unfolding m by (rule bit_word_eqI) (auto simp: bit_simps)
    qed
    have "scan_slots dev ci si bus (s # slots) (t, d) =
        (True, t3, ?e\<lparr>pci_header_type := ucast (drop_bit 16 h) AND 0xFF\<rparr>)"
      using True match by (simp add: r1 r2 r3 Let_def)
    moreover have "?e\<lparr>pci_header_type := ucast (drop_bit 16 h) AND 0xFF\<rparr> = described R (bus, s) d"
      using e2(1) e3(1) unfolding trim by (simp add: described_def Let_def)
    ultimately show ?thesis using True e3(2) by auto
  qed
qed

lemma scan_buses_find:
  assumes "pci_bus_device dev wr c" "regs_after wr c t = R"
  shows "\<exists>t' d'. regs_after wr c t' = R \<and> (\<forall>p. described R p d' = described R p d) \<and>
     scan_buses dev ci si buses (t, d) =
       (case find (has_class R ci si) (List.product buses (map of_nat [0..<255])) of
          None \<Rightarrow> (False, t', d') | Some p \<Rightarrow> (True, t', described R p d))"
  using assms(2)
proof (induction buses arbitrary: t d)
  case Nil
  then show ?case by auto
next
  case (Cons b buses)
  let ?B = "map of_nat [0..<255] :: u8 list" and ?P = "has_class R ci si"
  obtain t1 d1 where s: "regs_after wr c t1 = R" "\<forall>p. described R p d1 = described R p d"
    "scan_slots dev ci si b ?B (t, d) = (case find ?P (map (Pair b) ?B) of
       None \<Rightarrow> (False, t1, d1) | Some p \<Rightarrow> (True, t1, described R p d))"
    using scan_slots_find [OF assms(1) Cons.prems] by blast
  show ?case
  proof (cases "find ?P (map (Pair b) ?B)")
    case None
    have 1: "scan_buses dev ci si (b # buses) (t, d) = scan_buses dev ci si buses (t1, d1)"
      unfolding scan_buses.simps s(3) None by simp
    have 2: "find ?P (List.product (b # buses) ?B) = find ?P (List.product buses ?B)"
      unfolding product.simps find_append None by simp
    have 3: "described R p d1 = described R p d" for p using s(2) by blast
    show ?thesis unfolding 1 2 using Cons.IH [OF s(1), of d1] unfolding 3 .
  next
    case (Some p)
    have "scan_buses dev ci si (b # buses) (t, d) = (True, t1, described R p d)"
      unfolding scan_buses.simps s(3) Some by simp
    moreover have "find ?P (List.product (b # buses) ?B) = Some p"
      unfolding product.simps find_append Some by simp
    ultimately show ?thesis using s(1) by auto
  qed
qed

text \<open>
  C34 (pci_devices_by_id_finds_first): \<^verbatim>\<open>pci_devices_by_id\<close> reports the first place, in the order of
  the bus numbers 0 to 254 and within a bus of the slot numbers 0 to 254, whose class register
  holds the class and subclass, and describes it from its registers (identifiers and header
  type); it returns false iff there is none, and it changes no register.
\<close>

theorem pci_devices_by_id_finds_first:
  assumes "pci_bus_device dev wr c" "regs_after wr c t = R"
  shows "\<exists>t' d'. regs_after wr c t' = R \<and>
     pci_devices_by_id dev class_id subclass_id (t, d) =
       (case find (has_class R class_id subclass_id)
               (List.product (map of_nat [0..<255]) (map of_nat [0..<255])) of
          None \<Rightarrow> (False, t', d') | Some p \<Rightarrow> (True, t', described R p d))"
  using scan_buses_find [OF assms] unfolding pci_devices_by_id_def by blast

text \<open>A bus whose only function is the AHCI controller at slot 2.\<close>

definition one_controller :: config_space where
  "one_controller = \<lparr>selected = 0, registers =
     (\<lambda>a. if a = 0x80001008 then 0x01060102 else if a = 0x80001000 then 0x29228086
          else if a = 0x8000100C then 0 else 0xFFFFFFFF)\<rparr>"

theorem pci_devices_by_id_finds_first_witness:
  "\<exists>t'. pci_devices_by_id (bus_of keep_bar one_controller) 1 6 ([], at_slot2\<lparr>pci_slot := 0\<rparr>) =
     (True, t', at_slot2\<lparr>pci_vendor := 0x8086, pci_device_id := 0x2922\<rparr>)"
proof -
  let ?R = "registers one_controller"
  let ?B = "map of_nat [0..<255] :: u8 list"
  have r: "regs_after keep_bar one_controller [] = ?R"
    by (simp add: regs_after_def space_after_def)
  have "[0..<255] = 0 # 1 # 2 # [3..<255::nat]" by (simp add: upt_conv_Cons)
  then obtain xs where B: "?B = 0 # 1 # 2 # xs" by simp
  have "find (has_class ?R 1 6) (List.product ?B ?B) = Some (0, 2)"
    unfolding B by (simp add: has_class_def one_controller_def config_address_def)
  moreover have "described ?R (0, 2) (at_slot2\<lparr>pci_slot := 0\<rparr>) =
      at_slot2\<lparr>pci_vendor := 0x8086, pci_device_id := 0x2922\<rparr>"
    by (simp add: described_def one_controller_def config_address_def at_slot2_def)
  ultimately show ?thesis
    using pci_devices_by_id_finds_first [OF bus_of_is_bus r, of 1 6 "at_slot2\<lparr>pci_slot := 0\<rparr>"]
    by auto
qed

text \<open>
  The slot field has five bits: larger slot numbers of the scan reach the functions of other
  buses.  The address is still the one of the function that was found.
\<close>

lemma slot_overlaps_bus:
  "config_address bus slt f off =
     config_address (bus OR drop_bit 5 slt) (slt AND 31) f off"
proof -
  have m: "(31 :: u8) = mask 5" by (simp add: mask_eq_exp_minus_1)
  have "push_bit 16 (ucast bus) OR push_bit 11 (ucast slt) =
      (push_bit 16 (ucast (bus OR drop_bit 5 slt)) OR push_bit 11 (ucast (slt AND 31)) :: u32)"
    unfolding m
  proof (rule bit_word_eqI)
    fix n assume n: "n < LENGTH(32)"
    show "bit (push_bit 16 (ucast bus) OR push_bit 11 (ucast slt) :: u32) n =
        bit (push_bit 16 (ucast (bus OR drop_bit 5 slt)) OR push_bit 11 (ucast (slt AND mask 5)) :: u32) n"
    proof (cases "n < 16")
      case True
      then show ?thesis by (auto simp: bit_simps)
    next
      case False
      then obtain j where "n = j + 16" by (metis add.commute le_Suc_ex not_less)
      then show ?thesis using n by (auto simp: bit_simps add.commute dest: bit_imp_le_length)
    qed
  qed
  then show ?thesis unfolding config_address_def by (simp only: or.assoc [symmetric])
qed

section \<open>The interrupt line\<close>

text \<open>
  On a device that keeps the low byte of its interrupt register,
  \<^verbatim>\<open>pci_get_interrupt_line\<close> returns what \<^verbatim>\<open>pci_set_interrupt_line\<close> stored, the other three bytes
  are written back as they were read, and no other register is touched.
\<close>

theorem pci_interrupt_line_roundtrip:
  assumes "pci_bus_device dev wr c"
    and "config_address (pci_bus d) (pci_slot d) 0 0x3C = a"
    and "\<forall>old v. wr a old v AND 0xFF = v AND 0xFF"
  shows "fst (pci_get_interrupt_line dev d (pci_set_interrupt_line dev d line t)) = line \<and>
     regs_after wr c (pci_set_interrupt_line dev d line t) =
       (regs_after wr c t)(a := wr a (regs_after wr c t a)
          ((regs_after wr c t a AND NOT 0xFF) OR ucast line))"
proof -
  obtain v t1 where r1: "pci_config_read32 dev d 0 0x3C t = (v, t1)" by fastforce
  note e1 = read_regs [OF assms(1) r1, unfolded assms(2)]
  let ?t2 = "pci_set_interrupt_line dev d line t"
  let ?v = "(v AND NOT 0xFF) OR ucast line"
  have t2: "?t2 = pci_config_write32 d 0 0x3C ?v t1"
    by (simp add: pci_set_interrupt_line_def r1)
  have regs: "regs_after wr c ?t2 = (regs_after wr c t)(a := wr a (regs_after wr c t a) ?v)"
    unfolding t2 by (simp add: config_write Let_def e1(2) assms(2))
  obtain w t3 where r3: "pci_config_read32 dev d 0 0x3C ?t2 = (w, t3)" by fastforce
  have "w AND 0xFF = ?v AND 0xFF"
    using read_regs(1) [OF assms(1) r3, unfolded assms(2)] assms(3) unfolding regs by simp
  moreover have "(ucast (?v AND 0xFF) :: u8) = line"
  proof -
    have m: "(0xFF :: u32) = mask 8" by (simp add: mask_eq_exp_minus_1)
    show ?thesis unfolding m by (rule bit_word_eqI) (auto simp: bit_simps)
  qed
  ultimately show ?thesis using regs e1(1) by (simp add: pci_get_interrupt_line_def r3)
qed

theorem pci_interrupt_line_roundtrip_witness:
  "fst (pci_get_interrupt_line (bus_of (\<lambda>a old v. v) one_controller) at_slot2
     (pci_set_interrupt_line (bus_of (\<lambda>a old v. v) one_controller) at_slot2 11 [])) = 11"
  using pci_interrupt_line_roundtrip [OF bus_of_is_bus refl, of "\<lambda>a old v. v" at_slot2 one_controller 11 "[]"]
  by simp

end
