(* ===== verification/Xoshiro.thy ===== *)
theory Xoshiro
  imports Prelude
begin

text \<open>
  The generator xoshiro256++ of \<^verbatim>\<open>crypto/xoshiro256plusplus/xoshiro256plusplus.c\<close>.  The state
  \<^verbatim>\<open>uint64_t s[4]\<close> is a quadruple of words.  The lemmas show that a step is a permutation of
  the states, so a state that is not everywhere zero never becomes so.
\<close>

type_synonym xstate = "u64 \<times> u64 \<times> u64 \<times> u64"

definition rotl :: "u64 \<Rightarrow> nat \<Rightarrow> u64" where
  "rotl x k = (push_bit k x) OR (drop_bit (64 - k) x)"

definition xoshiro_256_pp :: "xstate \<Rightarrow> u64 \<times> xstate" where
  "xoshiro_256_pp s =
     (let (s0, s1, s2, s3) = s;
          result = rotl (s0 + s3) 23 + s0;
          t = push_bit 17 s1;
          s2 = s2 XOR s0;
          s3 = s3 XOR s1;
          s1 = s1 XOR s2;
          s0 = s0 XOR s3;
          s2 = s2 XOR t;
          s3 = rotl s3 45
      in (result, (s0, s1, s2, s3)))"

definition xoshiro_next :: "xstate \<Rightarrow> xstate" where
  "xoshiro_next s = snd (xoshiro_256_pp s)"

section \<open>The step is invertible\<close>

lemma rotl_rotl: "rotl (rotl x 45) 19 = x"
  by (rule bit_word_eqI) (auto simp: rotl_def bit_simps less_diff_conv2)

definition unshift17 :: "u64 \<Rightarrow> u64" where
  "unshift17 y = y XOR push_bit 17 y XOR push_bit 34 y XOR push_bit 51 y"

lemma push_bit_xor_word: "push_bit n (a XOR b) = push_bit n a XOR push_bit n b" for a b :: u64
  by (simp add: push_bit_xor)

lemma unshift17_shift: "unshift17 (x XOR push_bit 17 x) = x"
proof -
  have "push_bit 68 x = 0" by (rule bit_word_eqI) (simp add: bit_simps)
  then show ?thesis
    by (simp add: unshift17_def push_bit_xor_word xor.assoc)
qed

definition xoshiro_prev :: "xstate \<Rightarrow> xstate" where
  "xoshiro_prev s =
     (let (s0, s1, s2, s3) = s;
          s3 = rotl s3 19;
          s0 = s0 XOR s3;
          o1 = unshift17 (s1 XOR s2);
          s2 = s1 XOR o1 XOR s0
      in (s0, o1, s2, s3 XOR o1))"

lemma xoshiro_prev_next: "xoshiro_prev (xoshiro_next s) = s"
proof -
  obtain s0 s1 s2 s3 where s: "s = (s0, s1, s2, s3)" by (cases s)
  have "s1 XOR (s2 XOR s0) XOR (s2 XOR s0 XOR push_bit 17 s1) = s1 XOR push_bit 17 s1"
    by (simp add: xor.assoc xor.left_commute)
  then show ?thesis
    by (simp add: s xoshiro_next_def xoshiro_256_pp_def xoshiro_prev_def Let_def rotl_rotl)
      (simp add: xor.assoc xor.left_commute xor.commute unshift17_shift)
qed

lemma inj_xoshiro_next: "inj xoshiro_next"
  by (rule inj_on_inverseI) (rule xoshiro_prev_next)

lemma xoshiro_next_0: "xoshiro_next (0, 0, 0, 0) = (0, 0, 0, 0)"
  by (simp add: xoshiro_next_def xoshiro_256_pp_def rotl_def)

lemma xoshiro_next_nonzero: "s \<noteq> (0, 0, 0, 0) \<Longrightarrow> xoshiro_next s \<noteq> (0, 0, 0, 0)"
  using inj_xoshiro_next xoshiro_next_0 by (metis injD)

section \<open>Properties\<close>

text \<open>
  One step of the generator is a permutation of its states and the all-zero
  state is its only way to the all-zero state; so from any other seed it never gets stuck there,
  however many numbers are drawn.
\<close>

theorem xoshiro_permutes_states:
  "bij xoshiro_next \<and>
   (((\<lambda>s. snd (xoshiro_256_pp s)) ^^ n) s = (0, 0, 0, 0) \<longleftrightarrow> s = (0, 0, 0, 0))"
proof (intro conjI)
  show "bij xoshiro_next"
    using inj_xoshiro_next by (simp add: bij_def finite_UNIV_inj_surj)
  have "(xoshiro_next ^^ n) s = (0, 0, 0, 0) \<longleftrightarrow> s = (0, 0, 0, 0)"
    by (induction n) (simp_all add: xoshiro_next_0, metis xoshiro_next_0 xoshiro_next_nonzero)
  then show "((\<lambda>s. snd (xoshiro_256_pp s)) ^^ n) s = (0, 0, 0, 0) \<longleftrightarrow> s = (0, 0, 0, 0)"
    by (simp add: xoshiro_next_def [abs_def])
qed

end
