(* ===== verification/ChaCha20.thy ===== *)
theory ChaCha20
  imports Prelude
begin

text \<open>
  The ChaCha20 block function, \<^verbatim>\<open>crypto/ChaCha20/chacha20.c\<close>.  The sixteen words of a block are
  a list; \<^verbatim>\<open>QR\<close> is the macro's sequence of assignments on four of its elements, named by their
  indices.
\<close>

definition rotl32 :: "u32 \<Rightarrow> nat \<Rightarrow> u32" where
  "rotl32 a b = (push_bit b a) OR (drop_bit (32 - b) a)"

definition quarter :: "u32 \<Rightarrow> u32 \<Rightarrow> u32 \<Rightarrow> u32 \<Rightarrow> u32 \<times> u32 \<times> u32 \<times> u32" where
  "quarter a b c d =
     (let a = a + b; d = d XOR a; d = rotl32 d 16;
          c = c + d; b = b XOR c; b = rotl32 b 12;
          a = a + b; d = d XOR a; d = rotl32 d 8;
          c = c + d; b = b XOR c; b = rotl32 b 7
      in (a, b, c, d))"

definition QR :: "nat \<Rightarrow> nat \<Rightarrow> nat \<Rightarrow> nat \<Rightarrow> u32 list \<Rightarrow> u32 list" where
  "QR i j k l x =
     (let (a, b, c, d) = quarter (x ! i) (x ! j) (x ! k) (x ! l)
      in x[i := a, j := b, k := c, l := d])"

definition ROUNDS :: nat where "ROUNDS = 20"

definition double_round :: "u32 list \<Rightarrow> u32 list" where
  "double_round x =
     (let x = QR 0 4 8 12 x;
          x = QR 1 5 9 13 x;
          x = QR 2 6 10 14 x;
          x = QR 3 7 11 15 x;
          x = QR 0 5 10 15 x;
          x = QR 1 6 11 12 x;
          x = QR 2 7 8 13 x
      in QR 3 4 9 14 x)"

fun chacha_rounds :: "nat \<Rightarrow> u32 list \<Rightarrow> u32 list" where
  "chacha_rounds 0 x = x"
| "chacha_rounds (Suc n) x = chacha_rounds n (double_round x)"

definition chacha_block :: "u32 list \<Rightarrow> u32 list" where
  "chacha_block inp =
     (let x = chacha_rounds (ROUNDS div 2) inp
      in map (\<lambda>i. x ! i + inp ! i) [0..<16])"

text \<open>The layout of the input block, \<^verbatim>\<open>chacha20.h\<close>: indices in words, sizes in bytes.\<close>

definition KEY :: nat where "KEY = 4"
definition KEY_SIZE :: nat where "KEY_SIZE = 8 * 4"
definition COUNT :: nat where "COUNT = 12"
definition COUNT_MAX :: u32 where "COUNT_MAX = 0xFFFFFFFF"
definition NONCE :: nat where "NONCE = 13"
definition NONCE_SIZE :: nat where "NONCE_SIZE = 2 * 4"
definition BLOCK_SIZE :: nat where "BLOCK_SIZE = 16 * 4"

named_theorems chacha_layout \<open>indices and sizes of the block\<close>

lemmas [chacha_layout] =
  KEY_def KEY_SIZE_def COUNT_def COUNT_MAX_def NONCE_def NONCE_SIZE_def BLOCK_SIZE_def

section \<open>The rounds are invertible\<close>

lemma rotl32_inverse: "n \<le> 32 \<Longrightarrow> rotl32 (rotl32 x n) (32 - n) = x"
  by (rule bit_word_eqI) (auto simp: rotl32_def bit_simps less_diff_conv2)

lemma xor_cancel [simp]: "(x XOR y) XOR y = x" for x y :: "'a::len word"
  by (simp add: xor.assoc)

definition quarter_inv :: "u32 \<Rightarrow> u32 \<Rightarrow> u32 \<Rightarrow> u32 \<Rightarrow> u32 \<times> u32 \<times> u32 \<times> u32" where
  "quarter_inv a b c d =
     (let b = rotl32 b 25; b = b XOR c; c = c - d;
          d = rotl32 d 24; d = d XOR a; a = a - b;
          b = rotl32 b 20; b = b XOR c; c = c - d;
          d = rotl32 d 16; d = d XOR a; a = a - b
      in (a, b, c, d))"

lemma rotl32_undo:
  "rotl32 (rotl32 x 7) 25 = x" "rotl32 (rotl32 x 8) 24 = x"
  "rotl32 (rotl32 x 12) 20 = x" "rotl32 (rotl32 x 16) 16 = x"
  using rotl32_inverse [of 7 x] rotl32_inverse [of 8 x] rotl32_inverse [of 12 x]
    rotl32_inverse [of 16 x] by simp_all

lemma quarter_inverse: "quarter a b c d = (a', b', c', d') \<Longrightarrow> quarter_inv a' b' c' d' = (a, b, c, d)"
  by (auto simp: quarter_def quarter_inv_def Let_def rotl32_undo)

lemma quarter_inj: "quarter a b c d = quarter a' b' c' d' \<Longrightarrow> (a, b, c, d) = (a', b', c', d')"
  using quarter_inverse by (metis prod_cases4)

lemma length_QR [simp]: "length (QR i j k l x) = length x"
  by (simp add: QR_def split: prod.split)

lemma QR_inj:
  assumes eq: "QR i j k l x = QR i j k l y" and len: "length x = length y"
    and d: "distinct [i, j, k, l]" "i < length x" "j < length x" "k < length x" "l < length x"
  shows "x = y"
proof -
  obtain a b c e where q: "quarter (x ! i) (x ! j) (x ! k) (x ! l) = (a, b, c, e)"
    by (cases "quarter (x ! i) (x ! j) (x ! k) (x ! l)")
  obtain a' b' c' e' where q': "quarter (y ! i) (y ! j) (y ! k) (y ! l) = (a', b', c', e')"
    by (cases "quarter (y ! i) (y ! j) (y ! k) (y ! l)")
  let ?u = "x[i := a, j := b, k := c, l := e]" and ?v = "y[i := a', j := b', k := c', l := e']"
  have uv: "?u = ?v" using eq by (simp add: QR_def q q')
  have "a = a'" "b = b'" "c = c'" "e = e'"
    using arg_cong [OF uv, of "\<lambda>z. z ! i"] arg_cong [OF uv, of "\<lambda>z. z ! j"]
      arg_cong [OF uv, of "\<lambda>z. z ! k"] arg_cong [OF uv, of "\<lambda>z. z ! l"] d len
    by (auto simp: nth_list_update)
  then have same: "x ! i = y ! i" "x ! j = y ! j" "x ! k = y ! k" "x ! l = y ! l"
    using quarter_inj [of "x ! i" "x ! j" "x ! k" "x ! l" "y ! i" "y ! j" "y ! k" "y ! l"] q q'
    by simp_all
  show ?thesis
  proof (rule nth_equalityI [OF len])
    fix m assume "m < length x"
    moreover have "?u ! m = ?v ! m" by (simp only: uv)
    ultimately show "x ! m = y ! m"
      using same len by (cases "m \<in> {i, j, k, l}") (auto simp: nth_list_update)
  qed
qed

lemma QR_eq_iff:
  "length x = 16 \<Longrightarrow> length y = 16 \<Longrightarrow> distinct [i, j, k, l] \<Longrightarrow> i < 16 \<Longrightarrow> j < 16 \<Longrightarrow>
     k < 16 \<Longrightarrow> l < 16 \<Longrightarrow> QR i j k l x = QR i j k l y \<longleftrightarrow> x = y"
  using QR_inj [of i j k l x y] by auto

lemma length_double_round [simp]: "length (double_round x) = length x"
  by (simp add: double_round_def Let_def)

lemma double_round_inj:
  assumes "double_round x = double_round y" and "length x = 16" and "length y = 16"
  shows "x = y"
  using assms by (simp add: double_round_def Let_def QR_eq_iff)

lemma length_chacha_rounds [simp]: "length (chacha_rounds n x) = length x"
  by (induction n arbitrary: x) simp_all

lemma chacha_rounds_inj:
  "chacha_rounds n x = chacha_rounds n y \<Longrightarrow> length x = 16 \<Longrightarrow> length y = 16 \<Longrightarrow> x = y"
proof (induction n arbitrary: x y)
  case 0
  then show ?case by simp
next
  case (Suc n)
  have "chacha_rounds n (double_round x) = chacha_rounds n (double_round y)"
    using Suc.prems(1) by simp
  then have "double_round x = double_round y"
    by (rule Suc.IH) (simp_all only: length_double_round Suc.prems)
  then show ?case using Suc.prems(2,3) by (rule double_round_inj)
qed

lemma length_chacha_block [simp]: "length (chacha_block inp) = 16"
  by (simp add: chacha_block_def Let_def)

text \<open>The quarter round on the test vector of RFC 7539, section 2.1.1.\<close>

lemma quarter_vector:
  "quarter 0x11111111 0x01020304 0x9b8d6f43 0x01234567 =
     (0xea2a92f4, 0xcb1cf8ce, 0x4581472e, 0x5881c4bb)"
  by (simp add: quarter_def rotl32_def)

section \<open>Properties\<close>

text \<open>
  The twenty rounds are a permutation of the sixteen-word blocks: two blocks
  with the same rounds output are equal, and every block is an output.
\<close>

theorem chacha_rounds_permute:
  "bij_betw (chacha_rounds (ROUNDS div 2)) {x. length x = 16} {x. length x = 16}"
proof -
  let ?B = "{x :: u32 list. length x = 16}"
  have fin: "finite ?B" using finite_lists_length_eq [of "UNIV :: u32 set" 16] by simp
  have inj: "inj_on (chacha_rounds (ROUNDS div 2)) ?B"
    by (rule inj_onI) (auto intro: chacha_rounds_inj)
  have "chacha_rounds (ROUNDS div 2) ` ?B \<subseteq> ?B" by auto
  then show ?thesis using endo_inj_surj [OF fin _ inj] inj by (simp add: bij_betw_def)
qed

end
