(* ===== verification/Sha1.thy ===== *)
theory Sha1
  imports Prelude
begin

text \<open>
  SHA-1 and HMAC-SHA-1, \<^verbatim>\<open>crypto/SHA1/sha1.c\<close>.  The context is a record; blocks and messages are
  byte lists.  The second half states the algorithm as FIPS 180-4 does, on whole messages, and
  shows that the streaming code computes it.
\<close>

section \<open>The code\<close>

record SHA1_CTX =
  ctx_h :: "u32 list"
  ctx_block :: "u8 list"
  ctx_active_len :: u64
  ctx_len :: u64

definition BLOCK_BYTES :: nat where "BLOCK_BYTES = 64"
definition SHA1_LEN :: nat where "SHA1_LEN = 20"

definition SHA1_Init :: SHA1_CTX where
  "SHA1_Init = \<lparr>ctx_h = [0x67452301, 0xefcdab89, 0x98badcfe, 0x10325476, 0xc3d2e1f0],
                ctx_block = replicate BLOCK_BYTES 0, ctx_active_len = 0, ctx_len = 0\<rparr>"

definition reverse_32 :: "u32 \<Rightarrow> u32" where
  "reverse_32 v =
     (push_bit 24 (v AND 0x000000FF)) OR (push_bit 8 (v AND 0x0000FF00)) OR
     (drop_bit 8 (v AND 0x00FF0000)) OR (drop_bit 24 (v AND 0xFF000000))"

definition ARRAY_NUM :: "u64 \<Rightarrow> nat" where
  "ARRAY_NUM loc = unat (loc div 8) + (if loc mod 8 = 0 then 0 else 1)"

text \<open>The padded message's last one or two blocks: \<^verbatim>\<open>block\<close> has room for two.\<close>

definition pad_sha1_message :: "u8 list \<Rightarrow> u64 \<Rightarrow> u64 \<Rightarrow> u8 list option" where
  "pad_sha1_message M l active_l = do {
     let block = replicate (1024 div 8) 0;
     bytes \<leftarrow> slice M 0 (unat (active_l div 8));
     block \<leftarrow> blit block 0 bytes;
     block \<leftarrow> blit block (ARRAY_NUM active_l) [0x80];
     let rest = (active_l + 1) mod 512;
     let k = unat (if rest < 448 then 448 - rest else 512 - rest + 448);
     block \<leftarrow> blit block (ARRAY_NUM active_l + 2) (replicate (k div 8) 0);
     let pos = unat (active_l div 8) + k div 8 + 1;
     block \<leftarrow> blit block pos (le_bytes 4 (reverse_32 (ucast (drop_bit 32 l))));
     blit block (pos + 4) (le_bytes 4 (reverse_32 (ucast (l AND 0xFFFFFFFF))))
   }"

definition sha1_f :: "u8 \<Rightarrow> u32 \<Rightarrow> u32 \<Rightarrow> u32 \<Rightarrow> u32" where
  "sha1_f t x y z =
     (if t \<le> 19 then (x AND y) XOR ((NOT x) AND z)
      else if t \<le> 39 \<or> t \<ge> 60 then x XOR y XOR z
      else if t \<le> 59 then (x AND y) XOR (x AND z) XOR (y AND z)
      else 0)"

definition sha1_get_k :: "u8 \<Rightarrow> u32" where
  "sha1_get_k t =
     (if t \<le> 19 then 0x5a827999
      else if t \<le> 39 then 0x6ed9eba1
      else if t \<le> 59 then 0x8f1bbcdc
      else if t \<le> 79 then 0xca62c1d6
      else 0)"

definition ROTL :: "u32 \<Rightarrow> nat \<Rightarrow> u32" where
  "ROTL v shift = push_bit shift v OR drop_bit (32 - shift) v"

text \<open>The cast of a block to \<^verbatim>\<open>uint32_t *\<close>.\<close>

definition block_words :: "u8 list \<Rightarrow> u32 list" where
  "block_words bs = map (\<lambda>i. of_le_bytes (take 4 (drop (4 * i) bs))) [0..<16]"

definition message_schedule :: "u32 list \<Rightarrow> u32 list" where
  "message_schedule M =
     foldl (\<lambda>W t. W @ [ROTL (W ! (t - 3) XOR W ! (t - 8) XOR W ! (t - 14) XOR W ! (t - 16)) 1])
       M [16..<80]"

type_synonym working = "u32 \<times> u32 \<times> u32 \<times> u32 \<times> u32"

definition sha1_round :: "u32 list \<Rightarrow> working \<Rightarrow> nat \<Rightarrow> working" where
  "sha1_round W s t =
     (let (a, b, c, d, e) = s;
          T = ROTL a 5 + sha1_f (of_nat t) b c d + e + sha1_get_k (of_nat t) + W ! t
      in (T, a, ROTL b 30, c, d))"

text \<open>\<^verbatim>\<open>add_block\<close> byte-swaps the words of its argument in place, which the caller then clears.\<close>

definition add_block :: "SHA1_CTX \<Rightarrow> u8 list \<Rightarrow> SHA1_CTX" where
  "add_block ctx block =
     (let M = map reverse_32 (block_words block);
          W = message_schedule M;
          h = ctx_h ctx;
          (a, b, c, d, e) = foldl (sha1_round W) (h ! 0, h ! 1, h ! 2, h ! 3, h ! 4) [0..<80]
      in ctx\<lparr>ctx_h := [a + h ! 0, b + h ! 1, c + h ! 2, d + h ! 3, e + h ! 4]\<rparr>)"

definition SHA1_Final :: "SHA1_CTX \<Rightarrow> (SHA1_CTX \<times> u8 list) option" where
  "SHA1_Final ctx = do {
     block \<leftarrow> pad_sha1_message (ctx_block ctx) (ctx_len ctx * 8) (ctx_active_len ctx * 8);
     let ctx' = add_block ctx (take BLOCK_BYTES block);
     let ctx' = (if (ctx_active_len ctx * 8 + 1) mod 512 \<ge> 448
                 then add_block ctx' (drop BLOCK_BYTES block) else ctx');
     let ctx' = ctx'\<lparr>ctx_h := map reverse_32 (ctx_h ctx')\<rparr>;
     Some (ctx', concat (map (le_bytes 4) (ctx_h ctx')))
   }"

partial_function (option) SHA1_Update :: "SHA1_CTX \<Rightarrow> u8 list \<Rightarrow> u64 \<Rightarrow> SHA1_CTX option" where
  "SHA1_Update ctx data n =
     (if n > 0
      then do {
        let write_len = (if ctx_active_len ctx + n > of_nat BLOCK_BYTES
                         then of_nat BLOCK_BYTES - ctx_active_len ctx else n);
        bytes \<leftarrow> slice data 0 (unat write_len);
        block \<leftarrow> blit (ctx_block ctx) (unat (ctx_active_len ctx)) bytes;
        let ctx = ctx\<lparr>ctx_block := block, ctx_len := ctx_len ctx + write_len,
                      ctx_active_len := ctx_active_len ctx + write_len\<rparr>;
        (if ctx_active_len ctx \<noteq> of_nat BLOCK_BYTES then Some ctx
         else do {
           let ctx = add_block ctx (ctx_block ctx);
           let ctx = ctx\<lparr>ctx_block := replicate BLOCK_BYTES 0, ctx_active_len := 0\<rparr>;
           SHA1_Update ctx (drop (unat write_len) data) (n - write_len)
         })
      }
      else Some ctx)"

definition xor_key :: "u8 list \<Rightarrow> u8 list \<Rightarrow> nat \<Rightarrow> u8 list" where
  "xor_key pad key n = foldl (\<lambda>p i. p[i := p ! i XOR key ! i]) pad [0..<n]"

definition SHA1_HMAC :: "u8 list \<Rightarrow> u64 \<Rightarrow> u8 list \<Rightarrow> u64 \<Rightarrow> u8 list option" where
  "SHA1_HMAC message message_len key key_len = do {
     (key, key_len) \<leftarrow> (if key_len > 64
        then do {
          ctx \<leftarrow> SHA1_Update SHA1_Init key key_len;
          (ctx, hashed_key) \<leftarrow> SHA1_Final ctx;
          Some (hashed_key, of_nat SHA1_LEN)
        }
        else Some (key, key_len));
     key \<leftarrow> slice key 0 (unat key_len);
     let i_key_pad = xor_key (replicate 64 0x36) key (unat key_len);
     let o_key_pad = xor_key (replicate 64 0x5C) key (unat key_len);
     ctx \<leftarrow> SHA1_Update SHA1_Init i_key_pad 64;
     ctx \<leftarrow> SHA1_Update ctx message message_len;
     (ctx, output) \<leftarrow> SHA1_Final ctx;
     ctx \<leftarrow> SHA1_Update SHA1_Init o_key_pad 64;
     ctx \<leftarrow> SHA1_Update ctx output (of_nat SHA1_LEN);
     (ctx, output) \<leftarrow> SHA1_Final ctx;
     Some output
   }"

section \<open>The algorithm of FIPS 180-4\<close>

definition be_word :: "u8 list \<Rightarrow> u32" where
  "be_word bs = of_le_bytes (rev bs)"

definition be_words :: "u8 list \<Rightarrow> u32 list" where
  "be_words bs = map (\<lambda>i. be_word (take 4 (drop (4 * i) bs))) [0..<16]"

definition fips_rotl :: "nat \<Rightarrow> u32 \<Rightarrow> u32" where
  "fips_rotl n x = word_rotl n x"

definition ft :: "nat \<Rightarrow> u32 \<Rightarrow> u32 \<Rightarrow> u32 \<Rightarrow> u32" where
  "ft t x y z =
     (if t < 20 then (x AND y) XOR (NOT x AND z)
      else if 40 \<le> t \<and> t < 60 then (x AND y) XOR (x AND z) XOR (y AND z)
      else x XOR y XOR z)"

definition Kt :: "nat \<Rightarrow> u32" where
  "Kt t = [0x5a827999, 0x6ed9eba1, 0x8f1bbcdc, 0xca62c1d6] ! (t div 20)"

fun Wt :: "u32 list \<Rightarrow> nat \<Rightarrow> u32" where
  "Wt M t = (if t < 16 then M ! t
             else fips_rotl 1 (Wt M (t - 3) XOR Wt M (t - 8) XOR Wt M (t - 14) XOR Wt M (t - 16)))"

declare Wt.simps [simp del]

fun fips_rounds :: "u32 list \<Rightarrow> nat \<Rightarrow> working \<Rightarrow> working" where
  "fips_rounds M 0 s = s"
| "fips_rounds M (Suc t) s =
     (let (a, b, c, d, e) = fips_rounds M t s
      in (fips_rotl 5 a + ft t b c d + e + Kt t + Wt M t, a, fips_rotl 30 b, c, d))"

definition fips_compress :: "u32 list \<Rightarrow> u8 list \<Rightarrow> u32 list" where
  "fips_compress h block =
     (let (a, b, c, d, e) = fips_rounds (be_words block) 80 (h ! 0, h ! 1, h ! 2, h ! 3, h ! 4)
      in map2 (+) [a, b, c, d, e] h)"

function fips_hash :: "u32 list \<Rightarrow> u8 list \<Rightarrow> u32 list" where
  "fips_hash h bs =
     (if length bs < 64 then h else fips_hash (fips_compress h (take 64 bs)) (drop 64 bs))"
  by pat_completeness auto
termination
  by (relation "measure (\<lambda>(h, bs). length bs)") auto

declare fips_hash.simps [simp del]

definition fips_pad :: "u8 list \<Rightarrow> u8 list" where
  "fips_pad msg = msg @ [0x80] @ replicate ((119 - length msg mod 64) mod 64) 0 @
     rev (le_bytes 8 (of_nat (8 * length msg) :: u64))"

definition fips_init :: "u32 list" where
  "fips_init = [0x67452301, 0xefcdab89, 0x98badcfe, 0x10325476, 0xc3d2e1f0]"

definition sha1 :: "u8 list \<Rightarrow> u8 list" where
  "sha1 msg = concat (map (\<lambda>w. rev (le_bytes 4 w)) (fips_hash fips_init (fips_pad msg)))"

definition hmac :: "(u8 list \<Rightarrow> u8 list) \<Rightarrow> u8 list \<Rightarrow> u8 list \<Rightarrow> u8 list" where
  "hmac H key msg =
     (let k = (if length key > 64 then H key else key);
          k0 = k @ replicate (64 - length k) 0
      in H (map (\<lambda>b. b XOR 0x5C) k0 @ H (map (\<lambda>b. b XOR 0x36) k0 @ msg)))"

section \<open>One block\<close>

lemma bit_reverse_32:
  assumes "k < 32"
  shows "bit (reverse_32 v) k = bit v (8 * (3 - k div 8) + k mod 8)"
proof -
  have "k \<in> set [0..<32]" using assms by simp
  then show ?thesis
    by (simp add: upt_rec reverse_32_def bit_simps) (elim disjE; simp; simp add: eval_nat_numeral)
qed

lemma le_bytes_reverse [byte_simps]: "le_bytes 4 (reverse_32 v) = rev (le_bytes 4 v)"
proof (rule nth_equalityI)
  fix i
  assume "i < length (le_bytes 4 (reverse_32 v))"
  then have i: "i < 4" by simp
  show "le_bytes 4 (reverse_32 v) ! i = rev (le_bytes 4 v) ! i"
  proof (rule bit_word_eqI)
    fix k
    assume "k < LENGTH(8)"
    then have k: "k < 8" by simp
    have ik: "8 * i + k < 32" using i k by simp
    have "(8 * i + k) div 8 = i" "(8 * i + k) mod 8 = k" using k by simp_all
    then have "bit (reverse_32 v) (8 * i + k) = bit v (8 * (3 - i) + k)"
      using bit_reverse_32 [OF ik, of v] by simp
    then show "bit (le_bytes 4 (reverse_32 v) ! i) k = bit (rev (le_bytes 4 v) ! i) k"
      using i k by (simp add: rev_nth bit_simps add.commute)
  qed
qed simp

lemma reverse_of_le_bytes:
  assumes "length bs = 4"
  shows "reverse_32 (of_le_bytes bs) = be_word bs"
proof -
  have "le_bytes 4 (reverse_32 (of_le_bytes bs)) = le_bytes 4 (be_word bs)"
    using assms by (simp add: byte_simps be_word_def)
  then have "(of_le_bytes (le_bytes 4 (reverse_32 (of_le_bytes bs))) :: u32) =
      of_le_bytes (le_bytes 4 (be_word bs))" by simp
  then show ?thesis by (simp add: of_le_bytes_le_bytes)
qed

lemma reverse_block_words: "length bs = 64 \<Longrightarrow> map reverse_32 (block_words bs) = be_words bs"
  by (auto simp: block_words_def be_words_def reverse_of_le_bytes)

lemma ROTL_eq: "0 < n \<Longrightarrow> n < 32 \<Longrightarrow> ROTL x n = fips_rotl n x"
proof (rule bit_word_eqI)
  fix k
  assume n: "0 < n" "n < 32" and "k < LENGTH(32)"
  then have "(k + 32 - n) mod 32 = (if n \<le> k then k - n else 32 + k - n)"
    by (simp add: mod_wrap_once add.commute)
  then show "bit (ROTL x n) k = bit (fips_rotl n x) k"
    using n \<open>k < LENGTH(32)\<close> bit_imp_le_length [of x "32 + k - n"]
    by (auto simp: ROTL_def fips_rotl_def bit_simps)
qed

lemma schedule_prefix:
  assumes "length M = 16" and "16 \<le> n"
  shows "foldl (\<lambda>W t. W @ [ROTL (W ! (t - 3) XOR W ! (t - 8) XOR W ! (t - 14) XOR W ! (t - 16)) 1])
       M [16..<n] = map (Wt M) [0..<n]"
  using assms(2)
proof (induction n rule: dec_induct)
  case base
  show ?case
    by (rule nth_equalityI) (use assms(1) in \<open>simp_all add: Wt.simps\<close>)
next
  case (step n)
  then show ?case
    by (subst (2) upt_Suc) (simp add: ROTL_eq Wt.simps [of M n])
qed

lemma message_schedule_eq: "length M = 16 \<Longrightarrow> message_schedule M = map (Wt M) [0..<80]"
  by (simp only: message_schedule_def schedule_prefix)

lemma sha1_f_eq: "t < 80 \<Longrightarrow> sha1_f (of_nat t) x y z = ft t x y z"
proof -
  assume "t < 80"
  then have "unat (of_nat t :: u8) = t" by (simp add: unat_of_nat take_bit_nat_eq_self)
  then show ?thesis by (auto simp: sha1_f_def ft_def word_le_nat_alt)
qed

lemma sha1_get_k_eq: "t < 80 \<Longrightarrow> sha1_get_k (of_nat t) = Kt t"
proof -
  assume t: "t < 80"
  then have "unat (of_nat t :: u8) = t" by (simp add: unat_of_nat take_bit_nat_eq_self)
  moreover have "t div 20 = (if t \<le> 19 then 0 else if t \<le> 39 then 1 else if t \<le> 59 then 2 else 3)"
    using t by auto
  ultimately show ?thesis using t by (simp add: sha1_get_k_def Kt_def word_le_nat_alt)
qed

lemma rounds_eq:
  assumes "length M = 16" and "n \<le> 80"
  shows "foldl (sha1_round (map (Wt M) [0..<80])) s [0..<n] = fips_rounds M n s"
  using assms(2)
proof (induction n)
  case 0
  then show ?case by simp
next
  case (Suc n)
  then show ?case
    by (simp add: sha1_round_def sha1_f_eq sha1_get_k_eq ROTL_eq Let_def split: prod.split)
qed

lemma length_be_words [simp]: "length (be_words bs) = 16"
  by (simp add: be_words_def)

lemma add_block_compress:
  assumes "length block = 64" and "length (ctx_h ctx) = 5"
  shows "add_block ctx block = ctx\<lparr>ctx_h := fips_compress (ctx_h ctx) block\<rparr>"
proof -
  obtain h0 h1 h2 h3 h4 where h: "ctx_h ctx = [h0, h1, h2, h3, h4]"
    using assms(2) by (auto simp: length_Suc_conv eval_nat_numeral)
  show ?thesis
    using rounds_eq [of "be_words block" 80 "(h0, h1, h2, h3, h4)"] assms(1)
    by (simp add: add_block_def fips_compress_def h reverse_block_words message_schedule_eq
        Let_def split: prod.split)
qed

section \<open>The streaming interface\<close>

text \<open>
  \<^verbatim>\<open>sha1_rel ctx msg\<close>: the context has absorbed exactly the message \<^verbatim>\<open>msg\<close>.
\<close>

definition sha1_rel :: "SHA1_CTX \<Rightarrow> u8 list \<Rightarrow> bool" where
  "sha1_rel ctx msg \<longleftrightarrow>
     (let n = length msg; full = 64 * (n div 64) in
      ctx_h ctx = fips_hash fips_init (take full msg) \<and> length (ctx_block ctx) = 64 \<and>
      take (n mod 64) (ctx_block ctx) = drop full msg \<and>
      ctx_active_len ctx = of_nat (n mod 64) \<and> ctx_len ctx = of_nat n)"

lemma length_fips_compress: "length h = 5 \<Longrightarrow> length (fips_compress h block) = 5"
  by (auto simp: fips_compress_def Let_def split: prod.split)

lemma length_fips_hash: "length h = 5 \<Longrightarrow> length (fips_hash h bs) = 5"
proof (induction h bs rule: fips_hash.induct)
  case (1 h bs)
  then show ?case by (subst fips_hash.simps) (auto simp: length_fips_compress)
qed

lemma length_fips_init [simp]: "length fips_init = 5"
  by (simp add: fips_init_def)

lemma fips_hash_append:
  "64 dvd length xs \<Longrightarrow> fips_hash h (xs @ ys) = fips_hash (fips_hash h xs) ys"
proof (induction h xs rule: fips_hash.induct)
  case (1 h xs)
  show ?case
  proof (cases "length xs < 64")
    case True
    then have "xs = []" using "1.prems" by (auto dest: dvd_imp_le)
    then show ?thesis by (simp add: fips_hash.simps [of h "[]"])
  next
    case False
    have "64 dvd length (drop 64 xs)" using "1.prems" by (simp add: dvd_minus_self)
    then have IH: "fips_hash (fips_compress h (take 64 xs)) (drop 64 xs @ ys) =
        fips_hash (fips_hash (fips_compress h (take 64 xs)) (drop 64 xs)) ys"
      using "1.IH" [OF False] by blast
    have "fips_hash h (xs @ ys) = fips_hash (fips_compress h (take 64 xs)) (drop 64 xs @ ys)"
      using False by (simp add: fips_hash.simps [of h "xs @ ys"])
    moreover have "fips_hash h xs = fips_hash (fips_compress h (take 64 xs)) (drop 64 xs)"
      using False by (simp add: fips_hash.simps [of h xs])
    ultimately show ?thesis using IH by simp
  qed
qed

lemma fips_hash_one: "length bs = 64 \<Longrightarrow> fips_hash h bs = fips_compress h bs"
  by (simp add: fips_hash.simps)

lemma sha1_rel_init: "sha1_rel SHA1_Init []"
  by (simp add: sha1_rel_def SHA1_Init_def BLOCK_BYTES_def fips_init_def fips_hash.simps [of _ "[]"])

text \<open>One trip of the loop of \<^verbatim>\<open>SHA1_Update\<close>: either everything fits, or a block is completed.\<close>

lemma sha1_rel_active:
  assumes "sha1_rel ctx msg"
  shows "unat (ctx_active_len ctx) = length msg mod 64"
proof -
  have "length msg mod 64 < 64" by simp
  then have "length msg mod 64 < 2 ^ 64" by (rule less_trans) simp
  then show ?thesis using assms by (simp add: sha1_rel_def Let_def unat_of_nat_u64)
qed

lemma sha1_rel_extend:
  assumes rel: "sha1_rel ctx msg" and fits: "length msg mod 64 + length xs < 64"
  shows "sha1_rel (ctx\<lparr>ctx_block := take (length msg mod 64) (ctx_block ctx) @ xs @
       drop (length msg mod 64 + length xs) (ctx_block ctx),
     ctx_len := ctx_len ctx + of_nat (length xs),
     ctx_active_len := ctx_active_len ctx + of_nat (length xs)\<rparr>) (msg @ xs)"
proof -
  let ?n = "length msg"
  have n: "64 * (?n div 64) + ?n mod 64 = ?n" by simp
  have "(?n + length xs) div 64 = ?n div 64" "(?n + length xs) mod 64 = ?n mod 64 + length xs"
    using div_mod_extend [OF fits] by simp_all
  moreover have "?n - 64 * (?n div 64) = ?n mod 64" using n by linarith
  ultimately show ?thesis using rel
    by (simp add: sha1_rel_def Let_def)
qed

lemma sha1_rel_block:
  assumes rel: "sha1_rel ctx msg" and fits: "length msg mod 64 + length xs = 64"
  shows "sha1_rel ((add_block ctx (take (length msg mod 64) (ctx_block ctx) @ xs))
     \<lparr>ctx_block := replicate 64 0, ctx_len := ctx_len ctx + of_nat (length xs), ctx_active_len := 0\<rparr>) (msg @ xs)"
proof -
  let ?n = "length msg"
  have n: "64 * (?n div 64) + ?n mod 64 = ?n" by simp
  have d: "(?n + length xs) div 64 = Suc (?n div 64)" "(?n + length xs) mod 64 = 0"
    using div_mod_complete [OF fits] by simp_all
  have all: "64 * Suc (?n div 64) = length (msg @ xs)"
  proof -
    have "64 * Suc (?n div 64) = (?n mod 64 + length xs) + 64 * (?n div 64)"
      by (simp only: fits mult_Suc_right)
    also have "\<dots> = (64 * (?n div 64) + ?n mod 64) + length xs" by (simp only: ac_simps)
    finally show ?thesis by (simp only: n length_append)
  qed
  have h5: "length (ctx_h ctx) = 5" using rel by (simp add: sha1_rel_def Let_def length_fips_hash)
  have blk: "take (?n mod 64) (ctx_block ctx) @ xs = drop (64 * (?n div 64)) msg @ xs"
    using rel by (simp add: sha1_rel_def Let_def)
  have len: "length (drop (64 * (?n div 64)) msg @ xs) = 64"
    using all by simp
  have "fips_hash fips_init (msg @ xs) =
      fips_hash (fips_hash fips_init (take (64 * (?n div 64)) msg)) (drop (64 * (?n div 64)) msg @ xs)"
  proof -
    have "length (take (64 * (?n div 64)) msg) = 64 * (?n div 64)"
      by (simp only: length_take)
    then have "64 dvd length (take (64 * (?n div 64)) msg)" by simp
    from fips_hash_append [OF this, of fips_init "drop (64 * (?n div 64)) msg @ xs"]
    show ?thesis by (simp only: append_assoc [symmetric] append_take_drop_id)
  qed
  also have "\<dots> = fips_compress (ctx_h ctx) (drop (64 * (?n div 64)) msg @ xs)"
    using rel fips_hash_one [OF len] by (simp add: sha1_rel_def Let_def)
  finally have hash: "fips_hash fips_init (msg @ xs) =
      fips_compress (ctx_h ctx) (drop (64 * (?n div 64)) msg @ xs)" .
  have "ctx_len ctx = of_nat ?n" using rel by (simp add: sha1_rel_def Let_def)
  then show ?thesis
    unfolding sha1_rel_def Let_def blk add_block_compress [OF len h5]
    using hash d all by simp
qed

lemma SHA1_Update_step:
  assumes "n > 0" and "w = (if ctx_active_len ctx + n > 64 then 64 - ctx_active_len ctx else n)"
    and "slice data 0 (unat w) = Some bytes"
    and "blit (ctx_block ctx) (unat (ctx_active_len ctx)) bytes = Some block"
  shows "SHA1_Update ctx data n =
    (if ctx_active_len ctx + w \<noteq> 64
     then Some (ctx\<lparr>ctx_block := block, ctx_len := ctx_len ctx + w,
                    ctx_active_len := ctx_active_len ctx + w\<rparr>)
     else SHA1_Update ((add_block ctx block)
            \<lparr>ctx_block := replicate 64 0, ctx_len := ctx_len ctx + w, ctx_active_len := 0\<rparr>)
          (drop (unat w) data) (n - w))"
proof -
  have "(add_block (ctx\<lparr>ctx_block := block, ctx_len := l, ctx_active_len := a\<rparr>) block)
      \<lparr>ctx_block := replicate 64 0, ctx_active_len := 0\<rparr> =
    (add_block ctx block)\<lparr>ctx_block := replicate 64 0, ctx_len := l, ctx_active_len := 0\<rparr>" for l a
    by (simp add: add_block_def Let_def split: prod.split)
  note frame = this
  show ?thesis
  proof (cases "ctx_active_len ctx + n > 64")
    case True
    then have w: "w = 64 - ctx_active_len ctx" using assms(2) by simp
    show ?thesis using assms(1,3,4) True unfolding w
      by (subst SHA1_Update.simps)
        (simp add: BLOCK_BYTES_def Let_def frame del: slice_Some_iff blit_Some_iff)
  next
    case False
    then have w: "w = n" using assms(2) by simp
    show ?thesis using assms(1,3,4) False unfolding w
      by (subst SHA1_Update.simps)
        (simp add: BLOCK_BYTES_def Let_def frame del: slice_Some_iff blit_Some_iff)
  qed
qed

lemma sha1_update:
  assumes "sha1_rel ctx msg" and "unat n \<le> length data" and "unat n < 2 ^ 63"
  shows "\<exists>ctx'. SHA1_Update ctx data n = Some ctx' \<and> sha1_rel ctx' (msg @ take (unat n) data)"
  using assms
proof (induction "unat n" arbitrary: ctx msg n data rule: less_induct)
  case less
  show ?case
  proof (cases "n = 0")
    case True
    then show ?thesis using less.prems(1) by (simp add: SHA1_Update.simps)
  next
    case False
    let ?r = "length msg mod 64"
    define w where "w = (if ctx_active_len ctx + n > 64 then 64 - ctx_active_len ctx else n)"
    have pos: "0 < unat n" "n > 0" using False by (simp_all add: unat_gt_0 word_gt_0)
    have r: "unat (ctx_active_len ctx) = ?r" using less.prems(1) by (rule sha1_rel_active)
    have r64: "?r < 64" by simp
    have sum: "unat (ctx_active_len ctx + n) = ?r + unat n"
    proof -
      have "?r + unat n < 64 + 2 ^ 63" by (rule add_strict_mono [OF r64 less.prems(3)])
      also have "\<dots> < 2 ^ LENGTH(64)" by simp
      finally show ?thesis unfolding r [symmetric] by (rule unat_add_le)
    qed
    have w: "unat w = (if ?r + unat n > 64 then 64 - ?r else unat n)"
      using sum r r64 by (auto simp: w_def word_less_nat_alt unat_sub_le)
    have wn: "unat w \<le> unat n" "?r + unat w \<le> 64" "0 < unat w" using w r64 pos(1) by auto
    have bytes: "slice data 0 (unat w) = Some (take (unat w) data)"
      using wn(1) less.prems(2) by simp
    have len: "length (take (unat w) data) = unat w" using wn(1) less.prems(2) by simp
    have blk: "length (ctx_block ctx) = 64" using less.prems(1) by (simp add: sha1_rel_def Let_def)
    let ?b = "take ?r (ctx_block ctx) @ take (unat w) data @ drop (?r + unat w) (ctx_block ctx)"
    have put: "blit (ctx_block ctx) ?r (take (unat w) data) = Some ?b"
      using wn(1,2) blk less.prems(2) by simp
    have wof: "of_nat (length (take (unat w) data)) = w" by (simp only: len) simp
    have act: "ctx_active_len ctx + w = 64 \<longleftrightarrow> ?r + unat w = 64"
    proof -
      have "unat (ctx_active_len ctx + w) = ?r + unat w"
        using wn(2) r by (subst unat_add_le) simp_all
      moreover have "unat (64 :: u64) = 64" by simp
      ultimately show ?thesis by (metis unsigned_word_eqI)
    qed
    show ?thesis
    proof (cases "?r + unat w = 64")
      case True
      let ?m = "msg @ take (unat w) data"
      define ctx1 where "ctx1 = (add_block ctx (take ?r (ctx_block ctx) @ take (unat w) data))
        \<lparr>ctx_block := replicate 64 0, ctx_len := ctx_len ctx + w, ctx_active_len := 0\<rparr>"
      have rel1: "sha1_rel ctx1 ?m"
        using sha1_rel_block [OF less.prems(1), of "take (unat w) data"] True
        unfolding ctx1_def wof len by simp
      have step: "SHA1_Update ctx data n = SHA1_Update ctx1 (drop (unat w) data) (n - w)"
        using SHA1_Update_step [OF pos(2) w_def bytes] put act True r blk
        by (simp add: ctx1_def)
      have sub: "unat (n - w) = unat n - unat w" using wn(1) by (rule unat_sub_le)
      then have lt: "unat (n - w) < unat n" using wn(3) pos(1) by simp
      have fit: "unat (n - w) \<le> length (drop (unat w) data)"
        using less.prems(2) by (simp add: sub diff_le_mono)
      have "unat (n - w) < 2 ^ 63" using lt less.prems(3) by (rule less_trans)
      from less.hyps [OF lt rel1 fit this] obtain ctx' where "SHA1_Update ctx1 (drop (unat w) data) (n - w) = Some ctx'"
        "sha1_rel ctx' (?m @ take (unat (n - w)) (drop (unat w) data))"
        by blast
      moreover have "?m @ take (unat (n - w)) (drop (unat w) data) = msg @ take (unat n) data"
        using wn(1) by (simp add: sub take_add [symmetric])
      ultimately show ?thesis using step by simp
    next
      case False
      then have lt: "?r + length (take (unat w) data) < 64" using wn(2) len by simp
      have "unat w = unat n" using w False wn(2) by (auto split: if_splits)
      then have "w = n" by (rule unsigned_word_eqI)
      have "SHA1_Update ctx data n =
          Some (ctx\<lparr>ctx_block := ?b, ctx_len := ctx_len ctx + w, ctx_active_len := ctx_active_len ctx + w\<rparr>)"
        using SHA1_Update_step [OF pos(2) w_def bytes] put act False r by simp
      then show ?thesis using sha1_rel_extend [OF less.prems(1) lt] \<open>w = n\<close>
        unfolding wof len by simp
    qed
  qed
qed

section \<open>Padding\<close>

lemma blit_fill:
  "blit (xs @ replicate (length ys + n) z) (length xs) ys = Some (xs @ ys @ replicate n z)"
  by simp

lemma blit_zeros:
  assumes "length xs \<le> off" and "off + k \<le> length xs + n"
  shows "blit (xs @ replicate n z) off (replicate k z) = Some (xs @ replicate n z)"
proof -
  let ?l = "xs @ replicate n z"
  have "replicate k z = take k (drop off ?l)" using assms by simp
  then have "take off ?l @ replicate k z @ drop (off + k) ?l = ?l"
    by (metis add.commute append_take_drop_id drop_drop)
  then show ?thesis using assms by (simp del: take_append drop_append)
qed

lemma rev_le_bytes_8:
  "rev (le_bytes 8 l) =
     le_bytes 4 (reverse_32 (ucast (drop_bit 32 l))) @ le_bytes 4 (reverse_32 (ucast (l AND 0xFFFFFFFF)))"
  for l :: u64
proof -
  have lo: "(ucast (l AND 0xFFFFFFFF) :: u32) = ucast l"
  proof -
    have "(0xFFFFFFFF :: u64) = mask 32" by (simp add: mask_eq_exp_minus_1)
    then have "l AND 0xFFFFFFFF = l AND mask 32" by simp
    then show ?thesis by (simp only:) (rule bit_word_eqI, simp add: bit_and_iff bit_mask_iff bit_simps)
  qed
  have "le_bytes 8 l = le_bytes 4 (ucast l :: u32) @ le_bytes 4 (ucast (drop_bit 32 l) :: u32)"
  proof (rule nth_equalityI)
    fix i
    assume "i < length (le_bytes 8 l)"
    then have "i < 8" by simp
    then show "le_bytes 8 l ! i = (le_bytes 4 (ucast l :: u32) @ le_bytes 4 (ucast (drop_bit 32 l) :: u32)) ! i"
      by (cases "i < 4") (auto simp: nth_append bit_simps ac_simps dest!: le_Suc_ex [of 4, folded not_less]
        intro!: bit_word_eqI)
  qed simp
  then show ?thesis by (simp add: lo le_bytes_reverse)
qed

text \<open>
  The padding routine turns the incomplete block, of \<^verbatim>\<open>r\<close> bytes, into the rest of the padded message.
\<close>

lemma pad_sha1_message_eq:
  assumes "r < 64" and "length M = 64"
  shows "pad_sha1_message M l (of_nat (8 * r)) =
    Some (let z = (119 - r) mod 64; body = take r M @ [0x80] @ replicate z 0 @ rev (le_bytes 8 l)
      in body @ replicate (128 - length body) 0)"
proof -
  let ?a = "of_nat (8 * r) :: u64" and ?z = "(119 - r) mod 64"
  have z: "?z = (if r < 56 then 55 - r else 119 - r)" using assms(1) by (simp add: mod_wrap_once)
  have u: "unat ?a = 8 * r" using assms(1) by (intro unat_of_nat_u64) simp
  have d: "unat (?a div 8) = r" by (simp only: unat_div u) simp
  have num: "ARRAY_NUM ?a = r"
  proof -
    have "unat (?a mod 8) = 0" by (simp only: unat_mod u) simp
    then have "?a mod 8 = 0" by (simp only: unat_eq_0)
    then show ?thesis by (simp only: ARRAY_NUM_def d) simp
  qed
  define rest where "rest = (?a + 1) mod 512"
  have rest: "unat rest = 8 * r + 1"
  proof -
    have "unat (?a + 1) = 8 * r + 1" using assms(1) u by (subst unat_add_le) simp_all
    then show ?thesis using assms(1) by (simp only: rest_def unat_mod) simp
  qed
  define k where "k = unat (if rest < 448 then 448 - rest else 512 - rest + 448)"
  have k: "k div 8 = ?z"
  proof (cases "r < 56")
    case True
    then have "rest < 448" using rest by (simp add: word_less_nat_alt)
    then have "k = 447 - 8 * r" using rest by (simp add: k_def unat_sub_le word_less_nat_alt)
    then show ?thesis using True by (simp add: z)
  next
    case False
    then have "\<not> rest < 448" using rest by (simp add: word_less_nat_alt)
    moreover have "unat (512 - rest) = 511 - 8 * r" using rest assms(1) by (simp add: unat_sub_le)
    moreover have "unat (512 - rest + 448) = 959 - 8 * r"
      using calculation(2) assms(1) by (subst unat_add_le) simp_all
    ultimately have "k = 959 - 8 * r" by (simp add: k_def)
    then show ?thesis using False assms(1) by (simp add: z)
  qed
  let ?hi = "le_bytes 4 (reverse_32 (ucast (drop_bit 32 l)))"
  let ?lo = "le_bytes 4 (reverse_32 (ucast (l AND 0xFFFFFFFF)))"
  let ?n = "128 - (r + 1 + ?z + 8)"
  have zr: "r + 1 + ?z + 8 \<le> 128" "r + 2 + ?z \<le> 128" using z assms(1) by auto
  have s1: "slice M 0 r = Some (take r M)" using assms by simp
  have s2: "blit (replicate 128 0) 0 (take r M) = Some (take r M @ replicate (128 - r) 0)"
    using assms by simp
  have s3: "blit (take r M @ replicate (128 - r) 0) r [0x80] =
      Some ((take r M @ [0x80]) @ replicate (127 - r) 0)"
    using blit_fill [of "take r M" "[0x80]" "127 - r" 0] assms
    by (simp add: Suc_diff_Suc Suc_diff_le)
  have s4: "blit ((take r M @ [0x80]) @ replicate (127 - r) 0) (r + 2) (replicate ?z 0) =
      Some ((take r M @ [0x80]) @ replicate (127 - r) 0)"
    using assms zr by (intro blit_zeros) simp_all
  have s5: "(take r M @ [0x80]) @ replicate (127 - r) 0 =
      (take r M @ [0x80] @ replicate ?z 0) @ replicate (4 + (4 + ?n)) (0 :: u8)"
  proof -
    have "127 - r = ?z + (4 + (4 + ?n))" using zr(1) by linarith
    then show ?thesis by (simp only: replicate_add append_assoc)
  qed
  have s6: "blit ((take r M @ [0x80] @ replicate ?z 0) @ replicate (4 + (4 + ?n)) 0) (r + ?z + 1) ?hi =
      Some ((take r M @ [0x80] @ replicate ?z 0 @ ?hi) @ replicate (4 + ?n) 0)"
    using blit_fill [of "take r M @ [0x80] @ replicate ?z 0" ?hi "4 + ?n" 0] assms by simp
  have s7: "blit ((take r M @ [0x80] @ replicate ?z 0 @ ?hi) @ replicate (4 + ?n) 0) (r + ?z + 1 + 4) ?lo =
      Some (take r M @ [0x80] @ replicate ?z 0 @ ?hi @ ?lo @ replicate ?n 0)"
    using blit_fill [of "take r M @ [0x80] @ replicate ?z 0 @ ?hi" ?lo ?n 0] assms by simp
  have "pad_sha1_message M l ?a =
      Some (take r M @ [0x80] @ replicate ?z 0 @ ?hi @ ?lo @ replicate ?n 0)"
    unfolding pad_sha1_message_def Let_def num d rest_def [symmetric] k_def [symmetric] k
    using s1 s2 s3 s4 s6 s7 by (simp only: s5) (simp del: blit_Some_iff slice_Some_iff)
  then show ?thesis using assms zr(1) by (simp add: Let_def rev_le_bytes_8)
qed

lemma fips_pad_split:
  fixes msg :: "u8 list"
  defines "r \<equiv> length msg mod 64" and "full \<equiv> 64 * (length msg div 64)"
  shows "fips_pad msg = take full msg @ drop full msg @ [0x80] @ replicate ((119 - r) mod 64) 0 @
      rev (le_bytes 8 (of_nat (8 * length msg) :: u64))"
  by (simp add: fips_pad_def r_def)

lemma fips_hash_two:
  assumes "length bs = 128"
  shows "fips_hash h bs = fips_compress (fips_compress h (take 64 bs)) (drop 64 bs)"
proof -
  have "fips_hash h (take 64 bs @ drop 64 bs) = fips_hash (fips_hash h (take 64 bs)) (drop 64 bs)"
    by (rule fips_hash_append) (simp add: assms)
  then show ?thesis using assms by (simp add: fips_hash_one)
qed

lemma fips_hash_last:
  assumes "sha1_rel ctx msg"
  shows "fips_hash fips_init (fips_pad msg) =
    fips_hash (ctx_h ctx) (take (length msg mod 64) (ctx_block ctx) @ [0x80] @
      replicate ((119 - length msg mod 64) mod 64) 0 @ rev (le_bytes 8 (ctx_len ctx * 8)))"
proof -
  let ?full = "64 * (length msg div 64)"
  have "length (take ?full msg) = ?full" by (simp only: length_take)
  then have "64 dvd length (take ?full msg)" by simp
  moreover have "of_nat (8 * length msg) = ctx_len ctx * 8"
    using assms by (simp add: sha1_rel_def Let_def mult.commute)
  ultimately show ?thesis
    using assms by (simp only: fips_pad_split fips_hash_append) (simp add: sha1_rel_def Let_def)
qed

lemma pad_length: "r < 64 \<Longrightarrow> r + (1 + ((119 - r) mod 64 + 8)) = (if r < 56 then 64 else 128)" for r :: nat
  by (auto simp: mod_wrap_once)

lemma sha1_final:
  assumes "sha1_rel ctx msg"
  shows "\<exists>ctx'. SHA1_Final ctx = Some (ctx', sha1 msg)"
proof -
  let ?r = "length msg mod 64" and ?M = "ctx_block ctx" and ?l = "ctx_len ctx * 8"
  let ?z = "(119 - ?r) mod 64"
  define body where "body = take ?r ?M @ [0x80] @ replicate ?z 0 @ rev (le_bytes 8 ?l)"
  define block where "block = body @ replicate (128 - length body) 0"
  have r: "?r < 64" by simp
  have M: "length ?M = 64" using assms by (simp add: sha1_rel_def Let_def)
  have h5: "length (ctx_h ctx) = 5" using assms by (simp add: sha1_rel_def Let_def length_fips_hash)
  have act: "ctx_active_len ctx * 8 = of_nat (8 * ?r)"
    using assms by (simp add: sha1_rel_def Let_def)
  have pad: "pad_sha1_message ?M ?l (of_nat (8 * ?r)) = Some block"
    using pad_sha1_message_eq [OF r M, of ?l] by (simp only: Let_def block_def body_def)
  have body: "length body = (if ?r < 56 then 64 else 128)"
    using M pad_length [OF r] by (simp add: body_def)
  have long: "(of_nat (8 * ?r) + 1) mod 512 \<ge> (448 :: u64) \<longleftrightarrow> \<not> ?r < 56"
  proof -
    have u: "unat (of_nat (8 * ?r) :: u64) = 8 * ?r" using r by (intro unat_of_nat_u64) simp
    have "unat (of_nat (8 * ?r) + 1 :: u64) = 8 * ?r + 1"
      using r u by (subst unat_add_le) (simp_all only: u unsigned_1, simp)
    then have "unat ((of_nat (8 * ?r) + 1) mod 512 :: u64) = 8 * ?r + 1"
      using r by (simp only: unat_mod) simp
    moreover have "447 \<le> 8 * x \<longleftrightarrow> \<not> x < 56" for x :: nat by linarith
    ultimately show ?thesis by (simp add: word_le_nat_alt)
  qed
  define ctx1 where "ctx1 = add_block ctx (take 64 block)"
  define ctx2 where "ctx2 = (if ?r < 56 then ctx1 else add_block ctx1 (drop 64 block))"
  have len128: "length block = 128" using body by (simp add: block_def split: if_splits)
  note last = fips_hash_last [OF assms, folded body_def]
  have c1: "ctx1 = ctx\<lparr>ctx_h := fips_compress (ctx_h ctx) (take 64 block)\<rparr>"
    unfolding ctx1_def using len128 h5 by (intro add_block_compress) simp_all
  have hash: "ctx_h ctx2 = fips_hash fips_init (fips_pad msg)"
  proof (cases "?r < 56")
    case True
    then have b: "length body = 64" using body by simp
    then have "take 64 block = body" by (simp add: block_def)
    then show ?thesis
      using True by (simp add: ctx2_def c1 last fips_hash_one [OF b])
  next
    case False
    then have b: "length body = 128" using body by simp
    then have "block = body" by (simp add: block_def)
    moreover have "add_block ctx1 (drop 64 block) =
        ctx1\<lparr>ctx_h := fips_compress (ctx_h ctx1) (drop 64 block)\<rparr>"
      using len128 h5 by (intro add_block_compress) (simp_all add: c1 length_fips_compress)
    ultimately show ?thesis
      using False by (simp add: ctx2_def c1 last fips_hash_two [OF b])
  qed
  have "SHA1_Final ctx = Some (ctx2\<lparr>ctx_h := map reverse_32 (ctx_h ctx2)\<rparr>,
      concat (map (le_bytes 4) (map reverse_32 (ctx_h ctx2))))"
    unfolding SHA1_Final_def BLOCK_BYTES_def act
    using long by (simp only: pad) (simp add: Let_def ctx1_def ctx2_def del: of_nat_mult of_nat_mod)
  then show ?thesis by (simp add: hash sha1_def le_bytes_reverse comp_def)
qed

section \<open>The interface of a streaming hash\<close>

text \<open>
  \<^verbatim>\<open>rel c m\<close> says that context \<^verbatim>\<open>c\<close> has absorbed message \<^verbatim>\<open>m\<close>.  Clients (HMAC below and the entropy
  pool of \<^verbatim>\<open>csprng.c\<close>) only rely on these laws.
\<close>

locale stream_hash =
  fixes rel :: "'c \<Rightarrow> u8 list \<Rightarrow> bool"
    and init :: "'c"
    and update :: "'c \<Rightarrow> u8 list \<Rightarrow> u64 \<Rightarrow> 'c option"
    and final :: "'c \<Rightarrow> ('c \<times> u8 list) option"
    and H :: "u8 list \<Rightarrow> u8 list"
  assumes init_law: "rel init []"
    and update_law: "rel c m \<Longrightarrow> unat n \<le> length xs \<Longrightarrow> unat n < 2 ^ 63 \<Longrightarrow>
      \<exists>c'. update c xs n = Some c' \<and> rel c' (m @ take (unat n) xs)"
    and final_law: "rel c m \<Longrightarrow> \<exists>c'. final c = Some (c', H m)"
begin

lemma update_all:
  assumes "rel c m" and "length xs < 2 ^ 63"
  shows "\<exists>c'. update c xs (of_nat (length xs)) = Some c' \<and> rel c' (m @ xs)"
proof -
  have "unat (of_nat (length xs) :: u64) = length xs"
    using assms(2) by (intro unat_of_nat_u64) simp
  then show ?thesis using update_law [OF assms(1), of "of_nat (length xs)" xs] assms(2) by simp
qed

lemma hash_one:
  assumes "length xs < 2 ^ 63"
  shows "\<exists>c c'. update init xs (of_nat (length xs)) = Some c \<and> final c = Some (c', H xs)"
  using update_all [OF init_law assms] final_law by force

lemma hash_two:
  assumes "length xs < 2 ^ 63" and "length ys < 2 ^ 63"
  shows "\<exists>c c' c''. update init xs (of_nat (length xs)) = Some c \<and>
     update c ys (of_nat (length ys)) = Some c' \<and> final c' = Some (c'', H (xs @ ys))"
proof -
  obtain c where c: "update init xs (of_nat (length xs)) = Some c" "rel c xs"
    using update_all [OF init_law assms(1)] by auto
  obtain c' where "update c ys (of_nat (length ys)) = Some c'" "rel c' (xs @ ys)"
    using update_all [OF c(2) assms(2)] by blast
  then show ?thesis using c(1) final_law by blast
qed

lemma absorb_chunks:
  assumes "rel c m" and "\<forall>xs \<in> set xss. length xs < 2 ^ 63"
  shows "\<exists>c'. foldl (\<lambda>oc xs. oc \<bind> (\<lambda>c. update c xs (of_nat (length xs)))) (Some c) xss = Some c' \<and>
     rel c' (m @ concat xss)"
  using assms
proof (induction xss arbitrary: c m)
  case Nil
  then show ?case by simp
next
  case (Cons xs xss)
  obtain c1 where c1: "update c xs (of_nat (length xs)) = Some c1" "rel c1 (m @ xs)"
    using update_all [OF Cons.prems(1)] Cons.prems(2) by auto
  show ?case using Cons.IH [OF c1(2)] Cons.prems(2) c1(1) by simp
qed

end

interpretation sha: stream_hash sha1_rel SHA1_Init SHA1_Update SHA1_Final sha1
  by unfold_locales (simp_all add: sha1_rel_init sha1_update sha1_final)

section \<open>HMAC\<close>

lemma xor_key_nth:
  "length (xor_key pad key n) = length pad \<and>
   (\<forall>i<length pad. xor_key pad key n ! i = (if i < n then pad ! i XOR key ! i else pad ! i))"
proof (induction n)
  case 0
  then show ?case by (simp add: xor_key_def)
next
  case (Suc n)
  have "xor_key pad key (Suc n) = (xor_key pad key n)[n := xor_key pad key n ! n XOR key ! n]"
    by (simp add: xor_key_def)
  then show ?case using Suc by (auto simp: nth_list_update less_Suc_eq)
qed

lemma xor_key_eq:
  assumes "length key \<le> 64"
  shows "xor_key (replicate 64 c) key (length key) =
    map (\<lambda>b. b XOR c) (key @ replicate (64 - length key) 0)"
  using assms xor_key_nth [of "replicate 64 c" key "length key"]
  by (intro nth_equalityI) (auto simp: nth_append xor.commute)

lemma length_sha1 [simp]: "length (sha1 msg) = 20"
proof -
  obtain a b c d e where "fips_hash fips_init (fips_pad msg) = [a, b, c, d, e]"
    using length_fips_hash [of fips_init "fips_pad msg"]
    by (auto simp: length_Suc_conv eval_nat_numeral)
  then show ?thesis by (simp add: sha1_def)
qed

section \<open>Properties\<close>

text \<open>
  C4 (SHA1_streaming): however a message is cut into calls of \<^verbatim>\<open>SHA1_Update\<close>, the calls return, and
  \<^verbatim>\<open>SHA1_Final\<close> then delivers the SHA-1 digest of FIPS 180-4 of the whole message.
\<close>

theorem SHA1_streaming:
  assumes "\<forall>xs \<in> set xss. length xs < 2 ^ 63"
  shows "\<exists>ctx ctx'. foldl (\<lambda>oc xs. oc \<bind> (\<lambda>c. SHA1_Update c xs (of_nat (length xs)))) (Some SHA1_Init) xss =
      Some ctx \<and> SHA1_Final ctx = Some (ctx', sha1 (concat xss))"
  using sha.absorb_chunks [OF sha.init_law assms] sha.final_law by fastforce

theorem SHA1_streaming_witness:
  "\<exists>c1 c2 c3. SHA1_Update SHA1_Init [97] 1 = Some c1 \<and> SHA1_Update c1 [98, 99] 2 = Some c2 \<and>
     SHA1_Final c2 = Some (c3, sha1 [97, 98, 99])"
proof -
  have "\<forall>xs \<in> set [[97 :: u8], [98, 99]]. length xs < 2 ^ 63" by simp
  from SHA1_streaming [OF this] show ?thesis by (auto split: bind_splits)
qed

text \<open>
  C27 (add_block_is_compression): on a 64-byte block, \<^verbatim>\<open>add_block\<close> is the compression function of FIPS 180-4:
  the schedule array, the round functions on \<^verbatim>\<open>uint8_t\<close> indices, the constants and the byte
  swapping agree with the recursive definitions, and the rest of the context is unchanged.
\<close>

theorem add_block_is_compression:
  assumes "length block = 64" and "length (ctx_h ctx) = 5"
  shows "add_block ctx block = ctx\<lparr>ctx_h := fips_compress (ctx_h ctx) block\<rparr>"
  using assms by (rule add_block_compress)

theorem add_block_is_compression_witness:
  "ctx_h (add_block SHA1_Init (replicate 64 7)) = fips_compress (ctx_h SHA1_Init) (replicate 64 7)"
  by (subst add_block_is_compression) (simp_all add: SHA1_Init_def)

text \<open>
  C28 (SHA1_HMAC_correct): \<^verbatim>\<open>SHA1_HMAC\<close> returns the HMAC of RFC 2104 over SHA-1, for keys shorter and longer
  than a block.
\<close>

theorem SHA1_HMAC_correct:
  assumes "length message < 2 ^ 63" and "length key < 2 ^ 63"
  shows "SHA1_HMAC message (of_nat (length message)) key (of_nat (length key)) =
    Some (hmac sha1 key message)"
proof -
  have inner: "\<exists>c c' c''. SHA1_Update SHA1_Init ip 64 = Some c \<and>
      SHA1_Update c message (of_nat (length message)) = Some c' \<and>
      SHA1_Final c' = Some (c'', sha1 (ip @ message))" if "length ip = 64" for ip
    using sha.hash_two [of ip message] that assms(1) by simp
  have outer: "\<exists>c c' c''. SHA1_Update SHA1_Init op 64 = Some c \<and>
      SHA1_Update c d (of_nat SHA1_LEN) = Some c' \<and>
      SHA1_Final c' = Some (c'', sha1 (op @ d))" if "length op = 64" "length d = 20" for op d
    using sha.hash_two [of op d] that by (simp add: SHA1_LEN_def)
  have rest: "do { let ip = xor_key (replicate 64 0x36) k (length k);
       let op = xor_key (replicate 64 0x5C) k (length k);
       ctx \<leftarrow> SHA1_Update SHA1_Init ip 64;
       ctx \<leftarrow> SHA1_Update ctx message (of_nat (length message));
       (ctx, output) \<leftarrow> SHA1_Final ctx;
       ctx \<leftarrow> SHA1_Update SHA1_Init op 64;
       ctx \<leftarrow> SHA1_Update ctx output (of_nat SHA1_LEN);
       (ctx, output) \<leftarrow> SHA1_Final ctx;
       Some output } =
     Some (sha1 (map (\<lambda>b. b XOR 0x5C) (k @ replicate (64 - length k) 0) @
       sha1 (map (\<lambda>b. b XOR 0x36) (k @ replicate (64 - length k) 0) @ message)))"
    if k: "length k \<le> 64" for k
  proof -
    let ?ip = "xor_key (replicate 64 0x36) k (length k)" and ?op = "xor_key (replicate 64 0x5C) k (length k)"
    have "length ?ip = 64" "length ?op = 64" using xor_key_nth by simp_all
    then show ?thesis
      using inner [of ?ip] outer [of ?op "sha1 (?ip @ message)"] xor_key_eq [OF k]
      by (auto simp: Let_def)
  qed
  have len: "unat (of_nat (length key) :: u64) = length key"
    using assms(2) by (intro unat_of_nat_u64) simp
  show ?thesis
  proof (cases "length key > 64")
    case True
    obtain c c' where "SHA1_Update SHA1_Init key (of_nat (length key)) = Some c"
      "SHA1_Final c = Some (c', sha1 key)" using sha.hash_one [OF assms(2)] by blast
    then show ?thesis
      using True rest [of "sha1 key"] len
      by (simp add: SHA1_HMAC_def hmac_def word_less_nat_alt SHA1_LEN_def slice_def Let_def)
  next
    case False
    then show ?thesis
      using rest [of key] len
      by (simp add: SHA1_HMAC_def hmac_def word_less_nat_alt slice_def Let_def)
  qed
qed

theorem SHA1_HMAC_correct_witness:
  "SHA1_HMAC [1, 2] 2 [3] 1 = Some (hmac sha1 [3] [1, 2])"
  using SHA1_HMAC_correct [of "[1, 2]" "[3]"] by simp

end
