(* ===== verification/Csprng.thy ===== *)
theory Csprng
  imports ChaCha20 Sha1
begin

text \<open>
  The random number generator of \<^verbatim>\<open>csprng.c\<close>: a ChaCha20 block in counter mode whose key and nonce
  are replaced from its own output, and an entropy pool hashed into the key.  Its globals are
  the record \<^verbatim>\<open>csprng\<close>.  Casts between \<^verbatim>\<open>u32\<close> arrays and bytes are \<^verbatim>\<open>to_bytes\<close>/\<^verbatim>\<open>of_bytes\<close>.
\<close>

section \<open>Word arrays as bytes\<close>

definition to_bytes :: "u32 list \<Rightarrow> u8 list" where
  "to_bytes ws = concat (map (le_bytes 4) ws)"

fun of_bytes :: "u8 list \<Rightarrow> u32 list" where
  "of_bytes (a # b # c # d # bs) = of_le_bytes [a, b, c, d] # of_bytes bs"
| "of_bytes _ = []"

text \<open>\<^verbatim>\<open>memcpy\<close> of bytes to element \<^verbatim>\<open>i\<close> of a word array.\<close>

definition memcpy_words :: "u32 list \<Rightarrow> nat \<Rightarrow> u8 list \<Rightarrow> u32 list option" where
  "memcpy_words ws i bytes = map_option of_bytes (blit (to_bytes ws) (4 * i) bytes)"

lemma length_to_bytes [simp]: "length (to_bytes ws) = 4 * length ws"
  by (induction ws) (simp_all add: to_bytes_def)

lemma to_bytes_simps [simp]: "to_bytes [] = []" "to_bytes (w # ws) = le_bytes 4 w @ to_bytes ws"
  by (simp_all add: to_bytes_def)

lemma to_bytes_append [simp]: "to_bytes (xs @ ys) = to_bytes xs @ to_bytes ys"
  by (simp add: to_bytes_def)

lemma le_bytes_4: "le_bytes 4 w = [ucast w, ucast (drop_bit 8 w), ucast (drop_bit 16 w), ucast (drop_bit 24 w)]"
  by (simp add: le_bytes_def eval_nat_numeral)

lemma of_bytes_to_bytes [simp]: "of_bytes (to_bytes ws @ bs) = ws @ of_bytes bs"
proof (induction ws)
  case (Cons w ws)
  have "of_le_bytes (le_bytes 4 w) = w" by (simp add: byte_simps)
  then show ?case using Cons by (simp add: le_bytes_4 del: of_le_bytes.simps)
qed simp

lemma of_bytes_to_bytes' [simp]: "of_bytes (to_bytes ws) = ws"
  using of_bytes_to_bytes [of ws "[]"] by simp

lemma length_of_bytes [simp]: "length (of_bytes bs) = length bs div 4"
  by (induction bs rule: of_bytes.induct) simp_all

lemma to_bytes_of_bytes: "4 dvd length bs \<Longrightarrow> to_bytes (of_bytes bs) = bs"
proof (induction bs rule: of_bytes.induct)
  case (1 a b c d bs)
  have "le_bytes 4 (of_le_bytes [a, b, c, d] :: u32) = [a, b, c, d]"
    by (rule le_bytes_of_le_bytes) simp_all
  moreover have "4 dvd length bs" using "1.prems" by simp presburger
  ultimately show ?case using "1.IH" by (simp del: of_le_bytes.simps)
qed (auto dest: dvd_imp_le)

lemma take_to_bytes: "take (4 * i) (to_bytes ws) = to_bytes (take i ws)"
proof (induction ws arbitrary: i)
  case (Cons w ws)
  then show ?case by (cases i) simp_all
qed simp

lemma drop_to_bytes: "drop (4 * i) (to_bytes ws) = to_bytes (drop i ws)"
proof (induction ws arbitrary: i)
  case (Cons w ws)
  then show ?case by (cases i) simp_all
qed simp

lemma memcpy_words_eq:
  assumes "length bytes = 4 * n" and "i + n \<le> length ws"
  shows "memcpy_words ws i bytes = Some (take i ws @ of_bytes bytes @ drop (i + n) ws)"
proof -
  have "blit (to_bytes ws) (4 * i) bytes =
      Some (to_bytes (take i ws) @ to_bytes (of_bytes bytes) @ to_bytes (drop (i + n) ws))"
    using assms take_to_bytes [of i ws] drop_to_bytes [of "i + n" ws]
    by (simp add: to_bytes_of_bytes algebra_simps)
  then show ?thesis
    by (simp add: memcpy_words_def flip: to_bytes_append del: blit_Some_iff)
qed

section \<open>The generator\<close>

record csprng =
  internal_chacha_block :: "u32 list"
  hash_pool :: SHA1_CTX
  hash_pool_size :: u32
  entropy_fast_state :: u64

definition initial_chacha_block :: "u32 list" where
  "initial_chacha_block =
     [0x61707865, 0x3320646e, 0x79622d32, 0x6b206574] @ replicate 12 0"

text \<open>What \<^verbatim>\<open>mix_chacha\<close> does with the random block it drew.\<close>

definition rekey :: "u32 list \<Rightarrow> u8 list \<Rightarrow> u32 list option" where
  "rekey blk rand_data = do {
     blk \<leftarrow> memcpy_words blk KEY (take KEY_SIZE rand_data);
     blk \<leftarrow> memcpy_words blk NONCE (take NONCE_SIZE (drop KEY_SIZE rand_data));
     Some (blk[COUNT := 0])
   }"

text \<open>
  \<^verbatim>\<open>csprng_get_random\<close> and \<^verbatim>\<open>mix_chacha\<close> call each other; the loop has the body of \<^verbatim>\<open>mix_chacha\<close>
  inlined at its call.
\<close>

partial_function (option) csprng_loop ::
  "u32 list \<Rightarrow> u64 \<Rightarrow> u8 list \<Rightarrow> (u32 list \<times> u8 list) option" where
  "csprng_loop blk n out =
     (if n > 0
      then do {
        blk \<leftarrow> (if COUNT_MAX - 1 = blk ! COUNT
               then do {
                 let blk = blk[COUNT := blk ! COUNT + 1];
                 (blk, rand_data) \<leftarrow> csprng_loop blk (of_nat BLOCK_SIZE) [];
                 rekey blk rand_data
               }
               else Some blk);
        let read_len = (if of_nat BLOCK_SIZE < n then of_nat BLOCK_SIZE else n);
        let rand_data = to_bytes (chacha_block blk);
        let blk = blk[COUNT := blk ! COUNT + 1];
        csprng_loop blk (n - read_len) (out @ take (unat read_len) rand_data)
      }
      else Some (blk, out))"

definition csprng_get_random :: "csprng \<Rightarrow> u64 \<Rightarrow> (csprng \<times> u8 list) option" where
  "csprng_get_random st n = do {
     (blk, out) \<leftarrow> csprng_loop (internal_chacha_block st) n [];
     Some (st\<lparr>internal_chacha_block := blk\<rparr>, out)
   }"

definition mix_chacha :: "csprng \<Rightarrow> csprng option" where
  "mix_chacha st = do {
     (st, rand_data) \<leftarrow> csprng_get_random st (of_nat BLOCK_SIZE);
     blk \<leftarrow> rekey (internal_chacha_block st) rand_data;
     Some (st\<lparr>internal_chacha_block := blk\<rparr>)
   }"

text \<open>
  The key mixing of \<^verbatim>\<open>add_hash_pool\<close>.  \<^verbatim>\<open>KEY_SIZE\<close> is the macro \<^verbatim>\<open>8 * sizeof(u32)\<close> without
  parentheses, so the index \<^verbatim>\<open>i % KEY_SIZE\<close> is \<^verbatim>\<open>(i % 8) * 4\<close>.
\<close>

definition mix_key :: "u8 list \<Rightarrow> u8 list \<Rightarrow> u8 list" where
  "mix_key key hash_buffer =
     foldl (\<lambda>k i. k[i mod 8 * 4 := k ! (i mod 8 * 4) XOR hash_buffer ! i]) key [0..<SHA1_LEN]"

definition add_hash_pool :: "csprng \<Rightarrow> csprng option" where
  "add_hash_pool st = do {
     (st, new_chacha_key) \<leftarrow> csprng_get_random st (of_nat KEY_SIZE);
     (pool, hash_buffer) \<leftarrow> SHA1_Final (hash_pool st);
     let new_chacha_key = mix_key new_chacha_key hash_buffer;
     pool \<leftarrow> SHA1_Update SHA1_Init hash_buffer (of_nat SHA1_LEN);
     (st, block) \<leftarrow> csprng_get_random (st\<lparr>hash_pool := pool\<rparr>) (of_nat BLOCK_SIZE);
     pool \<leftarrow> SHA1_Update (hash_pool st) block (of_nat BLOCK_SIZE);
     blk \<leftarrow> memcpy_words (internal_chacha_block st) KEY new_chacha_key;
     mix_chacha (st\<lparr>hash_pool := pool, internal_chacha_block := blk\<rparr>)
   }"

definition xorshift64 :: "u64 \<Rightarrow> u64" where
  "xorshift64 x =
     (let x = x XOR push_bit 13 x;
          x = x XOR drop_bit 7 x
      in x XOR push_bit 17 x)"

definition csprng_add_entropy :: "csprng \<Rightarrow> u8 list \<Rightarrow> u64 \<Rightarrow> csprng option" where
  "csprng_add_entropy st buffer n = do {
     pool \<leftarrow> SHA1_Update (hash_pool st) (le_bytes 8 (entropy_fast_state st)) 8;
     let fast = xorshift64 (entropy_fast_state st);
     pool \<leftarrow> SHA1_Update pool buffer n;
     let pool_size = hash_pool_size st + ucast n;
     let st = st\<lparr>hash_pool := pool, hash_pool_size := pool_size, entropy_fast_state := fast\<rparr>;
     (if pool_size \<ge> of_nat (SHA1_LEN * 2) then add_hash_pool st else Some st)
   }"

fun entropy_fast_loop :: "u64 \<Rightarrow> nat \<Rightarrow> u8 list \<Rightarrow> u64" where
  "entropy_fast_loop x i [] = x"
| "entropy_fast_loop x i (b # bs) =
     (let x = x XOR push_bit (8 * (i mod 8)) (ucast b);
          x = (if i mod 8 = 0 then xorshift64 x else x)
      in entropy_fast_loop x (i + 1) bs)"

definition csprng_add_entropy_fast :: "csprng \<Rightarrow> u8 list \<Rightarrow> u64 \<Rightarrow> csprng option" where
  "csprng_add_entropy_fast st buffer n = do {
     bs \<leftarrow> slice buffer 0 (unat n);
     Some (st\<lparr>entropy_fast_state := xorshift64 (entropy_fast_loop (entropy_fast_state st) 0 bs)\<rparr>)
   }"

definition csprng_init :: "csprng \<Rightarrow> csprng" where
  "csprng_init st = st\<lparr>hash_pool := SHA1_Init\<rparr>"

section \<open>The key stream\<close>

text \<open>
  The same stream without loops and errors: \<^verbatim>\<open>fresh\<close> replaces key and nonce when the counter has
  reached its limit, \<^verbatim>\<open>bump\<close> counts, and \<^verbatim>\<open>keystream blk n\<close> are the next \<^verbatim>\<open>n\<close> blocks of output.
\<close>

definition fresh :: "u32 list \<Rightarrow> u32 list" where
  "fresh blk =
     (if blk ! COUNT = COUNT_MAX - 1
      then (let r = to_bytes (chacha_block (blk[COUNT := COUNT_MAX]))
            in take 4 blk @ of_bytes (take 32 r) @ [0] @ of_bytes (take 8 (drop 32 r)) @ drop 15 blk)
      else blk)"

definition bump :: "u32 list \<Rightarrow> u32 list" where
  "bump blk = blk[COUNT := blk ! COUNT + 1]"

definition advance_block :: "u32 list \<Rightarrow> u32 list" where
  "advance_block blk = bump (fresh blk)"

fun keystream :: "u32 list \<Rightarrow> nat \<Rightarrow> u8 list" where
  "keystream blk 0 = []"
| "keystream blk (Suc n) = to_bytes (chacha_block (fresh blk)) @ keystream (advance_block blk) n"

text \<open>The counter of a well-formed block is never \<open>2^32 - 1\<close>, and its constants are in place.\<close>

definition block_ok :: "u32 list \<Rightarrow> bool" where
  "block_ok blk \<longleftrightarrow> length blk = 16 \<and> take 4 blk = take 4 initial_chacha_block \<and>
     blk ! COUNT \<noteq> COUNT_MAX"

definition blocks_for :: "u64 \<Rightarrow> nat" where
  "blocks_for n = (unat n + 63) div 64"

lemma rekey_eq:
  assumes "length blk = 16" and "length r = 64"
  shows "rekey blk r = Some (take 4 blk @ of_bytes (take 32 r) @ [0] @ of_bytes (take 8 (drop 32 r)) @ drop 15 blk)"
proof -
  let ?k = "of_bytes (take 32 r)" and ?n = "of_bytes (take 8 (drop 32 r))"
  have k: "memcpy_words blk 4 (take 32 r) = Some (take 4 blk @ ?k @ drop 12 blk)"
    using memcpy_words_eq [of "take 32 r" 8 4 blk] assms by simp
  have "memcpy_words (take 4 blk @ ?k @ drop 12 blk) 13 (take 8 (drop 32 r)) =
      Some (take 13 (take 4 blk @ ?k @ drop 12 blk) @ ?n @ drop 15 (take 4 blk @ ?k @ drop 12 blk))"
    using memcpy_words_eq [of "take 8 (drop 32 r)" 2 13 "take 4 blk @ ?k @ drop 12 blk"] assms by simp
  moreover have "take 13 (take 4 blk @ ?k @ drop 12 blk) = take 4 blk @ ?k @ [blk ! 12]"
    using assms by (simp add: take_Suc_conv_app_nth min_def hd_drop_conv_nth take_Suc)
  moreover have "drop 15 (take 4 blk @ ?k @ drop 12 blk) = drop 15 blk"
    using assms by (simp add: min_def)
  ultimately show ?thesis using k assms
    by (simp add: rekey_def chacha_layout list_update_append)
qed

lemma length_fresh [simp]: "length blk = 16 \<Longrightarrow> length (fresh blk) = 16"
  by (simp add: fresh_def Let_def)

lemma fresh_count: "length blk = 16 \<Longrightarrow> fresh blk ! COUNT = (if blk ! COUNT = COUNT_MAX - 1 then 0 else blk ! COUNT)"
  by (simp add: fresh_def Let_def chacha_layout nth_append)

lemma block_ok_advance:
  assumes "block_ok blk"
  shows "block_ok (advance_block blk)"
proof -
  have "take 4 (fresh blk) = take 4 blk" using assms by (simp add: fresh_def Let_def block_ok_def initial_chacha_block_def)
  moreover have "fresh blk ! COUNT + 1 \<noteq> COUNT_MAX"
    using assms fresh_count [of blk]
    by (auto simp: block_ok_def chacha_layout split: if_splits)
  ultimately show ?thesis using assms
    by (simp add: advance_block_def bump_def block_ok_def chacha_layout)
qed

lemma csprng_loop_0: "csprng_loop blk 0 out = Some (blk, out)"
  by (simp add: csprng_loop.simps)

lemma csprng_loop_inner:
  assumes "length blk = 16"
  shows "csprng_loop (blk[COUNT := COUNT_MAX]) 64 [] =
    Some (blk[COUNT := 0], to_bytes (chacha_block (blk[COUNT := COUNT_MAX])))"
proof -
  have z: "COUNT_MAX + 1 = 0" "COUNT_MAX - 1 \<noteq> COUNT_MAX" by (simp_all add: COUNT_MAX_def)
  show ?thesis using assms
    by (subst csprng_loop.simps) (simp add: z csprng_loop_0 COUNT_def BLOCK_SIZE_def Let_def)
qed

lemma csprng_loop_step:
  assumes "length blk = 16" and "n > 0"
  shows "csprng_loop blk n out =
    (let k = (if 64 < n then 64 else n)
     in csprng_loop (advance_block blk) (n - k) (out @ take (unat k) (to_bytes (chacha_block (fresh blk)))))"
proof -
  have "(if COUNT_MAX - 1 = blk ! COUNT
       then do {
         let blk = blk[COUNT := blk ! COUNT + 1];
         (blk, rand_data) \<leftarrow> csprng_loop blk (of_nat BLOCK_SIZE) [];
         rekey blk rand_data
       }
       else Some blk) = Some (fresh blk)"
  proof (cases "blk ! COUNT = COUNT_MAX - 1")
    case True
    let ?r = "to_bytes (chacha_block (blk[COUNT := COUNT_MAX]))"
    have "blk ! COUNT + 1 = COUNT_MAX" using True by (simp add: COUNT_MAX_def)
    moreover have "take 4 (blk[COUNT := 0]) = take 4 blk" "drop 15 (blk[COUNT := 0]) = drop 15 blk"
      by (simp_all add: chacha_layout take_update_cancel)
    ultimately show ?thesis using True assms(1) csprng_loop_inner [OF assms(1)]
      by (simp add: BLOCK_SIZE_def rekey_eq Let_def fresh_def)
  next
    case False
    then show ?thesis by (simp add: fresh_def)
  qed
  then show ?thesis
    using assms(2) by (subst csprng_loop.simps)
      (simp add: BLOCK_SIZE_def advance_block_def bump_def Let_def)
qed

lemma csprng_loop_eq:
  assumes "block_ok blk"
  shows "csprng_loop blk n out =
    Some ((advance_block ^^ blocks_for n) blk, out @ take (unat n) (keystream blk (blocks_for n)))"
  using assms
proof (induction "unat n" arbitrary: blk n out rule: less_induct)
  case less
  show ?case
  proof (cases "n = 0")
    case True
    then show ?thesis by (simp add: csprng_loop_0 blocks_for_def)
  next
    case False
    then have n: "n > 0" "0 < unat n" by (simp_all add: word_gt_0 unat_gt_0)
    define k where "k = (if 64 < n then 64 else n)"
    have k: "unat k = min 64 (unat n)" by (auto simp: k_def word_less_nat_alt)
    have sub: "unat (n - k) = unat n - unat k" by (rule unat_sub_le) (simp add: k)
    then have lt: "unat (n - k) < unat n" using k n(2) by simp
    have len: "length blk = 16" using less.prems by (simp add: block_ok_def)
    have b: "blocks_for n = Suc (blocks_for (n - k))"
      using n(2) sub k by (auto simp: blocks_for_def min_def)
    let ?b = "to_bytes (chacha_block (fresh blk))"
    have "csprng_loop blk n out = csprng_loop (advance_block blk) (n - k) (out @ take (unat k) ?b)"
      using csprng_loop_step [OF len n(1)] by (simp add: k_def Let_def)
    also have "\<dots> = Some ((advance_block ^^ blocks_for (n - k)) (advance_block blk),
        out @ take (unat k) ?b @ take (unat (n - k)) (keystream (advance_block blk) (blocks_for (n - k))))"
      using less.hyps [OF lt block_ok_advance [OF less.prems]] by simp
    also have "take (unat k) ?b @ take (unat (n - k)) (keystream (advance_block blk) (blocks_for (n - k))) =
        take (unat n) (keystream blk (blocks_for n))"
      using k by (simp add: b sub min_def)
    finally show ?thesis by (simp add: b funpow_swap1)
  qed
qed

lemma block_ok_advance_n: "block_ok blk \<Longrightarrow> block_ok ((advance_block ^^ n) blk)"
  by (induction n) (simp_all add: block_ok_advance)

lemma length_keystream [simp]: "length (keystream blk n) = 64 * n"
  by (induction blk n rule: keystream.induct) simp_all

lemma blocks_for_enough: "unat n \<le> 64 * blocks_for n"
  by (simp add: blocks_for_def)

text \<open>Away from the limit the stream is ChaCha20 in counter mode.\<close>

lemma fresh_id: "blk ! COUNT \<noteq> COUNT_MAX - 1 \<Longrightarrow> fresh blk = blk"
  by (simp add: fresh_def)

lemma counter_mode:
  assumes "length blk = 16" and "unat (blk ! COUNT) + n < 2 ^ 32 - 1"
  shows "keystream blk n = concat (map (\<lambda>i. to_bytes (chacha_block (blk[COUNT := blk ! COUNT + of_nat i]))) [0..<n])
    \<and> (advance_block ^^ n) blk = blk[COUNT := blk ! COUNT + of_nat n]"
  using assms
proof (induction n arbitrary: blk)
  case 0
  then show ?case by simp
next
  case (Suc n)
  have "unat (blk ! COUNT) \<noteq> unat (COUNT_MAX - 1)" using Suc.prems(2) by (simp add: COUNT_MAX_def)
  then have f: "fresh blk = blk" by (intro fresh_id) auto
  have a: "advance_block blk = blk[COUNT := blk ! COUNT + 1]" by (simp add: advance_block_def f bump_def)
  have "unat (blk ! COUNT + 1) = unat (blk ! COUNT) + 1"
    using Suc.prems(2) by (subst unat_add_le) simp_all
  then have "length (advance_block blk) = 16" "unat (advance_block blk ! COUNT) + n < 2 ^ 32 - 1"
    using Suc.prems by (simp_all add: a chacha_layout)
  note IH = Suc.IH [OF this]
  have "(advance_block ^^ Suc n) blk = (advance_block ^^ n) (advance_block blk)"
    by (simp add: funpow_swap1)
  moreover have "[0..<Suc n] = 0 # map Suc [0..<n]" by (simp add: map_Suc_upt upt_conv_Cons del: upt_Suc)
  ultimately show ?case
    using IH Suc.prems(1) by (simp add: f a chacha_layout comp_def ac_simps del: upt_Suc)
qed

section \<open>The entropy pool\<close>

definition csprng_ok :: "csprng \<Rightarrow> bool" where
  "csprng_ok st \<longleftrightarrow> block_ok (internal_chacha_block st) \<and> (\<exists>m. sha1_rel (hash_pool st) m)"

lemma csprng_get_random_eq:
  assumes "block_ok (internal_chacha_block st)"
  shows "csprng_get_random st n =
    Some (st\<lparr>internal_chacha_block := (advance_block ^^ blocks_for n) (internal_chacha_block st)\<rparr>,
      take (unat n) (keystream (internal_chacha_block st) (blocks_for n)))"
  by (simp add: csprng_get_random_def csprng_loop_eq [OF assms])

lemma csprng_get_random_ok:
  assumes "block_ok (internal_chacha_block st)"
  shows "\<exists>blk out. csprng_get_random st n = Some (st\<lparr>internal_chacha_block := blk\<rparr>, out) \<and>
    block_ok blk \<and> length out = unat n"
  using csprng_get_random_eq [OF assms] block_ok_advance_n [OF assms] blocks_for_enough
  by (intro exI [of _ "(advance_block ^^ blocks_for n) (internal_chacha_block st)"]
      exI [of _ "take (unat n) (keystream (internal_chacha_block st) (blocks_for n))"]) simp

lemma block_ok_key:
  assumes "block_ok blk" and "length k = 8"
  shows "block_ok (take 4 blk @ k @ drop 12 blk)"
  using assms by (simp add: block_ok_def chacha_layout nth_append initial_chacha_block_def)

lemma mix_chacha_ok:
  assumes "block_ok (internal_chacha_block st)"
  shows "\<exists>blk. mix_chacha st = Some (st\<lparr>internal_chacha_block := blk\<rparr>) \<and> block_ok blk \<and> blk ! COUNT = 0"
proof -
  obtain blk out where get: "csprng_get_random st 64 = Some (st\<lparr>internal_chacha_block := blk\<rparr>, out)"
      "block_ok blk" "length out = 64"
    using csprng_get_random_ok [OF assms, of 64] by auto
  let ?b = "take 4 blk @ of_bytes (take 32 out) @ [0] @ of_bytes (take 8 (drop 32 out)) @ drop 15 blk"
  have "block_ok ?b" "?b ! COUNT = 0"
    using get(2,3) by (simp_all add: block_ok_def chacha_layout nth_append initial_chacha_block_def)
  moreover have "mix_chacha st = Some (st\<lparr>internal_chacha_block := ?b\<rparr>)"
    using get rekey_eq [of blk out] by (simp add: mix_chacha_def BLOCK_SIZE_def block_ok_def)
  ultimately show ?thesis by blast
qed

lemma mix_key_prefix:
  assumes "length key = 32"
  shows "length (foldl (\<lambda>k i. k[i mod 8 * 4 := k ! (i mod 8 * 4) XOR hb ! i]) key [0..<n]) = 32 \<and>
    (\<forall>j. j mod 4 \<noteq> 0 \<longrightarrow>
      foldl (\<lambda>k i. k[i mod 8 * 4 := k ! (i mod 8 * 4) XOR hb ! i]) key [0..<n] ! j = key ! j)"
proof (induction n)
  case 0
  then show ?case using assms by simp
next
  case (Suc n)
  have "n mod 8 * 4 \<noteq> j" if "0 < j mod 4" for j using that by auto
  then show ?case using Suc by simp
qed

lemma add_hash_pool_ok:
  assumes "csprng_ok st"
  shows "\<exists>st'. add_hash_pool st = Some st' \<and> csprng_ok st' \<and>
    internal_chacha_block st' ! COUNT = 0 \<and> hash_pool_size st' = hash_pool_size st \<and>
    entropy_fast_state st' = entropy_fast_state st"
proof -
  obtain m where m: "sha1_rel (hash_pool st) m" and b: "block_ok (internal_chacha_block st)"
    using assms by (auto simp: csprng_ok_def)
  obtain blk1 key where g1: "csprng_get_random st 32 = Some (st\<lparr>internal_chacha_block := blk1\<rparr>, key)"
      "block_ok blk1" "length key = 32" using csprng_get_random_ok [OF b, of 32] by auto
  obtain pool1 where p1: "SHA1_Final (hash_pool st) = Some (pool1, sha1 m)"
    using sha.final_law [OF m] by blast
  obtain pool2 where p2: "SHA1_Update SHA1_Init (sha1 m) 20 = Some pool2" "sha1_rel pool2 (sha1 m)"
    using sha.update_law [OF sha.init_law, of 20 "sha1 m"] by auto
  let ?st1 = "st\<lparr>internal_chacha_block := blk1, hash_pool := pool2\<rparr>"
  obtain blk2 block where g2: "csprng_get_random ?st1 64 = Some (?st1\<lparr>internal_chacha_block := blk2\<rparr>, block)"
      "block_ok blk2" "length block = 64" using csprng_get_random_ok [of ?st1 64] g1(2) by auto
  obtain pool3 where p3: "SHA1_Update pool2 block 64 = Some pool3" "sha1_rel pool3 (sha1 m @ block)"
    using sha.update_law [OF p2(2), of 64 block] g2(3) by auto
  let ?key = "mix_key key (sha1 m)"
  have k: "length ?key = 32" using mix_key_prefix [OF g1(3)] by (simp add: mix_key_def)
  let ?b3 = "take 4 blk2 @ of_bytes ?key @ drop 12 blk2"
  have c: "memcpy_words blk2 KEY ?key = Some ?b3"
    using memcpy_words_eq [of ?key 8 4 blk2] k g2(2) by (simp add: KEY_def block_ok_def)
  have ok3: "block_ok ?b3" using block_ok_key [OF g2(2), of "of_bytes ?key"] k by simp
  let ?st3 = "?st1\<lparr>internal_chacha_block := ?b3, hash_pool := pool3\<rparr>"
  obtain blk4 where "mix_chacha ?st3 = Some (?st3\<lparr>internal_chacha_block := blk4\<rparr>)" "block_ok blk4"
      "blk4 ! COUNT = 0" using mix_chacha_ok [of ?st3] ok3 by auto
  moreover have "add_hash_pool st = mix_chacha ?st3"
    using g1 p1 p2 g2 p3 c
    by (cases st) (simp add: add_hash_pool_def KEY_SIZE_def BLOCK_SIZE_def SHA1_LEN_def Let_def)
  ultimately show ?thesis using p3(2) by (auto simp: csprng_ok_def)
qed

section \<open>Properties\<close>

text \<open>
  C23 (csprng_get_random_stream): from a well-formed block \<^verbatim>\<open>csprng_get_random\<close> returns for every length, in
  spite of its mutual recursion with \<^verbatim>\<open>mix_chacha\<close>: it delivers exactly that many bytes of the
  key stream, changes nothing but the block, and leaves the block well-formed, with its
  constants in place and its counter below the reserved last value.
\<close>

theorem csprng_get_random_stream:
  assumes "block_ok (internal_chacha_block st)"
  shows "\<exists>blk out. csprng_get_random st n = Some (st\<lparr>internal_chacha_block := blk\<rparr>, out) \<and>
    out = take (unat n) (keystream (internal_chacha_block st) (blocks_for n)) \<and>
    length out = unat n \<and> blk = (advance_block ^^ blocks_for n) (internal_chacha_block st) \<and>
    block_ok blk"
  using csprng_get_random_eq [OF assms] block_ok_advance_n [OF assms] blocks_for_enough
  by simp

theorem csprng_get_random_stream_witness:
  "\<exists>st out. csprng_get_random \<lparr>internal_chacha_block = initial_chacha_block[COUNT := 0xFFFFFFFE],
      hash_pool = SHA1_Init, hash_pool_size = 0, entropy_fast_state = 0\<rparr> 100 = Some (st, out) \<and>
    length out = 100"
proof -
  let ?st = "\<lparr>internal_chacha_block = initial_chacha_block[COUNT := 0xFFFFFFFE],
      hash_pool = SHA1_Init, hash_pool_size = 0, entropy_fast_state = 0\<rparr>"
  have "block_ok (internal_chacha_block ?st)"
    by (simp add: block_ok_def initial_chacha_block_def chacha_layout)
  from csprng_get_random_stream [OF this, of 100] show ?thesis by auto
qed

text \<open>
  C24 (csprng_counter_mode): as long as the counter does not reach its limit, the output is ChaCha20 in
  counter mode: block \<open>i\<close> is the keystream block of counter value \<open>COUNT + i\<close>, each value
  used once, and the counter moves on by the number of blocks.
\<close>

theorem csprng_counter_mode:
  assumes "block_ok (internal_chacha_block st)"
    and "unat (internal_chacha_block st ! COUNT) + blocks_for n < 2 ^ 32 - 1"
  shows "\<exists>out. csprng_get_random st n =
      Some (st\<lparr>internal_chacha_block := (internal_chacha_block st)
        [COUNT := internal_chacha_block st ! COUNT + of_nat (blocks_for n)]\<rparr>, out) \<and>
    out = take (unat n) (concat (map (\<lambda>i. to_bytes (chacha_block ((internal_chacha_block st)
        [COUNT := internal_chacha_block st ! COUNT + of_nat i]))) [0..<blocks_for n])) \<and>
    inj_on (\<lambda>i. internal_chacha_block st ! COUNT + of_nat i) {0..<blocks_for n}"
proof -
  let ?c = "internal_chacha_block st ! COUNT"
  have "length (internal_chacha_block st) = 16" using assms(1) by (simp add: block_ok_def)
  note cm = counter_mode [OF this assms(2)]
  have "inj_on (\<lambda>i. ?c + of_nat i) {0..<blocks_for n}"
  proof (rule inj_onI)
    fix i j
    assume ij: "i \<in> {0..<blocks_for n}" "j \<in> {0..<blocks_for n}" "?c + of_nat i = ?c + of_nat j"
    then have "unat (of_nat i :: u32) = unat (of_nat j :: u32)" by simp
    then show "i = j" using ij(1,2) assms(2) by (simp add: unat_of_nat_u32)
  qed
  then show ?thesis using csprng_get_random_eq [OF assms(1), of n] cm by simp
qed

theorem csprng_counter_mode_witness:
  "\<exists>out. csprng_get_random \<lparr>internal_chacha_block = initial_chacha_block, hash_pool = SHA1_Init,
      hash_pool_size = 0, entropy_fast_state = 0\<rparr> 64 =
    Some (\<lparr>internal_chacha_block = initial_chacha_block[COUNT := 1], hash_pool = SHA1_Init,
      hash_pool_size = 0, entropy_fast_state = 0\<rparr>, out) \<and> length out = 64"
proof -
  let ?st = "\<lparr>internal_chacha_block = initial_chacha_block, hash_pool = SHA1_Init,
      hash_pool_size = 0, entropy_fast_state = 0\<rparr>"
  have "block_ok (internal_chacha_block ?st)"
    by (simp add: block_ok_def initial_chacha_block_def chacha_layout)
  moreover have "unat (internal_chacha_block ?st ! COUNT) + blocks_for 64 < 2 ^ 32 - 1"
    by (simp add: blocks_for_def initial_chacha_block_def chacha_layout)
  ultimately show ?thesis using csprng_counter_mode [of ?st 64]
    by (simp add: blocks_for_def initial_chacha_block_def chacha_layout)
qed



text \<open>
  Because of the unparenthesised \<^verbatim>\<open>KEY_SIZE\<close>, the digest of the entropy pool only
  reaches the key bytes at multiples of four: the other 24 of the 32 bytes are those drawn from
  the generator itself, whatever the pool contains.
\<close>

theorem key_mixing_is_narrow:
  assumes "length key = KEY_SIZE" and "j mod 4 \<noteq> 0"
  shows "mix_key key hash_buffer ! j = key ! j"
  using mix_key_prefix [of key hash_buffer SHA1_LEN] assms by (simp add: mix_key_def KEY_SIZE_def)

theorem key_mixing_is_narrow_witness:
  "mix_key (replicate 32 9) (replicate 20 255) ! 5 = 9"
  by (subst key_mixing_is_narrow) (simp_all add: KEY_SIZE_def)

end
