(* ===== verification/Prng.thy ===== *)
theory Prng
  imports Xoshiro Csprng
begin

text \<open>
  The pseudorandom source of \<^verbatim>\<open>prng.c\<close>, used by \<^verbatim>\<open>kmalloc.c\<close> to scatter its free entries: a xoshiro
  state seeded from the generator of \<^verbatim>\<open>csprng.c\<close>.  The buffer a call fills is its result.
\<close>

definition seed_of_bytes :: "u8 list \<Rightarrow> xstate" where
  "seed_of_bytes bs =
     (of_le_bytes (take 8 bs), of_le_bytes (take 8 (drop 8 bs)),
      of_le_bytes (take 8 (drop 16 bs)), of_le_bytes (take 8 (drop 24 bs)))"

definition prng_init :: "csprng \<Rightarrow> (csprng \<times> xstate) option" where
  "prng_init st = do {
     (st, bytes) \<leftarrow> csprng_get_random st 32;
     Some (st, seed_of_bytes bytes)
   }"

function prng_words :: "xstate \<Rightarrow> nat \<Rightarrow> u8 list \<Rightarrow> xstate \<times> nat \<times> u8 list" where
  "prng_words seed n out =
     (if n \<ge> 8
      then (let (v, seed) = xoshiro_256_pp seed
            in prng_words seed (n - 8) (out @ le_bytes 8 v))
      else (seed, n, out))"
  by pat_completeness auto
termination
  by (relation "measure (\<lambda>(seed, n, out). n)") auto

declare prng_words.simps [simp del]

fun prng_tail :: "xstate \<Rightarrow> nat \<Rightarrow> u8 list \<Rightarrow> xstate \<times> u8 list" where
  "prng_tail seed 0 out = (seed, out)"
| "prng_tail seed (Suc n) out =
     (let (v, seed) = xoshiro_256_pp seed
      in prng_tail seed n (out @ [ucast (v AND 0xFF)]))"

definition prng_get_pseudorandom :: "xstate \<Rightarrow> u64 \<Rightarrow> xstate \<times> u8 list" where
  "prng_get_pseudorandom seed n =
     (let (seed, rest, out) = prng_words seed (unat n) []
      in prng_tail seed rest out)"

section \<open>Lemmas\<close>

definition xoshiro_out :: "xstate \<Rightarrow> u64" where
  "xoshiro_out s = fst (xoshiro_256_pp s)"

lemma xoshiro_pair: "xoshiro_256_pp s = (xoshiro_out s, xoshiro_next s)"
  by (simp add: xoshiro_out_def xoshiro_next_def)

lemma prng_words_eq:
  "prng_words seed n out =
     ((xoshiro_next ^^ (n div 8)) seed, n mod 8,
      out @ concat (map (\<lambda>i. le_bytes 8 (xoshiro_out ((xoshiro_next ^^ i) seed))) [0..<n div 8]))"
proof (induction n arbitrary: seed out rule: less_induct)
  case (less n)
  show ?case
  proof (cases "n < 8")
    case True
    then show ?thesis by (simp add: prng_words.simps)
  next
    case False
    then have d: "n div 8 = Suc ((n - 8) div 8)" "n mod 8 = (n - 8) mod 8"
      by (simp_all add: le_div_geq le_mod_geq not_less)
    have "prng_words seed n out = prng_words (xoshiro_next seed) (n - 8) (out @ le_bytes 8 (xoshiro_out seed))"
      using False by (subst prng_words.simps) (simp add: xoshiro_pair)
    moreover have "[0..<Suc k] = 0 # map Suc [0..<k]" for k
      by (simp add: map_Suc_upt upt_conv_Cons del: upt_Suc)
    ultimately show ?thesis
      using False less.IH [of "n - 8" "xoshiro_next seed"]
      by (simp add: d comp_def funpow_swap1 del: upt_Suc)
  qed
qed

lemma prng_tail_eq:
  "prng_tail seed n out =
     ((xoshiro_next ^^ n) seed,
      out @ map (\<lambda>i. ucast (xoshiro_out ((xoshiro_next ^^ i) seed) AND 0xFF)) [0..<n])"
proof (induction n arbitrary: seed out)
  case 0
  then show ?case by simp
next
  case (Suc n)
  have "[0..<Suc n] = 0 # map Suc [0..<n]"
    by (simp add: map_Suc_upt upt_conv_Cons del: upt_Suc)
  then show ?case using Suc by (simp add: xoshiro_pair comp_def funpow_swap1 del: upt_Suc)
qed

section \<open>Properties\<close>

text \<open>
  \<^verbatim>\<open>prng_get_pseudorandom\<close> fills exactly \<^verbatim>\<open>n\<close> bytes: the little-endian bytes of
  consecutive generator outputs, eight per step, and then one low byte per step; the seed moves
  on by exactly that many steps.  A call for a multiple of eight bytes can be split off.
\<close>

theorem prng_fills_buffer:
  "let (seed', out) = prng_get_pseudorandom seed n in
     length out = unat n \<and>
     seed' = (xoshiro_next ^^ (unat n div 8 + unat n mod 8)) seed \<and>
     take (8 * (unat n div 8)) out =
       concat (map (\<lambda>i. le_bytes 8 (fst (xoshiro_256_pp ((xoshiro_next ^^ i) seed)))) [0..<unat n div 8])"
proof -
  let ?w = "\<lambda>i. le_bytes 8 (xoshiro_out ((xoshiro_next ^^ i) seed)) :: u8 list"
  have len: "length (concat (map ?w [0..<k])) = 8 * k" for k
    by (simp add: length_concat comp_def sum_list_triv)
  show ?thesis
    by (simp add: prng_get_pseudorandom_def prng_words_eq prng_tail_eq len Let_def xoshiro_out_def [symmetric]
        flip: funpow_add [THEN fun_cong, unfolded comp_def] add: add.commute)
qed

lemma length_prng: "length (snd (prng_get_pseudorandom seed n)) = unat n"
proof -
  let ?w = "\<lambda>i. le_bytes 8 (xoshiro_out ((xoshiro_next ^^ i) seed)) :: u8 list"
  have "length (concat (map ?w [0..<k])) = 8 * k" for k
    by (simp add: length_concat comp_def sum_list_triv)
  then show ?thesis by (simp add: prng_get_pseudorandom_def prng_words_eq prng_tail_eq)
qed

end
