(* ===== verification/Frames.thy ===== *)
theory Frames
  imports Prelude
begin

text \<open>
  The bitmap of physical page frames in \<^verbatim>\<open>arch/amd64/mmu.c\<close>: 256 words of 64 bits, one bit for each
  of the first 16384 frames of 4 KiB.  The source forms the bit as \<^verbatim>\<open>1 << offset\<close>, an \<^verbatim>\<open>int\<close> shift by
  up to 63 places whose value C leaves open from 31 on; its value, extended to 64 bits, is the
  parameter \<^verbatim>\<open>bit1\<close> of the operations.  What is proved holds for every \<^verbatim>\<open>bit1\<close> that is nowhere zero;
  \<^verbatim>\<open>shl_intended\<close> is the bit the code means, \<^verbatim>\<open>shl_x86\<close> what the 32-bit \<^verbatim>\<open>shl\<close> instruction gives.
\<close>

section \<open>The operations\<close>

definition PAGE_SIZE :: u64 where "PAGE_SIZE = 0x1000"
definition NUM_OF_FRAMES :: nat where "NUM_OF_FRAMES = 256"

fun pow_loop :: "u64 \<Rightarrow> u64 \<Rightarrow> nat \<Rightarrow> u64" where
  "pow_loop r a 0 = r"
| "pow_loop r a (Suc b) = pow_loop (r * a) a b"

definition pow :: "u64 \<Rightarrow> u64 \<Rightarrow> u64" where
  "pow a b = pow_loop 1 a (unat b)"

type_synonym bitmap = "u64 list"

definition set_frame :: "(nat \<Rightarrow> u64) \<Rightarrow> u64 \<Rightarrow> bool \<Rightarrow> bitmap \<Rightarrow> bitmap \<times> bool" where
  "set_frame bit1 address state fr =
     (let a = address div 0x1000;
          index = a div 64
      in if unat index \<ge> NUM_OF_FRAMES then (fr, False)
         else (let offset = unat (a mod 64);
                   w = fr ! unat index
               in (fr[unat index := (if state then w OR bit1 offset else w AND NOT (bit1 offset))], True)))"

text \<open>
  The two nested loops of \<^verbatim>\<open>get_frame\<close> carry \<^verbatim>\<open>left\<close> and \<^verbatim>\<open>rc\<close>; \<^term>\<open>Inl\<close> is the return from inside.
\<close>

fun scan_bits :: "(nat \<Rightarrow> u64) \<Rightarrow> u64 \<Rightarrow> u64 \<Rightarrow> nat \<Rightarrow> nat list \<Rightarrow> u64 \<times> u64 \<Rightarrow> u64 + u64 \<times> u64" where
  "scan_bits bit1 count w i [] s = Inr s"
| "scan_bits bit1 count w i (j # js) (left, rc) =
     (if w AND bit1 j \<noteq> 0 then scan_bits bit1 count w i js (count, rc)
      else (let rc = (if left = count then (of_nat i * 64 + of_nat j) * 0x1000 else rc);
                left = left - 1
            in if 0 = left then Inl rc else scan_bits bit1 count w i js (left, rc)))"

fun scan_words :: "(nat \<Rightarrow> u64) \<Rightarrow> u64 \<Rightarrow> bitmap \<Rightarrow> nat list \<Rightarrow> u64 \<times> u64 \<Rightarrow> u64 option" where
  "scan_words bit1 count fr [] s = None"
| "scan_words bit1 count fr (i # is) (left, rc) =
     (if fr ! i = NOT 0 then scan_words bit1 count fr is (count, rc)
      else (case scan_bits bit1 count (fr ! i) i [0..<64] (left, rc) of
              Inl rc \<Rightarrow> Some rc
            | Inr s \<Rightarrow> scan_words bit1 count fr is s))"

fun mark_run :: "(nat \<Rightarrow> u64) \<Rightarrow> u64 \<Rightarrow> nat \<Rightarrow> bitmap \<Rightarrow> bitmap" where
  "mark_run bit1 ptr 0 fr = fr"
| "mark_run bit1 ptr (Suc n) fr = mark_run bit1 (ptr + PAGE_SIZE) n (fst (set_frame bit1 ptr True fr))"

definition get_frame :: "(nat \<Rightarrow> u64) \<Rightarrow> bool \<Rightarrow> u64 \<Rightarrow> bitmap \<Rightarrow> (u64 \<times> bitmap) option" where
  "get_frame bit1 allocate count fr = do {
     c_assert (0 \<noteq> count);
     rc \<leftarrow> scan_words bit1 count fr [0..<NUM_OF_FRAMES] (count, 0);
     Some (rc, if allocate then mark_run bit1 rc (unat count) fr else fr)
   }"

section \<open>Frames and runs of frames\<close>

definition shl_intended :: "nat \<Rightarrow> u64" where
  "shl_intended k = push_bit k 1"

definition shl_x86 :: "nat \<Rightarrow> u64" where
  "shl_x86 k = signed_take_bit 31 (push_bit (k mod 32) 1)"

definition bit_ok :: "(nat \<Rightarrow> u64) \<Rightarrow> bool" where
  "bit_ok bit1 \<longleftrightarrow> (\<forall>k<64. bit1 k \<noteq> 0)"

text \<open>Frame \<^verbatim>\<open>k\<close> counts as used when the test of \<^verbatim>\<open>get_frame\<close> says so.\<close>

definition frame_used :: "(nat \<Rightarrow> u64) \<Rightarrow> bitmap \<Rightarrow> nat \<Rightarrow> bool" where
  "frame_used bit1 fr k \<longleftrightarrow> fr ! (k div 64) AND bit1 (k mod 64) \<noteq> 0"

definition free_run :: "(nat \<Rightarrow> u64) \<Rightarrow> bitmap \<Rightarrow> nat \<Rightarrow> nat \<Rightarrow> bool" where
  "free_run bit1 fr k n \<longleftrightarrow> k + n \<le> 16384 \<and> (\<forall>j<n. \<not> frame_used bit1 fr (k + j))"

lemma free_runD: "free_run bit1 fr k n \<Longrightarrow> k \<le> j \<Longrightarrow> j < k + n \<Longrightarrow> \<not> frame_used bit1 fr j"
  unfolding free_run_def by (metis le_add_diff_inverse add_less_cancel_left)

lemma frame_address:
  assumes "k < 16384"
  shows "unat (of_nat k * 0x1000 :: u64) = k * 4096"
    and "(of_nat k * 0x1000 :: u64) div 0x1000 = of_nat k"
    and "(of_nat k :: u64) div 64 = of_nat (k div 64)" "(of_nat k :: u64) mod 64 = of_nat (k mod 64)"
proof -
  have k: "unat (of_nat k :: u64) = k" using assms by (intro unat_of_nat_u64) simp
  have "unat (of_nat k :: u64) * unat (0x1000 :: u64) < 2 ^ LENGTH(64)" using assms k by simp
  then have "unat (of_nat k * 0x1000 :: u64) = unat (of_nat k :: u64) * unat (0x1000 :: u64)"
    by (simp add: unat_word_ariths)
  then show a: "unat (of_nat k * 0x1000 :: u64) = k * 4096" using k by simp
  show "(of_nat k * 0x1000 :: u64) div 0x1000 = of_nat k"
    by (rule word_unat_eq_iff [THEN iffD2]) (simp add: unat_div a k)
  show "(of_nat k :: u64) div 64 = of_nat (k div 64)"
    using assms by (intro word_unat_eq_iff [THEN iffD2]) (simp add: unat_div k unat_of_nat_u64)
  show "(of_nat k :: u64) mod 64 = of_nat (k mod 64)"
    using assms by (intro word_unat_eq_iff [THEN iffD2]) (simp add: unat_mod k unat_of_nat_u64)
qed


lemma set_frame_at:
  assumes "k < 16384"
  shows "set_frame bit1 (of_nat k * 0x1000) state fr =
    (fr[k div 64 := (if state then fr ! (k div 64) OR bit1 (k mod 64)
       else fr ! (k div 64) AND NOT (bit1 (k mod 64)))], True)"
proof -
  have "unat (of_nat (k div 64) :: u64) = k div 64" "unat (of_nat (k mod 64) :: u64) = k mod 64"
    using assms by (simp_all add: unat_of_nat_u64)
  moreover have "k div 64 < 256" using assms by simp
  ultimately show ?thesis
    by (simp add: set_frame_def Let_def frame_address [OF assms] NUM_OF_FRAMES_def)
qed

lemma set_frame_outside:
  "67108864 \<le> unat a \<Longrightarrow> set_frame bit1 a state fr = (fr, False)"
  by (simp add: set_frame_def Let_def unat_div NUM_OF_FRAMES_def div_le_mono [of 67108864, simplified])

lemma length_set_frame [simp]: "length (fst (set_frame bit1 a s fr)) = length fr"
  by (simp add: set_frame_def Let_def)

lemma length_mark_run [simp]: "length (mark_run bit1 a n fr) = length fr"
  by (induction bit1 a n fr rule: mark_run.induct) simp_all

text \<open>Marking a frame makes it used and frees none, whatever \<^verbatim>\<open>1 << offset\<close> is, as long as it is not zero.\<close>

lemma used_set_frame:
  assumes "frame_used bit1 fr j"
  shows "frame_used bit1 (fst (set_frame bit1 a True fr)) j"
proof -
  have or: "(x OR c) AND b \<noteq> 0" if "x AND b \<noteq> 0" for x b c :: u64
    using that by (metis bit.conj_disj_distrib2 or_eq_0_iff)
  have "fr[i := fr ! i OR c] ! (j div 64) AND b \<noteq> 0" if "fr ! (j div 64) AND b \<noteq> 0" for i c b
    using that or [OF that] by (cases "i < length fr \<and> i = j div 64") (auto simp: nth_list_update list_update_beyond)
  then show ?thesis
    using assms by (simp add: frame_used_def set_frame_def Let_def)
qed

lemma used_mark_run:
  "frame_used bit1 fr j \<Longrightarrow> frame_used bit1 (mark_run bit1 a n fr) j"
  by (induction bit1 a n fr rule: mark_run.induct) (simp_all add: used_set_frame)

lemma set_frame_used:
  assumes "bit_ok bit1" and "length fr = 256" and "k < 16384"
  shows "frame_used bit1 (fst (set_frame bit1 (of_nat k * 0x1000) True fr)) k"
proof -
  have b: "bit1 (k mod 64) \<noteq> 0" using assms(1) by (simp add: bit_ok_def)
  have "(x OR bit1 (k mod 64)) AND bit1 (k mod 64) \<noteq> 0" for x
    using b by (metis bit.conj_disj_distrib2 or_eq_0_iff and.idem)
  moreover have "k div 64 < 256" using assms(3) by simp
  ultimately show ?thesis using assms by (simp add: frame_used_def set_frame_at)
qed

lemma frame_address_Suc: "(of_nat k * 0x1000 :: u64) + PAGE_SIZE = of_nat (Suc k) * 0x1000"
  by (simp add: PAGE_SIZE_def algebra_simps)

lemma mark_run_used:
  assumes "bit_ok bit1" and "length fr = 256" and "k + n \<le> 16384" and "j < n"
  shows "frame_used bit1 (mark_run bit1 (of_nat k * 0x1000) n fr) (k + j)"
  using assms(2-4)
proof (induction n arbitrary: k fr j)
  case (Suc n)
  let ?fr = "fst (set_frame bit1 (of_nat k * 0x1000) True fr)"
  have eq: "mark_run bit1 (of_nat k * 0x1000) (Suc n) fr = mark_run bit1 (of_nat (Suc k) * 0x1000) n ?fr"
    by (simp only: mark_run.simps frame_address_Suc)
  show ?case
  proof (cases j)
    case 0
    then show ?thesis
      using used_mark_run [OF set_frame_used [OF assms(1) Suc.prems(1), of k]] Suc.prems by (simp only: eq) simp
  next
    case (Suc i)
    then show ?thesis using Suc.IH [of ?fr "Suc k" i] Suc.prems by (simp only: eq) simp
  qed
qed simp

section \<open>The search\<close>

text \<open>
  The state of the search in front of frame \<^verbatim>\<open>m\<close>: the last \<^verbatim>\<open>r\<close> frames before \<^verbatim>\<open>m\<close> are a run of free
  frames that cannot be extended to the left, \<^verbatim>\<open>left\<close> counts what is missing, and no long enough
  run ends before \<^verbatim>\<open>m\<close>.
\<close>

definition scan_inv :: "(nat \<Rightarrow> u64) \<Rightarrow> bitmap \<Rightarrow> nat \<Rightarrow> nat \<Rightarrow> u64 \<times> u64 \<Rightarrow> bool" where
  "scan_inv bit1 fr n m s \<longleftrightarrow>
     (\<exists>r<n. r \<le> m \<and> fst s = of_nat (n - r) \<and> (\<forall>j. m - r \<le> j \<and> j < m \<longrightarrow> \<not> frame_used bit1 fr j) \<and>
        (r = m \<or> frame_used bit1 fr (m - r - 1)) \<and> (0 < r \<longrightarrow> snd s = of_nat (m - r) * 0x1000)) \<and>
     (\<forall>k. k + n \<le> m \<longrightarrow> \<not> free_run bit1 fr k n)"

lemma scan_inv_restart:
  assumes "scan_inv bit1 fr n m s" and "0 < n"
    and "m \<le> m'" and "\<And>j. m \<le> j \<Longrightarrow> j < m' \<Longrightarrow> frame_used bit1 fr j" and "m < m'"
  shows "scan_inv bit1 fr n m' (of_nat n, rc)"
  unfolding scan_inv_def
proof (intro conjI exI [of _ 0] allI impI)
  show "0 = m' \<or> frame_used bit1 fr (m' - 0 - 1)" using assms by auto
next
  fix k assume k: "k + n \<le> m'"
  show "\<not> free_run bit1 fr k n"
  proof (cases "k + n \<le> m")
    case True
    then show ?thesis using assms(1) by (simp add: scan_inv_def)
  next
    case False
    then have "frame_used bit1 fr (k + n - 1)" using assms(4) [of "k + n - 1"] k assms(2) by simp
    then show ?thesis using free_runD [of bit1 fr k n "k + n - 1"] assms(2) by (cases n) auto
  qed
qed (use assms(2) in auto)

lemma scan_inv_free:
  assumes inv: "scan_inv bit1 fr n m (left, rc)" and n: "n < 2 ^ 64" and free: "\<not> frame_used bit1 fr m"
    and m: "m < 16384"
  defines "rc' \<equiv> if left = of_nat n then of_nat m * 0x1000 else rc"
  shows "if left - 1 = 0
         then Suc m \<ge> n \<and> rc' = of_nat (Suc m - n) * 0x1000 \<and> free_run bit1 fr (Suc m - n) n
         else scan_inv bit1 fr n (Suc m) (left - 1, rc')"
proof -
  obtain r where r: "r < n" "r \<le> m" "left = of_nat (n - r)"
      "\<forall>j. m - r \<le> j \<and> j < m \<longrightarrow> \<not> frame_used bit1 fr j" "r = m \<or> frame_used bit1 fr (m - r - 1)"
      "0 < r \<longrightarrow> rc = of_nat (m - r) * 0x1000"
    and none: "\<And>k. k + n \<le> m \<Longrightarrow> \<not> free_run bit1 fr k n"
    using inv unfolding scan_inv_def fst_conv snd_conv by blast
  have u: "unat left = n - r" using r(3) n by (simp add: unat_of_nat_u64)
  have un: "unat (of_nat n :: u64) = n" using n by (simp add: unat_of_nat_u64)
  have rc': "rc' = of_nat (m - r) * 0x1000"
  proof (cases "r = 0")
    case True
    then show ?thesis using r(3) by (simp add: rc'_def)
  next
    case False
    then have "unat left \<noteq> unat (of_nat n :: u64)" using False r(1) by (simp only: u un)
    then have "left \<noteq> of_nat n" by blast
    then show ?thesis using r(6) False by (simp add: rc'_def)
  qed
  have all: "\<not> frame_used bit1 fr j" if "m - r \<le> j" "j < Suc m" for j
    using r(4) free that by (cases "j = m") auto
  have minus: "left - 1 = of_nat (n - Suc r)"
    using r(1,3) by (simp flip: Suc_diff_Suc)
  show ?thesis
  proof (cases "Suc r = n")
    case True
    then have "Suc m - n = m - r" "n \<le> Suc m" using r(2) by auto
    moreover have "free_run bit1 fr (m - r) n"
      unfolding free_run_def using all True r(2) m by auto
    ultimately show ?thesis using minus True rc' by simp
  next
    case False
    have "unat (of_nat (n - Suc r) :: u64) = n - Suc r" using n by (simp add: unat_of_nat_u64)
    then have "unat (left - 1) \<noteq> 0" using False r(1) by (simp only: minus)
    then have nz: "left - 1 \<noteq> 0" by auto
    have "scan_inv bit1 fr n (Suc m) (left - 1, rc')"
      unfolding scan_inv_def
    proof (intro conjI exI [of _ "Suc r"] allI impI)
      fix k assume k: "k + n \<le> Suc m"
      show "\<not> free_run bit1 fr k n"
      proof (cases "k + n \<le> m")
        case True
        then show ?thesis by (rule none)
      next
        case F: False
        then have km: "k + n = Suc m" using k by simp
        then have "k \<le> m - r - 1" "m - r - 1 < k + n" "r < m" using False r(1,2) by auto
        then show ?thesis using r(5) free_runD [of bit1 fr k n "m - r - 1"] by auto
      qed
    qed (use False r minus all rc' in auto)
    then show ?thesis using nz by simp
  qed
qed


lemma scan_bits_spec:
  assumes "scan_inv bit1 fr n (64 * i + a) s" and "n < 2 ^ 64" and "0 < n" and "a + k = 64" and "i < 256"
  shows "case scan_bits bit1 (of_nat n) (fr ! i) i [a..<64] s of
      Inl rc \<Rightarrow> \<exists>m. m + n \<le> 64 * i + 64 \<and> rc = of_nat m * 0x1000 \<and> free_run bit1 fr m n \<and>
        (\<forall>m'<m. \<not> free_run bit1 fr m' n)
    | Inr s' \<Rightarrow> scan_inv bit1 fr n (64 * i + 64) s'"
  using assms(1,4)
proof (induction k arbitrary: a s)
  case 0
  then show ?case by simp
next
  case (Suc k)
  obtain left rc where s: "s = (left, rc)" by force
  have a: "a < 64" "[a..<64] = a # [Suc a..<64]" using Suc.prems(2) by (auto simp: upt_conv_Cons)
  let ?m = "64 * i + a"
  have m: "?m div 64 = i" "?m mod 64 = a" "?m < 16384" using a(1) assms(5) by simp_all
  show ?case
  proof (cases "frame_used bit1 fr ?m")
    case True
    have "scan_inv bit1 fr n (64 * i + Suc a) (of_nat n, rc)"
    proof (rule scan_inv_restart [OF Suc.prems(1) assms(3)])
      show "frame_used bit1 fr j" if "?m \<le> j" "j < 64 * i + Suc a" for j
        using True that by (metis Suc_leI add_Suc_right le_antisym not_less_eq_eq)
    qed auto
    then show ?thesis
      using Suc.IH [of "Suc a" "(of_nat n, rc)"] Suc.prems(2) True a(2) m(1,2)
      by (simp add: s frame_used_def)
  next
    case False
    note step = scan_inv_free [OF Suc.prems(1) [unfolded s] assms(2) False m(3)]
    let ?rc = "if left = of_nat n then of_nat ?m * 0x1000 else rc"
    have e: "scan_bits bit1 (of_nat n) (fr ! i) i [a..<64] s =
        (if left - 1 = 0 then Inl ?rc
         else scan_bits bit1 (of_nat n) (fr ! i) i [Suc a..<64] (left - 1, ?rc))"
      using False m(1,2) by (simp add: s a(2) frame_used_def Let_def mult.commute eq_commute [of 0])
    show ?thesis
    proof (cases "left - 1 = 0")
      case True
      have l: "Suc ?m \<ge> n" "?rc = of_nat (Suc ?m - n) * 0x1000" "free_run bit1 fr (Suc ?m - n) n"
        using step True by simp_all
      have "\<not> free_run bit1 fr m' n" if "m' < Suc ?m - n" for m'
        using Suc.prems(1) that unfolding scan_inv_def by simp
      then show ?thesis
        using l a(1) True unfolding e by (auto intro!: exI [of _ "Suc ?m - n"])
    next
      case F: False
      have "scan_inv bit1 fr n (64 * i + Suc a) (left - 1, ?rc)" using step F by simp
      then show ?thesis
        using Suc.IH [of "Suc a" "(left - 1, ?rc)"] Suc.prems(2) F unfolding e by simp
    qed
  qed
qed

lemma scan_words_spec:
  assumes "scan_inv bit1 fr n (64 * i) s" and "n < 2 ^ 64" and "0 < n" and "i + k = 256" and "bit_ok bit1"
  shows "case scan_words bit1 (of_nat n) fr [i..<256] s of
      Some rc \<Rightarrow> \<exists>m. rc = of_nat m * 0x1000 \<and> free_run bit1 fr m n \<and> (\<forall>m'<m. \<not> free_run bit1 fr m' n)
    | None \<Rightarrow> \<forall>m. \<not> free_run bit1 fr m n"
  using assms(1,4)
proof (induction k arbitrary: i s)
  case 0
  then have "scan_inv bit1 fr n 16384 s" "[i..<256] = []" by simp_all
  then show ?case by (auto simp: scan_inv_def free_run_def)
next
  case (Suc k)
  obtain left rc where s: "s = (left, rc)" by force
  have i: "i < 256" "[i..<256] = i # [Suc i..<256]" using Suc.prems(2) by (auto simp: upt_conv_Cons)
  show ?case
  proof (cases "fr ! i = NOT 0")
    case True
    have "scan_inv bit1 fr n (64 * Suc i) (of_nat n, rc)"
    proof (rule scan_inv_restart [OF Suc.prems(1) assms(3)])
      show "frame_used bit1 fr j" if "64 * i \<le> j" "j < 64 * Suc i" for j
      proof -
        have "j div 64 = i" using that by auto
        then show ?thesis using True assms(5) by (simp add: frame_used_def bit_ok_def)
      qed
    qed auto
    then show ?thesis using Suc.IH [of "Suc i" "(of_nat n, rc)"] Suc.prems(2) True i(2) by (simp add: s)
  next
    case False
    have e: "scan_words bit1 (of_nat n) fr [i..<256] s =
        (case scan_bits bit1 (of_nat n) (fr ! i) i [0..<64] s of
           Inl rc \<Rightarrow> Some rc | Inr s \<Rightarrow> scan_words bit1 (of_nat n) fr [Suc i..<256] s)"
      using False i(2) by (simp add: s)
    have inv: "scan_inv bit1 fr n (64 * i + 0) s" using Suc.prems(1) by simp
    note b = scan_bits_spec [OF inv assms(2,3) _ i(1), of 64]
    show ?thesis
    proof (cases "scan_bits bit1 (of_nat n) (fr ! i) i [0..<64] s")
      case (Inl rc')
      then show ?thesis using b unfolding e by auto
    next
      case (Inr s')
      then have "scan_inv bit1 fr n (64 * Suc i) s'" using b by (simp add: add.commute)
      then show ?thesis using Suc.IH [of "Suc i" s'] Suc.prems(2) Inr unfolding e by simp
    qed
  qed
qed

definition first_run :: "(nat \<Rightarrow> u64) \<Rightarrow> bitmap \<Rightarrow> nat \<Rightarrow> nat \<Rightarrow> bool" where
  "first_run bit1 fr n k \<longleftrightarrow> free_run bit1 fr k n \<and> (\<forall>k'<k. \<not> free_run bit1 fr k' n)"

lemma get_frame_spec:
  assumes "bit_ok bit1" and "length fr = 256" and "count \<noteq> 0"
  shows "case get_frame bit1 allocate count fr of
      None \<Rightarrow> \<forall>k. \<not> free_run bit1 fr k (unat count)
    | Some (rc, fr') \<Rightarrow> \<exists>k. first_run bit1 fr (unat count) k \<and> rc = of_nat k * 0x1000 \<and> length fr' = 256 \<and>
        (if allocate
         then (\<forall>j. k \<le> j \<and> j < k + unat count \<longrightarrow> frame_used bit1 fr' j) \<and>
           (\<forall>j. frame_used bit1 fr j \<longrightarrow> frame_used bit1 fr' j)
         else fr' = fr)"
proof -
  let ?n = "unat count"
  have n: "0 < ?n" "?n < 2 ^ 64" using assms(3) unat_u64_lt [of count] by (simp_all add: unat_pos_iff)
  have "scan_inv bit1 fr ?n (64 * 0) (of_nat ?n, 0)"
    using n by (auto simp: scan_inv_def)
  note w = scan_words_spec [OF this n(2,1) _ assms(1), of 256, simplified]
  show ?thesis
  proof (cases "scan_words bit1 count fr [0..<256] (count, 0)")
    case None
    then show ?thesis using w assms(3) by (simp add: get_frame_def NUM_OF_FRAMES_def)
  next
    case (Some rc)
    then obtain k where k: "rc = of_nat k * 0x1000" "first_run bit1 fr ?n k"
      using w by (auto simp: first_run_def)
    have run: "k + ?n \<le> 16384" using k(2) by (simp add: first_run_def free_run_def)
    have "frame_used bit1 (mark_run bit1 rc ?n fr) j" if "k \<le> j \<and> j < k + ?n" for j
    proof -
      have "j - k < ?n" using that by arith
      then show ?thesis using mark_run_used [OF assms(1,2) run, of "j - k"] that k(1) by simp
    qed
    then show ?thesis
      using k Some assms by (auto simp: get_frame_def NUM_OF_FRAMES_def used_mark_run intro!: exI [of _ k])
  qed
qed

text \<open>
  C21 (get_frame_first_fit): \<^verbatim>\<open>get_frame\<close> returns exactly when some run of \<^verbatim>\<open>count\<close> free frames exists; it then
  returns the address of the first such run, and if it allocates, every frame of the run is used
  afterwards and no used frame has become free.  This holds for whatever \<^verbatim>\<open>1 << offset\<close> is, as long
  as it is never zero.
\<close>

theorem get_frame_first_fit:
  assumes "bit_ok bit1" and "length fr = 256" and "count \<noteq> 0"
  shows "case get_frame bit1 allocate count fr of
      None \<Rightarrow> \<forall>k. \<not> free_run bit1 fr k (unat count)
    | Some (rc, fr') \<Rightarrow> \<exists>k. first_run bit1 fr (unat count) k \<and> rc = of_nat k * 0x1000 \<and> length fr' = 256 \<and>
        (if allocate
         then (\<forall>j. k \<le> j \<and> j < k + unat count \<longrightarrow> frame_used bit1 fr' j) \<and>
           (\<forall>j. frame_used bit1 fr j \<longrightarrow> frame_used bit1 fr' j)
         else fr' = fr)"
  using assms by (rule get_frame_spec)


lemma bit_ok_shifts: "bit_ok shl_intended" "bit_ok shl_x86"
proof -
  have "bit (shl_intended k) k" if "k < 64" for k using that by (simp add: shl_intended_def bit_simps)
  then show "bit_ok shl_intended" unfolding bit_ok_def by (metis bit_0_eq bot_apply bot_bool_def)
  have "bit (shl_x86 k) (k mod 32)" for k
  proof -
    have "k mod 32 < 32" by simp
    then show ?thesis by (simp add: shl_x86_def bit_simps)
  qed
  then show "bit_ok shl_x86" unfolding bit_ok_def by (metis bit_0_eq bot_apply bot_bool_def)
qed

theorem get_frame_first_fit_witness:
  "\<exists>fr. get_frame shl_x86 True 3 (replicate 256 0) = Some (0, fr) \<and> (\<forall>j<3. frame_used shl_x86 fr j)"
proof -
  let ?z = "replicate 256 0 :: bitmap"
  have "\<not> frame_used shl_x86 ?z j" if "j < 3" for j
  proof -
    have "j div 64 < 256" using that by simp
    then show ?thesis by (simp add: frame_used_def)
  qed
  then have run: "free_run shl_x86 ?z 0 3" by (simp add: free_run_def)
  have first: "k = 0" if "first_run shl_x86 ?z 3 k" for k
    using run that unfolding first_run_def by blast
  have u: "unat (3 :: u64) = 3" by simp
  note fit = get_frame_first_fit [OF bit_ok_shifts(2), of ?z 3 True, unfolded u]
  show ?thesis
  proof (cases "get_frame shl_x86 True 3 ?z")
    case None
    then show ?thesis using fit run by auto
  next
    case (Some r)
    then obtain rc fr where "get_frame shl_x86 True 3 ?z = Some (rc, fr)" by (cases r) auto
    then show ?thesis using fit first by fastforce
  qed
qed

section \<open>Sequences of allocations\<close>

fun allocations :: "(nat \<Rightarrow> u64) \<Rightarrow> u64 list \<Rightarrow> bitmap \<Rightarrow> ((u64 \<times> u64) list \<times> bitmap) option" where
  "allocations bit1 [] fr = Some ([], fr)"
| "allocations bit1 (c # cs) fr = do {
     (rc, fr) \<leftarrow> get_frame bit1 True c fr;
     (rs, fr) \<leftarrow> allocations bit1 cs fr;
     Some ((rc, c) # rs, fr)
   }"

definition frames_of :: "u64 \<times> u64 \<Rightarrow> nat list" where
  "frames_of r = [unat (fst r) div 4096..<unat (fst r) div 4096 + unat (snd r)]"

lemma get_frame_run:
  assumes "bit_ok bit1" and "length fr = 256" and "get_frame bit1 True c fr = Some (rc, fr')"
  obtains k where "first_run bit1 fr (unat c) k" and "rc = of_nat k * 0x1000" and "length fr' = 256"
    and "\<And>j. k \<le> j \<Longrightarrow> j < k + unat c \<Longrightarrow> frame_used bit1 fr' j"
    and "\<And>j. frame_used bit1 fr j \<Longrightarrow> frame_used bit1 fr' j"
    and "frames_of (rc, c) = [k..<k + unat c]" and "0 < unat c" and "k + unat c \<le> 16384"
proof -
  have c: "c \<noteq> 0" using assms(3) by (auto simp: get_frame_def)
  obtain k where k: "first_run bit1 fr (unat c) k" "rc = of_nat k * 0x1000" "length fr' = 256"
      "\<forall>j. k \<le> j \<and> j < k + unat c \<longrightarrow> frame_used bit1 fr' j"
      "\<forall>j. frame_used bit1 fr j \<longrightarrow> frame_used bit1 fr' j"
    using get_frame_spec [OF assms(1,2) c, of True] unfolding assms(3) by auto
  have run: "k + unat c \<le> 16384" "0 < unat c"
    using k(1) c by (simp_all add: first_run_def free_run_def unat_pos_iff)
  then have "unat rc = k * 4096" using frame_address(1) [of k] k(2) by simp
  then have "frames_of (rc, c) = [k..<k + unat c]" by (simp add: frames_of_def)
  then show thesis using that k run by blast
qed

text \<open>
  C11 (frames_never_shared): However many runs of frames are allocated one after the other, no frame is handed
  out twice, and none that was used before; all of them are used afterwards.
\<close>

theorem frames_never_shared:
  assumes "bit_ok bit1" and "length fr = 256" and "allocations bit1 cs fr = Some (rs, fr')"
  shows "map snd rs = cs \<and> distinct (concat (map frames_of rs)) \<and>
    (\<forall>k\<in>set (concat (map frames_of rs)). k < 16384 \<and> \<not> frame_used bit1 fr k \<and> frame_used bit1 fr' k) \<and>
    (\<forall>k. frame_used bit1 fr k \<longrightarrow> frame_used bit1 fr' k)"
  using assms(2,3)
proof (induction cs arbitrary: fr rs)
  case Nil
  then show ?case by simp
next
  case (Cons c cs)
  then obtain rc fr1 rs1 where 1: "get_frame bit1 True c fr = Some (rc, fr1)"
      "allocations bit1 cs fr1 = Some (rs1, fr')" "rs = (rc, c) # rs1"
    by (auto split: bind_splits)
  obtain k where k: "first_run bit1 fr (unat c) k" "length fr1 = 256"
      "\<And>j. k \<le> j \<Longrightarrow> j < k + unat c \<Longrightarrow> frame_used bit1 fr1 j"
      "\<And>j. frame_used bit1 fr j \<Longrightarrow> frame_used bit1 fr1 j"
      "frames_of (rc, c) = [k..<k + unat c]" "k + unat c \<le> 16384"
    by (rule get_frame_run [OF assms(1) Cons.prems(1) 1(1)]) blast
  have free: "\<not> frame_used bit1 fr j" if "k \<le> j" "j < k + unat c" for j
    using k(1) that free_runD by (auto simp: first_run_def)
  have IH: "map snd rs1 = cs" "distinct (concat (map frames_of rs1))"
      "\<And>j. j \<in> set (concat (map frames_of rs1)) \<Longrightarrow> j < 16384 \<and> \<not> frame_used bit1 fr1 j \<and> frame_used bit1 fr' j"
      "\<And>j. frame_used bit1 fr1 j \<Longrightarrow> frame_used bit1 fr' j"
    using Cons.IH [OF k(2) 1(2)] by blast+
  have "set (frames_of (rc, c)) \<inter> set (concat (map frames_of rs1)) = {}"
    using k(3,5) IH(3) by fastforce
  then have d: "distinct (concat (map frames_of rs))"
    using IH(2) k(5) by (simp add: 1(3))
  have "j < 16384 \<and> \<not> frame_used bit1 fr j \<and> frame_used bit1 fr' j"
    if "j \<in> set (concat (map frames_of rs))" for j
    using that free k(3-6) IH(3,4) unfolding 1(3) by fastforce
  then show ?case using d IH(1,4) k(4) 1(3) by simp
qed

theorem frames_never_shared_witness:
  "\<exists>rs fr. allocations shl_x86 [2] (replicate 256 0) = Some (rs, fr) \<and> distinct (concat (map frames_of rs))"
proof -
  let ?z = "replicate 256 0 :: bitmap"
  have z: "?z ! 0 = 0" "[0..<256] = 0 # [1..<256]" "[0..<64] = 0 # 1 # [2..<64]"
    by (simp_all add: upt_conv_Cons del: replicate_Suc)
  have "scan_words shl_x86 2 ?z [0..<256] (2, 0) = Some 0"
  proof -
    have "scan_bits shl_x86 2 0 0 [0..<64] (2, 0) = Inl 0" by (simp only: z(3)) simp
    then show ?thesis by (subst z(2)) (simp add: z(1))
  qed
  then have "allocations shl_x86 [2] ?z = Some ([(0, 2)], mark_run shl_x86 0 2 ?z)"
    by (simp add: get_frame_def NUM_OF_FRAMES_def)
  moreover have "distinct (concat (map frames_of [(0, 2)]))"
    using frames_never_shared [OF bit_ok_shifts(2) _ calculation] by simp
  ultimately show ?thesis by blast
qed

end
