(* ===== verification/Paging.thy ===== *)
theory Paging
  imports CMemory Prng Frames
begin

text \<open>
  Virtual memory, \<^verbatim>\<open>arch/amd64/mmu.c\<close>.  The memory of the machine is physical; the program reaches
  it only through the four-level page tables that start at \<^verbatim>\<open>cr3\<close>, which are themselves part of
  it, so that \<^verbatim>\<open>vload64\<close> and \<^verbatim>\<open>vstore64\<close> walk the tables as the processor does (an absent entry is a
  page fault, \<^term>\<open>None\<close>).  The processor's view is simplified in that the upper bits of an entry
  and of an address are not interpreted and the tables are read afresh at every access.  The structures
  \<^verbatim>\<open>PML4T\<close>, \<^verbatim>\<open>PDPT\<close>, \<^verbatim>\<open>PDT\<close> are two pages of memory: the 512 entries the processor reads and
  behind them the 512 virtual addresses of the next tables, which only the program reads.
\<close>

section \<open>The machine\<close>

record mmu_directory =
  pml4t :: u64
  dir_physical :: u64

record mmu =
  pmem :: mem
  cr3 :: u64
  frames :: bitmap
  heap_end :: u64
  directories :: "u64 \<Rightarrow> mmu_directory option"
  active_directory :: u64
  prng_seed :: xstate

definition PAGE_FLAG_PRESENT :: u64 where "PAGE_FLAG_PRESENT = 1"

definition present :: "u64 \<Rightarrow> bool" where
  "present e \<longleftrightarrow> e AND PAGE_FLAG_PRESENT \<noteq> 0"

definition page_base :: "u64 \<Rightarrow> u64" where
  "page_base e = e AND NOT 0xFFF"

definition table_index :: "nat \<Rightarrow> u64 \<Rightarrow> u64" where
  "table_index shift a = drop_bit shift a AND 0x1FF"

definition path_of :: "u64 \<Rightarrow> u64 list" where
  "path_of a = [table_index 39 a, table_index 30 a, table_index 21 a, table_index 12 a]"

fun walk :: "mem \<Rightarrow> u64 \<Rightarrow> u64 list \<Rightarrow> u64 option" where
  "walk m t [] = Some t"
| "walk m t (i # is) =
     (let e = load64 m (t + 8 * i) in if present e then walk m (page_base e) is else None)"

definition translate :: "mmu \<Rightarrow> u64 \<Rightarrow> u64 option" where
  "translate st a = map_option (\<lambda>f. f OR (a AND 0xFFF)) (walk (pmem st) (cr3 st) (path_of a))"

text \<open>An access lies inside one page: all accesses of the code are aligned to their width.\<close>

definition vload_run :: "mmu \<Rightarrow> u64 \<Rightarrow> nat \<Rightarrow> u8 list option" where
  "vload_run st a w = do { pa \<leftarrow> translate st a; Some (load_bytes (pmem st) pa w) }"

definition vstore_run :: "u64 \<Rightarrow> u8 list \<Rightarrow> mmu \<Rightarrow> mmu option" where
  "vstore_run a bs st = do { pa \<leftarrow> translate st a; Some (st\<lparr>pmem := store_bytes (pmem st) pa bs\<rparr>) }"

definition vload64 :: "mmu \<Rightarrow> u64 \<Rightarrow> u64 option" where
  "vload64 st a = do { bs \<leftarrow> vload_run st a 8; Some (of_le_bytes bs) }"

definition vload32 :: "mmu \<Rightarrow> u64 \<Rightarrow> u32 option" where
  "vload32 st a = do { bs \<leftarrow> vload_run st a 4; Some (of_le_bytes bs) }"

definition vstore64 :: "u64 \<Rightarrow> u64 \<Rightarrow> mmu \<Rightarrow> mmu option" where
  "vstore64 a v st = vstore_run a (le_bytes 8 v) st"

text \<open>The loops of \<^verbatim>\<open>memset\<close> and \<^verbatim>\<open>memcpy\<close> on virtual addresses, and the filling of a buffer byte by byte.\<close>

fun vstore_bytes :: "u64 \<Rightarrow> u8 list \<Rightarrow> mmu \<Rightarrow> mmu option" where
  "vstore_bytes a [] st = Some st"
| "vstore_bytes a (b # bs) st = do { st \<leftarrow> vstore_run a [b] st; vstore_bytes (a + 1) bs st }"

definition vmemset :: "u64 \<Rightarrow> u8 \<Rightarrow> u64 \<Rightarrow> mmu \<Rightarrow> mmu option" where
  "vmemset a c n st = vstore_bytes a (replicate (unat n) c) st"

fun vcopy :: "nat \<Rightarrow> nat \<Rightarrow> u64 \<Rightarrow> u64 \<Rightarrow> mmu \<Rightarrow> mmu option" where
  "vcopy w 0 d s st = Some st"
| "vcopy w (Suc k) d s st = do {
     bs \<leftarrow> vload_run st s w;
     st \<leftarrow> vstore_run d bs st;
     vcopy w k (d + of_nat w) (s + of_nat w) st
   }"

definition vmemcpy :: "u64 \<Rightarrow> u64 \<Rightarrow> nat \<Rightarrow> mmu \<Rightarrow> mmu option" where
  "vmemcpy d s n st = do {
     let k8 = n div 8;
     let k4 = n mod 8 div 4;
     let k2 = n mod 4 div 2;
     let k1 = n mod 2;
     st \<leftarrow> vcopy 8 k8 d s st;
     let o4 = of_nat (8 * k8);
     st \<leftarrow> vcopy 4 k4 (d + o4) (s + o4) st;
     let o2 = o4 + of_nat (4 * k4);
     st \<leftarrow> vcopy 2 k2 (d + o2) (s + o2) st;
     let o1 = o2 + of_nat (2 * k2);
     vcopy 1 k1 (d + o1) (s + o1) st
   }"

fun for_each :: "('a \<Rightarrow> 's \<Rightarrow> 's option) \<Rightarrow> 'a list \<Rightarrow> 's \<Rightarrow> 's option" where
  "for_each f [] st = Some st"
| "for_each f (x # xs) st = do { st \<leftarrow> f x st; for_each f xs st }"

text \<open>\<^verbatim>\<open>for (size_t i = ..; i < length; i += PAGE_SIZE)\<close>; it never ends if \<^verbatim>\<open>i\<close> wraps around below \<^verbatim>\<open>length\<close>.\<close>

partial_function (option) page_loop :: "(u64 \<Rightarrow> 's \<Rightarrow> 's option) \<Rightarrow> u64 \<Rightarrow> u64 \<Rightarrow> 's \<Rightarrow> 's option" where
  "page_loop f len i st =
     (if i < len then do { st \<leftarrow> f i st; page_loop f len (i + PAGE_SIZE) st } else Some st)"

definition align_up :: "u64 \<Rightarrow> u64 \<Rightarrow> u64" where
  "align_up a n = (if a mod n = 0 then a else a - a mod n + n)"

section \<open>The active directory\<close>

definition active :: "mmu \<Rightarrow> mmu_directory option" where
  "active st = directories st (active_directory st)"

text \<open>
  Entry \<^verbatim>\<open>i\<close> of a table is at \<^verbatim>\<open>entry_at v i\<close>, the virtual address of the next table at \<^verbatim>\<open>next_at v i\<close>.
\<close>

definition entry_at :: "u64 \<Rightarrow> u64 \<Rightarrow> u64" where "entry_at v i = v + 8 * i"
definition next_at :: "u64 \<Rightarrow> u64 \<Rightarrow> u64" where "next_at v i = v + 0x1000 + 8 * i"

definition pml4t_of :: "mmu \<Rightarrow> u64 option" where
  "pml4t_of st = map_option pml4t (active st)"

definition pdpt_of :: "u64 \<Rightarrow> mmu \<Rightarrow> u64 option" where
  "pdpt_of i4 st = do { v \<leftarrow> pml4t_of st; vload64 st (next_at v i4) }"

definition pdt_of :: "u64 \<Rightarrow> u64 \<Rightarrow> mmu \<Rightarrow> u64 option" where
  "pdt_of i4 i3 st = do { v \<leftarrow> pdpt_of i4 st; vload64 st (next_at v i3) }"

definition pt_of :: "u64 \<Rightarrow> u64 \<Rightarrow> u64 \<Rightarrow> mmu \<Rightarrow> u64 option" where
  "pt_of i4 i3 i2 st = do { v \<leftarrow> pdt_of i4 i3 st; vload64 st (next_at v i2) }"

definition get_page :: "u64 \<Rightarrow> mmu \<Rightarrow> u64 option" where
  "get_page a st = do {
     v \<leftarrow> pt_of (table_index 39 a) (table_index 30 a) (table_index 21 a) st;
     Some (entry_at v (table_index 12 a))
   }"

definition mmu_virtual_to_physical :: "u64 \<Rightarrow> mmu \<Rightarrow> (u64 \<times> bool) option" where
  "mmu_virtual_to_physical a st = do {
     let i4 = table_index 39 a;
     let i3 = table_index 30 a;
     let i2 = table_index 21 a;
     let i1 = table_index 12 a;
     v4 \<leftarrow> pml4t_of st;
     e4 \<leftarrow> vload64 st (entry_at v4 i4);
     (if \<not> present e4 then Some (0, False)
      else do {
        v3 \<leftarrow> pdpt_of i4 st;
        e3 \<leftarrow> vload64 st (entry_at v3 i3);
        (if \<not> present e3 then Some (0, False)
         else do {
           v2 \<leftarrow> pdt_of i4 i3 st;
           e2 \<leftarrow> vload64 st (entry_at v2 i2);
           (if \<not> present e2 then Some (0, False)
            else do {
              v1 \<leftarrow> pt_of i4 i3 i2 st;
              p \<leftarrow> vload64 st (entry_at v1 i1);
              (if \<not> present p then Some (0, False)
               else Some (page_base p OR (a AND 0xFFF), True))
            })
         })
      })
   }"

section \<open>Mapping pages\<close>

text \<open>
  \<^verbatim>\<open>check_virtual_region_is_free\<close>, \<^verbatim>\<open>mmu_find_free_virtual_region\<close>, \<^verbatim>\<open>safe_allocation\<close> and \<^verbatim>\<open>allocate_pt\<close> call
  each other: a missing table is allocated while the search for a place for a table goes on.  Each
  of the first three takes the \<^verbatim>\<open>allocate_pt\<close> it calls as a parameter; \<^verbatim>\<open>allocate_pt\<close> ties the knot
  with a bound \<^verbatim>\<open>n\<close> on the nesting of the calls.
\<close>

type_synonym pt_alloc = "u64 \<Rightarrow> u64 \<Rightarrow> u64 \<Rightarrow> mmu \<Rightarrow> (mmu \<times> bool) option"

definition take_frame :: "(nat \<Rightarrow> u64) \<Rightarrow> u64 \<Rightarrow> mmu \<Rightarrow> (mmu \<times> u64) option" where
  "take_frame bit1 count st = do {
     (rc, fr) \<leftarrow> get_frame bit1 True count (frames st);
     Some (st\<lparr>frames := fr\<rparr>, rc)
   }"

text \<open>The result: what it returns, and what it stores through \<^verbatim>\<open>physical\<close>, if it does.\<close>

definition check_region ::
  "(nat \<Rightarrow> u64) \<Rightarrow> pt_alloc \<Rightarrow> u64 \<Rightarrow> bool \<Rightarrow> bool \<Rightarrow> u64 \<Rightarrow> mmu \<Rightarrow> (mmu \<times> bool \<times> u64 option) option" where
  "check_region bit1 alloc a allocate use_frame frame st = do {
     (st, _) \<leftarrow> alloc (table_index 39 a) (table_index 30 a) (table_index 21 a) st;
     p \<leftarrow> get_page a st;
     e \<leftarrow> vload64 st p;
     (if \<not> present e
      then (if allocate
            then do {
              (st, frame) \<leftarrow> (if \<not> use_frame then take_frame bit1 1 st else Some (st, frame));
              st \<leftarrow> vstore64 p frame st;
              e \<leftarrow> vload64 st p;
              st \<leftarrow> vstore64 p (e OR 0x3) st;
              e \<leftarrow> vload64 st p;
              Some (st, True, Some (page_base e))
            }
            else Some (st, True, None))
      else Some (st, False, Some (page_base e)))
   }"

partial_function (option) region_is_free ::
  "(u64 \<Rightarrow> mmu \<Rightarrow> (mmu \<times> bool) option) \<Rightarrow> u64 \<Rightarrow> u64 \<Rightarrow> u64 \<Rightarrow> mmu \<Rightarrow> (mmu \<times> bool) option" where
  "region_is_free chk len offset i st =
     (if i < len
      then do {
        (st, free) \<leftarrow> chk (heap_end st + offset + i) st;
        (if free then region_is_free chk len offset (i + PAGE_SIZE) st else Some (st, False))
      }
      else Some (st, True))"

partial_function (option) find_region ::
  "(u64 \<Rightarrow> mmu \<Rightarrow> (mmu \<times> bool) option) \<Rightarrow> u64 \<Rightarrow> u64 \<Rightarrow> mmu \<Rightarrow> (mmu \<times> u64) option" where
  "find_region chk len offset st = do {
     (st, free) \<leftarrow> region_is_free chk len offset 0 st;
     (if free then Some (st, heap_end st + offset) else find_region chk len (offset + PAGE_SIZE) st)
   }"

definition peek_region :: "(nat \<Rightarrow> u64) \<Rightarrow> pt_alloc \<Rightarrow> u64 \<Rightarrow> mmu \<Rightarrow> (mmu \<times> bool) option" where
  "peek_region bit1 alloc a st = do {
     (st, free, _) \<leftarrow> check_region bit1 alloc a False False 0 st;
     Some (st, free)
   }"

definition find_free :: "(nat \<Rightarrow> u64) \<Rightarrow> pt_alloc \<Rightarrow> u64 \<Rightarrow> mmu \<Rightarrow> (mmu \<times> u64) option" where
  "find_free bit1 alloc len st = find_region (peek_region bit1 alloc) len 0 st"

text \<open>\<^verbatim>\<open>assert(check_virtual_region_is_free(a, NULL, true, true, frame))\<close>\<close>

definition map_page :: "(nat \<Rightarrow> u64) \<Rightarrow> pt_alloc \<Rightarrow> u64 \<Rightarrow> u64 \<Rightarrow> mmu \<Rightarrow> mmu option" where
  "map_page bit1 alloc a frame st = do {
     (st, ok, _) \<leftarrow> check_region bit1 alloc a True True frame st;
     c_assert ok;
     Some st
   }"

fun map_run :: "(nat \<Rightarrow> u64) \<Rightarrow> pt_alloc \<Rightarrow> u64 \<Rightarrow> u64 \<Rightarrow> nat \<Rightarrow> mmu \<Rightarrow> mmu option" where
  "map_run bit1 alloc ptr phys_ptr 0 st = Some st"
| "map_run bit1 alloc ptr phys_ptr (Suc n) st = do {
     st \<leftarrow> map_page bit1 alloc ptr phys_ptr st;
     map_run bit1 alloc (ptr + PAGE_SIZE) (phys_ptr + PAGE_SIZE) n st
   }"

text \<open>\<^verbatim>\<open>put\<close> is the store through the argument \<^verbatim>\<open>physical\<close>.\<close>

definition safe_alloc ::
  "(nat \<Rightarrow> u64) \<Rightarrow> pt_alloc \<Rightarrow> u64 \<Rightarrow> (u64 \<Rightarrow> mmu \<Rightarrow> mmu option) \<Rightarrow> mmu \<Rightarrow> (mmu \<times> u64 \<times> u64) option" where
  "safe_alloc bit1 alloc len put st = do {
     (st, p) \<leftarrow> take_frame bit1 (align_up len PAGE_SIZE div PAGE_SIZE) st;
     (st, a) \<leftarrow> find_free bit1 alloc len st;
     st \<leftarrow> put p st;
     st \<leftarrow> map_run bit1 alloc a p (unat (len div PAGE_SIZE)) st;
     st \<leftarrow> vmemset a 0 (align_up len PAGE_SIZE) st;
     Some (st, a, p)
   }"

text \<open>
  A new table is allocated and entered in the table \<^verbatim>\<open>loc\<close> points to, first for the processor and
  then for the program: the body that \<^verbatim>\<open>allocate_pt\<close> repeats for every level.
\<close>

definition add_table ::
  "(nat \<Rightarrow> u64) \<Rightarrow> pt_alloc \<Rightarrow> u64 \<Rightarrow> (mmu \<Rightarrow> u64 option) \<Rightarrow> u64 \<Rightarrow> mmu \<Rightarrow> mmu option" where
  "add_table bit1 alloc bytes loc i st = do {
     (st, a, physical) \<leftarrow> safe_alloc bit1 alloc bytes (\<lambda>_ st. Some st) st;
     v \<leftarrow> loc st;
     st \<leftarrow> vstore64 (entry_at v i) (physical OR 0x3) st;
     v \<leftarrow> loc st;
     vstore64 (next_at v i) a st
   }"

definition allocate_pt_body :: "(nat \<Rightarrow> u64) \<Rightarrow> pt_alloc \<Rightarrow> pt_alloc" where
  "allocate_pt_body bit1 alloc i4 i3 i2 st = do {
     v4 \<leftarrow> pml4t_of st;
     e \<leftarrow> vload64 st (entry_at v4 i4);
     st \<leftarrow> (if \<not> present e then add_table bit1 alloc 0x2000 pml4t_of i4 st else Some st);
     v3 \<leftarrow> pdpt_of i4 st;
     e \<leftarrow> vload64 st (entry_at v3 i3);
     st \<leftarrow> (if \<not> present e then add_table bit1 alloc 0x2000 (pdpt_of i4) i3 st else Some st);
     v2 \<leftarrow> pdt_of i4 i3 st;
     e \<leftarrow> vload64 st (entry_at v2 i2);
     (if present e then Some (st, False)
      else do {
        st \<leftarrow> add_table bit1 alloc 0x1000 (pdt_of i4 i3) i2 st;
        Some (st, True)
      })
   }"

fun allocate_pt :: "(nat \<Rightarrow> u64) \<Rightarrow> nat \<Rightarrow> pt_alloc" where
  "allocate_pt bit1 0 = (\<lambda>i4 i3 i2 st. None)"
| "allocate_pt bit1 (Suc n) = allocate_pt_body bit1 (allocate_pt bit1 n)"

definition check_virtual_region_is_free ::
  "(nat \<Rightarrow> u64) \<Rightarrow> nat \<Rightarrow> u64 \<Rightarrow> bool \<Rightarrow> bool \<Rightarrow> u64 \<Rightarrow> mmu \<Rightarrow> (mmu \<times> bool \<times> u64 option) option" where
  "check_virtual_region_is_free bit1 n = check_region bit1 (allocate_pt bit1 n)"

definition mmu_find_free_virtual_region :: "(nat \<Rightarrow> u64) \<Rightarrow> nat \<Rightarrow> u64 \<Rightarrow> mmu \<Rightarrow> (mmu \<times> u64) option" where
  "mmu_find_free_virtual_region bit1 n = find_free bit1 (allocate_pt bit1 n)"

definition safe_allocation ::
  "(nat \<Rightarrow> u64) \<Rightarrow> nat \<Rightarrow> u64 \<Rightarrow> (u64 \<Rightarrow> mmu \<Rightarrow> mmu option) \<Rightarrow> mmu \<Rightarrow> (mmu \<times> u64 \<times> u64) option" where
  "safe_allocation bit1 n = safe_alloc bit1 (allocate_pt bit1 n)"

definition allocate_next_pt :: "(nat \<Rightarrow> u64) \<Rightarrow> nat \<Rightarrow> u64 \<Rightarrow> mmu \<Rightarrow> mmu option" where
  "allocate_next_pt bit1 n a st = do {
     let i4 = table_index 39 a;
     let i3 = table_index 30 a;
     let i2 = table_index 21 a;
     (st, _) \<leftarrow> allocate_pt bit1 n i4 i3 i2 st;
     (st, _) \<leftarrow> allocate_pt bit1 n i4 i3 (i2 + 1) st;
     Some st
   }"

definition mmu_map_frames :: "(nat \<Rightarrow> u64) \<Rightarrow> nat \<Rightarrow> u64 \<Rightarrow> u64 \<Rightarrow> mmu \<Rightarrow> (mmu \<times> u64) option" where
  "mmu_map_frames bit1 n src len st = do {
     (st, virtual) \<leftarrow> mmu_find_free_virtual_region bit1 n len st;
     (_, st) \<leftarrow> page_loop (\<lambda>i (p, st). do {
         st \<leftarrow> map_page bit1 (allocate_pt bit1 n) (virtual + i) p st;
         Some (p + PAGE_SIZE, st)
       }) len 0 (src, st);
     Some (st, virtual)
   }"

definition mmu_unmap_frames :: "u64 \<Rightarrow> u64 \<Rightarrow> mmu \<Rightarrow> mmu option" where
  "mmu_unmap_frames src len st =
     page_loop (\<lambda>i st. do {
       page \<leftarrow> get_page (src + i) st;
       c_assert (page \<noteq> 0);
       vstore64 page 0 st
     }) len 0 st"


section \<open>Memory for the heap\<close>

partial_function (option) ksbrk_loop ::
  "(nat \<Rightarrow> u64) \<Rightarrow> nat \<Rightarrow> u64 \<Rightarrow> u64 \<Rightarrow> u64 \<Rightarrow> mmu \<Rightarrow> (mmu \<times> u64) option" where
  "ksbrk_loop bit1 n len i r st =
     (if i < len
      then do {
        (st, was_free, physical) \<leftarrow> check_virtual_region_is_free bit1 n (heap_end st) True False 0 st;
        c_assert was_free;
        p \<leftarrow> physical;
        let r = (if r = 0 then p else r);
        ksbrk_loop bit1 n len (i + 0x1000) r (st\<lparr>heap_end := heap_end st + 0x1000\<rparr>)
      }
      else Some (st, r))"

text \<open>The result: the address, and what is stored through \<^verbatim>\<open>physical\<close>, if anything.\<close>

definition ksbrk_physical :: "(nat \<Rightarrow> u64) \<Rightarrow> nat \<Rightarrow> u64 \<Rightarrow> mmu \<Rightarrow> (mmu \<times> u64 \<times> u64 option) option" where
  "ksbrk_physical bit1 n len st = do {
     (st, rc) \<leftarrow> mmu_find_free_virtual_region bit1 n len st;
     let st = st\<lparr>heap_end := rc\<rparr>;
     st \<leftarrow> allocate_next_pt bit1 n (heap_end st) st;
     (if len = 0 then Some (st, 0, None)
      else do {
        (st, rc) \<leftarrow> mmu_find_free_virtual_region bit1 n len st;
        let st = st\<lparr>heap_end := rc\<rparr>;
        (st, r) \<leftarrow> ksbrk_loop bit1 n len 0 0 st;
        let (seed, out) = prng_get_pseudorandom (prng_seed st) (align_up len PAGE_SIZE);
        st \<leftarrow> vstore_bytes rc out (st\<lparr>prng_seed := seed\<rparr>);
        Some (st, rc, Some r)
      })
   }"

definition ksbrk :: "(nat \<Rightarrow> u64) \<Rightarrow> nat \<Rightarrow> u64 \<Rightarrow> mmu \<Rightarrow> (mmu \<times> u64) option" where
  "ksbrk bit1 n len st = do { (st, rc, _) \<leftarrow> ksbrk_physical bit1 n len st; Some (st, rc) }"

section \<open>The kernel stack\<close>

definition new_stack :: u64 where "new_stack = 0xffffff8000000000"

definition stack_pages :: "(nat \<Rightarrow> u64) \<Rightarrow> nat \<Rightarrow> mmu \<Rightarrow> mmu option" where
  "stack_pages bit1 n st =
     page_loop (\<lambda>i st. do {
       (st, ok, _) \<leftarrow> check_virtual_region_is_free bit1 n (new_stack - i) True False 0 st;
       c_assert ok;
       Some st
     }) 0x8000 0x1000 st"

text \<open>
  \<^verbatim>\<open>goto_function_with_stack\<close> saves the old \<^verbatim>\<open>rsp\<close> and \<^verbatim>\<open>rbp\<close> on the new stack and calls; \<^verbatim>\<open>ret\<close> is the
  return address that the call pushes.  What the called function does beyond the memory is part of
  its result \<^typ>\<open>'s\<close>.
\<close>

definition goto_function_with_stack ::
  "(mmu \<Rightarrow> 's option) \<Rightarrow> u64 \<Rightarrow> u64 \<times> u64 \<times> u64 \<Rightarrow> mmu \<Rightarrow> 's option" where
  "goto_function_with_stack f sp regs st = do {
     let (rsp, rbp, ret) = regs;
     st \<leftarrow> vstore64 (sp - 8) rsp st;
     st \<leftarrow> vstore64 (sp - 16) rbp st;
     st \<leftarrow> vstore64 (sp - 24) ret st;
     f st
   }"

definition mmu_update_stack ::
  "(nat \<Rightarrow> u64) \<Rightarrow> nat \<Rightarrow> (mmu \<Rightarrow> 's option) \<Rightarrow> u64 \<times> u64 \<times> u64 \<Rightarrow> mmu \<Rightarrow> 's option" where
  "mmu_update_stack bit1 n f regs st = do {
     st \<leftarrow> stack_pages bit1 n st;
     goto_function_with_stack f new_stack regs st
   }"

section \<open>Copying address spaces\<close>

definition copy_frame :: "(nat \<Rightarrow> u64) \<Rightarrow> nat \<Rightarrow> u64 \<Rightarrow> u64 \<Rightarrow> mmu \<Rightarrow> mmu option" where
  "copy_frame bit1 n physical_dst physical_src st = do {
     (st, dst) \<leftarrow> mmu_map_frames bit1 n physical_dst PAGE_SIZE st;
     (st, src) \<leftarrow> mmu_map_frames bit1 n physical_src PAGE_SIZE st;
     (pd, _) \<leftarrow> mmu_virtual_to_physical dst st;
     c_assert (page_base physical_dst = pd);
     (ps, _) \<leftarrow> mmu_virtual_to_physical src st;
     c_assert (page_base physical_src = ps);
     st \<leftarrow> vmemcpy dst src (unat PAGE_SIZE) st;
     st \<leftarrow> mmu_unmap_frames dst PAGE_SIZE st;
     mmu_unmap_frames src PAGE_SIZE st
   }"

text \<open>
  The three clone functions receive the addresses of the two places to fill: the pointer for the
  program (\<^verbatim>\<open>slot\<close>) and the entry for the processor (\<^verbatim>\<open>phys_slot\<close>).
\<close>

definition clone_pt :: "(nat \<Rightarrow> u64) \<Rightarrow> nat \<Rightarrow> u64 \<Rightarrow> u64 \<Rightarrow> u64 \<Rightarrow> mmu \<Rightarrow> mmu option" where
  "clone_pt bit1 n orig_pt slot phys_slot st = do {
     (st, a, _) \<leftarrow> safe_allocation bit1 n 0x1000 (vstore64 phys_slot) st;
     st \<leftarrow> vstore64 slot a st;
     for_each (\<lambda>i st. do {
       e \<leftarrow> vload64 st (entry_at orig_pt i);
       let flags = e AND 0xFFF;
       (if \<not> present flags then Some st
        else do {
          (st, frame) \<leftarrow> take_frame bit1 1 st;
          new_pt \<leftarrow> vload64 st slot;
          st \<leftarrow> vstore64 (entry_at new_pt i) (frame OR flags) st;
          new_pt \<leftarrow> vload64 st slot;
          e' \<leftarrow> vload64 st (entry_at new_pt i);
          e \<leftarrow> vload64 st (entry_at orig_pt i);
          copy_frame bit1 n (page_base e') e st
        })
     }) (map of_nat [0..<512]) st
   }"

text \<open>The loop that \<^verbatim>\<open>clone_pdt\<close>, \<^verbatim>\<open>clone_pdpt\<close> share with different \<^verbatim>\<open>flags\<close>.\<close>

definition clone_entries ::
  "(u64 \<Rightarrow> u64) \<Rightarrow> (u64 \<Rightarrow> u64 \<Rightarrow> u64 \<Rightarrow> mmu \<Rightarrow> mmu option) \<Rightarrow> u64 \<Rightarrow> (mmu \<Rightarrow> u64 option) \<Rightarrow> u64 list \<Rightarrow> mmu \<Rightarrow> mmu option"
  where
  "clone_entries flags_of clone orig new_table is st =
     for_each (\<lambda>i st. do {
       e \<leftarrow> vload64 st (entry_at orig i);
       let flags = flags_of e;
       (if \<not> present flags then Some st
        else do {
          sub \<leftarrow> vload64 st (next_at orig i);
          v \<leftarrow> new_table st;
          st \<leftarrow> clone sub (next_at v i) (entry_at v i) st;
          v \<leftarrow> new_table st;
          e' \<leftarrow> vload64 st (entry_at v i);
          vstore64 (entry_at v i) (e' OR flags) st
        })
     }) is st"

definition clone_pdt :: "(nat \<Rightarrow> u64) \<Rightarrow> nat \<Rightarrow> u64 \<Rightarrow> u64 \<Rightarrow> u64 \<Rightarrow> mmu \<Rightarrow> mmu option" where
  "clone_pdt bit1 n orig_pdt slot phys_slot st = do {
     (st, a, _) \<leftarrow> safe_allocation bit1 n 0x2000 (vstore64 phys_slot) st;
     st \<leftarrow> vstore64 slot a st;
     clone_entries (\<lambda>e. e AND 0xFFF) (clone_pt bit1 n) orig_pdt (\<lambda>st. vload64 st slot) (map of_nat [0..<512]) st
   }"

text \<open>\<^verbatim>\<open>clone_pdpt\<close> keeps the low 32 bits of the old entry as its flags, as a signed \<^verbatim>\<open>int\<close>, address bits included.\<close>

definition pdpt_flags :: "u64 \<Rightarrow> u64" where
  "pdpt_flags e = signed_take_bit 31 e"

definition clone_pdpt :: "(nat \<Rightarrow> u64) \<Rightarrow> nat \<Rightarrow> u64 \<Rightarrow> u64 \<Rightarrow> u64 \<Rightarrow> mmu \<Rightarrow> mmu option" where
  "clone_pdpt bit1 n orig_pdpt slot phys_slot st = do {
     (st, a, _) \<leftarrow> safe_allocation bit1 n 0x2000 (vstore64 phys_slot) st;
     st \<leftarrow> vstore64 slot a st;
     clone_entries pdpt_flags (clone_pdt bit1 n) orig_pdpt (\<lambda>st. vload64 st slot) (map of_nat [0..<512]) st
   }"

definition mmu_clone_directory :: "(nat \<Rightarrow> u64) \<Rightarrow> nat \<Rightarrow> u64 \<Rightarrow> mmu \<Rightarrow> (mmu \<times> u64) option" where
  "mmu_clone_directory bit1 n directory st = do {
     (st, new_dir) \<leftarrow> ksbrk bit1 n 16 st;
     (st, v, physical) \<leftarrow> safe_allocation bit1 n 0x2000 (\<lambda>_ st. Some st) st;
     let st = st\<lparr>directories := (directories st)(new_dir \<mapsto> \<lparr>pml4t = v, dir_physical = physical\<rparr>)\<rparr>;
     d \<leftarrow> directories st directory;
     st \<leftarrow> clone_entries (\<lambda>e. e AND 0xFFF) (clone_pdpt bit1 n) (pml4t d) (\<lambda>st. Some v)
       (map of_nat [0..<511]) st;
     d \<leftarrow> directories st directory;
     new \<leftarrow> directories st new_dir;
     sub \<leftarrow> vload64 st (next_at (pml4t d) 511);
     st \<leftarrow> vstore64 (next_at (pml4t new) 511) sub st;
     e \<leftarrow> vload64 st (entry_at (pml4t d) 511);
     st \<leftarrow> vstore64 (entry_at (pml4t new) 511) e st;
     Some (st, new_dir)
   }"

definition mmu_set_directory :: "u64 \<Rightarrow> mmu \<Rightarrow> mmu option" where
  "mmu_set_directory directory st = do {
     d \<leftarrow> directories st directory;
     Some (st\<lparr>active_directory := directory, cr3 := dir_physical d\<rparr>)
   }"

definition mmu_get_active_directory :: "mmu \<Rightarrow> u64" where
  "mmu_get_active_directory st = active_directory st"

section \<open>Initialisation\<close>

text \<open>The memory map of the boot loader (\<^verbatim>\<open>multiboot2.h\<close>): tags of a type and a size, eight-aligned.\<close>

definition MULTIBOOT_TAG_TYPE_END :: u32 where "MULTIBOOT_TAG_TYPE_END = 0"
definition MULTIBOOT_TAG_TYPE_MMAP :: u32 where "MULTIBOOT_TAG_TYPE_MMAP = 6"
definition MULTIBOOT_MEMORY_AVAILABLE :: u32 where "MULTIBOOT_MEMORY_AVAILABLE = 1"

definition mark :: "(nat \<Rightarrow> u64) \<Rightarrow> u64 \<Rightarrow> bool \<Rightarrow> mmu \<Rightarrow> mmu \<times> bool" where
  "mark bit1 a state st = (let (fr, ok) = set_frame bit1 a state (frames st) in (st\<lparr>frames := fr\<rparr>, ok))"

text \<open>The loop variable is a \<^verbatim>\<open>uint32_t\<close>, its bound a 64-bit address.\<close>

partial_function (option) free_range :: "(nat \<Rightarrow> u64) \<Rightarrow> u32 \<Rightarrow> u64 \<Rightarrow> mmu \<Rightarrow> mmu option" where
  "free_range bit1 p limit st =
     (if ucast p < limit
      then (let (st, ok) = mark bit1 (ucast p) False st
            in if \<not> ok then Some st else free_range bit1 (p + 0x1000) limit st)
      else Some st)"

definition mmap_entry :: "(nat \<Rightarrow> u64) \<Rightarrow> u64 \<Rightarrow> mmu \<Rightarrow> mmu option" where
  "mmap_entry bit1 entry st = do {
     type \<leftarrow> vload32 st (entry + 16);
     (if MULTIBOOT_MEMORY_AVAILABLE \<noteq> type then Some st
      else do {
        addr \<leftarrow> vload64 st entry;
        len \<leftarrow> vload64 st (entry + 8);
        st \<leftarrow> free_range bit1 (ucast addr) (addr + len) st;
        zero \<leftarrow> vload32 st (entry + 20);
        c_assert (0 = zero);
        Some st
      })
   }"

definition mmap_tag :: "(nat \<Rightarrow> u64) \<Rightarrow> u64 \<Rightarrow> mmu \<Rightarrow> mmu option" where
  "mmap_tag bit1 m st = do {
     bytes \<leftarrow> vload32 st (m + 4);
     entry_size \<leftarrow> vload32 st (m + 8);
     c_assert (entry_size \<noteq> 0);
     let entries_count = (ucast ((ucast bytes - 16) div ucast entry_size :: u64) :: u32);
     for_each (\<lambda>i. mmap_entry bit1 (m + 16 + 24 * of_nat i)) [0..<unat entries_count] st
   }"

partial_function (option) multiboot_tags :: "(nat \<Rightarrow> u64) \<Rightarrow> u64 \<Rightarrow> mmu \<Rightarrow> mmu option" where
  "multiboot_tags bit1 tag st = do {
     type \<leftarrow> vload32 st tag;
     (if type = MULTIBOOT_TAG_TYPE_END then Some st
      else do {
        st \<leftarrow> (if type \<noteq> MULTIBOOT_TAG_TYPE_MMAP then Some st else mmap_tag bit1 tag st);
        bytes \<leftarrow> vload32 st (tag + 4);
        multiboot_tags bit1 (tag + ucast ((bytes + 7) AND NOT 7)) st
      })
   }"

definition KERNEL_VMA :: u64 where "KERNEL_VMA = 0xFFFFFF8000000000"

text \<open>
  The loop over one table at \<^verbatim>\<open>v\<close>: mark the frame of every entry, and for a present one store the
  virtual address of the next table and go on with it.
\<close>

definition adopt_entries :: "(nat \<Rightarrow> u64) \<Rightarrow> (u64 \<Rightarrow> mmu \<Rightarrow> mmu option) \<Rightarrow> u64 \<Rightarrow> mmu \<Rightarrow> mmu option" where
  "adopt_entries bit1 down v st =
     for_each (\<lambda>j st. do {
       e \<leftarrow> vload64 st (entry_at v j);
       let (st, _) = mark bit1 (page_base e) True st;
       e \<leftarrow> vload64 st (entry_at v j);
       let p = e + KERNEL_VMA;
       (if \<not> present p then Some st
        else do {
          st \<leftarrow> vstore64 (next_at v j) (page_base p) st;
          down (page_base p) st
        })
     }) (map of_nat [0..<512]) st"

definition adopt_pt :: "(nat \<Rightarrow> u64) \<Rightarrow> u64 \<Rightarrow> mmu \<Rightarrow> mmu option" where
  "adopt_pt bit1 v st =
     for_each (\<lambda>k st. do {
       e \<leftarrow> vload64 st (entry_at v k);
       let (st, _) = mark bit1 (page_base e) True st;
       Some st
     }) (map of_nat [0..<512]) st"

definition adopt_pml4t :: "(nat \<Rightarrow> u64) \<Rightarrow> mmu \<Rightarrow> mmu option" where
  "adopt_pml4t bit1 st =
     for_each (\<lambda>i st. do {
       v \<leftarrow> pml4t_of st;
       e \<leftarrow> vload64 st (entry_at v i);
       let p = e + KERNEL_VMA;
       (if \<not> present p then Some st
        else do {
          st \<leftarrow> vstore64 (next_at v i) (page_base p) st;
          adopt_entries bit1 (adopt_entries bit1 (adopt_pt bit1)) (page_base p) st
        })
     }) (map of_nat [0..<512]) st"

text \<open>\<^verbatim>\<open>table\<close> is the address of the symbol \<^verbatim>\<open>PML4T\<close>, \<^verbatim>\<open>kernel_end\<close> that of \<^verbatim>\<open>_kernel_end\<close>.\<close>

definition mmu_init :: "(nat \<Rightarrow> u64) \<Rightarrow> nat \<Rightarrow> u64 \<Rightarrow> u64 \<Rightarrow> u64 \<Rightarrow> mmu \<Rightarrow> (mmu \<times> u32) option" where
  "mmu_init bit1 n table kernel_end multiboot_header st = do {
     let st = st\<lparr>directories := (directories st)(active_directory st \<mapsto>
       \<lparr>pml4t = table + KERNEL_VMA, dir_physical = table\<rparr>)\<rparr>;
     let st = st\<lparr>heap_end := align_up kernel_end 0x1000 + 0x1000\<rparr>;
     let st = st\<lparr>frames := replicate NUM_OF_FRAMES (NOT 0)\<rparr>;
     st \<leftarrow> multiboot_tags bit1 (multiboot_header + KERNEL_VMA + 8) st;
     st \<leftarrow> adopt_pml4t bit1 st;
     let (st, _) = mark bit1 table True st;
     v \<leftarrow> pml4t_of st;
     st \<leftarrow> vstore64 (next_at v 0) 0 st;
     st \<leftarrow> vstore64 (entry_at v 0) 0 st;
     (st, _) \<leftarrow> ksbrk bit1 n 0 st;
     Some (st, 1)
   }"

end
