(* ===== verification/Polling.thy ===== *)
theory Polling
  imports Prelude
begin

text \<open>
  Busy-waiting: a loop that repeats a step on the state until the step yields a value, and that
  never returns when it never does.
\<close>

partial_function (option) poll :: "('s \<Rightarrow> 'a option \<times> 's) \<Rightarrow> 's \<Rightarrow> ('a \<times> 's) option" where
  "poll step s = (case step s of (Some a, s') \<Rightarrow> Some (a, s') | (None, s') \<Rightarrow> poll step s')"

text \<open>The state after \<^verbatim>\<open>k\<close> fruitless rounds.\<close>

definition rounds :: "('s \<Rightarrow> 'a option \<times> 's) \<Rightarrow> nat \<Rightarrow> 's \<Rightarrow> 's" where
  "rounds step k s = ((\<lambda>s. snd (step s)) ^^ k) s"

lemma rounds_0 [simp]: "rounds step 0 s = s"
  by (simp add: rounds_def)

lemma rounds_Suc: "rounds step (Suc k) s = rounds step k (snd (step s))"
  by (simp add: rounds_def funpow_Suc_right del: funpow.simps)

lemma rounds_Suc_right: "rounds step (Suc k) s = snd (step (rounds step k s))"
  by (simp add: rounds_def)

lemma poll_returns:
  assumes "step (rounds step k s) = (Some a, s')" "\<forall>j<k. fst (step (rounds step j s)) = None"
  shows "poll step s = Some (a, s')"
  using assms
proof (induction k arbitrary: s)
  case 0
  then show ?case by (subst poll.simps) simp
next
  case (Suc k)
  obtain s1 where s1: "step s = (None, s1)"
    using Suc.prems(2) by (metis prod.collapse rounds_0 zero_less_Suc)
  have "\<forall>j<k. fst (step (rounds step j s1)) = None"
    using Suc.prems(2) by (auto simp: rounds_Suc s1 dest: spec [of _ "Suc _"])
  then have "poll step s1 = Some (a, s')"
    using Suc.IH [of s1] Suc.prems(1) by (simp add: rounds_Suc s1)
  then show ?case by (subst poll.simps) (simp add: s1)
qed

lemma poll_returned:
  assumes "poll step s = Some r"
  shows "\<exists>k. step (rounds step k s) = (Some (fst r), snd r) \<and> (\<forall>j<k. fst (step (rounds step j s)) = None)"
proof (rule poll.raw_induct [where P = "\<lambda>step s r.
    \<exists>k. step (rounds step k s) = (Some (fst r), snd r) \<and> (\<forall>j<k. fst (step (rounds step j s)) = None)",
    OF _ assms])
  fix f :: "('s \<Rightarrow> 'a option \<times> 's) \<Rightarrow> 's \<Rightarrow> ('a \<times> 's) option"
    and step :: "'s \<Rightarrow> 'a option \<times> 's" and s and r :: "'a \<times> 's"
  assume IH: "\<And>step s r. f step s = Some r \<Longrightarrow>
      \<exists>k. step (rounds step k s) = (Some (fst r), snd r) \<and> (\<forall>j<k. fst (step (rounds step j s)) = None)"
    and eq: "(case step s of (Some a, s') \<Rightarrow> Some (a, s') | (None, s') \<Rightarrow> f step s') = Some r"
  obtain x s1 where x: "step s = (x, s1)" by fastforce
  show "\<exists>k. step (rounds step k s) = (Some (fst r), snd r) \<and> (\<forall>j<k. fst (step (rounds step j s)) = None)"
  proof (cases x)
    case None
    then obtain k where "step (rounds step k s1) = (Some (fst r), snd r)"
      "\<forall>j<k. fst (step (rounds step j s1)) = None" using IH [of step s1 r] eq x by auto
    then show ?thesis using None x
      by (intro exI [of _ "Suc k"]) (auto simp: rounds_Suc less_Suc_eq_0_disj)
  next
    case (Some a)
    then show ?thesis using eq x by (intro exI [of _ 0]) auto
  qed
qed

lemma poll_stuck:
  assumes "\<And>k. fst (step (rounds step k s)) = None"
  shows "poll step s = None"
proof (cases "poll step s")
  case (Some r)
  then show ?thesis using poll_returned [OF Some] assms by (metis fst_conv option.distinct(1))
qed

text \<open>A step that keeps an invariant and cannot fail for ever where it holds.\<close>

lemma poll_within:
  assumes "I s" "\<And>s. I s \<Longrightarrow> I (snd (step s))"
    and "\<And>s. I s \<Longrightarrow> fst (step s) = None \<Longrightarrow> m (snd (step s)) < (m s :: nat)"
  shows "\<exists>a s'. poll step s = Some (a, s') \<and> (\<exists>s0. I s0 \<and> step s0 = (Some a, s'))"
  using assms(1)
proof (induction "m s" arbitrary: s rule: less_induct)
  case less
  obtain x s1 where x: "step s = (x, s1)" by fastforce
  show ?case
  proof (cases x)
    case None
    have "poll step s = poll step s1" by (subst poll.simps) (simp add: x None)
    then show ?thesis
      using less.hyps [of s1] assms(2) [OF less.prems] assms(3) [OF less.prems] by (simp add: x None)
  next
    case (Some a)
    have "poll step s = Some (a, s1)" by (subst poll.simps) (simp add: x Some)
    then show ?thesis using less.prems x Some by blast
  qed
qed

lemma poll_keeps:
  assumes "poll step s = Some (a, s')" "I s" "\<And>s. I s \<Longrightarrow> I (snd (step s))"
  shows "\<exists>s0. I s0 \<and> step s0 = (Some a, s')"
proof -
  obtain k where k: "step (rounds step k s) = (Some a, s')" using poll_returned [OF assms(1)] by auto
  have "I (rounds step k s)" for k
    by (induction k) (simp_all add: assms(2,3) rounds_Suc_right)
  then show ?thesis using k by blast
qed

end
