(* ===== verification/Ahci.thy ===== *)
theory Ahci
  imports Log Pci Paging Polling
begin

text \<open>
  The AHCI disk driver, \<^verbatim>\<open>drivers/ahci.c\<close>.  The registers of the controller are memory-mapped: every
  access of a \<^verbatim>\<open>volatile\<close> field is an event, and the controller \<^verbatim>\<open>ctl\<close> answers a read given all the
  events before it.  Command lists and tables lie in memory (\<^verbatim>\<open>ah_mem\<close>, as the driver addresses
  it).  The file calls functions that the repository does not define or whose declared interface
  differs (\<^verbatim>\<open>kmalloc_align\<close>, \<^verbatim>\<open>virtual_to_physical\<close>, \<^verbatim>\<open>physical_to_virtual\<close>, ...); they are the fields of the
  parameter \<^verbatim>\<open>lib\<close>.
\<close>

section \<open>State and environment\<close>

datatype mmio = MRead u64 | MWrite u64 u32

type_synonym controller = "mmio list \<Rightarrow> u64 \<Rightarrow> u32"

record ahci =
  ah_io :: trace
  ah_regs :: "mmio list"
  ah_mem :: mem
  ah_mmu :: mmu
  hba :: u64

record ahci_lib =
  kmalloc_align :: "u64 \<Rightarrow> ahci \<Rightarrow> u64 \<times> ahci"
  virtual_to_physical :: "u64 \<Rightarrow> ahci \<Rightarrow> u64"
  mmu_physical_to_virtual :: "u64 \<Rightarrow> ahci \<Rightarrow> u64"
  physical_to_virtual :: "u64 \<Rightarrow> ahci \<Rightarrow> u64"
  create_physical_to_virtual_mapping :: "u64 \<Rightarrow> u64 \<Rightarrow> u64 \<Rightarrow> ahci \<Rightarrow> ahci"
  add_devfs_drive_file :: "u8 \<Rightarrow> ahci \<Rightarrow> ahci"

definition mmio_read :: "controller \<Rightarrow> u64 \<Rightarrow> ahci \<Rightarrow> u32 \<times> ahci" where
  "mmio_read ctl a st = (ctl (ah_regs st) a, st\<lparr>ah_regs := ah_regs st @ [MRead a]\<rparr>)"

definition mmio_write :: "u64 \<Rightarrow> u32 \<Rightarrow> ahci \<Rightarrow> ahci" where
  "mmio_write a v st = st\<lparr>ah_regs := ah_regs st @ [MWrite a v]\<rparr>"

abbreviation upd_ah_mem :: "(mem \<Rightarrow> mem) \<Rightarrow> ahci \<Rightarrow> ahci" where
  "upd_ah_mem f st \<equiv> st\<lparr>ah_mem := f (ah_mem st)\<rparr>"

section \<open>Constants and layout\<close>

definition ATA_DEV_BUSY :: u32 where "ATA_DEV_BUSY = 0x80"
definition ATA_DEV_DRQ :: u32 where "ATA_DEV_DRQ = 0x08"
definition HBA_PxIS_TFES :: u32 where "HBA_PxIS_TFES = push_bit 30 1"
definition ATA_CMD_READ_DMA_EX :: u8 where "ATA_CMD_READ_DMA_EX = 0x25"
definition ATA_CMD_WRITE_DMA_EX :: u8 where "ATA_CMD_WRITE_DMA_EX = 0x35"
definition num_prdt :: u16 where "num_prdt = 8"
definition FIS_TYPE_REG_H2D :: u8 where "FIS_TYPE_REG_H2D = 0x27"
definition SATA_SIG_ATAPI :: u32 where "SATA_SIG_ATAPI = 0xEB140101"
definition SATA_SIG_SEMB :: u32 where "SATA_SIG_SEMB = 0xC33C0101"
definition SATA_SIG_PM :: u32 where "SATA_SIG_PM = 0x96690101"
definition AHCI_DEV_NULL :: u32 where "AHCI_DEV_NULL = 0"
definition AHCI_DEV_SATA :: u32 where "AHCI_DEV_SATA = 1"
definition AHCI_DEV_SEMB :: u32 where "AHCI_DEV_SEMB = 2"
definition AHCI_DEV_PM :: u32 where "AHCI_DEV_PM = 3"
definition AHCI_DEV_SATAPI :: u32 where "AHCI_DEV_SATAPI = 4"
definition HBA_PORT_IPM_ACTIVE :: u8 where "HBA_PORT_IPM_ACTIVE = 1"
definition HBA_PORT_DET_PRESENT :: u8 where "HBA_PORT_DET_PRESENT = 3"

text \<open>Fields of \<^verbatim>\<open>struct HBA_PORT\<close> and \<^verbatim>\<open>struct HBA_MEM\<close>, by the address of the structure.\<close>

definition port_clb :: "u64 \<Rightarrow> u64" where "port_clb p = p"
definition port_clbu :: "u64 \<Rightarrow> u64" where "port_clbu p = p + 0x04"
definition port_fb :: "u64 \<Rightarrow> u64" where "port_fb p = p + 0x08"
definition port_fbu :: "u64 \<Rightarrow> u64" where "port_fbu p = p + 0x0C"
definition port_is :: "u64 \<Rightarrow> u64" where "port_is p = p + 0x10"
definition port_cmd :: "u64 \<Rightarrow> u64" where "port_cmd p = p + 0x18"
definition port_tfd :: "u64 \<Rightarrow> u64" where "port_tfd p = p + 0x20"
definition port_sig :: "u64 \<Rightarrow> u64" where "port_sig p = p + 0x24"
definition port_ssts :: "u64 \<Rightarrow> u64" where "port_ssts p = p + 0x28"
definition port_sact :: "u64 \<Rightarrow> u64" where "port_sact p = p + 0x34"
definition port_ci :: "u64 \<Rightarrow> u64" where "port_ci p = p + 0x38"
definition hba_cap :: "u64 \<Rightarrow> u64" where "hba_cap h = h"
definition hba_pi :: "u64 \<Rightarrow> u64" where "hba_pi h = h + 0x0C"
definition hba_port :: "u64 \<Rightarrow> u8 \<Rightarrow> u64" where "hba_port h i = h + 0x100 + ucast i * 0x80"

lemmas port_offsets = port_clb_def port_clbu_def port_fb_def port_fbu_def port_is_def port_cmd_def
  port_tfd_def port_sig_def port_ssts_def port_sact_def port_ci_def hba_cap_def hba_pi_def

text \<open>Fields of \<^verbatim>\<open>struct HBA_CMD_HEADER\<close> (32 bytes) at \<^verbatim>\<open>h\<close>.\<close>

definition set_cfl :: "u64 \<Rightarrow> u8 \<Rightarrow> mem \<Rightarrow> mem" where
  "set_cfl h v m = m(h := (m h AND NOT (mask 5)) OR (v AND mask 5))"

definition set_w :: "u64 \<Rightarrow> u8 \<Rightarrow> mem \<Rightarrow> mem" where
  "set_w h v m = m(h := (m h AND NOT 0x40) OR push_bit 6 (v AND 1))"

definition get_prdtl :: "u64 \<Rightarrow> mem \<Rightarrow> u16" where "get_prdtl h m = load16 m (h + 2)"
definition set_prdtl :: "u64 \<Rightarrow> u16 \<Rightarrow> mem \<Rightarrow> mem" where "set_prdtl h v m = store16 m (h + 2) v"
definition get_ctba :: "u64 \<Rightarrow> mem \<Rightarrow> u32" where "get_ctba h m = load32 m (h + 8)"
definition set_ctba :: "u64 \<Rightarrow> u32 \<Rightarrow> mem \<Rightarrow> mem" where "set_ctba h v m = store32 m (h + 8) v"
definition set_ctbau :: "u64 \<Rightarrow> u32 \<Rightarrow> mem \<Rightarrow> mem" where "set_ctbau h v m = store32 m (h + 12) v"

text \<open>Fields of a \<^verbatim>\<open>struct HBA_PRDT_ENTRY\<close> (16 bytes) at \<^verbatim>\<open>e\<close>; entry \<^verbatim>\<open>i\<close> of the table at \<^verbatim>\<open>t\<close>.\<close>

definition prdt_entry :: "u64 \<Rightarrow> nat \<Rightarrow> u64" where "prdt_entry t i = t + 0x80 + of_nat i * 16"
definition set_dba :: "u64 \<Rightarrow> u32 \<Rightarrow> mem \<Rightarrow> mem" where "set_dba e v m = store32 m e v"

definition set_dbc :: "u64 \<Rightarrow> u32 \<Rightarrow> mem \<Rightarrow> mem" where
  "set_dbc e v m = store32 m (e + 12) ((load32 m (e + 12) AND NOT (mask 22)) OR (v AND mask 22))"

definition set_i :: "u64 \<Rightarrow> mem \<Rightarrow> mem" where
  "set_i e m = store32 m (e + 12) (load32 m (e + 12) OR push_bit 31 1)"

section \<open>Ports\<close>

definition check_type :: "controller \<Rightarrow> u64 \<Rightarrow> ahci \<Rightarrow> u32 \<times> ahci" where
  "check_type ctl port st =
     (let (ssts, st) = mmio_read ctl (port_ssts port) st;
          ipm = (ucast (drop_bit 8 ssts AND 0x0F) :: u8);
          det = (ucast (ssts AND 0x0F) :: u8)
      in if det \<noteq> HBA_PORT_DET_PRESENT then (AHCI_DEV_NULL, st)
         else if ipm \<noteq> HBA_PORT_IPM_ACTIVE then (AHCI_DEV_NULL, st)
         else (let (sig, st) = mmio_read ctl (port_sig port) st
               in (if sig = SATA_SIG_ATAPI then AHCI_DEV_SATAPI
                   else if sig = SATA_SIG_SEMB then AHCI_DEV_SEMB
                   else if sig = SATA_SIG_PM then AHCI_DEV_PM
                   else AHCI_DEV_SATA, st)))"

definition port_cmd_or :: "controller \<Rightarrow> u64 \<Rightarrow> u32 \<Rightarrow> ahci \<Rightarrow> ahci" where
  "port_cmd_or ctl port v st =
     (let (c, st) = mmio_read ctl (port_cmd port) st in mmio_write (port_cmd port) (c OR v) st)"

definition port_cmd_and :: "controller \<Rightarrow> u64 \<Rightarrow> u32 \<Rightarrow> ahci \<Rightarrow> ahci" where
  "port_cmd_and ctl port v st =
     (let (c, st) = mmio_read ctl (port_cmd port) st in mmio_write (port_cmd port) (c AND v) st)"

definition wait_not_running :: "controller \<Rightarrow> u64 \<Rightarrow> ahci \<Rightarrow> (unit \<times> ahci) option" where
  "wait_not_running ctl port st = poll (\<lambda>st.
     let (c, st) = mmio_read ctl (port_cmd port) st
     in (if c AND push_bit 14 1 \<noteq> 0 then None else Some (), st)) st"

definition ahci_start_command_execution :: "controller \<Rightarrow> u64 \<Rightarrow> ahci \<Rightarrow> ahci option" where
  "ahci_start_command_execution ctl port st = do {
     (_, st) \<leftarrow> wait_not_running ctl port st;
     let st = port_cmd_or ctl port (push_bit 0 4) st;
     let st = port_cmd_or ctl port (push_bit 0 1) st;
     Some st
   }"

definition wait_stopped :: "controller \<Rightarrow> u64 \<Rightarrow> ahci \<Rightarrow> (unit \<times> ahci) option" where
  "wait_stopped ctl port st = poll (\<lambda>st.
     let (c, st) = mmio_read ctl (port_cmd port) st
     in if c AND push_bit 14 1 \<noteq> 0 then (None, st)
        else (let (c, st) = mmio_read ctl (port_cmd port) st
              in (if c AND push_bit 15 1 \<noteq> 0 then None else Some (), st))) st"

definition ahci_stop_command_execution :: "controller \<Rightarrow> u64 \<Rightarrow> ahci \<Rightarrow> ahci option" where
  "ahci_stop_command_execution ctl port st = do {
     let st = port_cmd_and ctl port (NOT (push_bit 0 1)) st;
     let st = port_cmd_and ctl port (NOT (push_bit 4 1)) st;
     (_, st) \<leftarrow> wait_stopped ctl port st;
     Some st
   }"

fun set_headers :: "u64 \<Rightarrow> u32 \<Rightarrow> nat list \<Rightarrow> mem \<Rightarrow> mem" where
  "set_headers cmdheader tables [] m = m"
| "set_headers cmdheader tables (i # is) m =
     (let h = cmdheader + of_nat i * 32;
          m = set_prdtl h num_prdt m;
          m = set_ctba h (tables + of_nat i * 256) m;
          m = set_ctbau h 0 m
      in set_headers cmdheader tables is m)"

definition ahci_set_base ::
  "ahci_lib \<Rightarrow> controller \<Rightarrow> u64 \<Rightarrow> u32 \<Rightarrow> u32 \<Rightarrow> u32 \<Rightarrow> ahci \<Rightarrow> ahci option" where
  "ahci_set_base lib ctl port virt_clb_address virt_fb_address virt_command_table_array st = do {
     let clb_address = (ucast (virtual_to_physical lib (ucast virt_clb_address) st) :: u32);
     let fb_address = (ucast (virtual_to_physical lib (ucast virt_fb_address) st) :: u32);
     let command_table_array =
       (ucast (virtual_to_physical lib (ucast virt_command_table_array) st) :: u32);
     st \<leftarrow> ahci_stop_command_execution ctl port st;
     c_assert (clb_address AND 0x3FF = 0);
     c_assert (fb_address AND 0xFF = 0);
     let st = mmio_write (port_clb port) (clb_address AND NOT 0x3FF) st;
     let st = mmio_write (port_clbu port) 0 st;
     let st = mmio_write (port_fb port) fb_address st;
     let st = mmio_write (port_fbu port) 0 st;
     let cmdheader = (ucast virt_clb_address :: u64);
     let st = upd_ah_mem (set_headers cmdheader command_table_array [0..<32]) st;
     ahci_start_command_execution ctl port st
   }"

definition ahci_sata_setup :: "ahci_lib \<Rightarrow> controller \<Rightarrow> u64 \<Rightarrow> ahci \<Rightarrow> ahci option" where
  "ahci_sata_setup lib ctl port st = do {
     let (p, st) = kmalloc_align lib 1024 st;
     let clb_address = (ucast p :: u32);
     let (p, st) = kmalloc_align lib 256 st;
     let fb_address = (ucast p :: u32);
     let (p, st) = kmalloc_align lib (256 * 32) st;
     let command_table_array = (ucast p :: u32);
     let st = create_physical_to_virtual_mapping lib
       (virtual_to_physical lib (ucast clb_address) st) (ucast clb_address) 1024 st;
     let st = create_physical_to_virtual_mapping lib
       (virtual_to_physical lib (ucast fb_address) st) (ucast fb_address) 256 st;
     let st = create_physical_to_virtual_mapping lib
       (virtual_to_physical lib (ucast command_table_array) st) (ucast command_table_array) (256 * 32) st;
     let st = upd_ah_mem (\<lambda>m. memset m (ucast clb_address) 0 1024) st;
     let st = upd_ah_mem (\<lambda>m. memset m (ucast fb_address) 0 256) st;
     let st = upd_ah_mem (\<lambda>m. memset m (ucast command_table_array) 0 (256 * 32)) st;
     ahci_set_base lib ctl port clb_address fb_address command_table_array st
   }"

section \<open>Commands\<close>

text \<open>The result and the value stored through \<^verbatim>\<open>err\<close>.\<close>

fun find_slot :: "u32 \<Rightarrow> nat list \<Rightarrow> u8 \<times> u8" where
  "find_slot slots [] = (0, 1)"
| "find_slot slots (i # is) =
     (if drop_bit i slots AND 1 = 0 then (of_nat i, 0) else find_slot slots is)"

definition get_free_command_slot :: "controller \<Rightarrow> u64 \<Rightarrow> ahci \<Rightarrow> (u8 \<times> u8) \<times> ahci" where
  "get_free_command_slot ctl port st =
     (let (cap, st) = mmio_read ctl (hba_cap (hba st)) st;
          num_slots = (ucast (drop_bit 8 cap AND 0x1F) :: u8);
          (sact, st) = mmio_read ctl (port_sact port) st;
          (ci, st) = mmio_read ctl (port_ci port) st
      in (find_slot (sact OR ci) [0..<unat num_slots], st))"

definition wait_for_slot :: "controller \<Rightarrow> u64 \<Rightarrow> ahci \<Rightarrow> (u32 \<times> ahci) option" where
  "wait_for_slot ctl port st = poll (\<lambda>st.
     let ((command_slot, err), st) = get_free_command_slot ctl port st
     in (if err \<noteq> 0 then None else Some (ucast command_slot), st)) st"

definition write_prdt :: "ahci_lib \<Rightarrow> u64 \<Rightarrow> nat \<Rightarrow> u64 \<Rightarrow> u32 \<Rightarrow> ahci \<Rightarrow> ahci" where
  "write_prdt lib cmdtbl i buffer dbc st =
     (let e = prdt_entry cmdtbl i;
          dba = (ucast (virtual_to_physical lib buffer st) :: u32);
          st = upd_ah_mem (set_dba e dba) st;
          st = upd_ah_mem (set_dbc e dbc) st
      in upd_ah_mem (set_i e) st)"

text \<open>
  The loop over the full entries: \<^verbatim>\<open>i\<close>, \<^verbatim>\<open>buffer\<close>, \<^verbatim>\<open>count\<close>.  The bound is read from memory in every
  round; it is below \<^verbatim>\<open>2 ^ 16 - 1\<close>, so that \<^verbatim>\<open>i\<close> never wraps.
\<close>

function prdt_loop ::
  "ahci_lib \<Rightarrow> u64 \<Rightarrow> u64 \<Rightarrow> nat \<Rightarrow> u64 \<Rightarrow> u32 \<Rightarrow> ahci \<Rightarrow> nat \<times> u64 \<times> u32 \<times> ahci" where
  "prdt_loop lib cmdheader cmdtbl i buffer count st =
     (if i < unat (get_prdtl cmdheader (ah_mem st)) - 1
      then prdt_loop lib cmdheader cmdtbl (i + 1) (buffer + 2 * (4 * 1024)) (count - 16)
             (write_prdt lib cmdtbl i buffer (8 * 1024 - 1) st)
      else (i, buffer, count, st))"
  by auto
termination
proof (relation "measure (\<lambda>(lib, h, t, i, b, c, st). 65536 - i)")
  fix lib h t i b c and st :: ahci
  assume "i < unat (get_prdtl h (ah_mem st)) - 1"
  moreover have "unat (get_prdtl h (ah_mem st)) < 65536"
    using unsigned_less [of "get_prdtl h (ah_mem st)"] by simp
  ultimately show "((lib, h, t, i + 1, b + 2 * (4 * 1024), c - 16, write_prdt lib t i b (8 * 1024 - 1) st),
      lib, h, t, i, b, c, st) \<in> measure (\<lambda>(lib, h, t, i, b, c, st). 65536 - i)" by simp
qed simp

declare prdt_loop.simps [simp del]

text \<open>The command FIS at the start of the table: type, command bit, command, address, count.\<close>

definition write_fis :: "u64 \<Rightarrow> u8 \<Rightarrow> u32 \<Rightarrow> u32 \<Rightarrow> u32 \<Rightarrow> mem \<Rightarrow> mem" where
  "write_fis f is_write startl starth count m =
     (let m = m(f := FIS_TYPE_REG_H2D);
          m = m(f + 1 := m (f + 1) OR push_bit 7 1);
          m = m(f + 2 := if is_write \<noteq> 0 then ATA_CMD_WRITE_DMA_EX else ATA_CMD_READ_DMA_EX);
          m = m(f + 4 := ucast startl);
          m = m(f + 5 := ucast (drop_bit 8 startl));
          m = m(f + 6 := ucast (drop_bit 16 startl));
          m = m(f + 7 := push_bit 6 1);
          m = m(f + 8 := ucast (drop_bit 24 startl));
          m = m(f + 9 := ucast starth);
          m = m(f + 10 := ucast (drop_bit 8 starth));
          m = m(f + 12 := ucast (count AND 0xFF))
      in m(f + 13 := ucast (drop_bit 8 count AND 0xFF)))"

definition build_command ::
  "ahci_lib \<Rightarrow> u64 \<Rightarrow> u32 \<Rightarrow> u32 \<Rightarrow> u32 \<Rightarrow> u64 \<Rightarrow> u8 \<Rightarrow> ahci \<Rightarrow> ahci" where
  "build_command lib cmdheader startl starth count buffer is_write st =
     (let st = upd_ah_mem (set_w cmdheader is_write) st;
          st = upd_ah_mem (set_cfl cmdheader (20 div 4)) st;
          st = upd_ah_mem (set_prdtl cmdheader (ucast ((count - 1) div 16 + 1))) st;
          cmdtbl = physical_to_virtual lib (ucast (get_ctba cmdheader (ah_mem st))) st;
          n = 0x90 + (ucast (get_prdtl cmdheader (ah_mem st)) - 1) * 16;
          st = upd_ah_mem (\<lambda>m. memset m cmdtbl 0 n) st;
          (i, buffer, count, st) = prdt_loop lib cmdheader cmdtbl 0 buffer count st;
          st = write_prdt lib cmdtbl i buffer (count * 512 - 1) st
      in upd_ah_mem (write_fis cmdtbl is_write startl starth count) st)"

text \<open>The wait for an idle port; the number is how many of the 10000 rounds are left.\<close>

fun wait_idle :: "controller \<Rightarrow> u64 \<Rightarrow> nat \<Rightarrow> ahci \<Rightarrow> nat \<times> ahci" where
  "wait_idle ctl port 0 st = (0, snd (mmio_read ctl (port_tfd port) st))"
| "wait_idle ctl port (Suc n) st =
     (let (tfd, st) = mmio_read ctl (port_tfd port) st
      in if tfd AND (ATA_DEV_BUSY OR ATA_DEV_DRQ) \<noteq> 0 then wait_idle ctl port n st
         else (Suc n, st))"

text \<open>The wait for completion: true when the command has left the issue register.\<close>

definition wait_done :: "controller \<Rightarrow> u64 \<Rightarrow> u32 \<Rightarrow> ahci \<Rightarrow> (bool \<times> ahci) option" where
  "wait_done ctl port slot_bit st = poll (\<lambda>st.
     let (ci, st) = mmio_read ctl (port_ci port) st
     in if ci AND slot_bit = 0 then (Some True, st)
        else (let (is', st) = mmio_read ctl (port_is port) st
              in (if is' AND HBA_PxIS_TFES \<noteq> 0 then Some False else None, st))) st"

definition fail_command :: "device \<Rightarrow> string \<Rightarrow> ahci \<Rightarrow> (u8 \<times> ahci) option" where
  "fail_command dev msg st = do {
     t \<leftarrow> klog dev LOG_ERROR msg [] (ah_io st);
     Some (0, st\<lparr>ah_io := t\<rparr>)
   }"

definition issue_command :: "device \<Rightarrow> controller \<Rightarrow> u64 \<Rightarrow> u32 \<Rightarrow> ahci \<Rightarrow> (u8 \<times> ahci) option" where
  "issue_command dev ctl port command_slot st = do {
     let (left, st) = wait_idle ctl port 10000 st;
     (if left = 0 then fail_command dev ''AHCI port is hung'' st
      else do {
        let slot_bit = push_bit (unat command_slot) 1;
        let st = mmio_write (port_ci port) slot_bit st;
        (completed, st) \<leftarrow> wait_done ctl port slot_bit st;
        (if \<not> completed then fail_command dev ''AHCI command failed'' st
         else do {
           let (is', st) = mmio_read ctl (port_is port) st;
           (if is' AND HBA_PxIS_TFES \<noteq> 0 then fail_command dev ''AHCI command failed'' st
            else Some (1, st))
         })
      })
   }"

definition ahci_perform_command ::
  "ahci_lib \<Rightarrow> device \<Rightarrow> controller \<Rightarrow> u64 \<Rightarrow> u32 \<Rightarrow> u32 \<Rightarrow> u32 \<Rightarrow> u64 \<Rightarrow> u8 \<Rightarrow> ahci \<Rightarrow> (u8 \<times> ahci) option" where
  "ahci_perform_command lib dev ctl port startl starth count buffer is_write st = do {
     c_assert (count \<le> ucast num_prdt);
     let st = mmio_write (port_is port) (- 1) st;
     (command_slot, st) \<leftarrow> wait_for_slot ctl port st;
     let (clb, st) = mmio_read ctl (port_clb port) st;
     let cmdheader = mmu_physical_to_virtual lib (ucast clb) st + ucast command_slot * 32;
     let st = build_command lib cmdheader startl starth count buffer is_write st;
     issue_command dev ctl port command_slot st
   }"

definition ahci_raw_write ::
  "ahci_lib \<Rightarrow> device \<Rightarrow> controller \<Rightarrow> u64 \<Rightarrow> u32 \<Rightarrow> u32 \<Rightarrow> u32 \<Rightarrow> u64 \<Rightarrow> ahci \<Rightarrow> (u8 \<times> ahci) option" where
  "ahci_raw_write lib dev ctl port startl starth count inbuffer st =
     ahci_perform_command lib dev ctl port startl starth count inbuffer 1 st"

definition ahci_raw_read ::
  "ahci_lib \<Rightarrow> device \<Rightarrow> controller \<Rightarrow> u64 \<Rightarrow> u32 \<Rightarrow> u32 \<Rightarrow> u32 \<Rightarrow> u64 \<Rightarrow> ahci \<Rightarrow> (u8 \<times> ahci) option" where
  "ahci_raw_read lib dev ctl port startl starth count outbuffer st =
     ahci_perform_command lib dev ctl port startl starth count outbuffer 0 st"

section \<open>Initialization\<close>

definition ahci_print :: "device \<Rightarrow> string \<Rightarrow> u64 \<Rightarrow> ahci \<Rightarrow> ahci option" where
  "ahci_print dev fmt v st = do {
     (_, t) \<leftarrow> kprintf dev fmt [Num v] (ah_io st);
     Some (st\<lparr>ah_io := t\<rparr>)
   }"

definition init_port ::
  "ahci_lib \<Rightarrow> device \<Rightarrow> controller \<Rightarrow> u8 \<Rightarrow> ahci \<Rightarrow> ahci option" where
  "init_port lib dev ctl i st = do {
     let (pi, st) = mmio_read ctl (hba_pi (hba st)) st;
     (if drop_bit (unat i) pi AND 1 = 0 then Some st
      else do {
        let port = hba_port (hba st) i;
        let (type, st) = check_type ctl port st;
        (if type = AHCI_DEV_SATA then do {
           st \<leftarrow> ahci_sata_setup lib ctl port st;
           let st = add_devfs_drive_file lib i st;
           ahci_print dev ''SATA drive found at port %d\<newline>'' (ucast i) st
         }
         else if type = AHCI_DEV_SATAPI then ahci_print dev ''SATAPI drive found at port %d\<newline>'' (ucast i) st
         else if type = AHCI_DEV_SEMB then ahci_print dev ''SEMB drive found at port %d\<newline>'' (ucast i) st
         else if type = AHCI_DEV_PM then ahci_print dev ''PM drive found at port %d\<newline>'' (ucast i) st
         else ahci_print dev ''No drive found at port %d\<newline>'' (ucast i) st)
      })
   }"

fun init_ports ::
  "ahci_lib \<Rightarrow> device \<Rightarrow> controller \<Rightarrow> u8 list \<Rightarrow> ahci \<Rightarrow> ahci option" where
  "init_ports lib dev ctl [] st = Some st"
| "init_ports lib dev ctl (i # is) st = do {
     st \<leftarrow> init_port lib dev ctl i st;
     init_ports lib dev ctl is st
   }"

text \<open>
  \<^verbatim>\<open>d\<close> and \<^verbatim>\<open>bar\<close> are the contents of the two local structures before they are written; \<^verbatim>\<open>bit1\<close> and \<^verbatim>\<open>n\<close> are
  the parameters of \<^verbatim>\<open>mmu_map_frames\<close>.
\<close>

definition ahci_init ::
  "ahci_lib \<Rightarrow> device \<Rightarrow> controller \<Rightarrow> (nat \<Rightarrow> u64) \<Rightarrow> nat \<Rightarrow> pci_device \<Rightarrow> pci_base_address_register \<Rightarrow>
     ahci \<Rightarrow> (bool \<times> ahci) option" where
  "ahci_init lib dev ctl bit1 n d bar st = do {
     let (found, t, d) = pci_devices_by_id dev 0x01 0x06 (ah_io st, d);
     let st = st\<lparr>ah_io := t\<rparr>;
     (if \<not> found then Some (False, st)
      else do {
        st \<leftarrow> ahci_print dev ''vendor: %x\<newline>'' (ucast (pci_vendor d)) st;
        st \<leftarrow> ahci_print dev ''device: %x\<newline>'' (ucast (pci_device_id d)) st;
        st \<leftarrow> ahci_print dev ''header_type: %x\<newline>'' (ucast (pci_header_type d)) st;
        let (_, t, bar) = pci_get_bar dev d 5 (ah_io st, bar);
        let st = st\<lparr>ah_io := t\<rparr>;
        (m, HBA_base) \<leftarrow> mmu_map_frames bit1 n (ucast (bar_address bar)) (ucast (bar_size bar)) (ah_mmu st);
        let st = st\<lparr>ah_mmu := m\<rparr>;
        (if HBA_base = 0 then Some (False, st)
         else do {
           let st = st\<lparr>hba := HBA_base\<rparr>;
           st \<leftarrow> init_ports lib dev ctl (map of_nat [0..<32]) st;
           Some (True, st)
         })
      })
   }"

end
