(* ===== verification/AhciPort.thy ===== *)
theory AhciPort
  imports Ahci
begin

text \<open>The registers of a port under the driver: slots, commands, starting and stopping.\<close>

section \<open>What is written\<close>

fun reg_writes :: "mmio list \<Rightarrow> (u64 \<times> u32) list" where
  "reg_writes [] = []"
| "reg_writes (MRead a # es) = reg_writes es"
| "reg_writes (MWrite a v # es) = (a, v) # reg_writes es"

lemma reg_writes_append [simp]: "reg_writes (es @ fs) = reg_writes es @ reg_writes fs"
  by (induction es rule: reg_writes.induct) simp_all

definition only_reads :: "ahci \<Rightarrow> ahci \<Rightarrow> bool" where
  "only_reads st st' \<longleftrightarrow> (\<exists>es. st' = st\<lparr>ah_regs := ah_regs st @ map MRead es\<rparr>)"

lemma reg_writes_reads [simp]: "reg_writes (map MRead es) = []"
  by (induction es) simp_all

lemma only_reads_refl: "only_reads st st"
  unfolding only_reads_def by (rule exI [of _ "[]"]) simp

lemma only_reads_trans: "only_reads st st1 \<Longrightarrow> only_reads st1 st2 \<Longrightarrow> only_reads st st2"
  unfolding only_reads_def by (elim exE, rule_tac x = "es @ esa" in exI) simp

lemma only_reads_read: "only_reads st (snd (mmio_read ctl a st))"
  unfolding only_reads_def mmio_read_def by (rule exI [of _ "[a]"]) simp

lemma only_reads_writes: "only_reads st st' \<Longrightarrow> reg_writes (ah_regs st') = reg_writes (ah_regs st)"
  by (auto simp: only_reads_def)

lemma only_reads_same:
  "only_reads st st' \<Longrightarrow> ah_io st' = ah_io st \<and> ah_mem st' = ah_mem st \<and> ah_mmu st' = ah_mmu st \<and> hba st' = hba st"
  by (auto simp: only_reads_def)

lemma mmio_readE:
  assumes "mmio_read ctl a st = (v, st')"
  obtains "v = ctl (ah_regs st) a" "st' = st\<lparr>ah_regs := ah_regs st @ [MRead a]\<rparr>" "only_reads st st'"
  using assms only_reads_read [of st ctl a] by (auto simp: mmio_read_def)

section \<open>Slots\<close>

lemma find_slot_least:
  "find_slot slots is =
     (case find (\<lambda>i. \<not> bit slots i) is of None \<Rightarrow> (0, 1) | Some i \<Rightarrow> (of_nat i, 0))"
proof (induction "is")
  case (Cons i "is")
  have "drop_bit i slots AND 1 = 0 \<longleftrightarrow> \<not> bit slots i"
    by (simp add: and_one_eq bit_iff_odd_drop_bit even_iff_mod_2_eq_zero)
  then show ?case using Cons by simp
qed simp

text \<open>
  What a search for a slot after the accesses \<^verbatim>\<open>h\<close> gets to see: the slots in use and the bound, both
  from the registers of the controller at \<^verbatim>\<open>b\<close> and of its port.
\<close>

definition busy_slots :: "controller \<Rightarrow> u64 \<Rightarrow> u64 \<Rightarrow> mmio list \<Rightarrow> u32" where
  "busy_slots ctl port b h =
     ctl (h @ [MRead (hba_cap b)]) (port_sact port) OR
     ctl (h @ [MRead (hba_cap b), MRead (port_sact port)]) (port_ci port)"

definition slot_bound :: "controller \<Rightarrow> u64 \<Rightarrow> mmio list \<Rightarrow> nat" where
  "slot_bound ctl b h = unat (drop_bit 8 (ctl h (hba_cap b)) AND 0x1F)"

definition search_reads :: "u64 \<Rightarrow> u64 \<Rightarrow> mmio list" where
  "search_reads port b = map MRead [hba_cap b, port_sact port, port_ci port]"

lemma slot_bound_le: "slot_bound ctl b h < 32"
proof -
  have "drop_bit 8 (ctl h (hba_cap b)) AND 0x1F \<le> 0x1F" by (rule word_and_le1)
  then show ?thesis by (simp add: slot_bound_def word_le_nat_alt)
qed

lemma get_free_command_slot_eq:
  "get_free_command_slot ctl port st =
     (case find (\<lambda>i. \<not> bit (busy_slots ctl port (hba st) (ah_regs st)) i)
             [0..<slot_bound ctl (hba st) (ah_regs st)] of
        None \<Rightarrow> (0, 1) | Some i \<Rightarrow> (of_nat i, 0),
      st\<lparr>ah_regs := ah_regs st @ search_reads port (hba st)\<rparr>)"
proof -
  let ?f = "drop_bit 8 (ctl (ah_regs st) (hba_cap (hba st))) AND 0x1F"
  have "?f \<le> 0x1F" by (rule word_and_le1)
  then have "unat ?f < 256" by (simp add: word_le_nat_alt)
  then have "unat (ucast ?f :: u8) = slot_bound ctl (hba st) (ah_regs st)"
    by (simp add: slot_bound_def unsigned_ucast_eq take_bit_nat_eq_self)
  then show ?thesis
    by (simp add: get_free_command_slot_def mmio_read_def Let_def find_slot_least busy_slots_def
        search_reads_def)
qed

definition slot_free :: "controller \<Rightarrow> u64 \<Rightarrow> u64 \<Rightarrow> mmio list \<Rightarrow> nat \<Rightarrow> bool" where
  "slot_free ctl port b h s \<longleftrightarrow>
     s < slot_bound ctl b h \<and> \<not> bit (busy_slots ctl port b h) s \<and>
     (\<forall>j < s. bit (busy_slots ctl port b h) j)"

lemma find_upt_Some: "find P [0..<n] = Some s \<longleftrightarrow> s < n \<and> P s \<and> (\<forall>j < s. \<not> P j)"
  by (auto simp: find_Some_iff)

lemma wait_for_slot_returned:
  assumes "wait_for_slot ctl port st = Some (s, st')"
  shows "\<exists>es k. s = of_nat k \<and> slot_free ctl port (hba st) (ah_regs st @ map MRead es) k \<and>
     st' = st\<lparr>ah_regs := ah_regs st @ map MRead es @ search_reads port (hba st)\<rparr>"
proof -
  let ?step = "\<lambda>st. let ((command_slot, err), st) = get_free_command_slot ctl port st
     in (if err \<noteq> 0 then None else Some (ucast command_slot :: u32), st)"
  let ?I = "only_reads st"
  have keep: "?I (snd (?step x))" if "?I x" for x
  proof -
    have "snd (?step x) = x\<lparr>ah_regs := ah_regs x @ map MRead [hba_cap (hba x), port_sact port, port_ci port]\<rparr>"
      by (simp add: get_free_command_slot_eq search_reads_def split: option.split)
    then have "only_reads x (snd (?step x))" unfolding only_reads_def by blast
    then show ?thesis by (rule only_reads_trans [OF that])
  qed
  obtain x where x: "?I x" "?step x = (Some s, st')"
    using poll_keeps [of ?step st s st' ?I, OF assms [unfolded wait_for_slot_def] only_reads_refl keep] by blast
  then obtain es where es: "x = st\<lparr>ah_regs := ah_regs st @ map MRead es\<rparr>" by (auto simp: only_reads_def)
  let ?h = "ah_regs st @ map MRead es"
  obtain k where k: "find (\<lambda>i. \<not> bit (busy_slots ctl port (hba st) ?h) i)
      [0..<slot_bound ctl (hba st) ?h] = Some k" "s = ucast (of_nat k :: u8)"
    "st' = x\<lparr>ah_regs := ah_regs x @ search_reads port (hba st)\<rparr>"
    using x(2) by (auto simp: get_free_command_slot_eq es split: option.splits)
  have "slot_free ctl port (hba st) ?h k"
    using k(1) unfolding find_upt_Some by (simp add: slot_free_def)
  moreover have "k < 256" using k(1) slot_bound_le [of ctl "hba st" ?h] unfolding find_upt_Some by simp
  then have "(ucast (of_nat k :: u8) :: u32) = of_nat k"
    by (intro word_unat_eq_iff [THEN iffD2]) (simp add: unsigned_ucast_eq unsigned_of_nat take_bit_nat_eq_self)
  ultimately show ?thesis using k(2,3) es by (intro exI [of _ es] exI [of _ k]) simp
qed

section \<open>Issuing a command\<close>

definition port_hung :: "controller \<Rightarrow> u64 \<Rightarrow> mmio list \<Rightarrow> mmio list \<Rightarrow> bool" where
  "port_hung ctl port h h' \<longleftrightarrow>
     h' = h @ MRead (port_tfd port) # replicate 10000 (MRead (port_tfd port)) \<and>
     (\<forall>k<10000. ctl (h @ replicate k (MRead (port_tfd port))) (port_tfd port) AND 0x88 \<noteq> 0)"

definition command_done :: "controller \<Rightarrow> u64 \<Rightarrow> nat \<Rightarrow> mmio list \<Rightarrow> bool" where
  "command_done ctl port s h' \<longleftrightarrow>
     (\<exists>h. h' = h @ [MRead (port_ci port), MRead (port_is port)] \<and>
       \<not> bit (ctl h (port_ci port)) s \<and> \<not> bit (ctl (h @ [MRead (port_ci port)]) (port_is port)) 30)"

definition command_error :: "controller \<Rightarrow> u64 \<Rightarrow> mmio list \<Rightarrow> bool" where
  "command_error ctl port h' \<longleftrightarrow>
     (\<exists>h. h' = h @ [MRead (port_is port)] \<and> bit (ctl h (port_is port)) 30)"

lemma and_bit: "v AND push_bit n 1 = 0 \<longleftrightarrow> \<not> bit v n" if "n < 32" for v :: u32
proof
  assume z: "v AND push_bit n 1 = 0"
  have "bit (v AND push_bit n 1) n \<longleftrightarrow> bit v n" using that by (simp add: bit_simps)
  then show "\<not> bit v n" unfolding z by simp
next
  assume "\<not> bit v n"
  then show "v AND push_bit n 1 = 0" by (intro bit_word_eqI) (auto simp: bit_simps bit_1_iff)
qed

lemma tfes: "v AND HBA_PxIS_TFES = 0 \<longleftrightarrow> \<not> bit v 30"
  unfolding HBA_PxIS_TFES_def by (rule and_bit) simp

lemma wait_idle_eq:
  "wait_idle ctl port n st = (left, st') \<Longrightarrow>
     (\<exists>k. st' = st\<lparr>ah_regs := ah_regs st @ replicate (Suc k) (MRead (port_tfd port))\<rparr> \<and> k + left = n \<and>
        (\<forall>j<k. ctl (ah_regs st @ replicate j (MRead (port_tfd port))) (port_tfd port) AND 0x88 \<noteq> 0))"
proof (induction n arbitrary: st)
  case 0
  then show ?case by (intro exI [of _ 0]) (simp add: mmio_read_def)
next
  case (Suc n)
  let ?R = "MRead (port_tfd port)"
  let ?st = "st\<lparr>ah_regs := ah_regs st @ [?R]\<rparr>"
  have m: "ATA_DEV_BUSY OR ATA_DEV_DRQ = 0x88" by (simp add: ATA_DEV_BUSY_def ATA_DEV_DRQ_def)
  show ?case
  proof (cases "ctl (ah_regs st) (port_tfd port) AND 0x88 = 0")
    case True
    then show ?thesis using Suc.prems by (intro exI [of _ 0]) (simp add: mmio_read_def m)
  next
    case False
    then obtain k where k: "st' = ?st\<lparr>ah_regs := ah_regs ?st @ replicate (Suc k) ?R\<rparr>" "k + left = n"
      "\<forall>j<k. ctl (ah_regs ?st @ replicate j ?R) (port_tfd port) AND 0x88 \<noteq> 0"
      using Suc.IH [of ?st] Suc.prems by (auto simp: mmio_read_def m)
    have "\<forall>j<Suc k. ctl (ah_regs st @ replicate j ?R) (port_tfd port) AND 0x88 \<noteq> 0"
      using k(3) False by (auto simp: less_Suc_eq_0_disj replicate_app_Cons_same)
    then show ?thesis using k(1,2) by (intro exI [of _ "Suc k"]) simp
  qed
qed

lemma wait_done_returned:
  assumes "wait_done ctl port (push_bit s 1) st = Some (b, st')" "s < 32"
  shows "\<exists>es. st' = st\<lparr>ah_regs := ah_regs st @ map MRead es\<rparr> \<and>
     (if b then \<exists>h. ah_regs st' = h @ [MRead (port_ci port)] \<and> \<not> bit (ctl h (port_ci port)) s
      else command_error ctl port (ah_regs st'))"
proof -
  let ?step = "\<lambda>st. let (ci, st) = mmio_read ctl (port_ci port) st
     in if ci AND push_bit s 1 = 0 then (Some True, st)
        else (let (is', st) = mmio_read ctl (port_is port) st
              in (if is' AND HBA_PxIS_TFES \<noteq> 0 then Some False else None, st))"
  have keep: "only_reads st (snd (?step x))" if "only_reads st x" for x
  proof -
    have "snd (?step x) = x\<lparr>ah_regs := ah_regs x @ map MRead [port_ci port]\<rparr> \<or>
        snd (?step x) = x\<lparr>ah_regs := ah_regs x @ map MRead [port_ci port, port_is port]\<rparr>"
      by (auto simp: mmio_read_def)
    then have "only_reads x (snd (?step x))" unfolding only_reads_def by blast
    then show ?thesis by (rule only_reads_trans [OF that])
  qed
  obtain x where x: "only_reads st x" "?step x = (Some b, st')"
    using poll_keeps [of ?step st b st' "only_reads st", OF assms(1) [unfolded wait_done_def] only_reads_refl keep]
    by blast
  have "only_reads st st'" using keep [OF x(1)] x(2) by simp
  then obtain es where "st' = st\<lparr>ah_regs := ah_regs st @ map MRead es\<rparr>" by (auto simp: only_reads_def)
  moreover have "if b then \<exists>h. ah_regs st' = h @ [MRead (port_ci port)] \<and> \<not> bit (ctl h (port_ci port)) s
      else command_error ctl port (ah_regs st')"
    using x(2) by (auto simp: mmio_read_def Let_def tfes and_bit [OF assms(2), simplified] command_error_def split: if_splits)
  ultimately show ?thesis by blast
qed

lemma fail_command_returned:
  "fail_command dev msg st = Some (r, st') \<Longrightarrow> r = 0 \<and> ah_regs st' = ah_regs st \<and> ah_mem st' = ah_mem st"
  by (auto simp: fail_command_def split: bind_splits)

text \<open>How an attempt to issue slot \<^verbatim>\<open>s\<close> after the accesses \<^verbatim>\<open>h\<close> ends: the result and all accesses.\<close>

definition issue_outcome :: "controller \<Rightarrow> u64 \<Rightarrow> nat \<Rightarrow> mmio list \<Rightarrow> u8 \<Rightarrow> mmio list \<Rightarrow> bool" where
  "issue_outcome ctl port s h r h' \<longleftrightarrow>
     r = 0 \<and> port_hung ctl port h h' \<or>
     (\<exists>es fs. h' = h @ map MRead es @ MWrite (port_ci port) (push_bit s 1) # map MRead fs \<and>
        (r = 1 \<and> command_done ctl port s h' \<or> r = 0 \<and> command_error ctl port h'))"

lemma issue_command_returned:
  assumes "issue_command dev ctl port (of_nat s) st = Some (r, st')" "s < 32"
  shows "issue_outcome ctl port s (ah_regs st) r (ah_regs st') \<and> ah_mem st' = ah_mem st"
proof -
  obtain left st1 where w: "wait_idle ctl port 10000 st = (left, st1)" by fastforce
  obtain k where k: "st1 = st\<lparr>ah_regs := ah_regs st @ replicate (Suc k) (MRead (port_tfd port))\<rparr>"
    "k + left = 10000"
    "\<forall>j<k. ctl (ah_regs st @ replicate j (MRead (port_tfd port))) (port_tfd port) AND 0x88 \<noteq> 0"
    using wait_idle_eq [OF w] by blast
  have s: "unat (of_nat s :: u32) = s" using assms(2) by (simp add: unat_of_nat_u32)
  show ?thesis
  proof (cases "left = 0")
    case True
    then have f: "fail_command dev ''AHCI port is hung'' st1 = Some (r, st')"
      using assms(1) w by (simp add: issue_command_def)
    have "port_hung ctl port (ah_regs st) (ah_regs st1)"
      using k True by (simp add: port_hung_def)
    then show ?thesis using fail_command_returned [OF f] k(1) by (auto simp: issue_outcome_def)
  next
    case False
    let ?st2 = "mmio_write (port_ci port) (push_bit s 1) st1"
    obtain b st3 where d: "wait_done ctl port (push_bit s 1) ?st2 = Some (b, st3)"
      using assms(1) w False s by (auto simp: issue_command_def Let_def split: bind_splits)
    obtain es where es: "st3 = ?st2\<lparr>ah_regs := ah_regs ?st2 @ map MRead es\<rparr>"
      and b: "if b then \<exists>h. ah_regs st3 = h @ [MRead (port_ci port)] \<and> \<not> bit (ctl h (port_ci port)) s
        else command_error ctl port (ah_regs st3)"
      using wait_done_returned [OF d assms(2)] by blast
    let ?h = "ah_regs st @ map MRead (replicate (Suc k) (port_tfd port)) @ MWrite (port_ci port) (push_bit s 1) # map MRead es"
    have r3: "ah_regs st3 = ?h" by (simp add: es k(1) mmio_write_def)
    let ?st4 = "st3\<lparr>ah_regs := ?h @ [MRead (port_is port)]\<rparr>"
    have m: "ah_mem st3 = ah_mem st" by (simp add: es k(1) mmio_write_def)
    have run: "(if \<not> b then fail_command dev ''AHCI command failed'' st3
        else if bit (ctl ?h (port_is port)) 30 then fail_command dev ''AHCI command failed'' ?st4
        else Some (1, ?st4)) = Some (r, st')"
      using assms(1) w False s d
      by (simp add: issue_command_def mmio_read_def Let_def tfes r3 split: if_splits)
    consider (failed) "\<not> b" "r = 0" "ah_regs st' = ?h" "ah_mem st' = ah_mem st"
      | (error) "b" "bit (ctl ?h (port_is port)) 30" "r = 0" "ah_regs st' = ?h @ [MRead (port_is port)]" "ah_mem st' = ah_mem st"
      | (completed) "b" "\<not> bit (ctl ?h (port_is port)) 30" "r = 1" "ah_regs st' = ?h @ [MRead (port_is port)]" "ah_mem st' = ah_mem st"
      using run m by (auto simp: r3 split: if_splits dest: fail_command_returned)
    then show ?thesis
    proof cases
      case failed
      then have "command_error ctl port (ah_regs st')" using b r3 by simp
      then show ?thesis using failed unfolding issue_outcome_def by blast
    next
      case error
      have "command_error ctl port (ah_regs st')" unfolding command_error_def
        by (intro exI [of _ ?h]) (use error in simp)
      moreover have "ah_regs st' = ah_regs st @ map MRead (replicate (Suc k) (port_tfd port)) @
          MWrite (port_ci port) (push_bit s 1) # map MRead (es @ [port_is port])"
        using error(4) by simp
      ultimately show ?thesis using error unfolding issue_outcome_def by blast
    next
      case completed
      obtain h where "?h = h @ [MRead (port_ci port)]" "\<not> bit (ctl h (port_ci port)) s"
        using b completed(1) r3 by auto
      then have "command_done ctl port s (ah_regs st')" unfolding command_done_def
        by (intro exI [of _ h]) (use completed(2,4) in simp)
      moreover have "ah_regs st' = ah_regs st @ map MRead (replicate (Suc k) (port_tfd port)) @
          MWrite (port_ci port) (push_bit s 1) # map MRead (es @ [port_is port])"
        using completed(4) by simp
      ultimately show ?thesis using completed unfolding issue_outcome_def by blast
    qed
  qed
qed

lemma prdt_loop_regs:
  "prdt_loop lib h t i buffer count st = (i', buffer', count', st') \<Longrightarrow> ah_regs st' = ah_regs st"
proof (induction lib h t i buffer count st rule: prdt_loop.induct)
  case (1 lib h t i buffer count st)
  show ?case
  proof (cases "i < unat (get_prdtl h (ah_mem st)) - 1")
    case True
    then show ?thesis using 1 by (subst (asm) (2) prdt_loop.simps) (simp add: write_prdt_def Let_def)
  next
    case False
    then show ?thesis using 1(2) by (subst (asm) prdt_loop.simps) simp
  qed
qed

lemma build_command_regs: "ah_regs (build_command lib h startl starth count buffer w st) = ah_regs st"
  by (auto simp: build_command_def Let_def write_prdt_def dest!: prdt_loop_regs split: prod.split)

text \<open>
  C15 (ahci_command_protocol): whenever \<^verbatim>\<open>ahci_perform_command\<close> returns, it had at most eight sectors to
  move; it cleared the interrupt status once, chose the lowest slot that the registers showed as
  unused, and then either found the port busy in 10000 consecutive polls and reported failure
  without issuing anything, or issued exactly this slot, once.  It then reports success only after
  the slot has left the issue register and the status shows no task file error, and failure only
  after such an error.
\<close>

theorem ahci_command_protocol:
  assumes "ahci_perform_command lib dev ctl port startl starth count buffer is_write st = Some (r, st')"
  shows "count \<le> 8 \<and> (\<exists>es s. let h = ah_regs st @ MWrite (port_is port) (- 1) # map MRead es in
     slot_free ctl port (hba st) h s \<and>
     issue_outcome ctl port s (h @ search_reads port (hba st) @ [MRead (port_clb port)]) r (ah_regs st'))"
proof -
  let ?st1 = "mmio_write (port_is port) (- 1) st"
  have c: "count \<le> 8"
    using assms by (simp add: ahci_perform_command_def num_prdt_def)
  obtain w st2 where w: "wait_for_slot ctl port ?st1 = Some (w, st2)"
    using assms by (auto simp: ahci_perform_command_def split: bind_splits)
  obtain es s where s: "w = of_nat s" "slot_free ctl port (hba ?st1) (ah_regs ?st1 @ map MRead es) s"
    "st2 = ?st1\<lparr>ah_regs := ah_regs ?st1 @ map MRead es @ search_reads port (hba ?st1)\<rparr>"
    using wait_for_slot_returned [OF w] by blast
  have b: "s < 32" using s(2) slot_bound_le [of ctl "hba ?st1"] by (auto simp: slot_free_def intro: less_trans)
  obtain clb st3 where r: "mmio_read ctl (port_clb port) st2 = (clb, st3)" by fastforce
  obtain h st4 where st4: "st4 = build_command lib h startl starth count buffer is_write st3"
    "issue_command dev ctl port w st4 = Some (r, st')"
    using assms w r by (auto simp: ahci_perform_command_def Let_def split: bind_splits)
  have "ah_regs st4 = ah_regs st3"
    unfolding st4(1) by (rule build_command_regs)
  moreover have "ah_regs st3 = ah_regs st @ MWrite (port_is port) (- 1) # map MRead es @
      search_reads port (hba st) @ [MRead (port_clb port)]"
    using r by (auto simp: mmio_read_def s(3) mmio_write_def)
  ultimately show ?thesis
    using c s(2) issue_command_returned [OF st4(2) [unfolded s(1)] b]
    by (intro conjI exI [of _ es] exI [of _ s]) (simp_all add: Let_def mmio_write_def)
qed

section \<open>A controller that answers\<close>

text \<open>
  A controller in working order: it has at least two slots, and once the driver has only read for
  \<^verbatim>\<open>n\<close> accesses, no command is outstanding; the port is idle and no command fails.
\<close>

definition idle_reads :: "mmio list \<Rightarrow> nat" where
  "idle_reads h = length (takeWhile (\<lambda>e. case e of MRead a \<Rightarrow> True | MWrite a v \<Rightarrow> False) (rev h))"

lemma idle_reads_read [simp]: "idle_reads (h @ [MRead a]) = Suc (idle_reads h)"
  by (simp add: idle_reads_def)

lemma idle_reads_reads [simp]: "idle_reads (h @ map MRead es) = idle_reads h + length es"
proof (induction es rule: rev_induct)
  case (snoc e es)
  then show ?case using idle_reads_read [of "h @ map MRead es" e] by simp
qed simp

definition working :: "controller \<Rightarrow> u64 \<Rightarrow> u64 \<Rightarrow> nat \<Rightarrow> bool" where
  "working ctl port b n \<longleftrightarrow>
     (\<forall>h. 0 < slot_bound ctl b h) \<and>
     (\<forall>h. n \<le> idle_reads h \<longrightarrow> ctl h (port_sact port) = 0 \<and> ctl h (port_ci port) = 0) \<and>
     (\<forall>h. ctl h (port_tfd port) AND 0x88 = 0 \<and> \<not> bit (ctl h (port_is port)) 30)"

lemma find_upt_None: "find P [0..<n] = None \<longleftrightarrow> (\<forall>i<n. \<not> P i)"
  by (auto simp: find_None_iff)

lemma search_reads_length [simp]: "idle_reads (h @ search_reads port b) = idle_reads h + 3"
  unfolding search_reads_def idle_reads_reads by simp

lemma wait_for_slot_returns:
  assumes "working ctl port (hba st) n"
  shows "\<exists>w st'. wait_for_slot ctl port st = Some (w, st')"
proof -
  let ?step = "\<lambda>st. let ((command_slot, err), st) = get_free_command_slot ctl port st
     in (if err \<noteq> 0 then None else Some (ucast command_slot :: u32), st)"
  have after: "snd (?step x) = x\<lparr>ah_regs := ah_regs x @ search_reads port (hba x)\<rparr>" for x
    by (simp add: get_free_command_slot_eq split: option.split)
  have "\<exists>w st'. poll ?step st = Some (w, st') \<and> (\<exists>s0. hba s0 = hba st \<and> ?step s0 = (Some w, st'))"
  proof (rule poll_within [where m = "\<lambda>x. n - idle_reads (ah_regs x)"])
    fix x assume I: "hba x = hba st" and N: "fst (?step x) = None"
    let ?h = "ah_regs x"
    have "find (\<lambda>i. \<not> bit (busy_slots ctl port (hba st) ?h) i) [0..<slot_bound ctl (hba st) ?h] = None"
      using N I by (auto simp: get_free_command_slot_eq split: option.splits)
    then have bit0: "bit (busy_slots ctl port (hba st) ?h) 0"
      using assms unfolding find_upt_None working_def by blast
    have "idle_reads ?h < n"
    proof (rule ccontr)
      assume "\<not> idle_reads ?h < n"
      then have "n \<le> idle_reads (?h @ map MRead [hba_cap (hba st)])"
        "n \<le> idle_reads (?h @ map MRead [hba_cap (hba st), port_sact port])"
        unfolding idle_reads_reads by simp_all
      then have "busy_slots ctl port (hba st) ?h = 0"
        using assms unfolding working_def busy_slots_def by simp
      then show False using bit0 by simp
    qed
    then show "n - idle_reads (ah_regs (snd (?step x))) < n - idle_reads ?h" unfolding after by simp
  qed (use after in simp_all)
  then show ?thesis unfolding wait_for_slot_def by blast
qed

lemma wait_done_returns:
  assumes "working ctl port b n" "s < 32"
  shows "\<exists>st'. wait_done ctl port (push_bit s 1) st = Some (True, st')"
proof -
  let ?step = "\<lambda>st. let (ci, st) = mmio_read ctl (port_ci port) st
     in if ci AND push_bit s 1 = 0 then (Some True, st)
        else (let (is', st) = mmio_read ctl (port_is port) st
              in (if is' AND HBA_PxIS_TFES \<noteq> 0 then Some False else None, st))"
  have ok: "\<not> bit (ctl h (port_is port)) 30" for h using assms(1) by (simp add: working_def)
  have "\<exists>r st'. poll ?step st = Some (r, st') \<and> (\<exists>s0. True \<and> ?step s0 = (Some r, st'))"
  proof (rule poll_within [where m = "\<lambda>x. n - idle_reads (ah_regs x)"])
    fix x :: ahci assume N: "fst (?step x) = None"
    then have bits: "ctl (ah_regs x) (port_ci port) AND push_bit s 1 \<noteq> 0"
      by (auto simp: mmio_read_def split: if_splits)
    then have "idle_reads (ah_regs x) < n"
      using assms(1) unfolding working_def by (metis and.left_neutral and_zero_eq zero_and_eq not_le)
    moreover have "snd (?step x) = x\<lparr>ah_regs := ah_regs x @ map MRead [port_ci port, port_is port]\<rparr>"
      using bits by (simp add: mmio_read_def)
    ultimately show "n - idle_reads (ah_regs (snd (?step x))) < n - idle_reads (ah_regs x)"
      by (simp del: list.map)
  qed simp_all
  then obtain r st' where r: "poll ?step st = Some (r, st')" "\<exists>s0. ?step s0 = (Some r, st')" by blast
  have t: "r = True" using r(2) ok by (auto simp: mmio_read_def tfes Let_def split: if_splits)
  show ?thesis unfolding wait_done_def using r(1) [unfolded t] by (rule exI)
qed

lemma command_completes:
  assumes "working ctl port (hba st) n" "count \<le> 8"
  shows "\<exists>st'. ahci_perform_command lib dev ctl port startl starth count buffer is_write st = Some (1, st')"
proof -
  let ?st1 = "mmio_write (port_is port) (- 1) st"
  have "hba ?st1 = hba st" by (simp add: mmio_write_def)
  then obtain w st2 where w: "wait_for_slot ctl port ?st1 = Some (w, st2)"
    using wait_for_slot_returns [of ctl port ?st1 n] assms(1) by auto
  obtain es s where s: "w = of_nat s" "slot_free ctl port (hba ?st1) (ah_regs ?st1 @ map MRead es) s"
    using wait_for_slot_returned [OF w] by blast
  have b: "s < 32" using s(2) slot_bound_le [of ctl "hba ?st1"] by (auto simp: slot_free_def intro: less_trans)
  then have u: "unat w = s" using s(1) by (simp add: unat_of_nat_u32)
  have idle: "ctl h (port_tfd port) AND (ATA_DEV_BUSY OR ATA_DEV_DRQ) = 0" "\<not> bit (ctl h (port_is port)) 30" for h
    using assms(1) by (simp_all add: working_def ATA_DEV_BUSY_def ATA_DEV_DRQ_def)
  have "\<exists>st'. issue_command dev ctl port w x = Some (1, st')" for x
  proof -
    let ?x1 = "snd (mmio_read ctl (port_tfd port) x)"
    have i: "wait_idle ctl port 10000 x = (10000, ?x1)"
      by (simp add: numeral_eq_Suc mmio_read_def idle)
    obtain x2 where d: "wait_done ctl port (push_bit s 1) (mmio_write (port_ci port) (push_bit s 1) ?x1) = Some (True, x2)"
      using wait_done_returns [OF assms(1) b] by blast
    show ?thesis
      unfolding issue_command_def i Let_def prod.case u using d
      by (simp add: mmio_read_def tfes idle)
  qed
  moreover have "c_assert (count \<le> ucast num_prdt) = Some ()" using assms(2) by (simp add: num_prdt_def)
  ultimately show ?thesis
    unfolding ahci_perform_command_def Let_def w by (simp add: mmio_read_def)
qed


text \<open>A controller at \<^verbatim>\<open>0x1000\<close> with 32 slots that is always idle, and a library for it.\<close>

definition idle_controller :: controller where
  "idle_controller h a = (if a = 0x1000 then 0x1F00 else 0)"

lemma idle_controller_works: "working idle_controller 0x1100 0x1000 0"
  by (simp add: working_def idle_controller_def slot_bound_def port_offsets)

definition example_lib :: ahci_lib where
  "example_lib = \<lparr>kmalloc_align = (\<lambda>s st. (0x8000, st)), virtual_to_physical = (\<lambda>a st. a),
     mmu_physical_to_virtual = (\<lambda>a st. a + 0x8000), physical_to_virtual = (\<lambda>a st. a + 0x9000),
     create_physical_to_virtual_mapping = (\<lambda>p v n st. st), add_devfs_drive_file = (\<lambda>i st. st)\<rparr>"

definition example_ahci :: "mmu \<Rightarrow> ahci" where
  "example_ahci m = \<lparr>ah_io = [], ah_regs = [], ah_mem = (\<lambda>a. 0), ah_mmu = m, hba = 0x1000\<rparr>"


theorem ahci_command_protocol_witness:
  "\<forall>m. \<exists>st' es s. ahci_perform_command example_lib (\<lambda>t p. 0) idle_controller 0x1100 7 0 8 0x5000 1
     (example_ahci m) = Some (1, st') \<and>
     slot_free idle_controller 0x1100 0x1000 (MWrite 0x1110 (- 1) # map MRead es) s"
proof
  fix m
  have "working idle_controller 0x1100 (hba (example_ahci m)) 0"
    using idle_controller_works by (simp add: example_ahci_def)
  then have "\<exists>st'. ahci_perform_command example_lib (\<lambda>t p. 0) idle_controller 0x1100 7 0 8 0x5000 1
      (example_ahci m) = Some (1, st')" by (rule command_completes) simp
  then obtain st' where r: "ahci_perform_command example_lib (\<lambda>t p. 0) idle_controller 0x1100 7 0 8 0x5000 1
      (example_ahci m) = Some (1, st')" by blast
  then show "\<exists>st' es s. ahci_perform_command example_lib (\<lambda>t p. 0) idle_controller 0x1100 7 0 8 0x5000 1
     (example_ahci m) = Some (1, st') \<and>
     slot_free idle_controller 0x1100 0x1000 (MWrite 0x1110 (- 1) # map MRead es) s"
    using ahci_command_protocol [OF r] by (auto simp: Let_def example_ahci_def port_is_def)
qed

text \<open>
  C40 (ahci_single_slot_hangs): the field of the slots holds their number minus one, but
  the search takes it for the number: a slot that is found is always below the field, so the last
  slot is never used, and on a controller with one slot no command ever returns.
\<close>

theorem ahci_single_slot_hangs:
  "(get_free_command_slot ctl port st = ((i, 0), st') \<longrightarrow> unat i < slot_bound ctl (hba st) (ah_regs st)) \<and>
   ((\<forall>h. slot_bound ctl (hba st) h = 0) \<longrightarrow>
     ahci_perform_command lib dev ctl port startl starth count buffer is_write st = None)"
proof (intro conjI impI)
  assume f: "get_free_command_slot ctl port st = ((i, 0), st')"
  let ?n = "slot_bound ctl (hba st) (ah_regs st)"
  obtain k where k: "find (\<lambda>i. \<not> bit (busy_slots ctl port (hba st) (ah_regs st)) i) [0..<?n] = Some k" "i = of_nat k"
    using f by (auto simp: get_free_command_slot_eq split: option.splits)
  have "k < ?n" using k(1) unfolding find_upt_Some by simp
  moreover have "?n < 32" by (rule slot_bound_le)
  ultimately show "unat i < ?n" by (simp add: k(2) unat_of_nat take_bit_nat_eq_self)
next
  assume none: "\<forall>h. slot_bound ctl (hba st) h = 0"
  show "ahci_perform_command lib dev ctl port startl starth count buffer is_write st = None"
  proof (cases "ahci_perform_command lib dev ctl port startl starth count buffer is_write st")
    case (Some r)
    then obtain w st2 where "wait_for_slot ctl port (mmio_write (port_is port) (- 1) st) = Some (w, st2)"
      by (auto simp: ahci_perform_command_def split: bind_splits)
    then show ?thesis
      using wait_for_slot_returned none by (fastforce simp: slot_free_def mmio_write_def)
  qed
qed

theorem ahci_single_slot_hangs_witness:
  "\<forall>m. ahci_perform_command example_lib (\<lambda>t p. 0) (\<lambda>h a. 0) 0x1100 7 0 8 0x5000 1 (example_ahci m) = None"
  using ahci_single_slot_hangs [where ctl = "\<lambda>h a. 0" and port = "0x1100"]
  by (simp add: slot_bound_def)

end
