(* ===== verification/AhciSetup.thy ===== *)
theory AhciSetup
  imports AhciPort
begin

text \<open>
  Programming a port: the registers and the command list after \<^verbatim>\<open>ahci_set_base\<close>.
\<close>

section \<open>Starting and stopping\<close>

definition last_write :: "u64 \<Rightarrow> mmio list \<Rightarrow> u32 option" where
  "last_write a h = map_option snd (find (\<lambda>p. fst p = a) (rev (reg_writes h)))"

lemma last_write_reads [simp]: "last_write a (h @ map MRead es) = last_write a h"
  by (simp add: last_write_def)

lemma wait_not_running_returned:
  assumes "wait_not_running ctl port st = Some (u, st')"
  shows "only_reads st st'"
proof -
  let ?step = "\<lambda>st. let (c, st) = mmio_read ctl (port_cmd port) st
     in (if c AND push_bit 14 1 \<noteq> 0 then None else Some (), st)"
  have keep: "only_reads st (snd (?step x))" if "only_reads st x" for x
    using only_reads_trans [OF that only_reads_read, of ctl "port_cmd port"] by (simp add: mmio_read_def)
  obtain x where "only_reads st x" "?step x = (Some u, st')"
    using poll_keeps [of ?step st u st' "only_reads st", OF assms [unfolded wait_not_running_def] only_reads_refl keep]
    by blast
  then show ?thesis using keep [of x] by simp
qed

lemma wait_stopped_returned:
  assumes "wait_stopped ctl port st = Some (u, st')"
  shows "only_reads st st' \<and> (\<exists>h. ah_regs st' = h @ [MRead (port_cmd port), MRead (port_cmd port)] \<and>
     \<not> bit (ctl h (port_cmd port)) 14 \<and> \<not> bit (ctl (h @ [MRead (port_cmd port)]) (port_cmd port)) 15)"
proof -
  let ?step = "\<lambda>st. let (c, st) = mmio_read ctl (port_cmd port) st
     in if c AND push_bit 14 1 \<noteq> 0 then (None, st)
        else (let (c, st) = mmio_read ctl (port_cmd port) st
              in (if c AND push_bit 15 1 \<noteq> 0 then None else Some (), st))"
  have keep: "only_reads st (snd (?step x))" if "only_reads st x" for x
  proof -
    have "snd (?step x) = x\<lparr>ah_regs := ah_regs x @ map MRead [port_cmd port]\<rparr> \<or>
        snd (?step x) = x\<lparr>ah_regs := ah_regs x @ map MRead [port_cmd port, port_cmd port]\<rparr>"
      by (auto simp: mmio_read_def)
    then have "only_reads x (snd (?step x))" unfolding only_reads_def by blast
    then show ?thesis by (rule only_reads_trans [OF that])
  qed
  obtain x where x: "only_reads st x" "?step x = (Some u, st')"
    using poll_keeps [of ?step st u st' "only_reads st", OF assms [unfolded wait_stopped_def] only_reads_refl keep]
    by blast
  have "only_reads st st'" using keep [OF x(1)] x(2) by simp
  moreover have "ctl (ah_regs x) (port_cmd port) AND push_bit 14 1 = 0 \<and>
      ctl (ah_regs x @ [MRead (port_cmd port)]) (port_cmd port) AND push_bit 15 1 = 0 \<and>
      ah_regs st' = ah_regs x @ [MRead (port_cmd port), MRead (port_cmd port)]"
    using x(2) by (auto simp: mmio_read_def Let_def split: if_splits)
  ultimately show ?thesis using and_bit [of 14] and_bit [of 15] by auto
qed

lemma port_cmd_or_regs:
  "ah_regs (port_cmd_or ctl port v st) = ah_regs st @ [MRead (port_cmd port),
     MWrite (port_cmd port) (ctl (ah_regs st) (port_cmd port) OR v)]"
  "ah_mem (port_cmd_or ctl port v st) = ah_mem st"
  by (simp_all add: port_cmd_or_def mmio_read_def mmio_write_def)

lemma port_cmd_and_regs:
  "ah_regs (port_cmd_and ctl port v st) = ah_regs st @ [MRead (port_cmd port),
     MWrite (port_cmd port) (ctl (ah_regs st) (port_cmd port) AND v)]"
  "ah_mem (port_cmd_and ctl port v st) = ah_mem st"
  by (simp_all add: port_cmd_and_def mmio_read_def mmio_write_def)

section \<open>The command list\<close>

lemma unat_of_nat_diff:
  assumes "a < 2 ^ 64" "b < 2 ^ 64"
  shows "unat (of_nat a - of_nat b :: u64) = (if b \<le> a then a - b else a + 2 ^ 64 - b)"
  using assms by (simp add: unat_sub_if' unat_of_nat_u64)

lemma unat_beyond:
  assumes "unat c \<le> unat (x - t)"
  shows "unat (x - (t + c) :: u64) = unat (x - t) - unat c"
proof -
  have "x - (t + c) = (x - t) - c" by (rule diff_diff_add [symmetric])
  then show ?thesis using unat_sub_le [OF assms] by (simp only:)
qed

lemma unat_header_offset:
  assumes "i < 32" "j < 32" "i \<noteq> j" "q < 32"
  shows "32 \<le> unat (h + of_nat j * 32 + of_nat q - (h + of_nat i * 32) :: u64)"
proof -
  have "h + of_nat j * 32 + of_nat q - (h + of_nat i * 32) = (of_nat (32 * j + q) - of_nat (32 * i) :: u64)"
    by (simp add: algebra_simps)
  moreover have "32 \<le> unat (of_nat (32 * j + q) - of_nat (32 * i) :: u64)"
  proof (subst unat_of_nat_diff)
    have "32 * j + q < 32 * i \<or> 32 * i + 32 \<le> 32 * j + q" using assms by arith
    then show "32 \<le> (if 32 * i \<le> 32 * j + q then 32 * j + q - 32 * i else 32 * j + q + 2 ^ 64 - 32 * i)"
      using assms by auto
  qed (use assms in simp_all)
  ultimately show ?thesis by (simp only:)
qed

definition one_header :: "u64 \<Rightarrow> u32 \<Rightarrow> mem \<Rightarrow> mem" where
  "one_header h t m = set_ctbau h 0 (set_ctba h t (set_prdtl h num_prdt m))"

lemma set_headers_Cons:
  "set_headers c t (i # is) m =
     set_headers c t is (one_header (c + of_nat i * 32) (t + of_nat i * 256) m)"
  by (simp add: one_header_def Let_def)

lemmas header_stores = one_header_def set_ctbau_def set_ctba_def set_prdtl_def store32_def store16_def

lemma one_header_outside:
  assumes "32 \<le> unat (x - h)"
  shows "one_header h t m x = m x"
proof -
  have "4 \<le> unat (x - (h + 12))" "4 \<le> unat (x - (h + 8))" "2 \<le> unat (x - (h + 2))"
    using assms by (simp_all add: unat_beyond)
  then show ?thesis by (simp add: header_stores store_bytes_outside)
qed

lemma load_bytes_cong: "(\<And>k. k < n \<Longrightarrow> m (a + of_nat k) = m' (a + of_nat k)) \<Longrightarrow> load_bytes m a n = load_bytes m' a n"
  by (simp add: load_bytes_def)

lemma load_store_offsets:
  assumes "a < 4096" "b < 4096" "n \<le> 4096" "length bs \<le> 4096" "a + length bs \<le> b \<or> b + n \<le> a"
  shows "load_bytes (store_bytes m (t + of_nat a) bs) (t + of_nat b) n = load_bytes m (t + of_nat b) n"
proof (rule load_bytes_cong, rule store_bytes_outside)
  fix k assume k: "k < n"
  have "t + of_nat b + of_nat k - (t + of_nat a) = of_nat (b + k) - (of_nat a :: u64)" by (simp add: algebra_simps)
  moreover have "length bs \<le> unat (of_nat (b + k) - of_nat a :: u64)"
    by (subst unat_of_nat_diff) (use assms k in auto)
  ultimately show "length bs \<le> unat (t + of_nat b + of_nat k - (t + of_nat a))" by (simp only:)
qed

lemma load_store_le:
  "n \<le> 4 \<Longrightarrow> load_bytes (store_bytes m a (le_bytes n w)) a n = le_bytes n w" for w :: "'a::len word"
  by (rule load_store_same) simp_all

lemma one_header_inside:
  "get_prdtl h (one_header h t m) = num_prdt" "get_ctba h (one_header h t m) = t"
  "load32 (one_header h t m) (h + 12) = 0"
proof -
  note f = load_store_offsets [of 12 8 4 "le_bytes 4 _", simplified]
    load_store_offsets [of 12 2 2 "le_bytes 4 _", simplified] load_store_offsets [of 8 2 2 "le_bytes 4 _", simplified]
  show "get_prdtl h (one_header h t m) = num_prdt" "get_ctba h (one_header h t m) = t"
    "load32 (one_header h t m) (h + 12) = 0"
    by (simp_all add: get_prdtl_def get_ctba_def header_stores load16_def load32_def f load_store_le of_le_bytes_le_bytes)
qed

lemma set_headers_other:
  assumes "\<forall>i \<in> set is. 32 \<le> unat (x - (c + of_nat i * 32))"
  shows "set_headers c t is m x = m x"
  using assms
  by (induction "is" arbitrary: m) (simp_all add: set_headers_Cons one_header_outside del: set_headers.simps(2))

lemma set_headers_each:
  assumes "distinct is" "\<forall>i \<in> set is. i < 32" "j \<in> set is" "q < 32"
  shows "set_headers c t is m (c + of_nat j * 32 + of_nat q) =
     one_header (c + of_nat j * 32) (t + of_nat j * 256) m (c + of_nat j * 32 + of_nat q)"
  using assms
proof (induction "is" arbitrary: m)
  case (Cons i "is")
  let ?x = "c + of_nat j * 32 + of_nat q"
  show ?case
  proof (cases "i = j")
    case True
    have "32 \<le> unat (?x - (c + of_nat k * 32))" if "k \<in> set is" for k
      by (rule unat_header_offset) (use Cons.prems True that in auto)
    then show ?thesis unfolding set_headers_Cons using True by (simp add: set_headers_other)
  next
    case False
    let ?m = "one_header (c + of_nat i * 32) (t + of_nat i * 256) m"
    have out: "?m (c + of_nat j * 32 + of_nat p) = m (c + of_nat j * 32 + of_nat p)" if "p < 32" for p
      by (rule one_header_outside, rule unat_header_offset) (use Cons.prems False that in auto)
    have bytes: "one_header h t' ?m (h + of_nat p) = one_header h t' m (h + of_nat p)"
      if "p < 32" "h = c + of_nat j * 32" for h t' p
      using out [OF that(1)] that(2) by (simp add: header_stores store_bytes_def)
    show ?thesis unfolding set_headers_Cons
      using Cons.IH [of ?m] Cons.prems False bytes [of q] by simp
  qed
qed simp

lemma header_bytes:
  assumes "\<And>q. q < 32 \<Longrightarrow> m (h + of_nat q) = m' (h + of_nat q)"
  shows "get_prdtl h m = get_prdtl h m'" "get_ctba h m = get_ctba h m'"
    "load32 m (h + 12) = load32 m' (h + 12)"
proof -
  have c: "load_bytes m (h + of_nat p) n = load_bytes m' (h + of_nat p) n" if "p + n \<le> 32" for p n
  proof (rule load_bytes_cong)
    fix k assume "k < n"
    then show "m (h + of_nat p + of_nat k) = m' (h + of_nat p + of_nat k)"
      using assms [of "p + k"] that by (simp add: add.assoc)
  qed
  show "get_prdtl h m = get_prdtl h m'" "get_ctba h m = get_ctba h m'"
    "load32 m (h + 12) = load32 m' (h + 12)"
    using c [of 2 2] c [of 8 4] c [of 12 4]
    by (simp_all add: get_prdtl_def get_ctba_def load16_def load32_def)
qed

text \<open>
  All 32 headers of the list at \<^verbatim>\<open>c\<close> name eight entries and a table of 256 bytes of their own in
  the array at \<^verbatim>\<open>t\<close>, and nothing outside the list has changed.
\<close>

definition headers_set :: "u64 \<Rightarrow> u32 \<Rightarrow> mem \<Rightarrow> mem \<Rightarrow> bool" where
  "headers_set c t m m' \<longleftrightarrow>
     (\<forall>i<32. get_prdtl (c + of_nat i * 32) m' = 8 \<and> get_ctba (c + of_nat i * 32) m' = t + of_nat i * 256 \<and>
        load32 m' (c + of_nat i * 32 + 12) = 0) \<and>
     (\<forall>x. 1024 \<le> unat (x - c) \<longrightarrow> m' x = m x)"

lemma set_headers_headers: "headers_set c t m (set_headers c t [0..<32] m)"
  unfolding headers_set_def
proof (intro conjI allI impI)
  fix i :: nat assume i: "i < 32"
  let ?h = "c + of_nat i * 32"
  have "set_headers c t [0..<32] m (?h + of_nat q) = one_header ?h (t + of_nat i * 256) m (?h + of_nat q)"
    if "q < 32" for q
    by (rule set_headers_each) (use i that in auto)
  note b = header_bytes [of "set_headers c t [0..<32] m" ?h, OF this, unfolded one_header_inside]
  show "get_prdtl ?h (set_headers c t [0..<32] m) = 8" using b(1) by (simp add: num_prdt_def)
  show "get_ctba ?h (set_headers c t [0..<32] m) = t + of_nat i * 256" by (rule b(2))
  show "load32 (set_headers c t [0..<32] m) (?h + 12) = 0" by (rule b(3))
next
  fix x assume x: "1024 \<le> unat (x - c)"
  have "32 \<le> unat (x - (c + of_nat i * 32))" if "i < 32" for i
  proof -
    have u: "unat (of_nat i * 32 :: u64) = i * 32"
      using unat_of_nat_u64 [of "i * 32"] that by simp
    show ?thesis using unat_beyond [of "of_nat i * 32" x c] u x that by simp
  qed
  then show "set_headers c t [0..<32] m x = m x" by (simp add: set_headers_other)
qed

section \<open>The base addresses\<close>

lemma only_readsD: "only_reads st st' \<Longrightarrow> \<exists>es. st' = st\<lparr>ah_regs := ah_regs st @ map MRead es\<rparr>"
  by (simp add: only_reads_def)

lemma aligned_and_not: "a AND m = 0 \<Longrightarrow> a AND NOT m = a" for a m :: u32
proof -
  assume z: "a AND m = 0"
  have "(a AND m) OR (a AND NOT m) = a" by (rule bit_word_eqI) (auto simp: bit_simps)
  then show ?thesis by (simp add: z)
qed

lemma stop_returned:
  assumes "ahci_stop_command_execution ctl port st = Some st'"
  shows "\<exists>c1 c2 es. ah_regs st' = ah_regs st @ [MRead (port_cmd port), MWrite (port_cmd port) c1,
       MRead (port_cmd port), MWrite (port_cmd port) c2] @ map MRead es \<and>
     ah_mem st' = ah_mem st \<and> \<not> bit c1 0 \<and> \<not> bit c2 4"
proof -
  let ?st1 = "port_cmd_and ctl port (NOT 1) st"
  let ?st2 = "port_cmd_and ctl port (NOT 0x10) ?st1"
  obtain u st3 where w: "wait_stopped ctl port ?st2 = Some (u, st3)" "st' = st3"
    using assms by (auto simp: ahci_stop_command_execution_def Let_def split: bind_splits)
  obtain es where "st3 = ?st2\<lparr>ah_regs := ah_regs ?st2 @ map MRead es\<rparr>"
    using wait_stopped_returned [OF w(1)] by (blast dest: only_readsD)
  moreover have "\<not> bit (c AND NOT 1) 0" "\<not> bit (d AND NOT 0x10) 4" for c d :: u32
    by (simp_all add: bit_simps)
  ultimately show ?thesis using w(2) by (auto simp: port_cmd_and_regs)
qed

lemma start_returned:
  assumes "ahci_start_command_execution ctl port st = Some st'"
  shows "\<exists>es c3 c4. ah_regs st' = ah_regs st @ map MRead es @ [MRead (port_cmd port),
       MWrite (port_cmd port) (c3 OR 4), MRead (port_cmd port), MWrite (port_cmd port) (c4 OR 1)] \<and>
     c3 = ctl (ah_regs st @ map MRead es) (port_cmd port) \<and>
     c4 = ctl (ah_regs st @ map MRead es @ [MRead (port_cmd port), MWrite (port_cmd port) (c3 OR 4)]) (port_cmd port) \<and>
     ah_mem st' = ah_mem st"
proof -
  obtain u st1 where w: "wait_not_running ctl port st = Some (u, st1)"
    and st': "st' = port_cmd_or ctl port 1 (port_cmd_or ctl port 4 st1)"
    using assms by (auto simp: ahci_start_command_execution_def Let_def split: bind_splits)
  obtain es where es: "st1 = st\<lparr>ah_regs := ah_regs st @ map MRead es\<rparr>"
    using wait_not_running_returned [OF w] by (blast dest: only_readsD)
  show ?thesis
    by (rule exI [of _ es]) (simp add: st' port_cmd_or_regs es)
qed


text \<open>
  on a controller whose bit 4 of the command register (enable
  the receiving of FISes) reads back as it was written, \<^verbatim>\<open>ahci_set_base\<close> starts the processing of commands
  with the receiving disabled: \<^verbatim>\<open>4 << 0\<close> sets bit 2, and bit 4 stays clear.
\<close>

theorem ahci_fis_receive_stays_off:
  assumes "ahci_set_base lib ctl port vclb vfb vtab st = Some st'"
    and "\<forall>h v. last_write (port_cmd port) h = Some v \<longrightarrow> bit (ctl h (port_cmd port)) 4 = bit v 4"
  shows "\<exists>v. last_write (port_cmd port) (ah_regs st') = Some v \<and> bit v 0 \<and> \<not> bit v 4"
proof -
  let ?clb = "ucast (virtual_to_physical lib (ucast vclb) st) :: u32"
  let ?fb = "ucast (virtual_to_physical lib (ucast vfb) st) :: u32"
  let ?tab = "ucast (virtual_to_physical lib (ucast vtab) st) :: u32"
  obtain st1 where st1: "ahci_stop_command_execution ctl port st = Some st1"
    using assms(1) by (auto simp: ahci_set_base_def Let_def split: bind_splits)
  let ?st2 = "mmio_write (port_fbu port) 0 (mmio_write (port_fb port) ?fb
     (mmio_write (port_clbu port) 0 (mmio_write (port_clb port) (?clb AND NOT 0x3FF) st1)))"
  let ?st3 = "upd_ah_mem (set_headers (ucast vclb) ?tab [0..<32]) ?st2"
  have st3: "ahci_start_command_execution ctl port ?st3 = Some st'"
    using assms(1) st1 by (auto simp: ahci_set_base_def Let_def)
  obtain c1 c2 es where s: "ah_regs st1 = ah_regs st @ [MRead (port_cmd port), MWrite (port_cmd port) c1,
       MRead (port_cmd port), MWrite (port_cmd port) c2] @ map MRead es" "\<not> bit c2 4"
    using stop_returned [OF st1] by blast
  obtain fs c3 c4 where t: "ah_regs st' = ah_regs ?st3 @ map MRead fs @ [MRead (port_cmd port),
       MWrite (port_cmd port) (c3 OR 4), MRead (port_cmd port), MWrite (port_cmd port) (c4 OR 1)]"
    "c3 = ctl (ah_regs ?st3 @ map MRead fs) (port_cmd port)"
    "c4 = ctl (ah_regs ?st3 @ map MRead fs @ [MRead (port_cmd port), MWrite (port_cmd port) (c3 OR 4)]) (port_cmd port)"
    using start_returned [OF st3] by blast
  have "last_write (port_cmd port) (ah_regs ?st3 @ map MRead fs) = Some c2"
    unfolding last_write_reads by (simp add: last_write_def mmio_write_def s(1) port_offsets)
  then have "\<not> bit c3 4" using assms(2) s(2) by (simp add: t(2))
  moreover have "last_write (port_cmd port) (ah_regs ?st3 @ map MRead fs @
      [MRead (port_cmd port), MWrite (port_cmd port) (c3 OR 4)]) = Some (c3 OR 4)"
    by (simp add: last_write_def)
  then have "bit c4 4 = bit (c3 OR 4) 4" using assms(2) by (simp add: t(3))
  ultimately have "\<not> bit (c4 OR 1) 4" by (simp add: bit_simps)
  moreover have "last_write (port_cmd port) (ah_regs st') = Some (c4 OR 1)"
    unfolding t(1) by (simp add: last_write_def)
  ultimately show ?thesis by (intro exI [of _ "c4 OR 1"]) (simp add: bit_simps)
qed

text \<open>A port whose command register holds what was written, without running state.\<close>

definition plain_port :: controller where
  "plain_port h a = (if a = 0x1118 then (case last_write 0x1118 h of None \<Rightarrow> 0 | Some v \<Rightarrow> v AND 0x1F) else 0)"

lemma plain_port_idle: "plain_port h 0x1118 AND 0x4000 = 0" "plain_port h 0x1118 AND 0x8000 = 0"
  by (simp_all add: plain_port_def and.assoc split: option.split)

lemma plain_port_set_base:
  "\<exists>st'. ahci_set_base example_lib plain_port 0x1100 0x8000 0x8400 0xA000 st = Some st'"
proof -
  have w: "\<exists>y. wait_stopped plain_port 0x1100 x = Some ((), y)" for x
    unfolding wait_stopped_def
    by (subst poll.simps) (simp add: mmio_read_def Let_def port_cmd_def plain_port_idle)
  have v: "\<exists>y. wait_not_running plain_port 0x1100 x = Some ((), y)" for x
    unfolding wait_not_running_def
    by (subst poll.simps) (simp add: mmio_read_def Let_def port_cmd_def plain_port_idle)
  have stop: "\<exists>y. ahci_stop_command_execution plain_port 0x1100 x = Some y" for x
    using w [of "port_cmd_and plain_port 0x1100 (NOT 0x10) (port_cmd_and plain_port 0x1100 (NOT 1) x)"]
    by (auto simp: ahci_stop_command_execution_def Let_def)
  have start: "\<exists>y. ahci_start_command_execution plain_port 0x1100 x = Some y" for x
    using v [of x] by (auto simp: ahci_start_command_execution_def Let_def)
  obtain st1 where "ahci_stop_command_execution plain_port 0x1100 st = Some st1" using stop by blast
  then show ?thesis using start by (simp add: ahci_set_base_def Let_def example_lib_def)
qed


theorem ahci_fis_receive_stays_off_witness:
  "\<forall>st. \<exists>st' v. ahci_set_base example_lib plain_port 0x1100 0x8000 0x8400 0xA000 st = Some st' \<and>
     last_write 0x1118 (ah_regs st') = Some v \<and> \<not> bit v 4"
proof
  fix st
  obtain st' where r: "ahci_set_base example_lib plain_port 0x1100 0x8000 0x8400 0xA000 st = Some st'"
    using plain_port_set_base by blast
  have k: "\<forall>h v. last_write (port_cmd 0x1100) h = Some v \<longrightarrow> bit (plain_port h (port_cmd 0x1100)) 4 = bit v 4"
  proof -
    have m: "(0x1F :: u32) = mask 5" by (simp add: mask_eq_exp_minus_1)
    show ?thesis by (simp add: plain_port_def port_cmd_def m bit_simps del: mask_numeral)
  qed
  show "\<exists>st' v. ahci_set_base example_lib plain_port 0x1100 0x8000 0x8400 0xA000 st = Some st' \<and>
     last_write 0x1118 (ah_regs st') = Some v \<and> \<not> bit v 4"
    using r ahci_fis_receive_stays_off [OF r k] by (auto simp: port_cmd_def)
qed

end
