(* ===== verification/AhciCommand.thy ===== *)
theory AhciCommand
  imports AhciSetup
begin

text \<open>The command that the driver leaves in memory, as the controller reads it.\<close>

section \<open>The data descriptor\<close>

lemma load_store_within:
  assumes "b + n \<le> length bs" "length bs \<le> 4096"
  shows "load_bytes (store_bytes m t bs) (t + of_nat b) n = take n (drop b bs)"
proof (rule nth_equalityI)
  show "length (load_bytes (store_bytes m t bs) (t + of_nat b) n) = length (take n (drop b bs))"
    using assms by simp
next
  fix k assume "k < length (load_bytes (store_bytes m t bs) (t + of_nat b) n)"
  then have k: "k < n" by simp
  then have "store_bytes m t bs (t + of_nat (b + k)) = bs ! (b + k)"
    by (intro store_bytes_at) (use assms in simp_all)
  then show "load_bytes (store_bytes m t bs) (t + of_nat b) n ! k = take n (drop b bs) ! k"
    using k assms by (simp add: add.assoc)
qed

text \<open>A single descriptor in a table that was all zero.\<close>

definition described_data :: "u64 \<Rightarrow> u32 \<Rightarrow> u32 \<Rightarrow> mem \<Rightarrow> mem" where
  "described_data t p n m =
     store32 (store32 m (t + 0x80) p) (t + 0x8C) ((n AND mask 22) OR push_bit 31 1)"

lemma store_bytes_twice:
  "length bs = length cs \<Longrightarrow> store_bytes (store_bytes m a bs) a cs = store_bytes m a cs"
  by (rule ext) (simp add: store_bytes_def)

lemma write_prdt_zeros:
  assumes "load32 (ah_mem st) (t + 0x8C) = 0"
    and "virtual_to_physical lib buffer st = p"
  shows "write_prdt lib t 0 buffer n st = st\<lparr>ah_mem := described_data t (ucast p) n (ah_mem st)\<rparr>"
proof -
  let ?m1 = "store32 (ah_mem st) (t + 0x80) (ucast p)"
  have z: "load32 ?m1 (t + 0x8C) = 0"
    using load_store_offsets [of "0x80" "0x8C" 4 "le_bytes 4 (ucast p :: u32)" "ah_mem st" t] assms(1)
    by (simp add: load32_def store32_def)
  have again: "load32 (store32 m a v) a = v" for m a v
    by (simp add: load32_def store32_def load_store_le of_le_bytes_le_bytes)
  have twice: "store32 (store32 m a v) a w = store32 m a w" for m a v w
    by (simp add: store32_def store_bytes_twice)
  show ?thesis
    by (simp add: write_prdt_def Let_def prdt_entry_def set_dba_def set_dbc_def set_i_def assms(2)
        described_data_def add.assoc z again twice)
qed

section \<open>The command\<close>

lemma write_fis_outside:
  "14 \<le> unat (x - f) \<Longrightarrow> write_fis f w startl starth count m x = m x"
  by (auto simp: write_fis_def Let_def)

text \<open>What the controller reads: the fields of the FIS and of the descriptor.\<close>

definition fis_lba :: "mem \<Rightarrow> u64 \<Rightarrow> u64" where
  "fis_lba m f = of_le_bytes [m (f + 4), m (f + 5), m (f + 6), m (f + 8), m (f + 9), m (f + 10)]"

definition fis_count :: "mem \<Rightarrow> u64 \<Rightarrow> u16" where
  "fis_count m f = of_le_bytes [m (f + 12), m (f + 13)]"

lemma of_le_bytes_take:
  "(of_le_bytes (le_bytes n (w :: 'a::len word)) :: 'b::len word) = ucast (take_bit (8 * n) w)"
proof (rule bit_word_eqI)
  fix k assume k: "k < LENGTH('b)"
  have e: "k mod 8 + 8 * (k div 8) = k" by simp
  have "k div 8 < n \<longleftrightarrow> k < 8 * n" by (simp add: div_less_iff_less_mult mult.commute)
  then show "bit (of_le_bytes (le_bytes n w) :: 'b word) k = bit (ucast (take_bit (8 * n) w) :: 'b word) k"
    using k by (auto simp: bit_of_le_bytes bit_simps e dest: bit_imp_le_length)
qed

lemma of_le_bytes_append:
  "(of_le_bytes (xs @ ys) :: 'a::len word) = of_le_bytes xs OR push_bit (8 * length xs) (of_le_bytes ys)"
proof (induction xs)
  case (Cons x xs)
  then show ?case by (simp add: push_bit_or or.assoc push_bit_push_bit add.commute)
qed simp

lemma write_fis_fields:
  assumes "\<forall>k<0x80. m (t + of_nat k) = 0"
  shows "load_bytes (write_fis t w startl starth count m) t 4 =
       [0x27, 0x80, if w \<noteq> 0 then 0x35 else 0x25, 0]"
    and "fis_lba (write_fis t w startl starth count m) t =
       push_bit 32 (ucast (starth AND 0xFFFF)) OR ucast startl"
    and "fis_count (write_fis t w startl starth count m) t = ucast count"
    and "write_fis t w startl starth count m (t + 7) = 0x40"
proof -
  have z: "m t = 0" "m (t + 1) = 0" "m (t + 3) = 0"
    using assms [rule_format, of 0] assms [rule_format, of 1] assms [rule_format, of 3] by simp_all
  have l: "[0..<4] = [0, 1, 2, 3]" by (simp add: upt_rec)
  show "load_bytes (write_fis t w startl starth count m) t 4 = [0x27, 0x80, if w \<noteq> 0 then 0x35 else 0x25, 0]"
    using z by (simp add: load_bytes_def l write_fis_def Let_def FIS_TYPE_REG_H2D_def
        ATA_CMD_READ_DMA_EX_def ATA_CMD_WRITE_DMA_EX_def)
  show "write_fis t w startl starth count m (t + 7) = 0x40"
    by (simp add: write_fis_def Let_def)
  have u: "[0..<4] = [0, 1, 2, 3]" "[0..<2] = [0, 1 :: nat]" by (simp_all add: upt_rec)
  have low: "(ucast (drop_bit n v AND 0xFF) :: u8) = ucast (drop_bit n v)" for n and v :: u32
  proof -
    have m: "(0xFF :: u32) = mask 8" by (simp add: mask_eq_exp_minus_1)
    show ?thesis unfolding m by (rule bit_word_eqI) (auto simp: bit_simps)
  qed
  have "fis_lba (write_fis t w startl starth count m) t =
      of_le_bytes (le_bytes 4 startl @ le_bytes 2 starth)"
    by (simp add: fis_lba_def write_fis_def Let_def le_bytes_def u)
  also have "\<dots> = push_bit 32 (ucast (starth AND 0xFFFF)) OR ucast startl"
  proof -
    have "take_bit (8 * 4) startl = startl" by (rule take_bit_word_eq_self) simp
    moreover have "take_bit (8 * 2) starth = starth AND 0xFFFF"
      by (simp add: take_bit_eq_mask mask_eq_exp_minus_1)
    ultimately show ?thesis unfolding of_le_bytes_append of_le_bytes_take by (simp add: or.commute)
  qed
  finally show "fis_lba (write_fis t w startl starth count m) t =
      push_bit 32 (ucast (starth AND 0xFFFF)) OR ucast startl" .
  have "fis_count (write_fis t w startl starth count m) t = of_le_bytes (le_bytes 2 count)"
    using low [of 0 count] low [of 8 count]
    by (simp add: fis_count_def write_fis_def Let_def le_bytes_def u)
  also have "\<dots> = ucast count"
    unfolding of_le_bytes_take by (rule bit_word_eqI) (auto simp: bit_simps)
  finally show "fis_count (write_fis t w startl starth count m) t = ucast count" .
qed

text \<open>
  The command table of 144 bytes at \<^verbatim>\<open>t\<close> and the header at \<^verbatim>\<open>h\<close> ask for \<^verbatim>\<open>count\<close> sectors from the
  48-bit address \<^verbatim>\<open>starth:startl\<close>, to or from the physical address \<^verbatim>\<open>p\<close>.
\<close>

definition command_in_memory :: "mem \<Rightarrow> u64 \<Rightarrow> u64 \<Rightarrow> u32 \<Rightarrow> u32 \<Rightarrow> u32 \<Rightarrow> u64 \<Rightarrow> u8 \<Rightarrow> bool" where
  "command_in_memory m h t startl starth count p w \<longleftrightarrow>
     m h AND mask 5 = 5 \<and> bit (m h) 6 = bit w 0 \<and> get_prdtl h m = 1 \<and>
     load_bytes m t 4 = [0x27, 0x80, if w \<noteq> 0 then 0x35 else 0x25, 0] \<and>
     fis_lba m t = push_bit 32 (ucast (starth AND 0xFFFF)) OR ucast startl \<and>
     m (t + 7) = 0x40 \<and> fis_count m t = ucast count \<and>
     load32 m (t + 0x80) = ucast p \<and> load32 m (t + 0x84) = 0 \<and>
     load32 m (t + 0x8C) = (count * 512 - 1) OR push_bit 31 1"

lemma described_data_table:
  assumes "\<And>b n. b + n \<le> 0x90 \<Longrightarrow> load_bytes m (t + of_nat b) n = replicate n 0"
  shows "load32 (described_data t p n m) (t + 0x80) = p"
    and "load32 (described_data t p n m) (t + 0x84) = 0"
    and "load32 (described_data t p n m) (t + 0x8C) = (n AND mask 22) OR push_bit 31 1"
    and "\<forall>k<0x80. described_data t p n m (t + of_nat k) = 0"
    and "0x90 \<le> unat (x - t) \<Longrightarrow> described_data t p n m x = m x"
proof -
  let ?v = "(n AND mask 22) OR push_bit 31 1"
  let ?a = "le_bytes 4 p" and ?b = "le_bytes 4 ?v"
  note far = load_store_offsets [of "0x8C" "0x80" 4 ?b _ t, simplified]
    load_store_offsets [of "0x8C" "0x84" 4 ?b _ t, simplified]
    load_store_offsets [of "0x80" "0x84" 4 ?a _ t, simplified]
  have zero: "load_bytes m (t + 0x84) 4 = replicate 4 0" using assms [of "0x84" 4] by simp
  have z32: "(of_le_bytes (replicate 4 0) :: u32) = 0" by (simp add: numeral_eq_Suc)
  show "load32 (described_data t p n m) (t + 0x80) = p"
    by (simp add: described_data_def load32_def store32_def far load_store_le of_le_bytes_le_bytes)
  show "load32 (described_data t p n m) (t + 0x84) = 0"
    by (simp add: described_data_def load32_def store32_def far zero z32)
  show "load32 (described_data t p n m) (t + 0x8C) = ?v"
    by (simp add: described_data_def load32_def store32_def load_store_le of_le_bytes_le_bytes)
  show "\<forall>k<0x80. described_data t p n m (t + of_nat k) = 0"
  proof (intro allI impI)
    fix k :: nat assume k: "k < 0x80"
    have "load_bytes (described_data t p n m) (t + of_nat k) 1 = load_bytes m (t + of_nat k) 1"
      using load_store_offsets [of "0x8C" k 1 ?b "store32 m (t + 0x80) p" t]
        load_store_offsets [of "0x80" k 1 ?a m t] k
      by (simp add: described_data_def store32_def)
    then show "described_data t p n m (t + of_nat k) = 0"
      using assms [of k 1] k by (simp add: load_bytes_def)
  qed
  show "described_data t p n m x = m x" if x: "0x90 \<le> unat (x - t)"
  proof -
    have "4 \<le> unat (x - (t + 0x80))" "4 \<le> unat (x - (t + 0x8C))"
      using x by (simp_all add: unat_beyond)
    then show ?thesis by (simp add: described_data_def store32_def store_bytes_outside)
  qed
qed

text \<open>The header after its three fields are written.\<close>

definition header_for :: "u64 \<Rightarrow> u8 \<Rightarrow> mem \<Rightarrow> mem" where
  "header_for h w m = set_prdtl h 1 (set_cfl h 5 (set_w h w m))"

lemma header_for_fields:
  "header_for h w m h AND mask 5 = 5" "bit (header_for h w m h) 6 = bit w 0"
  "get_prdtl h (header_for h w m) = 1" "get_ctba h (header_for h w m) = get_ctba h m"
  "32 \<le> unat (x - h) \<Longrightarrow> header_for h w m x = m x"
proof -
  have h: "header_for h w m h = (((m h AND NOT 0x40) OR push_bit 6 (w AND 1)) AND NOT (mask 5)) OR (5 AND mask 5)"
  proof -
    have "store16 m' (h + 2) 1 h = m' h" for m'
      by (simp add: store16_def store_bytes_outside)
    then show ?thesis by (simp add: header_for_def set_prdtl_def set_cfl_def set_w_def)
  qed
  have m: "(0x40 :: u8) = push_bit 6 1" and five: "(5 AND mask 5 :: u8) = 5"
    by (simp_all add: mask_eq_exp_minus_1)
  show "header_for h w m h AND mask 5 = 5"
  proof -
    have "(y AND NOT (mask 5) OR (5 AND mask 5)) AND mask 5 = (5 AND mask 5 :: u8)" for y
      by (rule bit_word_eqI) (auto simp: bit_simps)
    then show ?thesis unfolding h five .
  qed
  show "bit (header_for h w m h) 6 = bit w 0"
    unfolding h m by (simp add: bit_simps mask_eq_exp_minus_1)
  show "get_prdtl h (header_for h w m) = 1"
    by (simp add: header_for_def get_prdtl_def set_prdtl_def load16_def store16_def load_store_le of_le_bytes_le_bytes)
  show "get_ctba h (header_for h w m) = get_ctba h m"
  proof -
    have "load_bytes (m'(h := b)) (h + 8) 4 = load_bytes m' (h + 8) 4" for m' b
    proof -
      have "m'(h := b) = store_bytes m' h [b]"
        by (auto simp: fun_eq_iff store_bytes_def unat_eq_0)
      then show ?thesis using load_store_offsets [of 0 8 4 "[b]" m' h] by simp
    qed
    then show ?thesis
      using load_store_offsets [of 2 8 2 "le_bytes 2 (1 :: u16)"] load_store_offsets [of 2 8 4 "le_bytes 2 (1 :: u16)"]
      by (simp add: header_for_def get_ctba_def set_prdtl_def set_cfl_def set_w_def load32_def store16_def)
  qed
  show "header_for h w m x = m x" if x: "32 \<le> unat (x - h)"
  proof -
    have "2 \<le> unat (x - (h + 2))" using x by (simp add: unat_beyond)
    moreover have "x \<noteq> h" using x by auto
    ultimately show ?thesis using x
      by (simp add: header_for_def set_prdtl_def set_cfl_def set_w_def store16_def store_bytes_outside)
  qed
qed

lemma apart_far: "apart t n h k \<Longrightarrow> i < k \<Longrightarrow> n \<le> unat (h + of_nat i - t)"
proof -
  assume a: "apart t n h k" and i: "i < k"
  then have "unat (h + of_nat i) = unat h + i" by (auto simp: apart_def intro: unat_region_nth)
  then show ?thesis using a i by (auto simp: apart_def region_def unat_sub_if')
qed

lemma one_descriptor:
  fixes count :: u32
  assumes "1 \<le> count" "count \<le> 8"
  shows "(ucast ((count - 1) div 16 + 1) :: u16) = 1"
proof -
  have "unat (count - 1) = unat count - 1" using assms(1) unat_sub_le [of 1 count] by (simp add: word_le_nat_alt)
  moreover have "unat count \<le> 8" using assms(2) by (simp add: word_le_nat_alt)
  ultimately have "unat ((count - 1) div 16) = 0" by (simp add: unat_div_distrib)
  then show ?thesis by (simp add: unat_eq_0)
qed

lemma sector_bytes:
  fixes count :: u32
  assumes "1 \<le> count" "count \<le> 8"
  shows "(count * 512 - 1) AND mask 22 = count * 512 - 1"
proof -
  have c: "1 \<le> unat count" "unat count \<le> 8" using assms by (simp_all add: word_le_nat_alt)
  then have "unat (count * 512) = unat count * 512" by (simp add: unat_word_ariths)
  then have "unat (count * 512 - 1) = unat count * 512 - 1"
    using c unat_sub_le [of 1 "count * 512"] by simp
  then have "unat (count * 512 - 1) < 2 ^ 22" using c by simp
  then have "take_bit 22 (count * 512 - 1) = count * 512 - 1"
    unfolding word_unat_eq_iff unsigned_take_bit_eq by (rule take_bit_nat_eq_self)
  then show ?thesis by (simp only: take_bit_eq_mask)
qed

lemma build_command_eq:
  assumes "1 \<le> count" "count \<le> 8"
    and "\<And>m. physical_to_virtual lib (ucast (get_ctba h (ah_mem st))) (st\<lparr>ah_mem := m\<rparr>) = t"
    and "\<And>m. virtual_to_physical lib buffer (st\<lparr>ah_mem := m\<rparr>) = p"
    and "apart t 0x90 h 32"
  shows "ah_mem (build_command lib h startl starth count buffer w st) =
     write_fis t w startl starth count (described_data t (ucast p) (count * 512 - 1)
       (store_bytes (header_for h w (ah_mem st)) t (replicate 0x90 0)))"
proof -
  let ?m1 = "header_for h w (ah_mem st)" and ?z = "replicate 0x90 0 :: u8 list"
  let ?m2 = "store_bytes ?m1 t ?z"
  have m2: "memset ?m1 t 0 0x90 = ?m2" by (simp add: memset_eq)
  have "get_prdtl h ?m2 = get_prdtl h ?m1"
    by (rule header_bytes(1), rule store_bytes_outside)
      (use apart_far [OF assms(5)] in simp)
  then have one: "get_prdtl h ?m2 = 1" by (simp add: header_for_fields)
  have loop: "prdt_loop lib h t 0 buffer count (st\<lparr>ah_mem := ?m2\<rparr>) = (0, buffer, count, st\<lparr>ah_mem := ?m2\<rparr>)"
    by (subst prdt_loop.simps) (simp add: one)
  have "load_bytes ?m2 (t + 0x8C) 4 = replicate 4 0"
    using load_store_within [of "0x8C" 4 ?z ?m1 t] by simp
  then have "load32 ?m2 (t + 0x8C) = 0" by (simp add: load32_def numeral_eq_Suc)
  then have entry: "write_prdt lib t 0 buffer (count * 512 - 1) (st\<lparr>ah_mem := ?m2\<rparr>) =
      st\<lparr>ah_mem := described_data t (ucast p) (count * 512 - 1) ?m2\<rparr>"
    using write_prdt_zeros [of "st\<lparr>ah_mem := ?m2\<rparr>" t lib buffer p] assms(4) by simp
  have header: "set_prdtl h (ucast ((count - 1) div 16 + 1)) (set_cfl h (20 div 4) (set_w h w (ah_mem st))) = ?m1"
    unfolding one_descriptor [OF assms(1,2)] by (simp add: header_for_def)
  show ?thesis
    using loop entry
    by (simp add: build_command_def Let_def header header_for_fields assms(3) m2 header [simplified])
qed



end
