(* ===== verification/Kmalloc.thy ===== *)
theory Kmalloc
  imports CMemory Prng
begin

text \<open>
  The kernel heap, \<^verbatim>\<open>kmalloc.c\<close>, over byte-addressed memory: a \<^verbatim>\<open>MallocHeader\<close> is 24 bytes at its
  address, read and written field by field.  \<^verbatim>\<open>kheap\<close> holds the globals of the file together with
  the memory, the seed of \<^verbatim>\<open>prng.c\<close> and the state of whatever stands behind \<^verbatim>\<open>ksbrk\<close>, which is a
  parameter of the operations that may extend the heap.  A dereferenced null pointer and a
  failed assertion are \<^term>\<open>None\<close>.
\<close>

section \<open>Headers in memory\<close>

definition IS_FREE :: u8 where "IS_FREE = 1"
definition IS_FINAL :: u8 where "IS_FINAL = 2"
definition NEW_ALLOC_SIZE :: u64 where "NEW_ALLOC_SIZE = 0x40000"
definition MAGIC :: u64 where "MAGIC = 0xdde51ab9410268b1"
definition HEADER :: u64 where "HEADER = 24"

definition hdr_magic :: "mem \<Rightarrow> u64 \<Rightarrow> u64" where "hdr_magic m a = load64 m a"
definition hdr_size :: "mem \<Rightarrow> u64 \<Rightarrow> u32" where "hdr_size m a = load32 m (a + 8)"
definition hdr_flags :: "mem \<Rightarrow> u64 \<Rightarrow> u8" where "hdr_flags m a = m (a + 12)"
definition hdr_n :: "mem \<Rightarrow> u64 \<Rightarrow> u64" where "hdr_n m a = load64 m (a + 16)"

definition set_magic :: "u64 \<Rightarrow> u64 \<Rightarrow> mem \<Rightarrow> mem" where "set_magic a v m = store64 m a v"
definition set_size :: "u64 \<Rightarrow> u32 \<Rightarrow> mem \<Rightarrow> mem" where "set_size a v m = store32 m (a + 8) v"
definition set_flags :: "u64 \<Rightarrow> u8 \<Rightarrow> mem \<Rightarrow> mem" where "set_flags a v m = m(a + 12 := v)"
definition set_n :: "u64 \<Rightarrow> u64 \<Rightarrow> mem \<Rightarrow> mem" where "set_n a v m = store64 m (a + 16) v"

definition is_free :: "u8 \<Rightarrow> bool" where "is_free f \<longleftrightarrow> f AND IS_FREE \<noteq> 0"
definition is_final :: "u8 \<Rightarrow> bool" where "is_final f \<longleftrightarrow> f AND IS_FINAL \<noteq> 0"

section \<open>The operations\<close>

record 'k kheap =
  kmem :: mem
  kseed :: xstate
  kbrk :: 'k
  khead :: u64
  kfinal :: u64
  ktotal :: u32

type_synonym 'k sbrk = "u64 \<Rightarrow> 'k kheap \<Rightarrow> ('k kheap \<times> u64) option"

abbreviation upd_mem :: "(mem \<Rightarrow> mem) \<Rightarrow> 'k kheap \<Rightarrow> 'k kheap" where
  "upd_mem f st \<equiv> st\<lparr>kmem := f (kmem st)\<rparr>"

definition delta_page :: "u64 \<Rightarrow> u64" where
  "delta_page a = 0x1000 - (a mod 0x1000)"

definition kmalloc_init :: "'k sbrk \<Rightarrow> 'k kheap \<Rightarrow> ('k kheap \<times> bool) option" where
  "kmalloc_init ksbrk st = do {
     (st, p) \<leftarrow> ksbrk NEW_ALLOC_SIZE st;
     let st = st\<lparr>khead := p\<rparr>;
     (if p = 0 then Some (st, False)
      else do {
        let st = st\<lparr>ktotal := ktotal st + ucast (NEW_ALLOC_SIZE - HEADER)\<rparr>;
        let st = upd_mem (set_magic p MAGIC) st;
        let st = upd_mem (set_size p (ucast (NEW_ALLOC_SIZE - HEADER))) st;
        let st = upd_mem (set_flags p (IS_FREE OR IS_FINAL)) st;
        let st = upd_mem (set_n p 0) st;
        Some (st\<lparr>kfinal := p\<rparr>, True)
      })
   }"

definition grow_size :: "u64 \<Rightarrow> u64" where
  "grow_size min_desired =
     (let m = min_desired + HEADER;
          a = max m NEW_ALLOC_SIZE;
          a = a + delta_page a
      in a + NEW_ALLOC_SIZE)"

definition add_heap_memory :: "'k sbrk \<Rightarrow> u64 \<Rightarrow> 'k kheap \<Rightarrow> ('k kheap \<times> bool) option" where
  "add_heap_memory ksbrk min_desired st = do {
     let allocation_size = grow_size min_desired;
     (st, p) \<leftarrow> ksbrk allocation_size st;
     (if p = 0 then Some (st, False)
      else do {
        let st = st\<lparr>ktotal := ktotal st + ucast (allocation_size - HEADER)\<rparr>;
        let f = kfinal st;
        c_assert (f \<noteq> 0);
        (if is_free (hdr_flags (kmem st) f) \<and> p = f + HEADER + ucast (hdr_size (kmem st) f)
         then Some (upd_mem (set_size f (hdr_size (kmem st) f + ucast (allocation_size - HEADER))) st, True)
         else do {
           let st = upd_mem (set_size p (ucast (allocation_size - HEADER))) st;
           let st = upd_mem (set_flags p (IS_FREE OR IS_FINAL)) st;
           let st = upd_mem (set_n p 0) st;
           let st = upd_mem (set_magic p MAGIC) st;
           let st = upd_mem (set_n f p) st;
           Some (st\<lparr>kfinal := p\<rparr>, True)
         })
      })
   }"

definition next_header :: "mem \<Rightarrow> u64 \<Rightarrow> u64 option" where
  "next_header m a = do {
     c_assert (hdr_magic m a = MAGIC);
     (if hdr_n m a \<noteq> 0
      then do { c_assert (hdr_magic m (hdr_n m a) = MAGIC); Some (hdr_n m a) }
      else Some 0)
   }"

partial_function (option) scan_loop :: "mem \<Rightarrow> u64 \<Rightarrow> unit option" where
  "scan_loop m p = do {
     p \<leftarrow> next_header m p;
     (if p = 0 then Some () else scan_loop m p)
   }"

definition kmalloc_scan :: "'k kheap \<Rightarrow> unit option" where
  "kmalloc_scan st = (if khead st = 0 then Some () else scan_loop (kmem st) (khead st))"

definition next_close_header :: "mem \<Rightarrow> u64 \<Rightarrow> u64 option" where
  "next_close_header m a = do {
     c_assert (a \<noteq> 0);
     (if is_final (hdr_flags m a) then Some 0 else next_header m a)
   }"

definition merge_headers :: "u64 \<Rightarrow> 'k kheap \<Rightarrow> ('k kheap \<times> bool) option" where
  "merge_headers b st =
     (if \<not> is_free (hdr_flags (kmem st) b) then Some (st, False)
      else do {
        n \<leftarrow> next_close_header (kmem st) b;
        (if n = 0 then Some (st, False)
         else if \<not> is_free (hdr_flags (kmem st) n) then Some (st, False)
         else do {
           let st = upd_mem (\<lambda>m. set_size b (hdr_size m b + hdr_size m n) m) st;
           let st = upd_mem (\<lambda>m. set_flags b (hdr_flags m b OR (hdr_flags m n AND IS_FINAL)) m) st;
           let st = upd_mem (\<lambda>m. set_n b (hdr_n m n) m) st;
           Some (if n = kfinal st then st\<lparr>kfinal := b\<rparr> else st, True)
         })
      })"

partial_function (option) merge_all :: "u64 \<Rightarrow> 'k kheap \<Rightarrow> 'k kheap option" where
  "merge_all p st = do {
     (st, more) \<leftarrow> merge_headers p st;
     (if more then merge_all p st else Some st)
   }"

partial_function (option) find_loop :: "u64 \<Rightarrow> u64 \<Rightarrow> 'k kheap \<Rightarrow> ('k kheap \<times> u64) option" where
  "find_loop required_size p st =
     (if p = 0 then Some (st, 0)
      else do {
        c_assert (hdr_magic (kmem st) p = MAGIC);
        (if \<not> is_free (hdr_flags (kmem st) p)
         then do { p \<leftarrow> next_header (kmem st) p; find_loop required_size p st }
         else if ucast (hdr_size (kmem st) p) < required_size
         then do {
           st \<leftarrow> merge_all p st;
           (if ucast (hdr_size (kmem st) p) \<ge> required_size then Some (st, p)
            else do { p \<leftarrow> next_header (kmem st) p; find_loop required_size p st })
         }
         else Some (st, p))
      })"

definition find_free_entry :: "'k sbrk \<Rightarrow> u32 \<Rightarrow> 'k kheap \<Rightarrow> ('k kheap \<times> u64) option" where
  "find_free_entry ksbrk s st = do {
     let s = s + ucast HEADER;
     (st, ok) \<leftarrow> (if khead st = 0 then kmalloc_init ksbrk st else Some (st, True));
     (if ok then find_loop (ucast s) (khead st) st else Some (st, 0))
   }"

text \<open>The rest of \<^verbatim>\<open>int_kmalloc\<close> once an entry is found: cut the block off its front.\<close>

definition carve :: "u64 \<Rightarrow> u64 \<Rightarrow> 'k kheap \<Rightarrow> ('k kheap \<times> u64) option" where
  "carve free_entry n st = do {
     let rc = free_entry + HEADER;
     let new_entry = rc + n;
     let st = upd_mem (\<lambda>m. set_flags new_entry (hdr_flags m free_entry) m) st;
     let st = upd_mem (\<lambda>m. set_n new_entry (hdr_n m free_entry) m) st;
     let st = upd_mem (\<lambda>m. set_size new_entry (hdr_size m free_entry - ucast n - ucast HEADER) m) st;
     let st = upd_mem (set_magic new_entry MAGIC) st;
     let st = (if free_entry = kfinal st then st\<lparr>kfinal := new_entry\<rparr> else st);
     (st, _) \<leftarrow> merge_headers new_entry st;
     let st = upd_mem (set_size free_entry (ucast n)) st;
     let st = upd_mem (set_flags free_entry 0) st;
     let st = upd_mem (set_n free_entry new_entry) st;
     let st = upd_mem (set_magic free_entry MAGIC) st;
     Some (st, rc)
   }"

definition fill_random :: "u64 \<Rightarrow> u64 \<Rightarrow> 'k kheap \<Rightarrow> 'k kheap" where
  "fill_random p n st =
     (let (seed, out) = prng_get_pseudorandom (kseed st) n
      in st\<lparr>kmem := store_bytes (kmem st) p out, kseed := seed\<rparr>)"

text \<open>
  \<^verbatim>\<open>int_kmalloc\<close> and \<^verbatim>\<open>kmalloc\<close> call each other when the heap has to grow; \<^verbatim>\<open>kmalloc\<close>'s tail
  (\<^verbatim>\<open>finish_kmalloc\<close>) is inlined at that call.
\<close>

definition finish_kmalloc :: "u64 \<Rightarrow> 'k kheap \<times> u64 \<Rightarrow> 'k kheap \<times> u64" where
  "finish_kmalloc s r = (case r of (st, rc) \<Rightarrow>
     if rc = 0 then (st, 0) else (fill_random rc s st, rc))"

partial_function (option) int_kmalloc :: "'k sbrk \<Rightarrow> u64 \<Rightarrow> 'k kheap \<Rightarrow> ('k kheap \<times> u64) option" where
  "int_kmalloc ksbrk s st = do {
     (st, free_entry) \<leftarrow> find_free_entry ksbrk (ucast s) st;
     (if free_entry = 0
      then do {
        (st, ok) \<leftarrow> add_heap_memory ksbrk s st;
        (if \<not> ok then Some (st, 0)
         else do { r \<leftarrow> int_kmalloc ksbrk s st; Some (finish_kmalloc s r) })
      }
      else carve free_entry s st)
   }"

definition kmalloc :: "'k sbrk \<Rightarrow> u64 \<Rightarrow> 'k kheap \<Rightarrow> ('k kheap \<times> u64) option" where
  "kmalloc ksbrk s st = do {
     r \<leftarrow> int_kmalloc ksbrk s st;
     Some (finish_kmalloc s r)
   }"

definition kfree :: "u64 \<Rightarrow> 'k kheap \<Rightarrow> 'k kheap option" where
  "kfree p st =
     (if p = 0 then Some st
      else do {
        let h = p - HEADER;
        c_assert (hdr_magic (kmem st) h = MAGIC);
        c_assert (\<not> is_free (hdr_flags (kmem st) h));
        let st = fill_random p (ucast (hdr_size (kmem st) h)) st;
        let st = upd_mem (\<lambda>m. set_flags h (hdr_flags m h OR IS_FREE) m) st;
        (st, _) \<leftarrow> merge_headers h st;
        Some st
      })"

definition get_mem_size :: "u64 \<Rightarrow> 'k kheap \<Rightarrow> u64" where
  "get_mem_size p st = (if p = 0 then 0 else ucast (hdr_size (kmem st) (p - HEADER)))"

definition krealloc :: "'k sbrk \<Rightarrow> u64 \<Rightarrow> u64 \<Rightarrow> 'k kheap \<Rightarrow> ('k kheap \<times> u64) option" where
  "krealloc ksbrk p n st =
     (if p = 0 then kmalloc ksbrk n st
      else (let l = get_mem_size p st in
        if l = n then Some (st, p)
        else if l > n then Some (upd_mem (set_size (p - HEADER) (ucast n)) st, p)
        else do {
          (st, rc) \<leftarrow> kmalloc ksbrk n st;
          (if rc = 0 then Some (st, 0)
           else do {
             let st = upd_mem (\<lambda>m. memcpy m rc p (min l n)) st;
             st \<leftarrow> kfree p st;
             Some (st, rc)
           })
        }))"

definition mul_overflows :: "u64 \<Rightarrow> u64 \<Rightarrow> bool" where
  "mul_overflows nmemb n \<longleftrightarrow>
     (nmemb \<ge> push_bit 32 1 \<or> n \<ge> push_bit 32 1) \<and> nmemb > 0 \<and> 0xFFFFFFFFFFFFFFFF div nmemb < n"

definition kreallocarray :: "'k sbrk \<Rightarrow> u64 \<Rightarrow> u64 \<Rightarrow> u64 \<Rightarrow> 'k kheap \<Rightarrow> ('k kheap \<times> u64) option" where
  "kreallocarray ksbrk p nmemb n st =
     (if mul_overflows nmemb n then Some (st, 0) else krealloc ksbrk p (nmemb * n) st)"

definition kallocarray :: "'k sbrk \<Rightarrow> u64 \<Rightarrow> u64 \<Rightarrow> 'k kheap \<Rightarrow> ('k kheap \<times> u64) option" where
  "kallocarray ksbrk nmemb n st = kreallocarray ksbrk 0 nmemb n st"

definition kcalloc :: "'k sbrk \<Rightarrow> u64 \<Rightarrow> u64 \<Rightarrow> 'k kheap \<Rightarrow> ('k kheap \<times> u64) option" where
  "kcalloc ksbrk nelem elsize st =
     (if mul_overflows nelem elsize then Some (st, 0)
      else do {
        (st, rc) \<leftarrow> int_kmalloc ksbrk (nelem * elsize) st;
        (if rc = 0 then Some (st, 0)
         else Some (upd_mem (\<lambda>m. memset m rc 0 (nelem * elsize)) st, rc))
      })"

definition krecalloc :: "'k sbrk \<Rightarrow> u64 \<Rightarrow> u64 \<Rightarrow> u64 \<Rightarrow> 'k kheap \<Rightarrow> ('k kheap \<times> u64) option" where
  "krecalloc ksbrk p nelem elsize st =
     (if mul_overflows nelem elsize then Some (st, 0)
      else if p = 0 then kcalloc ksbrk nelem elsize st
      else do {
        let new_size = nelem * elsize;
        (st, rc) \<leftarrow> int_kmalloc ksbrk new_size st;
        (if rc = 0 then Some (st, 0)
         else do {
           let to_copy = min (get_mem_size p st) new_size;
           let st = upd_mem (\<lambda>m. memset m rc 0 new_size) st;
           let st = upd_mem (\<lambda>m. memcpy m rc p to_copy) st;
           st \<leftarrow> kfree p st;
           Some (st, rc)
         })
      })"

section \<open>Fields of a header\<close>

text \<open>
  \<^verbatim>\<open>same_outside S m m'\<close>: the memories agree except at the addresses in \<^verbatim>\<open>S\<close>; spans of addresses
  are sets of natural numbers.
\<close>

definition same_outside :: "nat set \<Rightarrow> mem \<Rightarrow> mem \<Rightarrow> bool" where
  "same_outside S m m' \<longleftrightarrow> (\<forall>x. unat x \<notin> S \<longrightarrow> m' x = m x)"

abbreviation span :: "u64 \<Rightarrow> nat \<Rightarrow> nat set" where
  "span a n \<equiv> {unat a..<unat a + n}"

lemma same_outside_refl [simp]: "same_outside S m m"
  by (simp add: same_outside_def)

lemma same_outside_trans:
  "same_outside S m m' \<Longrightarrow> same_outside T m' m'' \<Longrightarrow> S \<union> T \<subseteq> U \<Longrightarrow> same_outside U m m''"
  unfolding same_outside_def by (metis UnCI subset_iff)

lemma same_outside_mono: "same_outside S m m' \<Longrightarrow> S \<subseteq> T \<Longrightarrow> same_outside T m m'"
  by (auto simp: same_outside_def)

lemma same_outside_store:
  assumes "region a (length bs)"
  shows "same_outside (span a (length bs)) m (store_bytes m a bs)"
  unfolding same_outside_def
proof (intro allI impI)
  fix x :: u64
  assume "unat x \<notin> span a (length bs)"
  then have "\<not> unat (x - a) < length bs"
    using assms by (auto simp: region_def unat_sub_if')
  then show "store_bytes m a bs x = m x" by (simp add: store_bytes_def)
qed

lemma load_same_outside:
  assumes "same_outside S m m'" and "region a n" and "S \<inter> span a n = {}"
  shows "load_bytes m' a n = load_bytes m a n"
proof (rule nth_equalityI)
  fix i
  assume "i < length (load_bytes m' a n)"
  then have i: "i < n" by simp
  have "unat (a + of_nat i) = unat a + i" using assms(2) i by (rule unat_region_nth)
  then have "unat (a + of_nat i) \<notin> S" using assms(3) i by auto
  then show "load_bytes m' a n ! i = load_bytes m a n ! i"
    using assms(1) i by (simp add: same_outside_def)
qed simp

definition hdr :: "mem \<Rightarrow> u64 \<Rightarrow> u64 \<times> u32 \<times> u8 \<times> u64" where
  "hdr m a = (hdr_magic m a, hdr_size m a, hdr_flags m a, hdr_n m a)"

lemma unat_field:
  assumes "region a 24" and "k < 24"
  shows "unat (a + of_nat k) = unat a + k"
  using assms by (rule unat_region_nth)

lemma hdr_load:
  "hdr m a = (of_le_bytes (load_bytes m a 8), of_le_bytes (load_bytes m (a + 8) 4),
     load_bytes m (a + 12) 1 ! 0, of_le_bytes (load_bytes m (a + 16) 8))"
  by (simp add: hdr_def hdr_magic_def hdr_size_def hdr_flags_def hdr_n_def load64_def load32_def)

lemma field_regions:
  assumes "region a 24"
  shows "region a 8" "region (a + 8) 4" "region (a + 12) 1" "region (a + 16) 8"
    "unat (a + 8) = unat a + 8" "unat (a + 12) = unat a + 12" "unat (a + 16) = unat a + 16"
  using assms unat_field [OF assms, of 8] unat_field [OF assms, of 12] unat_field [OF assms, of 16]
  by (simp_all add: region_def)

lemma hdr_same_outside:
  assumes "same_outside S m m'" and "region a 24" and "S \<inter> span a 24 = {}"
  shows "hdr m' a = hdr m a"
proof -
  note r = field_regions [OF assms(2)]
  have "S \<inter> span a 8 = {}" "S \<inter> span (a + 8) 4 = {}" "S \<inter> span (a + 12) 1 = {}"
    "S \<inter> span (a + 16) 8 = {}"
    using assms(3) r(5-7) by auto
  then show ?thesis
    unfolding hdr_load using r(1-4) by (simp only: load_same_outside [OF assms(1)])
qed

lemma hdr_set:
  assumes "region a 24"
  shows "hdr (set_magic a v m) a = (v, hdr_size m a, hdr_flags m a, hdr_n m a)"
    and "hdr (set_size a w m) a = (hdr_magic m a, w, hdr_flags m a, hdr_n m a)"
    and "hdr (set_flags a f m) a = (hdr_magic m a, hdr_size m a, f, hdr_n m a)"
    and "hdr (set_n a q m) a = (hdr_magic m a, hdr_size m a, hdr_flags m a, q)"
proof -
  note r = field_regions [OF assms]
  have f: "set_flags a f m = store_bytes m (a + 12) [f]"
    by (auto simp: set_flags_def store_bytes_def fun_eq_iff unat_eq_0)
  show "hdr (set_magic a v m) a = (v, hdr_size m a, hdr_flags m a, hdr_n m a)"
    using r unfolding hdr_load hdr_size_def hdr_flags_def hdr_n_def load64_def load32_def set_magic_def store64_def
    by (simp add: load_store_same load_store_apart apart_def byte_simps del: nth_load_bytes) simp
  show "hdr (set_size a w m) a = (hdr_magic m a, w, hdr_flags m a, hdr_n m a)"
    using r unfolding hdr_load hdr_magic_def hdr_flags_def hdr_n_def load64_def load32_def set_size_def store32_def
    by (simp add: load_store_same load_store_apart apart_def byte_simps del: nth_load_bytes) simp
  show "hdr (set_flags a f m) a = (hdr_magic m a, hdr_size m a, f, hdr_n m a)"
    using r unfolding hdr_load hdr_magic_def hdr_size_def hdr_n_def load64_def load32_def f
    by (simp add: load_store_same load_store_apart apart_def byte_simps del: nth_load_bytes)
  show "hdr (set_n a q m) a = (hdr_magic m a, hdr_size m a, hdr_flags m a, q)"
    using r unfolding hdr_load hdr_magic_def hdr_size_def hdr_flags_def load64_def set_n_def store64_def load32_def
    by (simp add: load_store_same load_store_apart apart_def byte_simps del: nth_load_bytes) simp
qed

lemma set_same_outside:
  assumes "region a 24"
  shows "same_outside (span a 24) m (set_magic a v m)"
    and "same_outside (span a 24) m (set_size a w m)"
    and "same_outside (span a 24) m (set_flags a f m)"
    and "same_outside (span a 24) m (set_n a q m)"
proof -
  note r = field_regions [OF assms]
  show "same_outside (span a 24) m (set_magic a v m)"
    using same_outside_store [of a "le_bytes 8 v" m] r
    by (auto simp: set_magic_def store64_def elim!: same_outside_mono)
  show "same_outside (span a 24) m (set_size a w m)"
    using same_outside_store [of "a + 8" "le_bytes 4 w" m] r
    by (auto simp: set_size_def store32_def elim!: same_outside_mono)
  show "same_outside (span a 24) m (set_flags a f m)"
    using r by (auto simp: set_flags_def same_outside_def)
  show "same_outside (span a 24) m (set_n a q m)"
    using same_outside_store [of "a + 16" "le_bytes 8 q" m] r
    by (auto simp: set_n_def store64_def elim!: same_outside_mono)
qed

lemma hdr_fields:
  "hdr m a = (g, s, f, n) \<Longrightarrow> hdr_magic m a = g"
  "hdr m a = (g, s, f, n) \<Longrightarrow> hdr_size m a = s"
  "hdr m a = (g, s, f, n) \<Longrightarrow> hdr_flags m a = f"
  "hdr m a = (g, s, f, n) \<Longrightarrow> hdr_n m a = n"
  by (simp_all add: hdr_def)

lemmas field_set =
  hdr_set(1) [THEN hdr_fields(1)] hdr_set(1) [THEN hdr_fields(2)]
  hdr_set(1) [THEN hdr_fields(3)] hdr_set(1) [THEN hdr_fields(4)]
  hdr_set(2) [THEN hdr_fields(1)] hdr_set(2) [THEN hdr_fields(2)]
  hdr_set(2) [THEN hdr_fields(3)] hdr_set(2) [THEN hdr_fields(4)]
  hdr_set(3) [THEN hdr_fields(1)] hdr_set(3) [THEN hdr_fields(2)]
  hdr_set(3) [THEN hdr_fields(3)] hdr_set(3) [THEN hdr_fields(4)]
  hdr_set(4) [THEN hdr_fields(1)] hdr_set(4) [THEN hdr_fields(2)]
  hdr_set(4) [THEN hdr_fields(3)] hdr_set(4) [THEN hdr_fields(4)]

text \<open>A whole header written field by field, in the two orders that the allocator uses.\<close>

lemma set_same_outside_trans:
  assumes "region a 24" and "same_outside (span a 24) m m'"
  shows "same_outside (span a 24) m (set_magic a v m')"
    and "same_outside (span a 24) m (set_size a w m')"
    and "same_outside (span a 24) m (set_flags a f m')"
    and "same_outside (span a 24) m (set_n a q m')"
  using set_same_outside [OF assms(1), where m = m'] same_outside_trans [OF assms(2)] by blast+

section \<open>The chain of chunks\<close>

text \<open>
  A chunk is a header with its block; \<^verbatim>\<open>c_end\<close> is the end of the address range that belongs to it.
  The range may be longer than header and block: merging two chunks adds their block sizes and
  so leaves the second header unused, and \<^verbatim>\<open>krealloc\<close> shrinks in place.  \<^verbatim>\<open>chain_ok m cs\<close>: the
  headers of \<^verbatim>\<open>cs\<close> are in memory and linked in this order; a chunk that is not marked final ends
  where the next one begins; no two ranges overlap.
\<close>

record chunk =
  c_addr :: u64
  c_size :: u32
  c_flags :: u8
  c_end :: nat

definition extent :: "chunk \<Rightarrow> nat set" where
  "extent c = {unat (c_addr c)..<c_end c}"

definition extents :: "chunk list \<Rightarrow> nat set" where
  "extents cs = (\<Union>c \<in> set cs. extent c)"

definition chunk_wf :: "chunk \<Rightarrow> bool" where
  "chunk_wf c \<longleftrightarrow> c_addr c \<noteq> 0 \<and> unat (c_addr c) + 24 + unat (c_size c) \<le> c_end c \<and> c_end c < 2 ^ 64"

definition start :: "chunk list \<Rightarrow> u64" where
  "start cs = (case cs of [] \<Rightarrow> 0 | c # _ \<Rightarrow> c_addr c)"

fun linked :: "mem \<Rightarrow> chunk list \<Rightarrow> bool" where
  "linked m [] \<longleftrightarrow> True"
| "linked m (c # cs) \<longleftrightarrow> hdr m (c_addr c) = (MAGIC, c_size c, c_flags c, start cs) \<and> linked m cs"

fun adjoining :: "chunk list \<Rightarrow> bool" where
  "adjoining [] \<longleftrightarrow> True"
| "adjoining [c] \<longleftrightarrow> is_final (c_flags c)"
| "adjoining (b # c # cs) \<longleftrightarrow>
     (is_final (c_flags b) \<or> c_end b = unat (c_addr c)) \<and> adjoining (c # cs)"

definition separate :: "chunk list \<Rightarrow> bool" where
  "separate cs \<longleftrightarrow> sorted_wrt (\<lambda>b c. extent b \<inter> extent c = {}) cs"

definition chain_ok :: "mem \<Rightarrow> chunk list \<Rightarrow> bool" where
  "chain_ok m cs \<longleftrightarrow> linked m cs \<and> adjoining cs \<and> separate cs \<and> list_all chunk_wf cs"

lemma start_simps [simp]: "start [] = 0" "start (c # cs) = c_addr c"
  by (simp_all add: start_def)

lemma start_append: "start (xs @ ys) = (if xs = [] then start ys else start xs)"
  by (cases xs) simp_all

lemma extents_simps [simp]:
  "extents [] = {}" "extents (c # cs) = extent c \<union> extents cs" "extents (xs @ ys) = extents xs \<union> extents ys"
  by (auto simp: extents_def)

lemma chunk_wf_region: "chunk_wf c \<Longrightarrow> region (c_addr c) 24"
  by (simp add: chunk_wf_def region_def)

lemma chunk_wf_span: "chunk_wf c \<Longrightarrow> span (c_addr c) 24 \<subseteq> extent c"
  by (auto simp: chunk_wf_def extent_def)

lemma separate_append:
  "separate (xs @ ys) \<longleftrightarrow> separate xs \<and> separate ys \<and> extents xs \<inter> extents ys = {}"
  by (auto simp: separate_def sorted_wrt_append extents_def)

lemma separate_Cons: "separate (c # cs) \<longleftrightarrow> extent c \<inter> extents cs = {} \<and> separate cs"
  by (auto simp: separate_def extents_def)

lemma separate_Nil [simp]: "separate []"
  by (simp add: separate_def)

lemma linked_same_outside:
  assumes "same_outside S m m'" and "S \<inter> extents cs = {}" and "list_all chunk_wf cs"
  shows "linked m' cs \<longleftrightarrow> linked m cs"
  using assms(2,3)
proof (induction cs)
  case Nil
  then show ?case by simp
next
  case (Cons c cs)
  have "S \<inter> span (c_addr c) 24 = {}"
    using Cons.prems chunk_wf_span [of c] by auto
  then have "hdr m' (c_addr c) = hdr m (c_addr c)"
    using assms(1) Cons.prems(2) by (intro hdr_same_outside) (simp_all add: chunk_wf_region)
  then show ?case using Cons by auto
qed

lemma linked_append:
  "ys \<noteq> [] \<Longrightarrow> linked m (xs @ ys) \<Longrightarrow> linked m ys"
  by (induction xs) simp_all

lemma linked_replace:
  assumes "linked m (xs @ ys)" and "start ys' = start ys" and "linked m' ys'"
    and "same_outside S m m'" and "S \<inter> extents xs = {}" and "list_all chunk_wf xs"
    and "ys \<noteq> []" and "ys' \<noteq> []"
  shows "linked m' (xs @ ys')"
  using assms(1,5,6)
proof (induction xs)
  case Nil
  then show ?case using assms(3) by simp
next
  case (Cons c xs)
  have "S \<inter> span (c_addr c) 24 = {}"
    using Cons.prems chunk_wf_span [of c] by auto
  then have "hdr m' (c_addr c) = hdr m (c_addr c)"
    using assms(4) Cons.prems(3) by (intro hdr_same_outside) (simp_all add: chunk_wf_region)
  moreover have "start (xs @ ys') = start (xs @ ys)" using assms(2) by (simp add: start_append)
  ultimately show ?case using Cons by auto
qed

lemma adjoining_append: "adjoining (xs @ ys) \<Longrightarrow> adjoining ys"
proof (induction xs)
  case (Cons c xs)
  then show ?case by (cases "xs @ ys") auto
qed simp

lemma adjoining_replace:
  assumes "adjoining (xs @ ys)" and "adjoining ys'" and "start ys' = start ys"
    and "ys \<noteq> []" and "ys' \<noteq> []"
  shows "adjoining (xs @ ys')"
  using assms(1)
proof (induction xs)
  case Nil
  then show ?case using assms(2) by simp
next
  case (Cons c xs)
  obtain d ds where ys: "xs @ ys = d # ds" using assms(4) by (cases "xs @ ys") auto
  obtain d' ds' where ys': "xs @ ys' = d' # ds'" using assms(5) by (cases "xs @ ys'") auto
  have "c_addr d' = c_addr d"
    using ys ys' assms(3-5) by (cases xs; cases ys; cases ys') auto
  then show ?case using Cons ys ys' by simp
qed

lemma chain_ok_append: "chain_ok m (xs @ ys) \<Longrightarrow> chain_ok m ys"
  by (cases "ys = []")
    (auto simp: chain_ok_def separate_append intro: linked_append adjoining_append)

lemma chain_ok_replace:
  assumes "chain_ok m (xs @ ys)" and "chain_ok m' ys'" and "start ys' = start ys"
    and "ys \<noteq> []" and "ys' \<noteq> []" and "same_outside S m m'" and "S \<inter> extents xs = {}"
    and "extents ys' \<inter> extents xs = {}"
  shows "chain_ok m' (xs @ ys')"
proof -
  have "linked m' (xs @ ys')"
    using assms by (intro linked_replace [of m xs ys ys' m' S]) (simp_all add: chain_ok_def)
  moreover have "adjoining (xs @ ys')"
    using assms by (intro adjoining_replace [of xs ys ys']) (simp_all add: chain_ok_def)
  ultimately show ?thesis using assms by (auto simp: chain_ok_def separate_append)
qed

lemma chain_addr_distinct:
  assumes "chain_ok m (xs @ c # ys)" and "d \<in> set xs \<union> set ys"
  shows "c_addr d \<noteq> c_addr c"
proof -
  have "chunk_wf c" "chunk_wf d" using assms by (auto simp: chain_ok_def list_all_iff)
  then have "unat (c_addr c) \<in> extent c" "unat (c_addr d) \<in> extent d"
    by (auto simp: chunk_wf_def extent_def)
  moreover have "extent c \<inter> extent d = {}"
    using assms by (auto simp: chain_ok_def separate_append separate_Cons extents_def)
  ultimately show ?thesis by auto
qed

section \<open>Walking and merging\<close>

lemma chain_hdr:
  assumes "chain_ok m (c # cs)"
  shows "hdr_magic m (c_addr c) = MAGIC" "hdr_size m (c_addr c) = c_size c"
    "hdr_flags m (c_addr c) = c_flags c" "hdr_n m (c_addr c) = start cs"
  using assms by (auto simp: chain_ok_def dest: hdr_fields)

lemma chain_wf: "chain_ok m (c # cs) \<Longrightarrow> chunk_wf c"
  by (simp add: chain_ok_def)

lemma chain_tail: "chain_ok m (c # cs) \<Longrightarrow> chain_ok m cs"
  using chain_ok_append [of m "[c]" cs] by simp

lemma next_header_eq:
  assumes "chain_ok m (c # cs)"
  shows "next_header m (c_addr c) = Some (start cs)"
proof (cases cs)
  case Nil
  then show ?thesis using chain_hdr [OF assms] by (simp add: next_header_def)
next
  case (Cons d ds)
  then have "hdr_magic m (c_addr d) = MAGIC" "c_addr d \<noteq> 0"
    using chain_hdr(1) [of m d ds] chain_wf [of m d ds] chain_tail [OF assms]
    by (simp_all add: chunk_wf_def)
  then show ?thesis using chain_hdr [OF assms] Cons by (simp add: next_header_def)
qed

definition join :: "chunk \<Rightarrow> chunk \<Rightarrow> chunk" where
  "join b n = b\<lparr>c_size := c_size b + c_size n, c_flags := c_flags b OR (c_flags n AND IS_FINAL),
                c_end := c_end n\<rparr>"

definition mergeable :: "chunk list \<Rightarrow> bool" where
  "mergeable cs = (case cs of b # n # _ \<Rightarrow>
     is_free (c_flags b) \<and> \<not> is_final (c_flags b) \<and> is_free (c_flags n) | _ \<Rightarrow> False)"

lemma is_free_bit: "is_free f \<longleftrightarrow> bit f 0"
  by (simp add: is_free_def IS_FREE_def bit_iff_and_push_bit_not_eq_0)

lemma is_final_bit: "is_final f \<longleftrightarrow> bit f 1"
  by (simp add: is_final_def IS_FINAL_def bit_iff_and_push_bit_not_eq_0)

lemma final_join: "is_final (c_flags (join b n)) \<longleftrightarrow> is_final (c_flags b) \<or> is_final (c_flags n)"
  by (simp add: join_def is_final_bit IS_FINAL_def bit_simps)

lemma free_join: "is_free (c_flags (join b n)) \<longleftrightarrow> is_free (c_flags b)"
  by (simp add: join_def is_free_bit IS_FINAL_def bit_simps)

text \<open>Joining the two headers in memory, as \<^verbatim>\<open>merge_headers\<close> does it.\<close>

definition join_mem :: "u64 \<Rightarrow> u64 \<Rightarrow> mem \<Rightarrow> mem" where
  "join_mem b n m =
     (let m = set_size b (hdr_size m b + hdr_size m n) m;
          m = set_flags b (hdr_flags m b OR (hdr_flags m n AND IS_FINAL)) m
      in set_n b (hdr_n m n) m)"

lemma join_mem_same_outside:
  "region b 24 \<Longrightarrow> same_outside (span b 24) m (join_mem b n m)"
  unfolding join_mem_def Let_def
  by (intro same_outside_trans [OF same_outside_trans [OF set_same_outside(2) set_same_outside(3)]
        set_same_outside(4)] subset_refl) auto

lemma join_mem_hdr:
  assumes "region b 24" and "region n 24" and "span b 24 \<inter> span n 24 = {}"
  shows "hdr (join_mem b n m) b =
    (hdr_magic m b, hdr_size m b + hdr_size m n, hdr_flags m b OR (hdr_flags m n AND IS_FINAL), hdr_n m n)"
proof -
  let ?m1 = "set_size b (hdr_size m b + hdr_size m n) m"
  let ?m2 = "set_flags b (hdr_flags ?m1 b OR (hdr_flags ?m1 n AND IS_FINAL)) ?m1"
  have n1: "hdr ?m1 n = hdr m n"
    by (rule hdr_same_outside [OF set_same_outside(2) [OF assms(1)] assms(2,3)])
  have n2: "hdr ?m2 n = hdr ?m1 n"
    by (rule hdr_same_outside [OF set_same_outside(3) [OF assms(1)] assms(2,3)])
  note b1 = hdr_set(2) [OF assms(1), of "hdr_size m b + hdr_size m n" m]
  note b2 = hdr_set(3) [OF assms(1), of "hdr_flags ?m1 b OR (hdr_flags ?m1 n AND IS_FINAL)" ?m1]
  show ?thesis
    using n1 n2 b1 b2 hdr_set(4) [OF assms(1), of "hdr_n ?m2 n" ?m2]
    by (simp add: join_mem_def Let_def hdr_def)
qed

lemma chain_join:
  assumes chain: "chain_ok m (b # n # cs)" and nf: "\<not> is_final (c_flags b)"
  shows "chain_ok (join_mem (c_addr b) (c_addr n) m) (join b n # cs)"
    and "extent (join b n) = extent b \<union> extent n"
    and "unat (c_size (join b n)) \<le> unat (c_size b) + unat (c_size n)"
    and "c_end (join b n) - unat (c_addr b) =
       (c_end b - unat (c_addr b)) + (c_end n - unat (c_addr n))"
proof -
  have wf: "chunk_wf b" "chunk_wf n" and end_b: "c_end b = unat (c_addr n)"
    using chain nf by (auto simp: chain_ok_def)
  have disj: "extent b \<inter> extent n = {}" "(extent b \<union> extent n) \<inter> extents cs = {}"
    using chain by (auto simp: chain_ok_def separate_Cons)
  show size: "unat (c_size (join b n)) \<le> unat (c_size b) + unat (c_size n)"
    by (simp add: join_def unat_word_ariths)
  have wf': "chunk_wf (join b n)"
    using wf size end_b by (simp add: chunk_wf_def join_def)
  show ext: "extent (join b n) = extent b \<union> extent n"
    using wf end_b by (auto simp: extent_def join_def chunk_wf_def)
  show "c_end (join b n) - unat (c_addr b) =
      (c_end b - unat (c_addr b)) + (c_end n - unat (c_addr n))"
    using wf end_b by (simp add: join_def chunk_wf_def)
  have regs: "region (c_addr b) 24" "region (c_addr n) 24" using wf by (simp_all add: chunk_wf_region)
  have sp: "span (c_addr b) 24 \<inter> span (c_addr n) 24 = {}"
    using disj(1) wf chunk_wf_span by blast
  have h: "hdr (join_mem (c_addr b) (c_addr n) m) (c_addr b) =
      (MAGIC, c_size (join b n), c_flags (join b n), start cs)"
    using join_mem_hdr [OF regs sp, of m] chain_hdr [OF chain] chain_hdr [OF chain_tail [OF chain]]
    by (simp add: join_def)
  have "linked (join_mem (c_addr b) (c_addr n) m) cs \<longleftrightarrow> linked m cs"
  proof (rule linked_same_outside [OF join_mem_same_outside [OF regs(1)]])
    show "span (c_addr b) 24 \<inter> extents cs = {}" using disj(2) wf(1) chunk_wf_span by blast
    show "list_all chunk_wf cs" using chain by (simp add: chain_ok_def)
  qed
  then have "linked (join_mem (c_addr b) (c_addr n) m) (join b n # cs)"
    using h chain by (simp add: chain_ok_def join_def)
  moreover have "adjoining (join b n # cs)"
    using chain nf final_join [of b n] by (cases cs) (auto simp: chain_ok_def join_def)
  ultimately show "chain_ok (join_mem (c_addr b) (c_addr n) m) (join b n # cs)"
    using chain wf' ext disj(2) by (simp add: chain_ok_def separate_Cons)
qed

lemma merge_headers_eq:
  assumes chain: "chain_ok (kmem st) (b # ys)"
  shows "merge_headers (c_addr b) st =
    (if mergeable (b # ys)
     then Some (st\<lparr>kmem := join_mem (c_addr b) (start ys) (kmem st),
         kfinal := if start ys = kfinal st then c_addr b else kfinal st\<rparr>, True)
     else Some (st, False))"
proof -
  note h = chain_hdr [OF chain]
  have nz: "c_addr b \<noteq> 0" using chain_wf [OF chain] by (simp add: chunk_wf_def)
  have nh: "next_header (kmem st) (c_addr b) = Some (start ys)" by (rule next_header_eq [OF chain])
  show ?thesis
  proof (cases ys)
    case Nil
    then show ?thesis using h nz nh by (simp add: merge_headers_def next_close_header_def mergeable_def)
  next
    case (Cons n zs)
    have "hdr_flags (kmem st) (c_addr n) = c_flags n" "c_addr n \<noteq> 0"
      using chain_hdr(3) [of "kmem st" n zs] chain_wf [of "kmem st" n zs] chain_tail [OF chain] Cons
      by (simp_all add: chunk_wf_def)
    then show ?thesis using h nz nh Cons
      by (cases st) (simp add: merge_headers_def next_close_header_def mergeable_def join_mem_def Let_def)
  qed
qed

section \<open>The heap\<close>

text \<open>
  \<^verbatim>\<open>owned\<close> are the addresses that the source of pages has given out, to the heap or to others.
  \<^verbatim>\<open>live cs\<close> are the blocks in use; \<^verbatim>\<open>free_space cs\<close> the addresses of the free chunks, the only
  memory of the heap that the allocator may write.  \<^verbatim>\<open>heap_bytes\<close> is the total length of the
  ranges.
\<close>

definition heap_ok :: "('k \<Rightarrow> nat set) \<Rightarrow> 'k kheap \<Rightarrow> chunk list \<Rightarrow> bool" where
  "heap_ok owned st cs \<longleftrightarrow>
     cs \<noteq> [] \<and> khead st = start cs \<and> kfinal st = c_addr (last cs) \<and>
     chain_ok (kmem st) cs \<and> extents cs \<subseteq> owned (kbrk st)"

definition live :: "chunk list \<Rightarrow> (u64 \<times> u32) set" where
  "live cs = {(c_addr c, c_size c) | c. c \<in> set cs \<and> \<not> is_free (c_flags c)}"

definition free_space :: "chunk list \<Rightarrow> nat set" where
  "free_space cs = (\<Union>c \<in> {c \<in> set cs. is_free (c_flags c)}. extent c)"

definition heap_bytes :: "chunk list \<Rightarrow> nat" where
  "heap_bytes cs = sum_list (map (\<lambda>c. c_end c - unat (c_addr c)) cs)"

text \<open>A step of the allocator that stays within the heap it has and writes only to \<^verbatim>\<open>S\<close>.\<close>

definition heap_step :: "nat set \<Rightarrow> 'k kheap \<Rightarrow> 'k kheap \<Rightarrow> bool" where
  "heap_step S st st' \<longleftrightarrow> same_outside S (kmem st) (kmem st') \<and> kbrk st' = kbrk st \<and>
     khead st' = khead st \<and> ktotal st' = ktotal st"

lemma live_simps [simp]:
  "live [] = {}"
  "live (c # cs) = (if is_free (c_flags c) then {} else {(c_addr c, c_size c)}) \<union> live cs"
  "live (xs @ ys) = live xs \<union> live ys"
  by (auto simp: live_def)

lemma free_space_simps [simp]:
  "free_space [] = {}"
  "free_space (c # cs) = (if is_free (c_flags c) then extent c else {}) \<union> free_space cs"
  "free_space (xs @ ys) = free_space xs \<union> free_space ys"
  by (auto simp: free_space_def)

lemma heap_bytes_simps [simp]:
  "heap_bytes [] = 0"
  "heap_bytes (c # cs) = (c_end c - unat (c_addr c)) + heap_bytes cs"
  "heap_bytes (xs @ ys) = heap_bytes xs + heap_bytes ys"
  by (simp_all add: heap_bytes_def)

lemma free_space_extents: "free_space cs \<subseteq> extents cs"
  by (auto simp: free_space_def extents_def)

lemma heap_step_refl [simp]: "heap_step S st st"
  by (simp add: heap_step_def)

lemma heap_step_trans:
  "heap_step S st st1 \<Longrightarrow> heap_step T st1 st2 \<Longrightarrow> S \<union> T \<subseteq> U \<Longrightarrow> heap_step U st st2"
  unfolding heap_step_def by (metis same_outside_trans)

lemma heap_step_mono: "heap_step S st st1 \<Longrightarrow> S \<subseteq> U \<Longrightarrow> heap_step U st st1"
  unfolding heap_step_def by (metis same_outside_mono)

lemma heap_ok_suffix: "heap_ok owned st (xs @ ys) \<Longrightarrow> chain_ok (kmem st) ys"
  by (auto simp: heap_ok_def intro: chain_ok_append)

lemma heap_ok_replace:
  assumes ok: "heap_ok owned st (xs @ ys)" and chain: "chain_ok (kmem st') ys'"
    and st: "start ys' = start ys" "ys \<noteq> []" "ys' \<noteq> []"
    and step: "heap_step S st st'" and S: "S \<inter> extents xs = {}"
    and ext: "extents ys' \<subseteq> extents ys" and fin: "kfinal st' = c_addr (last ys')"
  shows "heap_ok owned st' (xs @ ys')"
proof -
  have "extents xs \<inter> extents ys = {}" using ok by (simp add: heap_ok_def chain_ok_def separate_append)
  then have "extents ys' \<inter> extents xs = {}" using ext by blast
  then have "chain_ok (kmem st') (xs @ ys')"
    using ok chain st step S
    by (intro chain_ok_replace [of "kmem st" xs ys "kmem st'" ys' S]) (simp_all add: heap_ok_def heap_step_def)
  moreover have "start (xs @ ys') = start (xs @ ys)" using st by (simp add: start_append)
  ultimately show ?thesis using ok st step ext fin by (auto simp: heap_ok_def heap_step_def)
qed

lemma last_chunk_iff:
  assumes "chain_ok m (b # n # zs)"
  shows "c_addr n = c_addr (last (b # n # zs)) \<longleftrightarrow> zs = []"
proof (cases "zs = []")
  case False
  then have "last zs \<in> set zs" by simp
  then have "c_addr (last zs) \<noteq> c_addr n"
    using chain_addr_distinct [of m "[b]" n zs "last zs"] assms by simp
  then show ?thesis using False by simp
qed simp

lemma merge_step:
  assumes ok: "heap_ok owned st (xs @ b # ys)" and m: "mergeable (b # ys)"
  shows "\<exists>st' n zs. ys = n # zs \<and> merge_headers (c_addr b) st = Some (st', True) \<and>
    heap_ok owned st' (xs @ join b n # zs) \<and> heap_step (extent b) st st' \<and>
    extent (join b n) = extent b \<union> extent n \<and> is_free (c_flags n) \<and>
    heap_bytes (join b n # zs) = heap_bytes (b # ys)"
proof -
  obtain n zs where ys: "ys = n # zs" and f: "is_free (c_flags b)" "\<not> is_final (c_flags b)" "is_free (c_flags n)"
    using m by (auto simp: mergeable_def split: list.splits)
  have chain: "chain_ok (kmem st) (b # n # zs)" using heap_ok_suffix [OF ok] ys by simp
  note j = chain_join [OF chain f(2)]
  define st' where "st' = st\<lparr>kmem := join_mem (c_addr b) (c_addr n) (kmem st),
      kfinal := if c_addr n = kfinal st then c_addr b else kfinal st\<rparr>"
  have merge: "merge_headers (c_addr b) st = Some (st', True)"
    using merge_headers_eq [OF heap_ok_suffix [OF ok]] m ys by (simp add: st'_def)
  have wf: "chunk_wf b" using chain by (simp add: chain_ok_def)
  have "same_outside (extent b) (kmem st) (kmem st')"
    using same_outside_mono [OF join_mem_same_outside [OF chunk_wf_region [OF wf]] chunk_wf_span [OF wf]]
    by (simp add: st'_def)
  then have step: "heap_step (extent b) st st'" by (simp add: heap_step_def st'_def)
  have fin: "kfinal st' = c_addr (last (join b n # zs))"
    using ok last_chunk_iff [OF chain] ys by (simp add: st'_def heap_ok_def join_def split: if_splits)
  have "extent b \<inter> extents xs = {}"
    using ok by (auto simp: heap_ok_def chain_ok_def separate_append)
  moreover have "chain_ok (kmem st') (join b n # zs)" using j(1) by (simp add: st'_def)
  moreover have "start (join b n # zs) = start (b # ys)" by (simp add: join_def)
  moreover have "extents (join b n # zs) \<subseteq> extents (b # ys)" using j(2) ys by auto
  ultimately have "heap_ok owned st' (xs @ join b n # zs)"
    using fin by (intro heap_ok_replace [OF ok _ _ _ _ step]) simp_all
  moreover have "heap_bytes (join b n # zs) = heap_bytes (b # ys)"
    using j(4) ys by (simp add: join_def)
  ultimately show ?thesis using ys merge step j(2) f(3) by blast
qed

text \<open>
  \<^verbatim>\<open>absorbs b' ys' b ys\<close>: the chunk \<^verbatim>\<open>b\<close> has swallowed a run of free chunks at the front of \<^verbatim>\<open>ys\<close>.
\<close>

definition absorbs :: "chunk \<Rightarrow> chunk list \<Rightarrow> chunk \<Rightarrow> chunk list \<Rightarrow> bool" where
  "absorbs b' ys' b ys \<longleftrightarrow>
     c_addr b' = c_addr b \<and> (is_free (c_flags b') \<longleftrightarrow> is_free (c_flags b)) \<and>
     extents (b' # ys') = extents (b # ys) \<and> free_space (b' # ys') = free_space (b # ys) \<and>
     live (b' # ys') = live (b # ys) \<and> heap_bytes (b' # ys') = heap_bytes (b # ys) \<and>
     (\<exists>zs. ys = zs @ ys') \<and>
     (heap_bytes (b # ys) < 2 ^ 32 \<longrightarrow>
        unat (c_size b) \<le> unat (c_size b') \<and> (\<forall>c \<in> set ys - set ys'. unat (c_size c) \<le> unat (c_size b')))"

lemma absorbs_facts:
  assumes "absorbs b' ys' b ys"
  shows "c_addr b' = c_addr b" "is_free (c_flags b') \<longleftrightarrow> is_free (c_flags b)"
    "extents (b' # ys') = extents (b # ys)" "free_space (b' # ys') = free_space (b # ys)"
    "live (b' # ys') = live (b # ys)" "heap_bytes (b' # ys') = heap_bytes (b # ys)"
  using assms unfolding absorbs_def by blast+

lemma absorbs_refl: "absorbs b ys b ys"
  by (simp add: absorbs_def)

lemma absorbs_join:
  assumes chain: "chain_ok m (b # n # zs)" and f: "is_free (c_flags b)" "\<not> is_final (c_flags b)" "is_free (c_flags n)"
    and rest: "absorbs b' ys' (join b n) zs"
  shows "absorbs b' ys' b (n # zs)"
proof -
  note j = chain_join [OF chain f(2)]
  have wf: "chunk_wf b" "chunk_wf n" using chain by (simp_all add: chain_ok_def)
  have bytes: "heap_bytes (join b n # zs) = heap_bytes (b # n # zs)" using j(4) by (simp add: join_def)
  have addr: "c_addr (join b n) = c_addr b" by (simp add: join_def)
  have sizes: "unat (c_size b) \<le> unat (c_size (join b n)) \<and> unat (c_size n) \<le> unat (c_size (join b n))"
    if "heap_bytes (b # n # zs) < 2 ^ 32"
  proof -
    have "unat (c_size b) + unat (c_size n) < 2 ^ 32" using wf that by (simp add: chunk_wf_def) linarith
    then have "unat (c_size (join b n)) = unat (c_size b) + unat (c_size n)"
      by (simp add: join_def unat_add_le)
    then show ?thesis by simp
  qed
  show ?thesis
    unfolding absorbs_def
  proof (intro conjI impI ballI)
    assume lt: "heap_bytes (b # n # zs) < 2 ^ 32"
    then have r: "unat (c_size (join b n)) \<le> unat (c_size b')"
        "\<forall>c \<in> set zs - set ys'. unat (c_size c) \<le> unat (c_size b')"
      using rest unfolding absorbs_def bytes by blast+
    show "unat (c_size b) \<le> unat (c_size b')" using r(1) sizes [OF lt] by linarith
    show "unat (c_size c) \<le> unat (c_size b')" if "c \<in> set (n # zs) - set ys'" for c
      using that r sizes [OF lt] by auto
  qed (use rest bytes addr free_join [of b n] f j(2) in \<open>auto simp: absorbs_def\<close>)
qed

lemma merge_all_ok:
  assumes "heap_ok owned st (xs @ b # ys)"
  shows "\<exists>st' b' ys'. merge_all (c_addr b) st = Some st' \<and> heap_ok owned st' (xs @ b' # ys') \<and>
    absorbs b' ys' b ys \<and> heap_step (if is_free (c_flags b) then free_space (b # ys) else {}) st st'"
  using assms
proof (induction ys arbitrary: b st)
  case Nil
  then have "\<not> mergeable [b]" "chain_ok (kmem st) [b]"
    by (auto simp: mergeable_def intro: heap_ok_suffix)
  then have "merge_all (c_addr b) st = Some st" by (subst merge_all.simps) (simp add: merge_headers_eq)
  then show ?case using Nil absorbs_refl heap_step_refl by blast
next
  case (Cons n zs)
  have chain: "chain_ok (kmem st) (b # n # zs)" using Cons.prems by (rule heap_ok_suffix)
  show ?case
  proof (cases "mergeable (b # n # zs)")
    case False
    then have "merge_all (c_addr b) st = Some st"
      using chain by (subst merge_all.simps) (simp add: merge_headers_eq)
    then show ?thesis using Cons.prems absorbs_refl heap_step_refl by blast
  next
    case True
    then have f: "is_free (c_flags b)" "\<not> is_final (c_flags b)" "is_free (c_flags n)"
      by (auto simp: mergeable_def)
    obtain st1 where st1: "merge_headers (c_addr b) st = Some (st1, True)"
        "heap_ok owned st1 (xs @ join b n # zs)" "heap_step (extent b) st st1"
        "extent (join b n) = extent b \<union> extent n"
      using merge_step [OF Cons.prems True] by auto
    have addr: "c_addr (join b n) = c_addr b" by (simp add: join_def)
    obtain st' b' ys' where r: "merge_all (c_addr b) st1 = Some st'" "heap_ok owned st' (xs @ b' # ys')"
        "absorbs b' ys' (join b n) zs" "heap_step (free_space (join b n # zs)) st1 st'"
      using Cons.IH [OF st1(2)] f(1) free_join [of b n] addr by auto
    have "merge_all (c_addr b) st = Some st'"
      using st1(1) r(1) by (subst merge_all.simps) simp
    moreover have "heap_step (free_space (b # n # zs)) st st'"
      using f free_join [of b n] st1(4)
      by (intro heap_step_trans [OF st1(3) r(4)]) auto
    ultimately show ?thesis using r(2) absorbs_join [OF chain f r(3)] f(1) by auto
  qed
qed

text \<open>The search: it visits the chunks in order, merging as it goes, and stops at the first that fits.\<close>

lemma find_loop_ok:
  assumes "heap_ok owned st (xs @ ys)"
  shows "\<exists>st' fe cs'. find_loop req (start ys) st = Some (st', fe) \<and> heap_ok owned st' (xs @ cs') \<and>
    heap_step (free_space ys) st st' \<and> extents cs' = extents ys \<and> live cs' = live ys \<and>
    free_space cs' = free_space ys \<and> heap_bytes cs' = heap_bytes ys \<and>
    (if fe = 0 then heap_bytes ys < 2 ^ 32 \<longrightarrow>
        (\<forall>c \<in> set ys. is_free (c_flags c) \<longrightarrow> unat (c_size c) < unat req)
     else \<exists>c \<in> set cs'. c_addr c = fe \<and> is_free (c_flags c) \<and> unat req \<le> unat (c_size c))"
  using assms
proof (induction "length ys" arbitrary: xs ys st rule: less_induct)
  case less
  show ?case
  proof (cases ys)
    case Nil
    have "find_loop req 0 st = Some (st, 0)" by (simp add: find_loop.simps)
    then show ?thesis using less.prems Nil by (intro exI [of _ st] exI [of _ 0] exI [of _ "[]"]) simp
  next
    case (Cons b zs)
    have ok: "heap_ok owned st (xs @ b # zs)" using less.prems Cons by simp
    have chain: "chain_ok (kmem st) (b # zs)" using ok by (rule heap_ok_suffix)
    note h = chain_hdr [OF chain]
    have nz: "c_addr b \<noteq> 0" using chain_wf [OF chain] by (simp add: chunk_wf_def)
    have u: "unat (ucast w :: u64) = unat w" for w :: u32 by (rule unat_ucast_u32)
    show ?thesis
    proof (cases "is_free (c_flags b)")
      case False
      have "find_loop req (c_addr b) st = find_loop req (start zs) st"
        using h nz False next_header_eq [OF chain] by (subst find_loop.simps) simp
      moreover obtain st' fe cs' where "find_loop req (start zs) st = Some (st', fe)"
          "heap_ok owned st' ((xs @ [b]) @ cs')" "heap_step (free_space zs) st st'" "extents cs' = extents zs" "live cs' = live zs"
          "free_space cs' = free_space zs" "heap_bytes cs' = heap_bytes zs"
          "if fe = 0 then heap_bytes zs < 2 ^ 32 \<longrightarrow> (\<forall>c \<in> set zs. is_free (c_flags c) \<longrightarrow> unat (c_size c) < unat req)
           else \<exists>c \<in> set cs'. c_addr c = fe \<and> is_free (c_flags c) \<and> unat req \<le> unat (c_size c)"
        using less.hyps [of zs st "xs @ [b]"] Cons ok by auto
      ultimately show ?thesis
        using False Cons
        by (intro exI [of _ st'] exI [of _ fe] exI [of _ "b # cs'"])
          (auto split: if_splits)
    next
      case free: True
      show ?thesis
      proof (cases "unat (c_size b) < unat req")
        case False
        then have "find_loop req (c_addr b) st = Some (st, c_addr b)"
          using h nz free by (subst find_loop.simps) (simp add: word_less_nat_alt u)
        then show ?thesis using ok Cons nz free False
          by (intro exI [of _ st] exI [of _ "c_addr b"] exI [of _ "b # zs"])
            auto
      next
        case small: True
        obtain st1 b' ys' where m: "merge_all (c_addr b) st = Some st1" "heap_ok owned st1 (xs @ b' # ys')"
            "absorbs b' ys' b zs" "heap_step (free_space (b # zs)) st st1"
          using merge_all_ok [OF ok] free by auto
        have b': "c_addr b' = c_addr b" "is_free (c_flags b')" using m(3) free by (simp_all add: absorbs_def)
        have chain': "chain_ok (kmem st1) (b' # ys')" using m(2) by (rule heap_ok_suffix)
        have size': "hdr_size (kmem st1) (c_addr b) = c_size b'" using chain_hdr(2) [OF chain'] b' by simp
        show ?thesis
        proof (cases "unat req \<le> unat (c_size b')")
          case True
          then have "find_loop req (c_addr b) st = Some (st1, c_addr b)"
            using h nz free small m(1) size'
            by (subst find_loop.simps) (simp add: word_less_nat_alt word_le_nat_alt u)
          then show ?thesis using m(2-4) Cons nz b' True
            by (intro exI [of _ st1] exI [of _ "c_addr b"] exI [of _ "b' # ys'"])
              (auto simp: absorbs_def)
        next
          case False
          have "find_loop req (c_addr b) st = find_loop req (start ys') st1"
            using h nz free small m(1) size' False next_header_eq [OF chain'] b'
            by (subst find_loop.simps) (simp add: word_less_nat_alt word_le_nat_alt u)
          moreover have len: "length ys' < length ys" using m(3) Cons by (auto simp: absorbs_def)
          moreover obtain st' fe cs' where r: "find_loop req (start ys') st1 = Some (st', fe)"
              "heap_ok owned st' ((xs @ [b']) @ cs')" "heap_step (free_space ys') st1 st'" "extents cs' = extents ys'" "live cs' = live ys'"
              "free_space cs' = free_space ys'" "heap_bytes cs' = heap_bytes ys'"
              "if fe = 0 then heap_bytes ys' < 2 ^ 32 \<longrightarrow> (\<forall>c \<in> set ys'. is_free (c_flags c) \<longrightarrow> unat (c_size c) < unat req)
               else \<exists>c \<in> set cs'. c_addr c = fe \<and> is_free (c_flags c) \<and> unat req \<le> unat (c_size c)"
            using less.hyps [OF len, of st1 "xs @ [b']"] m(2) by auto
          moreover have "heap_step (free_space (b # zs)) st st'"
            using m(3) b'(2) by (intro heap_step_trans [OF m(4) r(3)]) (auto simp: absorbs_def)
          moreover have "extents (b' # cs') = extents (b # zs)" "live (b' # cs') = live (b # zs)" "free_space (b' # cs') = free_space (b # zs)"
              "heap_bytes (b' # cs') = heap_bytes (b # zs)"
          proof -
            have "extents (b' # cs') = extents (b' # ys')" "live (b' # cs') = live (b' # ys')" "free_space (b' # cs') = free_space (b' # ys')"
                "heap_bytes (b' # cs') = heap_bytes (b' # ys')"
              using r(4-7) by simp_all
            then show "extents (b' # cs') = extents (b # zs)" "live (b' # cs') = live (b # zs)" "free_space (b' # cs') = free_space (b # zs)"
                "heap_bytes (b' # cs') = heap_bytes (b # zs)"
              using m(3) unfolding absorbs_def by argo+
          qed
          moreover have "\<forall>c \<in> set (b # zs). is_free (c_flags c) \<longrightarrow> unat (c_size c) < unat req"
            if "fe = 0" "heap_bytes (b # zs) < 2 ^ 32"
          proof -
            have "heap_bytes ys' < 2 ^ 32"
              using m(3) that(2) by (simp add: absorbs_def)
            then have rest: "\<forall>c \<in> set ys'. is_free (c_flags c) \<longrightarrow> unat (c_size c) < unat req"
              using r(8) that(1) by simp
            have gone: "\<forall>c \<in> set zs - set ys'. unat (c_size c) \<le> unat (c_size b')"
              using m(3) that(2) unfolding absorbs_def by blast
            show ?thesis
            proof (intro ballI impI)
              fix c
              assume c: "c \<in> set (b # zs)" "is_free (c_flags c)"
              then consider "c = b" | "c \<in> set ys'" | "c \<in> set zs - set ys'" by auto
              then show "unat (c_size c) < unat req"
              proof cases
                case 3
                then have "unat (c_size c) \<le> unat (c_size b')" using gone by blast
                then show ?thesis using False by linarith
              qed (use small rest c(2) in blast)+
            qed
          qed
          ultimately show ?thesis
            using Cons r(2,8)
            by (intro exI [of _ st'] exI [of _ fe] exI [of _ "b' # cs'"])
              (auto split: if_splits)
        qed
      qed
    qed
  qed
qed

section \<open>Cutting a block off\<close>

lemma merge_suffix:
  assumes chain: "chain_ok (kmem st) (b # ys)" and fin: "kfinal st = c_addr (last (b # ys))"
  shows "\<exists>st' b' ys' r. merge_headers (c_addr b) st = Some (st', r) \<and> chain_ok (kmem st') (b' # ys') \<and>
    kfinal st' = c_addr (last (b' # ys')) \<and> absorbs b' ys' b ys \<and>
    heap_step (span (c_addr b) 24) st st' \<and> kseed st' = kseed st"
proof (cases "mergeable (b # ys)")
  case False
  then have "merge_headers (c_addr b) st = Some (st, False)" using merge_headers_eq [OF chain] by simp
  then show ?thesis using chain fin absorbs_refl heap_step_refl by blast
next
  case True
  then obtain n zs where ys: "ys = n # zs" and f: "is_free (c_flags b)" "\<not> is_final (c_flags b)" "is_free (c_flags n)"
    by (auto simp: mergeable_def split: list.splits)
  have chain': "chain_ok (kmem st) (b # n # zs)" using chain ys by simp
  note j = chain_join [OF chain' f(2)]
  define st' where "st' = st\<lparr>kmem := join_mem (c_addr b) (c_addr n) (kmem st),
      kfinal := if c_addr n = kfinal st then c_addr b else kfinal st\<rparr>"
  have "merge_headers (c_addr b) st = Some (st', True)"
    using merge_headers_eq [OF chain] True ys by (simp add: st'_def)
  moreover have "chain_ok (kmem st') (join b n # zs)" using j(1) by (simp add: st'_def)
  moreover have "kfinal st' = c_addr (last (join b n # zs))"
    using fin last_chunk_iff [OF chain'] ys by (simp add: st'_def join_def)
  moreover have "absorbs (join b n) zs b ys"
    using absorbs_join [OF chain' f absorbs_refl] ys by simp
  moreover have "heap_step (span (c_addr b) 24) st st'"
    using join_mem_same_outside [OF chunk_wf_region [OF chain_wf [OF chain]]]
    by (simp add: heap_step_def st'_def)
  moreover have "kseed st' = kseed st" by (simp add: st'_def)
  ultimately show ?thesis by blast
qed

definition used_chunk :: "chunk \<Rightarrow> u64 \<Rightarrow> chunk" where
  "used_chunk c n = \<lparr>c_addr = c_addr c, c_size = ucast n, c_flags = 0,
     c_end = unat (c_addr c) + 24 + unat n\<rparr>"

definition rest_chunk :: "chunk \<Rightarrow> u64 \<Rightarrow> chunk" where
  "rest_chunk c n = \<lparr>c_addr = c_addr c + 24 + n, c_size = c_size c - ucast n - 24,
     c_flags = c_flags c, c_end = c_end c\<rparr>"

lemma cut_sizes:
  assumes wf: "chunk_wf c" and n: "unat n + 24 \<le> unat (c_size c)"
  shows "unat (ucast n :: u32) = unat n" "unat (c_addr c + 24 + n) = unat (c_addr c) + 24 + unat n"
    "chunk_wf (used_chunk c n)" "chunk_wf (rest_chunk c n)"
    "extent (used_chunk c n) \<union> extent (rest_chunk c n) = extent c"
    "extent (used_chunk c n) \<inter> extent (rest_chunk c n) = {}"
proof -
  have "unat n < 2 ^ 32" using n unat_u32_lt [of "c_size c"] by simp
  then show u: "unat (ucast n :: u32) = unat n"
    by (simp add: unsigned_ucast_eq take_bit_nat_eq_self)
  have "unat (c_addr c) + 24 + unat n < 2 ^ 64" using wf n by (simp add: chunk_wf_def)
  moreover from this have "unat (c_addr c + 24) = unat (c_addr c) + 24" by (subst unat_add_le) simp_all
  ultimately show a: "unat (c_addr c + 24 + n) = unat (c_addr c) + 24 + unat n"
    by (subst unat_add_le) simp_all
  have s: "unat (c_size c - ucast n - 24) = unat (c_size c) - unat n - 24"
    using n u by (simp add: unat_sub_le)
  have nz: "c_addr c + 24 + n \<noteq> 0" using a by (metis add_is_0 unat_0 zero_neq_numeral)
  show "chunk_wf (used_chunk c n)" using wf n u by (simp add: chunk_wf_def used_chunk_def)
  show "chunk_wf (rest_chunk c n)" using wf n a s nz by (simp add: chunk_wf_def rest_chunk_def)
  show "extent (used_chunk c n) \<union> extent (rest_chunk c n) = extent c"
    using wf n a by (auto simp: extent_def used_chunk_def rest_chunk_def chunk_wf_def)
  show "extent (used_chunk c n) \<inter> extent (rest_chunk c n) = {}"
    using a by (auto simp: extent_def used_chunk_def rest_chunk_def)
qed

text \<open>The memory after the new header is written, and after the block's own header is rewritten.\<close>

definition cut_mem :: "u64 \<Rightarrow> u64 \<Rightarrow> mem \<Rightarrow> mem" where
  "cut_mem a n m =
     (let w = a + HEADER + n;
          m = set_flags w (hdr_flags m a) m;
          m = set_n w (hdr_n m a) m;
          m = set_size w (hdr_size m a - ucast n - ucast HEADER) m
      in set_magic w MAGIC m)"

definition use_mem :: "u64 \<Rightarrow> u64 \<Rightarrow> mem \<Rightarrow> mem" where
  "use_mem a n m =
     (let w = a + HEADER + n;
          m = set_size a (ucast n) m;
          m = set_flags a 0 m;
          m = set_n a w m
      in set_magic a MAGIC m)"

lemma carve_eq:
  "carve a n st = do {
     let w = a + HEADER + n;
     let st = st\<lparr>kmem := cut_mem a n (kmem st), kfinal := if a = kfinal st then w else kfinal st\<rparr>;
     (st, _) \<leftarrow> merge_headers w st;
     Some (st\<lparr>kmem := use_mem a n (kmem st)\<rparr>, a + HEADER)
   }"
  by (cases st) (simp add: carve_def cut_mem_def use_mem_def Let_def)

lemma cut_mem_hdr:
  assumes w: "w = a + 24 + n" and "region a 24" and "region w 24" and "span w 24 \<inter> span a 24 = {}"
  shows "hdr (cut_mem a n m) w = (MAGIC, hdr_size m a - ucast n - 24, hdr_flags m a, hdr_n m a)"
    and "same_outside (span w 24) m (cut_mem a n m)"
proof -
  let ?m1 = "set_flags w (hdr_flags m a) m"
  let ?m2 = "set_n w (hdr_n ?m1 a) ?m1"
  have s1: "same_outside (span w 24) m ?m1" by (rule set_same_outside(3) [OF assms(3)])
  have s2: "same_outside (span w 24) m ?m2" by (rule set_same_outside_trans(4) [OF assms(3) s1])
  have a1: "hdr ?m1 a = hdr m a" by (rule hdr_same_outside [OF s1 assms(2,4)])
  have a2: "hdr ?m2 a = hdr m a" by (rule hdr_same_outside [OF s2 assms(2,4)])
  have eq: "cut_mem a n m = set_magic w MAGIC (set_size w (hdr_size ?m2 a - ucast n - 24) ?m2)"
    by (simp add: cut_mem_def w HEADER_def Let_def)
  show "hdr (cut_mem a n m) w = (MAGIC, hdr_size m a - ucast n - 24, hdr_flags m a, hdr_n m a)"
    using a1 a2 by (simp add: eq hdr_set(1) [OF assms(3)] field_set [OF assms(3)]) (simp add: hdr_def)
  show "same_outside (span w 24) m (cut_mem a n m)"
    unfolding eq by (intro set_same_outside_trans(1,2) assms(3) s2)
qed

lemma use_mem_hdr:
  assumes "region a 24"
  shows "hdr (use_mem a n m) a = (MAGIC, ucast n, 0, a + 24 + n)"
    and "same_outside (span a 24) m (use_mem a n m)"
proof -
  show "hdr (use_mem a n m) a = (MAGIC, ucast n, 0, a + 24 + n)"
    by (simp add: use_mem_def HEADER_def Let_def hdr_set(1) [OF assms] field_set [OF assms])
  show "same_outside (span a 24) m (use_mem a n m)"
    unfolding use_mem_def Let_def
    by (intro set_same_outside_trans(1,3,4) set_same_outside(2) assms)
qed

lemma carve_ok:
  assumes ok: "heap_ok owned st (xs @ c # ys)" and free: "is_free (c_flags c)"
    and n: "unat n + 24 \<le> unat (c_size c)"
  shows "\<exists>st' r rs. carve (c_addr c) n st = Some (st', c_addr c + 24) \<and>
    heap_ok owned st' (xs @ used_chunk c n # r # rs) \<and> heap_step (extent c) st st' \<and>
    kseed st' = kseed st \<and> absorbs r rs (rest_chunk c n) ys"
proof -
  let ?a = "c_addr c" and ?u = "used_chunk c n" and ?w = "rest_chunk c n"
  let ?wa = "c_addr c + 24 + n"
  have chain: "chain_ok (kmem st) (c # ys)" using ok by (rule heap_ok_suffix)
  have wf: "chunk_wf c" using chain by (rule chain_wf)
  note cut = cut_sizes [OF wf n]
  have regs: "region ?a 24" "region ?wa 24"
    using chunk_wf_region [OF wf] chunk_wf_region [OF cut(4)] by (simp_all add: rest_chunk_def)
  have sp: "span ?wa 24 \<inter> span ?a 24 = {}" using cut(2) by auto
  note h = chain_hdr [OF chain]
  have disj: "extent c \<inter> extents xs = {}" "extent c \<inter> extents ys = {}"
    using ok by (auto simp: heap_ok_def chain_ok_def separate_append separate_Cons)
  have subs: "span ?a 24 \<subseteq> extent ?u" "span ?wa 24 \<subseteq> extent ?w"
    using chunk_wf_span [OF cut(3)] chunk_wf_span [OF cut(4)] by (simp_all add: used_chunk_def rest_chunk_def)
  define st1 where "st1 = st\<lparr>kmem := cut_mem ?a n (kmem st), kfinal := if ?a = kfinal st then ?wa else kfinal st\<rparr>"
  note cm = cut_mem_hdr [OF refl regs sp, where m = "kmem st"]
  have "linked (kmem st1) ys \<longleftrightarrow> linked (kmem st) ys"
    using cm(2) subs(2) cut(5) disj(2) chain
    by (intro linked_same_outside [of "span ?wa 24"]) (auto simp: st1_def chain_ok_def)
  then have "chain_ok (kmem st1) (?w # ys)"
    using chain cm(1) h cut(4,5) disj(2)
    by (cases ys) (auto simp: chain_ok_def separate_Cons st1_def rest_chunk_def)
  moreover have "kfinal st1 = c_addr (last (?w # ys))"
  proof (cases "ys = []")
    case True
    then show ?thesis using ok by (simp add: st1_def heap_ok_def rest_chunk_def)
  next
    case False
    then have "last ys \<in> set ys" by simp
    then have "c_addr (last ys) \<noteq> ?a"
      using chain_addr_distinct [of "kmem st" xs c ys "last ys"] ok by (simp add: heap_ok_def)
    then show ?thesis using ok False by (simp add: st1_def heap_ok_def)
  qed
  ultimately obtain st2 r rs b where m: "merge_headers (c_addr ?w) st1 = Some (st2, b)"
      "chain_ok (kmem st2) (r # rs)" "kfinal st2 = c_addr (last (r # rs))" "absorbs r rs ?w ys"
      "heap_step (span (c_addr ?w) 24) st1 st2" "kseed st2 = kseed st1"
    using merge_suffix [of st1 ?w ys] by blast
  have ext: "extents (r # rs) = extent ?w \<union> extents ys" using m(4) by (simp add: absorbs_def)
  have ra: "c_addr r = ?wa" using m(4) by (simp add: absorbs_def rest_chunk_def)
  define st3 where "st3 = st2\<lparr>kmem := use_mem ?a n (kmem st2)\<rparr>"
  note um = use_mem_hdr [OF regs(1), where n = n and m = "kmem st2"]
  have "linked (kmem st3) (r # rs) \<longleftrightarrow> linked (kmem st2) (r # rs)"
    using um(2) subs(1) ext cut(5,6) disj(2) m(2)
    by (intro linked_same_outside [of "span ?a 24"]) (auto simp: st3_def chain_ok_def)
  moreover have "extent ?u \<inter> extents (r # rs) = {}" using ext cut(5,6) disj(2) by auto
  ultimately have chain3: "chain_ok (kmem st3) (?u # r # rs)"
    using m(2) um(1) cut(2,3) ra
    by (simp add: chain_ok_def separate_Cons st3_def) (simp add: used_chunk_def is_final_def)
  have s1: "heap_step (span ?wa 24) st st1" using cm(2) by (simp add: heap_step_def st1_def)
  have s2: "heap_step (span ?wa 24) st1 st2" using m(5) by (simp add: rest_chunk_def)
  have s3: "heap_step (span ?a 24) st2 st3" using um(2) by (simp add: heap_step_def st3_def)
  have "span ?wa 24 \<union> span ?a 24 \<subseteq> extent c" using subs cut(5) by blast
  moreover have "heap_step (span ?wa 24) st st2" by (rule heap_step_trans [OF s1 s2]) simp
  ultimately have step: "heap_step (extent c) st st3" using heap_step_trans [OF _ s3] by blast
  have "heap_ok owned st3 (xs @ ?u # r # rs)"
  proof (rule heap_ok_replace [OF ok chain3 _ _ _ step disj(1)])
    show "start (?u # r # rs) = start (c # ys)" by (simp add: used_chunk_def)
    show "extents (?u # r # rs) \<subseteq> extents (c # ys)" using ext cut(5) by auto
    show "kfinal st3 = c_addr (last (?u # r # rs))" using m(3) by (simp add: st3_def)
  qed simp_all
  moreover have "carve ?a n st = Some (st3, ?a + 24)"
    using m(1) by (simp add: carve_eq Let_def HEADER_def st3_def st1_def rest_chunk_def)
  moreover have "kseed st3 = kseed st" using m(6) by (simp add: st3_def st1_def)
  ultimately show ?thesis using step m(4) by blast
qed

section \<open>Blocks in use\<close>

text \<open>
  \<^verbatim>\<open>payload\<close> is the memory of the blocks in use.  The allocator must leave it alone, as well as
  all owned memory that is not part of the heap: \<^verbatim>\<open>kframe\<close>.
\<close>

definition payload :: "chunk list \<Rightarrow> nat set" where
  "payload cs = (\<Union>(a, s) \<in> live cs. {unat a + 24..<unat a + 24 + unat s})"

definition kframe :: "('k \<Rightarrow> nat set) \<Rightarrow> 'k kheap \<Rightarrow> chunk list \<Rightarrow> 'k kheap \<Rightarrow> bool" where
  "kframe owned st cs st' \<longleftrightarrow>
     (\<forall>x. unat x \<in> owned (kbrk st) \<and> unat x \<notin> extents cs - payload cs \<longrightarrow> kmem st' x = kmem st x)"

lemma payload_simps [simp]:
  "payload [] = {}"
  "payload (xs @ ys) = payload xs \<union> payload ys"
  by (auto simp: payload_def)

lemma payload_Cons:
  "payload (c # cs) = (if is_free (c_flags c) then {}
     else {unat (c_addr c) + 24..<unat (c_addr c) + 24 + unat (c_size c)}) \<union> payload cs"
  by (auto simp: payload_def)

lemma payload_extents: "list_all chunk_wf cs \<Longrightarrow> payload cs \<subseteq> extents cs"
  by (induction cs) (auto simp: payload_Cons extent_def chunk_wf_def)

lemma free_space_payload: "list_all chunk_wf cs \<Longrightarrow> separate cs \<Longrightarrow> free_space cs \<inter> payload cs = {}"
proof (induction cs)
  case (Cons c cs)
  have "payload cs \<subseteq> extents cs" "free_space cs \<subseteq> extents cs"
    using Cons.prems payload_extents free_space_extents by auto
  moreover have "extent c \<inter> extents cs = {}" "free_space cs \<inter> payload cs = {}"
    using Cons by (simp_all add: separate_Cons)
  moreover have "{unat (c_addr c) + 24..<unat (c_addr c) + 24 + unat (c_size c)} \<subseteq> extent c"
    using Cons.prems by (auto simp: extent_def chunk_wf_def)
  ultimately show ?case by (auto simp: payload_Cons)
qed simp

lemma kframe_step:
  assumes "heap_ok owned st cs" and "heap_step (free_space cs) st st'"
  shows "kframe owned st cs st'"
proof -
  have "free_space cs \<subseteq> extents cs - payload cs"
    using free_space_payload [of cs] free_space_extents [of cs] assms(1)
    by (auto simp: heap_ok_def chain_ok_def)
  then show ?thesis using assms(2) by (auto simp: kframe_def heap_step_def same_outside_def)
qed

lemma kframe_trans:
  assumes "kframe owned st cs st1" and "kframe owned st1 cs1 st2"
    and "owned (kbrk st) \<subseteq> owned (kbrk st1)" and "payload cs = payload cs1"
    and "extents cs1 \<inter> owned (kbrk st) \<subseteq> extents cs"
  shows "kframe owned st cs st2"
  unfolding kframe_def
proof (intro allI impI)
  fix x :: u64
  assume x: "unat x \<in> owned (kbrk st) \<and> unat x \<notin> extents cs - payload cs"
  then have "unat x \<in> owned (kbrk st1)" "unat x \<notin> extents cs1 - payload cs1"
    using assms(3-5) by auto
  then have "kmem st2 x = kmem st1 x" using assms(2) by (simp add: kframe_def)
  moreover have "kmem st1 x = kmem st x" using assms(1) x by (simp add: kframe_def)
  ultimately show "kmem st2 x = kmem st x" by simp
qed

lemma payload_live: "live cs = live cs' \<Longrightarrow> payload cs = payload cs'"
  by (simp add: payload_def)

text \<open>Stores into the payload of a chunk do not disturb the chain.\<close>

lemma linked_payload:
  assumes "same_outside S m m'" and "\<forall>c \<in> set cs. S \<inter> span (c_addr c) 24 = {}" and "list_all chunk_wf cs"
  shows "linked m' cs \<longleftrightarrow> linked m cs"
  using assms(2,3)
proof (induction cs)
  case (Cons c cs)
  then have "hdr m' (c_addr c) = hdr m (c_addr c)"
    by (intro hdr_same_outside [OF assms(1)]) (simp_all add: chunk_wf_region)
  then show ?case using Cons by auto
qed simp

lemma heap_ok_payload:
  assumes ok: "heap_ok owned st cs" and c: "c \<in> set cs"
    and S: "S \<subseteq> {unat (c_addr c) + 24..<unat (c_addr c) + 24 + unat (c_size c)}"
    and step: "heap_step S st st'" and fin: "kfinal st' = kfinal st"
  shows "heap_ok owned st' cs"
proof -
  have wf: "list_all chunk_wf cs" and sep: "separate cs" using ok by (simp_all add: heap_ok_def chain_ok_def)
  have "S \<inter> span (c_addr d) 24 = {}" if d: "d \<in> set cs" for d
  proof (cases "d = c")
    case True
    then show ?thesis using S by auto
  next
    case False
    obtain us vs where cs: "cs = us @ c # vs" using c by (meson split_list)
    then have "d \<in> set us \<union> set vs" using d False by auto
    then have "extent c \<inter> extent d = {}"
      using sep cs by (auto simp: separate_append separate_Cons extents_def)
    moreover have "{unat (c_addr c) + 24..<unat (c_addr c) + 24 + unat (c_size c)} \<subseteq> extent c"
      using wf c by (auto simp: extent_def chunk_wf_def list_all_iff)
    moreover from this have "S \<subseteq> extent c" using S by blast
    moreover have "span (c_addr d) 24 \<subseteq> extent d" using wf d by (simp add: chunk_wf_span list_all_iff)
    ultimately show ?thesis by blast
  qed
  then have "linked (kmem st') cs"
    using ok step wf linked_payload [of S "kmem st" "kmem st'" cs] by (simp add: heap_ok_def chain_ok_def heap_step_def)
  then show ?thesis using ok step fin by (simp add: heap_ok_def chain_ok_def heap_step_def)
qed

lemma fill_random_step:
  assumes "region p (unat n)"
  shows "heap_step (span p (unat n)) st (fill_random p n st)" "kfinal (fill_random p n st) = kfinal st"
proof -
  obtain seed out where "prng_get_pseudorandom (kseed st) n = (seed, out)" by (meson surj_pair)
  then show "heap_step (span p (unat n)) st (fill_random p n st)" "kfinal (fill_random p n st) = kfinal st"
    using assms length_prng [of "kseed st" n] same_outside_store [of p out "kmem st"]
    by (simp_all add: fill_random_def heap_step_def)
qed

section \<open>Growing the heap\<close>

text \<open>
  What the allocator relies on in \<^verbatim>\<open>ksbrk\<close>: as long as the source of pages is \<^verbatim>\<open>good\<close> for a
  request, it returns; the addresses it gives out are new ones, it writes only to addresses that
  nobody owned, and it does not touch the allocator's globals.
\<close>

definition sbrk_ok :: "('k \<Rightarrow> nat set) \<Rightarrow> (u64 \<Rightarrow> 'k \<Rightarrow> bool) \<Rightarrow> 'k sbrk \<Rightarrow> bool" where
  "sbrk_ok owned good ksbrk \<longleftrightarrow>
     (\<forall>n st. good n (kbrk st) \<longrightarrow> (\<exists>st' p. ksbrk n st = Some (st', p) \<and>
        khead st' = khead st \<and> kfinal st' = kfinal st \<and> ktotal st' = ktotal st \<and>
        owned (kbrk st) \<subseteq> owned (kbrk st') \<and>
        same_outside (- owned (kbrk st)) (kmem st) (kmem st') \<and>
        (p \<noteq> 0 \<longrightarrow> unat p + unat n < 2 ^ 64 \<and>
           span p (unat n) \<subseteq> owned (kbrk st') - owned (kbrk st))))"

lemma grow_size_bounds:
  assumes "unat n \<le> 0xFFF00000"
  shows "unat n + 24 + 24 \<le> unat (grow_size n)" "unat (grow_size n) < 2 ^ 32"
proof -
  let ?m = "n + 24"
  have m: "unat ?m = unat n + 24" using assms by (subst unat_add_le) simp_all
  let ?a = "max ?m 0x40000"
  define M where "M = max (unat n + 24) 0x40000"
  have M: "unat n + 24 \<le> M" "M \<le> 0xFFF00018" using assms by (simp_all add: M_def)
  have a: "unat ?a = M" by (simp add: unat_max m M_def)
  have "unat (?a mod 0x1000) < 0x1000" by (simp add: unat_mod)
  then have d: "unat (delta_page ?a) \<le> 0x1000" "unat (delta_page ?a) \<ge> 1"
    by (simp_all add: delta_page_def unat_sub_le)
  have s: "unat (?a + delta_page ?a) = M + unat (delta_page ?a)"
    using M a d by (subst unat_add_le) simp_all
  have "unat (?a + delta_page ?a + 0x40000) = M + unat (delta_page ?a) + 0x40000"
    using M d s by (subst unat_add_le) simp_all
  then have g: "unat (grow_size n) = M + unat (delta_page ?a) + 0x40000"
    by (simp add: grow_size_def HEADER_def NEW_ALLOC_SIZE_def Let_def)
  show "unat n + 24 + 24 \<le> unat (grow_size n)" using g M by simp
  show "unat (grow_size n) < 2 ^ 32" using g M d by simp
qed

text \<open>The two ways in which \<^verbatim>\<open>add_heap_memory\<close> extends the chain at its last chunk \<^verbatim>\<open>f\<close>.\<close>

definition fresh_chunk :: "u64 \<Rightarrow> u64 \<Rightarrow> chunk" where
  "fresh_chunk p n = \<lparr>c_addr = p, c_size = ucast (n - 24), c_flags = IS_FREE OR IS_FINAL,
     c_end = unat p + unat n\<rparr>"

definition fresh_mem :: "u64 \<Rightarrow> u64 \<Rightarrow> mem \<Rightarrow> mem" where
  "fresh_mem p n m =
     set_magic p MAGIC (set_n p 0 (set_flags p (IS_FREE OR IS_FINAL) (set_size p (ucast (n - 24)) m)))"

lemma fresh_flags: "is_free (c_flags (fresh_chunk p n))" "is_final (c_flags (fresh_chunk p n))"
  by (simp_all add: fresh_chunk_def is_free_bit is_final_bit IS_FREE_def IS_FINAL_def bit_simps)

lemma fresh_mem_hdr:
  assumes "region p 24"
  shows "hdr (fresh_mem p n m) p = (MAGIC, ucast (n - 24), IS_FREE OR IS_FINAL, 0)"
    and "same_outside (span p 24) m (fresh_mem p n m)"
proof -
  show "hdr (fresh_mem p n m) p = (MAGIC, ucast (n - 24), IS_FREE OR IS_FINAL, 0)"
    by (simp add: fresh_mem_def hdr_set(1) [OF assms] field_set [OF assms])
  show "same_outside (span p 24) m (fresh_mem p n m)"
    unfolding fresh_mem_def by (intro set_same_outside_trans(1,3,4) set_same_outside(2) assms)
qed

lemma fresh_chunk_wf:
  assumes "p \<noteq> 0" and "unat p + unat n < 2 ^ 64" and "24 \<le> unat n" and "unat n < 2 ^ 32"
  shows "chunk_wf (fresh_chunk p n)" "unat (c_size (fresh_chunk p n)) = unat n - 24"
    "extent (fresh_chunk p n) = span p (unat n)"
proof -
  have "unat (n - 24) = unat n - 24" using assms(3) by (simp add: unat_sub_le)
  moreover from this have "unat (ucast (n - 24) :: u32) = unat n - 24"
    using assms(4) by (simp add: unsigned_ucast_eq take_bit_nat_eq_self)
  ultimately show "unat (c_size (fresh_chunk p n)) = unat n - 24" by (simp add: fresh_chunk_def)
  then show "chunk_wf (fresh_chunk p n)" using assms by (simp add: chunk_wf_def fresh_chunk_def)
  show "extent (fresh_chunk p n) = span p (unat n)" by (simp add: extent_def fresh_chunk_def)
qed

lemma add_heap_memory_eq:
  "add_heap_memory ksbrk n st = do {
     let a = grow_size n;
     (st, p) \<leftarrow> ksbrk a st;
     (if p = 0 then Some (st, False)
      else do {
        let st = st\<lparr>ktotal := ktotal st + ucast (a - 24)\<rparr>;
        let f = kfinal st;
        c_assert (f \<noteq> 0);
        Some (if is_free (hdr_flags (kmem st) f) \<and> p = f + 24 + ucast (hdr_size (kmem st) f)
          then st\<lparr>kmem := set_size f (hdr_size (kmem st) f + ucast (a - 24)) (kmem st)\<rparr>
          else st\<lparr>kmem := set_n f p (fresh_mem p a (kmem st)), kfinal := p\<rparr>, True)
      })
   }"
  by (cases "ksbrk (grow_size n) st")
    (auto simp: add_heap_memory_def fresh_mem_def HEADER_def Let_def)

text \<open>The last chunk grows in place.\<close>

lemma grow_last:
  fixes n :: u64
  assumes chain: "chain_ok m (xs @ [f])" and free: "is_free (c_flags f)"
    and p: "p = c_addr f + 24 + ucast (c_size f)" and fits: "unat p + unat n < 2 ^ 64"
    and new: "span p (unat n) \<inter> extents (xs @ [f]) = {}" and n: "24 \<le> unat n"
    and room: "unat (c_size f) + unat n < 2 ^ 32"
  defines "f' \<equiv> f\<lparr>c_size := c_size f + ucast (n - 24), c_end := unat p + unat n\<rparr>"
  shows "chain_ok (set_size (c_addr f) (c_size f + ucast (n - 24)) m) (xs @ [f'])"
    and "extent f' = extent f \<union> span p (unat n)" and "c_end f = unat p"
    and "unat (c_size f') = unat (c_size f) + unat n - 24"
proof -
  have wf: "chunk_wf f" using chain by (simp add: chain_ok_def)
  have pu: "unat p = unat (c_addr f) + 24 + unat (c_size f)"
  proof -
    have b: "unat (c_addr f) + 24 + unat (c_size f) < 2 ^ 64" using wf by (simp add: chunk_wf_def)
    then have "unat (c_addr f + 24) = unat (c_addr f) + 24" by (subst unat_add_le) simp_all
    then show ?thesis using b unfolding p by (subst unat_add_le) (simp_all add: unat_ucast_u32)
  qed
  show ce: "c_end f = unat p"
  proof (rule ccontr)
    assume "c_end f \<noteq> unat p"
    then have "unat p \<in> extent f" using wf pu by (auto simp: chunk_wf_def extent_def)
    moreover have "unat p \<in> span p (unat n)" using n by simp
    ultimately have "unat p \<in> span p (unat n) \<inter> extents (xs @ [f])" by simp
    then show False by (simp only: new empty_iff)
  qed
  have sub: "unat (n - 24) = unat n - 24" using n by (simp add: unat_sub_le)
  have "unat (ucast (n - 24) :: u32) = unat n - 24"
    using room sub by (simp add: unsigned_ucast_eq take_bit_nat_eq_self)
  then show size: "unat (c_size f') = unat (c_size f) + unat n - 24"
    using room n by (simp add: f'_def unat_add_le)
  show ext: "extent f' = extent f \<union> span p (unat n)"
    using ce wf by (auto simp: f'_def extent_def chunk_wf_def)
  have wf': "chunk_wf f'" using wf size fits pu n by (simp add: chunk_wf_def f'_def)
  have reg: "region (c_addr f) 24" using wf by (rule chunk_wf_region)
  have last: "chain_ok m [f]" using chain by (rule chain_ok_append)
  have chain': "chain_ok (set_size (c_addr f) (c_size f + ucast (n - 24)) m) [f']"
    using last wf' chain_hdr [OF last]
    by (simp add: chain_ok_def f'_def hdr_set(2) [OF reg] separate_Cons)
  show "chain_ok (set_size (c_addr f) (c_size f + ucast (n - 24)) m) (xs @ [f'])"
  proof (rule chain_ok_replace [OF chain chain' _ _ _ set_same_outside(2) [OF reg]])
    show "start [f'] = start [f]" by (simp add: f'_def)
    have "extents xs \<inter> extent f = {}" using chain by (simp add: chain_ok_def separate_append)
    then show "span (c_addr f) 24 \<inter> extents xs = {}" "extents [f'] \<inter> extents xs = {}"
      using chunk_wf_span [OF wf] ext new by auto
  qed simp_all
qed

text \<open>A new region is linked behind the last chunk.\<close>

lemma grow_new:
  assumes chain: "chain_ok m (xs @ [f])" and p: "p \<noteq> 0" and fits: "unat p + unat n < 2 ^ 64"
    and new: "span p (unat n) \<inter> extents (xs @ [f]) = {}" and n: "24 \<le> unat n" "unat n < 2 ^ 32"
  shows "chain_ok (set_n (c_addr f) p (fresh_mem p n m)) (xs @ [f, fresh_chunk p n])"
proof -
  let ?c = "fresh_chunk p n" and ?m = "set_n (c_addr f) p (fresh_mem p n m)"
  have wf: "chunk_wf f" using chain by (simp add: chain_ok_def)
  note c = fresh_chunk_wf [OF p fits n]
  have reg: "region (c_addr f) 24" "region p 24"
    using wf chunk_wf_region [OF c(1)] by (simp_all add: chunk_wf_region fresh_chunk_def)
  have "span p 24 \<subseteq> span p (unat n)" using n(1) by auto
  moreover have "extent f \<subseteq> extents (xs @ [f])" by simp
  ultimately have sp: "span p 24 \<inter> span (c_addr f) 24 = {}" "span (c_addr f) 24 \<inter> span p 24 = {}"
    using new chunk_wf_span [OF wf] by blast+
  note fm = fresh_mem_hdr [OF reg(2), where n = n and m = m]
  have last: "chain_ok m [f]" using chain by (rule chain_ok_append)
  have hf: "hdr (fresh_mem p n m) (c_addr f) = hdr m (c_addr f)"
    by (rule hdr_same_outside [OF fm(2) reg(1) sp(1)])
  have "hdr ?m p = hdr (fresh_mem p n m) p"
    by (rule hdr_same_outside [OF set_same_outside(4) [OF reg(1)] reg(2) sp(2)])
  then have hp: "hdr ?m p = (MAGIC, c_size ?c, c_flags ?c, 0)" using fm(1) by (simp add: fresh_chunk_def)
  have hf': "hdr ?m (c_addr f) = (MAGIC, c_size f, c_flags f, p)"
    using hf chain_hdr [OF last] by (simp add: hdr_set(4) [OF reg(1)]) (simp add: hdr_def)
  have "extent f \<inter> extent ?c = {}" using new c(3) by auto
  then have chain': "chain_ok ?m [f, ?c]"
    using last hp hf' c(1) fresh_flags [of p n]
    by (simp add: chain_ok_def separate_Cons) (simp add: fresh_chunk_def)
  have same: "same_outside (span p 24 \<union> span (c_addr f) 24) m ?m"
    by (rule same_outside_trans [OF fm(2) set_same_outside(4) [OF reg(1)] subset_refl])
  show ?thesis
  proof (rule chain_ok_replace [OF chain chain' _ _ _ same])
    have "extents xs \<inter> extent f = {}" using chain by (simp add: chain_ok_def separate_append)
    then show "(span p 24 \<union> span (c_addr f) 24) \<inter> extents xs = {}" "extents [f, ?c] \<inter> extents xs = {}"
      using chunk_wf_span [OF wf] c(3) new n(1) by auto
  qed simp_all
qed

text \<open>
  \<^verbatim>\<open>heap_moves\<close>: one heap becomes another, the frame kept; only newly owned memory may be added.
\<close>

definition heap_moves :: "('k \<Rightarrow> nat set) \<Rightarrow> 'k kheap \<Rightarrow> chunk list \<Rightarrow> 'k kheap \<Rightarrow> chunk list \<Rightarrow> bool" where
  "heap_moves owned st cs st' cs' \<longleftrightarrow> heap_ok owned st' cs' \<and> kframe owned st cs st' \<and>
     owned (kbrk st) \<subseteq> owned (kbrk st') \<and> extents cs' \<inter> owned (kbrk st) \<subseteq> extents cs"

lemma heap_moves_trans:
  assumes a: "heap_moves owned st cs st1 cs1" and b: "heap_moves owned st1 cs1 st2 cs2"
    and "live cs = live cs1"
  shows "heap_moves owned st cs st2 cs2"
proof -
  have "kframe owned st cs st2"
    using a b payload_live [OF assms(3)] unfolding heap_moves_def
    by (blast intro: kframe_trans [of owned st cs st1 cs1])
  moreover have "owned (kbrk st) \<subseteq> owned (kbrk st2)" "extents cs2 \<inter> owned (kbrk st) \<subseteq> extents cs"
    using a b unfolding heap_moves_def by blast+
  ultimately show ?thesis using b unfolding heap_moves_def by blast
qed

lemma heap_moves_step:
  assumes "heap_ok owned st cs" and "heap_ok owned st' cs'" and "heap_step (free_space cs) st st'"
    and "extents cs' \<subseteq> extents cs"
  shows "heap_moves owned st cs st' cs'"
  using assms kframe_step [OF assms(1,3)] by (auto simp: heap_moves_def heap_step_def)

lemma headers_not_payload:
  assumes "chain_ok m cs" and "c \<in> set cs"
  shows "span (c_addr c) 24 \<subseteq> extents cs - payload cs"
proof -
  have wf: "list_all chunk_wf cs" and sep: "separate cs" using assms(1) by (simp_all add: chain_ok_def)
  obtain us vs where cs: "cs = us @ c # vs" using assms(2) by (meson split_list)
  have sub: "payload us \<subseteq> extents us" "payload vs \<subseteq> extents vs"
    using wf cs by (simp_all add: payload_extents)
  have "extent c \<inter> extents us = {}" "extent c \<inter> extents vs = {}"
    using sep cs by (auto simp: separate_append separate_Cons)
  moreover have "span (c_addr c) 24 \<subseteq> extent c" using wf cs by (simp add: chunk_wf_span)
  ultimately have "span (c_addr c) 24 \<inter> (payload us \<union> payload vs) = {}" using sub by blast
  then show ?thesis using \<open>span (c_addr c) 24 \<subseteq> extent c\<close> cs by (auto simp: payload_Cons split: if_splits)
qed

lemma chain_ok_same_outside:
  assumes "chain_ok m cs" and "same_outside S m m'" and "S \<inter> extents cs = {}"
  shows "chain_ok m' cs"
  using assms linked_same_outside [OF assms(2,3)] by (simp add: chain_ok_def)

text \<open>What \<^verbatim>\<open>ksbrk\<close> leaves behind, before the new memory is linked in.\<close>

lemma sbrk_ok_heap:
  assumes "heap_ok owned st cs" and "sbrk_ok owned good ksbrk" and "ksbrk n st = Some (st1, p)"
    and "good n (kbrk st)"
  shows "heap_ok owned st1 cs" "heap_moves owned st cs st1 cs"
    "p \<noteq> 0 \<Longrightarrow> unat p + unat n < 2 ^ 64 \<and> span p (unat n) \<subseteq> owned (kbrk st1) - owned (kbrk st)"
proof -
  have F: "khead st1 = khead st \<and> kfinal st1 = kfinal st \<and> ktotal st1 = ktotal st \<and>
        owned (kbrk st) \<subseteq> owned (kbrk st1) \<and>
        same_outside (- owned (kbrk st)) (kmem st) (kmem st1) \<and>
        (p \<noteq> 0 \<longrightarrow> unat p + unat n < 2 ^ 64 \<and>
           span p (unat n) \<subseteq> owned (kbrk st1) - owned (kbrk st))"
    using assms(2) [unfolded sbrk_ok_def, rule_format, OF assms(4)] unfolding assms(3) option.inject prod.inject
    by (elim exE conjE) (intro conjI; simp)
  note sb = F [THEN conjunct1] F [THEN conjunct2, THEN conjunct1]
    F [THEN conjunct2, THEN conjunct2, THEN conjunct2, THEN conjunct1]
    F [THEN conjunct2, THEN conjunct2, THEN conjunct2, THEN conjunct2, THEN conjunct1]
  have p: "p \<noteq> 0 \<Longrightarrow> unat p + unat n < 2 ^ 64 \<and> span p (unat n) \<subseteq> owned (kbrk st1) - owned (kbrk st)"
    using F by blast
  show "p \<noteq> 0 \<Longrightarrow> unat p + unat n < 2 ^ 64 \<and> span p (unat n) \<subseteq> owned (kbrk st1) - owned (kbrk st)"
    by (rule p)
  have ext: "extents cs \<subseteq> owned (kbrk st)" using assms(1) by (simp add: heap_ok_def)
  have "chain_ok (kmem st1) cs"
    using assms(1) sb(4) ext unfolding heap_ok_def by (blast intro: chain_ok_same_outside)
  then show ok: "heap_ok owned st1 cs" using assms(1) sb ext unfolding heap_ok_def by simp
  have "kframe owned st cs st1" using sb(4) by (auto simp: kframe_def same_outside_def)
  then show "heap_moves owned st cs st1 cs" using ok sb(3) unfolding heap_moves_def by blast
qed

lemma heap_bytes_member: "c \<in> set cs \<Longrightarrow> c_end c - unat (c_addr c) \<le> heap_bytes cs"
  by (induction cs) auto

text \<open>The memory that the two ways of growing write to.\<close>

lemma grow_frame:
  assumes ok: "heap_ok owned st (xs @ [f])" and new: "span p n \<inter> owned K = {}"
    and same: "same_outside (span p n \<union> span (c_addr f) 24) (kmem st) m'"
    and x: "unat x \<in> owned K" "unat x \<notin> extents (xs @ [f]) - payload (xs @ [f])"
  shows "m' x = kmem st x"
proof -
  have "span (c_addr f) 24 \<subseteq> extents (xs @ [f]) - payload (xs @ [f])"
    using ok by (intro headers_not_payload [of "kmem st"]) (simp_all add: heap_ok_def)
  then have "unat x \<notin> span p n \<union> span (c_addr f) 24" using x new by blast
  then show ?thesis using same unfolding same_outside_def by blast
qed

lemma grow_finish:
  assumes moves: "heap_moves owned st (xs @ [f]) st1 (xs @ [f])"
    and chain: "chain_ok (kmem st2) (xs @ fs)" and fs: "fs \<noteq> []" "start fs = c_addr f"
    and st2: "kfinal st2 = c_addr (last fs)" "khead st2 = khead st1" "kbrk st2 = kbrk st1"
    and same: "same_outside (span p n \<union> span (c_addr f) 24) (kmem st1) (kmem st2)"
    and sp: "span p n \<subseteq> owned (kbrk st1) - owned (kbrk st)"
    and ext: "extents fs \<subseteq> extent f \<union> span p n"
  shows "heap_moves owned st (xs @ [f]) st2 (xs @ fs)"
proof -
  have m: "heap_ok owned st1 (xs @ [f])" "kframe owned st (xs @ [f]) st1"
      "owned (kbrk st) \<subseteq> owned (kbrk st1)"
    using moves unfolding heap_moves_def by blast+
  have "start (xs @ fs) = start (xs @ [f])" using fs by (simp add: start_append)
  moreover have "extents (xs @ [f]) \<subseteq> owned (kbrk st1)" using m(1) by (simp add: heap_ok_def)
  moreover from this have "extents (xs @ fs) \<subseteq> owned (kbrk st1)"
    using ext sp unfolding extents_simps by blast
  ultimately have "heap_ok owned st2 (xs @ fs)"
    using m(1) chain fs st2 unfolding heap_ok_def by simp
  moreover have "kframe owned st (xs @ [f]) st2"
    unfolding kframe_def
  proof (intro allI impI)
    fix x :: u64
    assume x: "unat x \<in> owned (kbrk st) \<and> unat x \<notin> extents (xs @ [f]) - payload (xs @ [f])"
    have "span p n \<inter> owned (kbrk st) = {}" using sp by blast
    then have "kmem st2 x = kmem st1 x" using grow_frame [OF m(1) _ same] x by blast
    then show "kmem st2 x = kmem st x" using m(2) x unfolding kframe_def by simp
  qed
  moreover have "extents (xs @ fs) \<inter> owned (kbrk st) \<subseteq> extents (xs @ [f])"
    using ext sp unfolding extents_simps by blast
  ultimately show ?thesis using m(3) st2 unfolding heap_moves_def by simp
qed

definition refuses :: "'k sbrk \<Rightarrow> u64 \<Rightarrow> 'k \<Rightarrow> bool" where
  "refuses ksbrk n k \<longleftrightarrow> (\<exists>st st'. kbrk st = k \<and> ksbrk n st = Some (st', 0))"

text \<open>The page source after at most one request for \<^verbatim>\<open>n\<close> bytes.\<close>

definition drew :: "'k sbrk \<Rightarrow> u64 \<Rightarrow> 'k \<Rightarrow> 'k \<Rightarrow> bool" where
  "drew ksbrk n k k' \<longleftrightarrow> k' = k \<or> (\<exists>st st' p. kbrk st = k \<and> ksbrk n st = Some (st', p) \<and> kbrk st' = k')"

definition has_room :: "u64 \<Rightarrow> chunk list \<Rightarrow> bool" where
  "has_room n cs \<longleftrightarrow> (\<exists>c \<in> set cs. is_free (c_flags c) \<and> unat n + 24 \<le> unat (c_size c))"

lemma add_heap_memory_ok:
  assumes ok: "heap_ok owned st cs" and sbrk: "sbrk_ok owned good ksbrk"
    and good: "good (grow_size n) (kbrk st)"
    and n: "unat n \<le> 0xFFF00000" and room: "heap_bytes cs + unat (grow_size n) < 2 ^ 32"
  shows "\<exists>st' r cs'. add_heap_memory ksbrk n st = Some (st', r) \<and> heap_moves owned st cs st' cs' \<and>
    live cs' = live cs \<and> drew ksbrk (grow_size n) (kbrk st) (kbrk st') \<and>
    (if r then heap_bytes cs' = heap_bytes cs + unat (grow_size n) \<and> has_room n cs'
      else cs' = cs \<and> refuses ksbrk (grow_size n) (kbrk st))"
proof -
  let ?a = "grow_size n"
  note g = grow_size_bounds [OF n]
  obtain st1 p where st1: "ksbrk ?a st = Some (st1, p)" using sbrk good by (force simp: sbrk_ok_def)
  note h = sbrk_ok_heap [OF ok sbrk st1 good]
  have drew: "drew ksbrk ?a (kbrk st) (kbrk st1)" using st1 unfolding drew_def by blast
  show ?thesis
  proof (cases "p = 0")
    case True
    then have "refuses ksbrk ?a (kbrk st)" using st1 unfolding refuses_def by blast
    then show ?thesis using True st1 h(2) drew by (auto simp: add_heap_memory_eq Let_def)
  next
    case False
    obtain xs f where cs: "cs = xs @ [f]" using ok by (cases cs rule: rev_cases) (auto simp: heap_ok_def)
    have ok1: "heap_ok owned st1 (xs @ [f])" using h(1) cs by simp
    have chain: "chain_ok (kmem st1) (xs @ [f])" using ok1 by (simp add: heap_ok_def)
    have fin: "kfinal st1 = c_addr f" using ok1 by (simp add: heap_ok_def)
    have last: "chain_ok (kmem st1) [f]" using chain by (rule chain_ok_append)
    have wf: "chunk_wf f" using last by (rule chain_wf)
    have fits: "unat p + unat ?a < 2 ^ 64" and sp: "span p (unat ?a) \<subseteq> owned (kbrk st1) - owned (kbrk st)"
      using h(3) [OF False] by blast+
    have ext: "extents (xs @ [f]) \<subseteq> owned (kbrk st)" using ok cs by (simp add: heap_ok_def)
    have new: "span p (unat ?a) \<inter> extents (xs @ [f]) = {}" using sp ext by blast
    have a24: "24 \<le> unat ?a" using g by simp
    have nz: "c_addr f \<noteq> 0" using wf by (simp add: chunk_wf_def)
    have h2: "heap_moves owned st (xs @ [f]) st1 (xs @ [f])" using h(2) cs by simp
    note hf = chain_hdr [OF last]
    have reg: "region (c_addr f) 24" using wf by (rule chunk_wf_region)
    have bytes: "24 + unat (c_size f) \<le> c_end f - unat (c_addr f)"
      using wf unfolding chunk_wf_def by linarith
    show ?thesis
    proof (cases "is_free (c_flags f) \<and> p = c_addr f + 24 + ucast (c_size f)")
      case True
      let ?f = "f\<lparr>c_size := c_size f + ucast (?a - 24), c_end := unat p + unat ?a\<rparr>"
      let ?st = "st1\<lparr>kmem := set_size (c_addr f) (c_size f + ucast (?a - 24)) (kmem st1),
        ktotal := ktotal st1 + ucast (?a - 24)\<rparr>"
      have "unat (c_size f) + unat ?a < 2 ^ 32" using room bytes cs by simp
      note gl = grow_last [OF chain conjunct1 [OF True] conjunct2 [OF True] fits new a24 this]
      have "heap_moves owned st (xs @ [f]) ?st (xs @ [?f])"
      proof (rule grow_finish [OF h2 _ _ _ _ _ _ _ sp])
        show "same_outside (span p (unat ?a) \<union> span (c_addr f) 24) (kmem st1) (kmem ?st)"
          using same_outside_mono [OF set_same_outside(2) [OF reg]] by simp
      qed (use gl(1,2) fin in simp_all)
      moreover have "heap_bytes (xs @ [?f]) = heap_bytes cs + unat ?a"
        using gl(3) wf cs by (simp add: chunk_wf_def)
      moreover have "unat n + 24 \<le> unat (c_size ?f)" using gl(4) g by linarith
      then have "has_room n (xs @ [?f])" using True by (simp add: has_room_def)
      moreover have "add_heap_memory ksbrk n st = Some (?st, True)"
        using st1 False True fin nz hf by (simp add: add_heap_memory_eq Let_def)
      ultimately show ?thesis using cs True drew by (intro exI [of _ ?st] exI [of _ True] exI [of _ "xs @ [?f]"]) simp
    next
      case no: False
      let ?c = "fresh_chunk p ?a"
      let ?st = "st1\<lparr>kmem := set_n (c_addr f) p (fresh_mem p ?a (kmem st1)), kfinal := p,
        ktotal := ktotal st1 + ucast (?a - 24)\<rparr>"
      note gn = grow_new [OF chain False fits new a24 g(2)]
      note fc = fresh_chunk_wf [OF False fits a24 g(2)]
      have sm: "same_outside (span p (unat ?a) \<union> span (c_addr f) 24) (kmem st1)
          (set_n (c_addr f) p (fresh_mem p ?a (kmem st1)))" if "region p 24"
        using a24 by (intro same_outside_trans [OF fresh_mem_hdr(2) [OF that] set_same_outside(4) [OF reg]]) auto
      have rp: "region p 24" using fits a24 by (simp add: region_def)
      have "heap_moves owned st (xs @ [f]) ?st (xs @ [f, ?c])"
      proof (rule grow_finish [OF h2 _ _ _ _ _ _ _ sp])
        show "same_outside (span p (unat ?a) \<union> span (c_addr f) 24) (kmem st1) (kmem ?st)"
          using sm [OF rp] by simp
        show "kfinal ?st = c_addr (last [f, ?c])" by (simp add: fresh_chunk_def)
      qed (use gn fc in simp_all)
      moreover have "heap_bytes (xs @ [f, ?c]) = heap_bytes cs + unat ?a"
        using cs by (simp add: fresh_chunk_def)
      moreover have "unat n + 24 \<le> unat (c_size ?c)" using fc(2) g by linarith
      then have "has_room n (xs @ [f, ?c])" using fresh_flags [of p ?a] by (simp add: has_room_def)
      moreover have "add_heap_memory ksbrk n st = Some (?st, True)"
        using st1 False no fin nz hf by (cases st1) (auto simp: add_heap_memory_eq Let_def)
      moreover have "live (xs @ [f, ?c]) = live cs" using cs fresh_flags [of p ?a] by simp
      ultimately show ?thesis using cs drew by (intro exI [of _ ?st] exI [of _ True] exI [of _ "xs @ [f, ?c]"]) simp
    qed
  qed
qed

section \<open>Allocation\<close>

text \<open>
  \<^verbatim>\<open>reserved\<close>: all memory that has an owner other than the allocator, blocks in use included.
  \<^verbatim>\<open>block_given\<close> is the contract of a successful allocation.
\<close>

definition reserved :: "('k \<Rightarrow> nat set) \<Rightarrow> 'k kheap \<Rightarrow> chunk list \<Rightarrow> nat set" where
  "reserved owned st cs = owned (kbrk st) - (extents cs - payload cs)"

definition block_given ::
  "('k \<Rightarrow> nat set) \<Rightarrow> u64 \<Rightarrow> 'k kheap \<Rightarrow> chunk list \<Rightarrow> 'k kheap \<Rightarrow> u64 \<Rightarrow> chunk list \<Rightarrow> bool" where
  "block_given owned n st cs st' rc cs' \<longleftrightarrow>
     heap_moves owned st cs st' cs' \<and> rc \<noteq> 0 \<and> region rc (unat n) \<and>
     live cs' = insert (rc - 24, ucast n) (live cs) \<and> (\<forall>s. (rc - 24, s) \<notin> live cs) \<and>
     span rc (unat n) \<subseteq> owned (kbrk st') - reserved owned st cs"

lemma reserved_moves:
  assumes "heap_moves owned st cs st1 cs1" and "live cs = live cs1"
  shows "reserved owned st cs \<subseteq> reserved owned st1 cs1"
  using assms(1) payload_live [OF assms(2)] unfolding heap_moves_def reserved_def by blast

lemma block_given_after:
  assumes "heap_moves owned st cs st1 cs1" and "live cs = live cs1"
    and "block_given owned n st1 cs1 st' rc cs'"
  shows "block_given owned n st cs st' rc cs'"
proof -
  have "heap_moves owned st cs st' cs'"
    using heap_moves_trans [OF assms(1) _ assms(2)] assms(3) unfolding block_given_def by blast
  then show ?thesis
    using assms(2,3) reserved_moves [OF assms(1,2)] unfolding block_given_def by auto
qed

lemma live_member: "(a, s) \<in> live cs \<longleftrightarrow> (\<exists>c \<in> set cs. c_addr c = a \<and> c_size c = s \<and> \<not> is_free (c_flags c))"
  by (auto simp: live_def)

lemma live_other:
  assumes "chain_ok m (xs @ c # ys)"
  shows "(c_addr c, s) \<notin> live xs \<union> live ys"
  using chain_addr_distinct [OF assms] by (auto simp: live_member)

lemma carve_gives:
  assumes ok: "heap_ok owned st cs" and c: "c \<in> set cs" "is_free (c_flags c)" and n: "unat n + 24 \<le> unat (c_size c)"
  shows "\<exists>st' cs'. carve (c_addr c) n st = Some (st', c_addr c + 24) \<and>
    block_given owned n st cs st' (c_addr c + 24) cs' \<and> heap_bytes cs' = heap_bytes cs \<and> kbrk st' = kbrk st"
proof -
  obtain xs ys where cs: "cs = xs @ c # ys" using c(1) by (meson split_list)
  obtain st' r rs where r: "carve (c_addr c) n st = Some (st', c_addr c + 24)"
      "heap_ok owned st' (xs @ used_chunk c n # r # rs)" "heap_step (extent c) st st'"
      "absorbs r rs (rest_chunk c n) ys"
    using carve_ok [OF ok [unfolded cs] c(2) n] by blast
  let ?cs = "xs @ used_chunk c n # r # rs"
  have chain: "chain_ok (kmem st) cs" using ok by (simp add: heap_ok_def)
  have wf: "chunk_wf c" using chain cs by (simp add: chain_ok_def)
  note cut = cut_sizes [OF wf n]
  have ab: "extents (r # rs) = extent (rest_chunk c n) \<union> extents ys"
      "live (r # rs) = live (rest_chunk c n # ys)" "heap_bytes (r # rs) = heap_bytes (rest_chunk c n # ys)"
    using absorbs_facts [OF r(4)] by auto
  have ext: "extents ?cs = extents cs" using ab(1) cut(5) unfolding cs extents_simps by blast
  have "heap_step (free_space cs) st st'" using r(3) c(2) cs by (auto intro: heap_step_mono)
  then have moves: "heap_moves owned st cs st' ?cs" by (rule heap_moves_step [OF ok r(2)]) (simp only: ext)
  have a24: "unat (c_addr c + 24) = unat (c_addr c) + 24"
    using unat_field [of "c_addr c" 0] wf by (subst unat_add_le) (simp_all add: chunk_wf_def)
  have live: "live ?cs = insert (c_addr c, ucast n) (live cs)"
    using ab(2) c(2) cs by (auto simp: used_chunk_def rest_chunk_def is_free_def)
  have new: "(c_addr c, s) \<notin> live cs" for s
    using live_other [of "kmem st" xs c ys s] chain cs c(2) by simp
  have sub: "span (c_addr c + 24) (unat n) \<subseteq> extent c" using a24 wf n by (auto simp: extent_def chunk_wf_def)
  have "extent c \<subseteq> free_space cs" using c(2) cs by auto
  moreover have "free_space cs \<inter> payload cs = {}" using chain by (simp add: free_space_payload chain_ok_def)
  moreover have "extent c \<subseteq> extents cs" using cs by auto
  moreover have "extents cs \<subseteq> owned (kbrk st)" "kbrk st' = kbrk st"
    using ok r(3) by (simp_all add: heap_ok_def heap_step_def)
  moreover have "A \<subseteq> O' - (O1 - (E - P))" if "A \<subseteq> C" "C \<subseteq> F" "F \<inter> P = {}" "C \<subseteq> E" "E \<subseteq> O1" "O' = O1"
    for A C F P E O1 O' :: "nat set"
    using that by blast
  ultimately have "span (c_addr c + 24) (unat n) \<subseteq> owned (kbrk st') - reserved owned st cs"
    using sub unfolding reserved_def by simp
  moreover have "region (c_addr c + 24) (unat n)" using a24 wf n by (simp add: region_def chunk_wf_def)
  moreover have "c_addr c + 24 \<noteq> 0" using a24 by (metis add_is_0 unat_0 zero_neq_numeral)
  ultimately have "block_given owned n st cs st' (c_addr c + 24) ?cs"
    using moves live new unfolding block_given_def by simp
  moreover have "heap_bytes ?cs = heap_bytes cs"
    using ab(3) cs cut(2) wf n by (simp add: used_chunk_def rest_chunk_def chunk_wf_def)
  moreover have "kbrk st' = kbrk st" using r(3) by (simp add: heap_step_def)
  ultimately show ?thesis using r(1) by blast
qed

lemma find_free_entry_eq:
  assumes ok: "heap_ok owned st cs" and n: "unat n \<le> 0xFFF00000"
  obtains req where "find_free_entry ksbrk (ucast n) st = find_loop req (start cs) st"
    and "unat req = unat n + 24"
proof
  let ?req = "ucast (ucast n + 24 :: u32) :: u64"
  have "unat (ucast n :: u32) = unat n" using n by (simp add: unsigned_ucast_eq take_bit_nat_eq_self)
  then have "unat (ucast n + 24 :: u32) = unat n + 24" using n by (simp add: unat_add_le)
  then show "unat ?req = unat n + 24" by (simp add: unat_ucast_u32)
  have "start cs \<noteq> 0"
    using ok by (cases cs) (auto simp: heap_ok_def chain_ok_def chunk_wf_def)
  then show "find_free_entry ksbrk (ucast n) st = find_loop ?req (start cs) st"
    using ok by (simp add: find_free_entry_def heap_ok_def HEADER_def Let_def)
qed

text \<open>
  One pass of \<^verbatim>\<open>int_kmalloc\<close>: either it cuts the block off a chunk that fits, or no chunk fits and
  the heap, merged, is unchanged otherwise.
\<close>

lemma int_kmalloc_pass:
  assumes ok: "heap_ok owned st cs" and n: "unat n \<le> 0xFFF00000" and bytes: "heap_bytes cs < 2 ^ 32"
  obtains (found) st' rc cs' where "\<And>ksbrk. int_kmalloc ksbrk n st = Some (st', rc)"
      "block_given owned n st cs st' rc cs'" "heap_bytes cs' = heap_bytes cs" "kbrk st' = kbrk st"
    | (full) st' cs' where "\<And>ksbrk. find_free_entry ksbrk (ucast n) st = Some (st', 0)"
      "heap_moves owned st cs st' cs'" "live cs' = live cs" "heap_bytes cs' = heap_bytes cs"
      "\<not> has_room n cs" "kbrk st' = kbrk st"
proof -
  obtain req where req: "\<And>ksbrk. find_free_entry ksbrk (ucast n) st = find_loop req (start cs) st"
      "unat req = unat n + 24"
    using find_free_entry_eq [OF ok n] by (metis (no_types, lifting) word_unat_eq_iff)
  obtain st1 fe cs1 where f: "find_loop req (start cs) st = Some (st1, fe)" "heap_ok owned st1 cs1"
      "heap_step (free_space cs) st st1" "extents cs1 = extents cs" "live cs1 = live cs" "free_space cs1 = free_space cs"
      "heap_bytes cs1 = heap_bytes cs" and
      r: "if fe = 0 then heap_bytes cs < 2 ^ 32 \<longrightarrow>
          (\<forall>c \<in> set cs. is_free (c_flags c) \<longrightarrow> unat (c_size c) < unat req)
        else \<exists>c \<in> set cs1. c_addr c = fe \<and> is_free (c_flags c) \<and> unat req \<le> unat (c_size c)"
    using find_loop_ok [of owned st "[]" cs req] ok by auto
  have moves: "heap_moves owned st cs st1 cs1"
    using f(4) by (intro heap_moves_step [OF ok f(2,3)]) simp
  show ?thesis
  proof (cases "fe = 0")
    case True
    then have "\<not> has_room n cs" using r bytes req(2) by (auto simp: has_room_def)
    then show ?thesis using full [of st1 cs1] f True req(1) moves by (simp add: heap_step_def)
  next
    case False
    then obtain c where c: "c \<in> set cs1" "c_addr c = fe" "is_free (c_flags c)" "unat n + 24 \<le> unat (c_size c)"
      using r req(2) by auto
    obtain st' cs' where g: "carve fe n st1 = Some (st', fe + 24)"
        "block_given owned n st1 cs1 st' (fe + 24) cs'" "heap_bytes cs' = heap_bytes cs1" "kbrk st' = kbrk st1"
      using carve_gives [OF f(2) c(1,3,4)] c(2) by auto
    have "int_kmalloc ksbrk n st = Some (st', fe + 24)" for ksbrk
      using False f(1) req(1) g(1) by (subst int_kmalloc.simps) simp
    moreover have "block_given owned n st cs st' (fe + 24) cs'"
      using block_given_after [OF moves _ g(2)] f(5) by simp
    moreover have "kbrk st' = kbrk st" using g(4) f(3) by (simp add: heap_step_def)
    ultimately show ?thesis using found [of st' "fe + 24" cs'] g(3) f(7) by simp
  qed
qed

lemma block_given_fill:
  assumes given: "block_given owned n st cs st' rc cs'" and n: "unat n < 2 ^ 32"
    and step: "heap_step (span rc (unat n)) st' st2" and fin: "kfinal st2 = kfinal st'"
  shows "block_given owned n st cs st2 rc cs'"
proof -
  have g: "heap_moves owned st cs st' cs'" "live cs' = insert (rc - 24, ucast n) (live cs)"
      "span rc (unat n) \<subseteq> owned (kbrk st') - reserved owned st cs"
    using given unfolding block_given_def by blast+
  have m: "heap_ok owned st' cs'" "kframe owned st cs st'" "kbrk st2 = kbrk st'"
    using g(1) step unfolding heap_moves_def heap_step_def by blast+
  obtain c where c: "c \<in> set cs'" "c_addr c = rc - 24" "c_size c = ucast n"
    using g(2) live_member [of "rc - 24" "ucast n" cs'] by auto
  have size: "unat (c_size c) = unat n" using n c(3) by (simp add: unsigned_ucast_eq take_bit_nat_eq_self)
  have "chunk_wf c" using m(1) c(1) by (simp add: heap_ok_def chain_ok_def list_all_iff)
  then have "unat (c_addr c) + 24 < 2 ^ 64" by (simp add: chunk_wf_def)
  then have "unat (c_addr c + 24) = unat (c_addr c) + 24" by (subst unat_add_le) simp_all
  then have rc: "unat rc = unat (c_addr c) + 24" using c(2) by simp
  have "heap_ok owned st2 cs'"
    by (rule heap_ok_payload [OF m(1) c(1) _ step fin]) (simp add: rc size)
  moreover have "kframe owned st cs st2"
    unfolding kframe_def
  proof (intro allI impI)
    fix x :: u64
    assume x: "unat x \<in> owned (kbrk st) \<and> unat x \<notin> extents cs - payload cs"
    then have "unat x \<notin> span rc (unat n)" using g(3) unfolding reserved_def by blast
    then have "kmem st2 x = kmem st' x" using step unfolding heap_step_def same_outside_def by blast
    then show "kmem st2 x = kmem st x" using m(2) x unfolding kframe_def by simp
  qed
  ultimately show ?thesis using given m(3) unfolding block_given_def heap_moves_def by simp
qed

lemma block_given_region: "block_given owned n st cs st' rc cs' \<Longrightarrow> region rc (unat n)"
  by (simp add: block_given_def)

text \<open>
  The result of an allocation: a block, or null when no chunk fits and the page source refuses.
\<close>

definition alloc_result ::
  "'k sbrk \<Rightarrow> ('k \<Rightarrow> nat set) \<Rightarrow> u64 \<Rightarrow> 'k kheap \<Rightarrow> chunk list \<Rightarrow> 'k kheap \<Rightarrow> u64 \<Rightarrow> chunk list \<Rightarrow> bool" where
  "alloc_result ksbrk owned n st cs st' rc cs' \<longleftrightarrow>
     (if rc = 0 then \<not> has_room n cs \<and> refuses ksbrk (grow_size n) (kbrk st) \<and>
        heap_moves owned st cs st' cs' \<and> live cs' = live cs
      else block_given owned n st cs st' rc cs') \<and>
     (has_room n cs \<longrightarrow> kbrk st' = kbrk st) \<and> drew ksbrk (grow_size n) (kbrk st) (kbrk st') \<and>
     heap_bytes cs' \<le> heap_bytes cs + unat (grow_size n)"

lemma finish_kmalloc_result:
  assumes "alloc_result ksbrk owned n st cs st' rc cs'" and "unat n < 2 ^ 32"
  shows "\<exists>st2. finish_kmalloc n (st', rc) = (st2, rc) \<and> alloc_result ksbrk owned n st cs st2 rc cs'"
proof (cases "rc = 0")
  case True
  then show ?thesis using assms by (simp add: finish_kmalloc_def)
next
  case False
  then have g: "block_given owned n st cs st' rc cs'" using assms(1) by (simp add: alloc_result_def)
  have "block_given owned n st cs (fill_random rc n st') rc cs'"
    using block_given_fill [OF g assms(2) fill_random_step [OF block_given_region [OF g]]] .
  moreover have "kbrk (fill_random rc n st') = kbrk st'"
    by (simp add: fill_random_def split: prod.splits)
  ultimately show ?thesis using assms(1) False by (simp add: finish_kmalloc_def alloc_result_def)
qed

lemma int_kmalloc_ok:
  assumes ok: "heap_ok owned st cs" and sbrk: "sbrk_ok owned good ksbrk"
    and good: "good (grow_size n) (kbrk st)"
    and n: "unat n \<le> 0xFFF00000" and room: "heap_bytes cs + unat (grow_size n) < 2 ^ 32"
  shows "\<exists>st' rc cs'. int_kmalloc ksbrk n st = Some (st', rc) \<and> alloc_result ksbrk owned n st cs st' rc cs'"
proof -
  have "heap_bytes cs < 2 ^ 32" using room by simp
  with ok n show ?thesis
  proof (cases rule: int_kmalloc_pass)
    case (found st' rc cs')
    moreover from this have "rc \<noteq> 0" by (simp add: block_given_def)
    ultimately show ?thesis by (auto simp: alloc_result_def drew_def)
  next
    case (full st1 cs1)
    have ok1: "heap_ok owned st1 cs1" using full(2) by (simp add: heap_moves_def)
    have room1: "heap_bytes cs1 + unat (grow_size n) < 2 ^ 32" using room full(4) by simp
    obtain st2 r cs2 where a: "add_heap_memory ksbrk n st1 = Some (st2, r)" "heap_moves owned st1 cs1 st2 cs2"
        "live cs2 = live cs1" "drew ksbrk (grow_size n) (kbrk st1) (kbrk st2)"
        "if r then heap_bytes cs2 = heap_bytes cs1 + unat (grow_size n) \<and> has_room n cs2
       else cs2 = cs1 \<and> refuses ksbrk (grow_size n) (kbrk st1)"
      using add_heap_memory_ok [OF ok1 sbrk _ n room1] good full(6) by auto
    have m2: "heap_moves owned st cs st2 cs2" using heap_moves_trans [OF full(2) a(2)] full(3) by simp
    have l2: "live cs = live cs2" using full(3) a(3) by simp
    show ?thesis
    proof (cases r)
      case False
      then have "int_kmalloc ksbrk n st = Some (st2, 0)"
        using full(1) a(1) by (subst int_kmalloc.simps) simp
      then show ?thesis using m2 l2 full(4-6) a(4,5) False by (auto simp: alloc_result_def)
    next
      case True
      have ok2: "heap_ok owned st2 cs2" using m2 by (simp add: heap_moves_def)
      have "heap_bytes cs2 < 2 ^ 32" using a(5) True room1 by simp
      with ok2 n show ?thesis
      proof (cases rule: int_kmalloc_pass)
        case (found st3 rc cs3)
        have "rc \<noteq> 0" using found(2) by (simp add: block_given_def)
        moreover have "block_given owned n st cs st3 rc cs3" using block_given_after [OF m2 l2 found(2)] .
        ultimately have "alloc_result ksbrk owned n st cs st3 rc cs3"
          using found(3,4) a(4,5) full(4-6) True by (simp add: alloc_result_def)
        then obtain st4 where "finish_kmalloc n (st3, rc) = (st4, rc)" "alloc_result ksbrk owned n st cs st4 rc cs3"
          using finish_kmalloc_result n by fastforce
        moreover have "int_kmalloc ksbrk n st = Some (finish_kmalloc n (st3, rc))"
          using full(1) a(1) True found(1) by (subst int_kmalloc.simps) simp
        ultimately show ?thesis by auto
      next
        case full
        then show ?thesis using a(5) True by simp
      qed
    qed
  qed
qed

section \<open>Release\<close>

definition freed :: "chunk \<Rightarrow> chunk" where
  "freed c = c\<lparr>c_flags := c_flags c OR IS_FREE\<rparr>"

lemma freed_simps:
  "c_addr (freed c) = c_addr c" "c_size (freed c) = c_size c" "c_end (freed c) = c_end c"
  "extent (freed c) = extent c" "is_free (c_flags (freed c))"
  "is_final (c_flags (freed c)) \<longleftrightarrow> is_final (c_flags c)" "chunk_wf (freed c) \<longleftrightarrow> chunk_wf c"
  by (simp_all add: freed_def extent_def chunk_wf_def is_free_bit is_final_bit IS_FREE_def bit_simps)

lemma chain_free:
  assumes chain: "chain_ok m (c # ys)"
  shows "chain_ok (set_flags (c_addr c) (c_flags c OR IS_FREE) m) (freed c # ys)"
proof -
  have wf: "chunk_wf c" using chain by (rule chain_wf)
  have reg: "region (c_addr c) 24" using wf by (rule chunk_wf_region)
  note same = set_same_outside(3) [OF reg, where m = m and f = "c_flags c OR IS_FREE"]
  have "span (c_addr c) 24 \<inter> extents ys = {}"
    using chain chunk_wf_span [OF wf] by (auto simp: chain_ok_def separate_Cons)
  then have "linked (set_flags (c_addr c) (c_flags c OR IS_FREE) m) ys"
    using chain linked_same_outside [OF same] by (simp add: chain_ok_def)
  moreover have "adjoining (freed c # ys)"
    using chain freed_simps by (cases ys) (simp_all add: chain_ok_def)
  ultimately show ?thesis
    using chain chain_hdr [OF chain] freed_simps
    by (simp add: chain_ok_def separate_Cons hdr_set(3) [OF reg]) (simp add: freed_def)
qed

lemma kfree_ok:
  assumes ok: "heap_ok owned st cs" and live: "(p - 24, s) \<in> live cs"
  shows "\<exists>st' cs'. kfree p st = Some st' \<and> heap_ok owned st' cs' \<and>
    live cs' = live cs - {(p - 24, s)} \<and> heap_bytes cs' = heap_bytes cs \<and> extents cs' \<subseteq> extents cs \<and>
    heap_step (extents cs - (payload cs - span p (unat s))) st st' \<and>
    is_free (hdr_flags (kmem st') (p - 24))"
proof -
  obtain c where c: "c \<in> set cs" "c_addr c = p - 24" "c_size c = s" "\<not> is_free (c_flags c)"
    using live by (auto simp: live_member)
  obtain xs ys where cs: "cs = xs @ c # ys" using c(1) by (meson split_list)
  have ok': "heap_ok owned st (xs @ c # ys)" using ok cs by simp
  have chain: "chain_ok (kmem st) (xs @ c # ys)" using ok' by (simp add: heap_ok_def)
  have ch: "chain_ok (kmem st) (c # ys)" using chain by (rule chain_ok_append)
  have wf: "chunk_wf c" using ch by (rule chain_wf)
  have "unat (c_addr c) + 24 < 2 ^ 64" using wf by (simp add: chunk_wf_def)
  then have "unat (c_addr c + 24) = unat (c_addr c) + 24" by (subst unat_add_le) simp_all
  then have p: "unat p = unat (c_addr c) + 24" using c(2) by simp
  then have pnz: "p \<noteq> 0" by auto
  have sp: "span p (unat s) \<subseteq> extent c" using p wf c(3) by (auto simp: extent_def chunk_wf_def)
  have reg: "region p (unat s)" using p wf c(3) by (simp add: region_def chunk_wf_def)
  let ?n = "ucast s :: u64"
  have n: "unat ?n = unat s" by (rule unat_ucast_u32)
  define st1 where "st1 = fill_random p ?n st"
  have f: "heap_step (span p (unat s)) st st1" "kfinal st1 = kfinal st"
    using fill_random_step [of p ?n st] reg n by (simp_all add: st1_def)
  have ok1: "heap_ok owned st1 (xs @ c # ys)"
    by (rule heap_ok_payload [OF ok' _ _ f, of c]) (simp_all add: p c(3))
  have ch1: "chain_ok (kmem st1) (c # ys)" using ok1 by (rule heap_ok_suffix)
  define st2 where "st2 = st1\<lparr>kmem := set_flags (c_addr c) (c_flags c OR IS_FREE) (kmem st1)\<rparr>"
  have ch2: "chain_ok (kmem st2) (freed c # ys)" using chain_free [OF ch1] by (simp add: st2_def)
  have "kfinal st2 = c_addr (last (freed c # ys))"
    using ok1 by (simp add: st2_def heap_ok_def freed_simps)
  then obtain st3 b zs r where m: "merge_headers (c_addr c) st2 = Some (st3, r)" "chain_ok (kmem st3) (b # zs)"
      "kfinal st3 = c_addr (last (b # zs))" "absorbs b zs (freed c) ys" "heap_step (span (c_addr c) 24) st2 st3"
    using merge_suffix [OF ch2] by (auto simp: freed_simps)
  note ab = absorbs_facts [OF m(4)]
  have s2: "heap_step (span (c_addr c) 24) st1 st2"
    using set_same_outside(3) [OF chunk_wf_region [OF wf]] by (simp add: heap_step_def st2_def)
  have s3: "heap_step (span (c_addr c) 24) st1 st3" by (rule heap_step_trans [OF s2 m(5)]) simp
  have hdrs: "span (c_addr c) 24 \<subseteq> extent c" using wf by (rule chunk_wf_span)
  have "heap_ok owned st3 (xs @ b # zs)"
  proof (rule heap_ok_replace [OF ok1 m(2) _ _ _ s3])
    show "start (b # zs) = start (c # ys)" using ab(1) by (simp add: freed_simps)
    show "span (c_addr c) 24 \<inter> extents xs = {}"
      using chain hdrs by (auto simp: chain_ok_def separate_append)
    show "extents (b # zs) \<subseteq> extents (c # ys)" using ab(3) by (simp add: freed_simps)
  qed (use m(3) in simp_all)
  moreover have "live (xs @ b # zs) = live cs - {(p - 24, s)}"
  proof -
    have "live (b # zs) = live ys" using ab(5) by (simp add: freed_simps)
    then show ?thesis using live_other [OF chain, of s] c(2-4) cs by auto
  qed
  moreover have "heap_bytes (xs @ b # zs) = heap_bytes cs" using ab(6) cs by (simp add: freed_simps)
  moreover have "extents (xs @ b # zs) \<subseteq> extents cs" using ab(3) cs by (auto simp: freed_simps)
  moreover have "heap_step (extents cs - (payload cs - span p (unat s))) st st3"
  proof (rule heap_step_trans [OF f(1) s3])
    have "span (c_addr c) 24 \<subseteq> extents cs - payload cs"
      using chain c(1) cs by (intro headers_not_payload [of "kmem st"]) simp_all
    moreover have "extent c \<subseteq> extents cs" using cs by auto
    ultimately show "span p (unat s) \<union> span (c_addr c) 24 \<subseteq> extents cs - (payload cs - span p (unat s))"
      using sp by blast
  qed
  moreover have "is_free (hdr_flags (kmem st3) (p - 24))"
    using chain_hdr(3) [OF m(2)] ab(1,2) c(2) by (simp add: freed_simps)
  moreover have "kfree p st = Some st3"
    using chain_hdr [OF ch] chain_hdr [OF ch1] c(2-4) pnz m(1)
    by (simp add: kfree_def HEADER_def Let_def st2_def st1_def)
  ultimately show ?thesis by blast
qed

section \<open>The first chunk\<close>

lemma sbrk_ok_elim:
  assumes "sbrk_ok owned good ksbrk" and "good n (kbrk st)"
  obtains st' p where "ksbrk n st = Some (st', p)" and "owned (kbrk st) \<subseteq> owned (kbrk st')"
    and "same_outside (- owned (kbrk st)) (kmem st) (kmem st')"
    and "p \<noteq> 0 \<Longrightarrow> unat p + unat n < 2 ^ 64 \<and> span p (unat n) \<subseteq> owned (kbrk st') - owned (kbrk st)"
  using assms unfolding sbrk_ok_def by blast

lemma kmalloc_init_ok:
  assumes sbrk: "sbrk_ok owned good ksbrk" and good: "good NEW_ALLOC_SIZE (kbrk st)"
  shows "\<exists>st' ok. kmalloc_init ksbrk st = Some (st', ok) \<and> owned (kbrk st) \<subseteq> owned (kbrk st') \<and>
    drew ksbrk NEW_ALLOC_SIZE (kbrk st) (kbrk st') \<and>
    (\<forall>x. unat x \<in> owned (kbrk st) \<longrightarrow> kmem st' x = kmem st x) \<and>
    (ok \<longrightarrow> (\<exists>c. heap_ok owned st' [c] \<and> is_free (c_flags c) \<and> unat (c_size c) = 0x40000 - 24 \<and>
       heap_bytes [c] = 0x40000 \<and> extent c \<inter> owned (kbrk st) = {}))"
proof -
  obtain st1 p where p: "ksbrk 0x40000 st = Some (st1, p)"
      "same_outside (- owned (kbrk st)) (kmem st) (kmem st1)"
      "p \<noteq> 0 \<Longrightarrow> unat p + unat (0x40000 :: u64) < 2 ^ 64 \<and>
        span p (unat (0x40000 :: u64)) \<subseteq> owned (kbrk st1) - owned (kbrk st)"
      "owned (kbrk st) \<subseteq> owned (kbrk st1)"
    by (rule sbrk_ok_elim [OF sbrk good [unfolded NEW_ALLOC_SIZE_def]]) (rule that)
  have drew: "drew ksbrk NEW_ALLOC_SIZE (kbrk st) (kbrk st1)" using p(1) unfolding drew_def NEW_ALLOC_SIZE_def by blast
  have keep: "kmem st1 x = kmem st x" if "unat x \<in> owned (kbrk st)" for x
    using p(2) that unfolding same_outside_def by blast
  show ?thesis
  proof (cases "p = 0")
    case True
    then show ?thesis using p(1,4) drew keep
      by (intro exI [of _ "st1\<lparr>khead := 0\<rparr>"] exI [of _ False]) (simp add: kmalloc_init_def NEW_ALLOC_SIZE_def)
  next
    case False
    let ?c = "fresh_chunk p 0x40000"
    have q: "unat p + unat (0x40000 :: u64) < 2 ^ 64" "span p 0x40000 \<subseteq> owned (kbrk st1) - owned (kbrk st)"
      using p(3) [OF False] by auto
    have n: "24 \<le> unat (0x40000 :: u64)" "unat (0x40000 :: u64) < 2 ^ 32" by simp_all
    note c = fresh_chunk_wf [OF False q(1) n]
    have reg: "region p 24" using q(1) by (simp add: region_def)
    define m' where "m' = set_n p 0 (set_flags p (IS_FREE OR IS_FINAL)
      (set_size p (ucast (0x40000 - 24 :: u64)) (set_magic p MAGIC (kmem st1))))"
    have hdr: "hdr m' p = (MAGIC, ucast (0x40000 - 24 :: u64), IS_FREE OR IS_FINAL, 0)"
      by (simp add: m'_def hdr_set(4) [OF reg] field_set [OF reg])
    have same: "same_outside (span p 24) (kmem st1) m'"
      unfolding m'_def by (intro set_same_outside_trans(2,3,4) set_same_outside(1) reg)
    define st2 where "st2 = st1\<lparr>khead := p, ktotal := ktotal st1 + ucast (0x40000 - 24 :: u64),
      kmem := m', kfinal := p\<rparr>"
    have "kmalloc_init ksbrk st = Some (st2, True)"
      using p(1) False by (simp add: kmalloc_init_def NEW_ALLOC_SIZE_def HEADER_def Let_def st2_def m'_def)
    moreover have "heap_ok owned st2 [?c]"
      using c hdr q fresh_flags [of p "0x40000"]
      by (simp add: heap_ok_def chain_ok_def separate_Cons st2_def) (auto simp: fresh_chunk_def)
    moreover have "kmem st2 x = kmem st x" if "unat x \<in> owned (kbrk st)" for x
    proof -
      have "span p 24 \<subseteq> span p 0x40000" by auto
      then have "unat x \<notin> span p 24" using that q(2) by blast
      then show ?thesis using same keep [OF that] by (simp add: same_outside_def st2_def)
    qed
    moreover have "extent ?c \<inter> owned (kbrk st) = {}" using c(3) q(2) by auto
    ultimately show ?thesis
      using p(4) drew c(2) fresh_flags [of p "0x40000"]
      by (intro exI [of _ st2] exI [of _ True]) (auto simp: fresh_chunk_def st2_def)
  qed
qed

end
