(* ===== verification/HeapClient.thy ===== *)
theory HeapClient
  imports Kmalloc
begin

text \<open>
  What users of the kernel heap may rely on: the contracts of \<^verbatim>\<open>kmalloc\<close> and \<^verbatim>\<open>kfree\<close>, and every
  interleaving of allocations, releases and writes to allocated blocks.
\<close>

section \<open>Clients of the heap\<close>

text \<open>
  \<^verbatim>\<open>heap_run good ksbrk st0 st B u\<close>: from \<^verbatim>\<open>st0\<close>, after \<^verbatim>\<open>kmalloc_init\<close> and any number of calls, the
  heap is in state \<^verbatim>\<open>st\<close>, \<^verbatim>\<open>B\<close> are the blocks (address, size) handed out and not yet released, and
  the heap has not grown beyond \<^verbatim>\<open>u\<close> bytes.  Clients write to their blocks only.
\<close>

inductive heap_run ::
  "(u64 \<Rightarrow> 'k \<Rightarrow> bool) \<Rightarrow> 'k sbrk \<Rightarrow> 'k kheap \<Rightarrow> 'k kheap \<Rightarrow> (u64 \<times> u64) set \<Rightarrow> nat \<Rightarrow> bool"
  for good :: "u64 \<Rightarrow> 'k \<Rightarrow> bool" and ksbrk :: "'k sbrk" and st0 :: "'k kheap" where
  boot: "good NEW_ALLOC_SIZE (kbrk st0) \<Longrightarrow> kmalloc_init ksbrk st0 = Some (st, True) \<Longrightarrow>
    heap_run good ksbrk st0 st {} 0x40000"
| alloc: "heap_run good ksbrk st0 st B u \<Longrightarrow> unat n \<le> 0xFFF00000 \<Longrightarrow>
    u + unat (grow_size n) < 2 ^ 32 \<Longrightarrow> good (grow_size n) (kbrk st) \<Longrightarrow>
    kmalloc ksbrk n st = Some (st', rc) \<Longrightarrow>
    heap_run good ksbrk st0 st' (if rc = 0 then B else insert (rc, n) B) (u + unat (grow_size n))"
| release: "heap_run good ksbrk st0 st B u \<Longrightarrow> (p, n) \<in> B \<Longrightarrow> kfree p st = Some st' \<Longrightarrow>
    heap_run good ksbrk st0 st' (B - {(p, n)}) u"
| store: "heap_run good ksbrk st0 st B u \<Longrightarrow> (p, n) \<in> B \<Longrightarrow>
    same_outside (span p (unat n)) (kmem st) m \<Longrightarrow>
    heap_run good ksbrk st0 (st\<lparr>kmem := m\<rparr>) B u"

definition block_of :: "u64 \<times> u64 \<Rightarrow> u64 \<times> u32" where
  "block_of b = (fst b - 24, ucast (snd b))"

text \<open>\<^verbatim>\<open>base\<close> is memory that was taken before the heap was set up.\<close>

definition client_ok :: "('k \<Rightarrow> nat set) \<Rightarrow> nat set \<Rightarrow> 'k kheap \<Rightarrow> (u64 \<times> u64) set \<Rightarrow> nat \<Rightarrow> bool" where
  "client_ok owned base st B u \<longleftrightarrow> (\<exists>cs. heap_ok owned st cs \<and> live cs = block_of ` B \<and>
     heap_bytes cs \<le> u \<and> extents cs \<inter> base = {}) \<and> base \<subseteq> owned (kbrk st) \<and> (\<forall>b \<in> B. unat (snd b) \<le> 0xFFF00000)"

lemma unat_ucast_small: "unat n \<le> 0xFFF00000 \<Longrightarrow> unat (ucast n :: u32) = unat n" for n :: u64
  by (simp add: unsigned_ucast_eq take_bit_nat_eq_self)

lemma block_of_inj:
  assumes "unat (snd b) \<le> 0xFFF00000" and "unat (snd c) \<le> 0xFFF00000" and "block_of b = block_of c"
  shows "b = c"
proof -
  have "unat (snd b) = unat (snd c)"
    using assms unat_ucast_small [of "snd b"] unat_ucast_small [of "snd c"] by (simp add: block_of_def)
  then have "snd b = snd c" by (rule word_unat_eq_iff [THEN iffD2])
  then show ?thesis using assms(3) by (simp add: block_of_def prod_eq_iff)
qed

text \<open>A block of a heap lies behind its header.\<close>

lemma live_block:
  assumes ok: "heap_ok owned st cs" and b: "(p - 24, s) \<in> live cs"
  obtains c where "c \<in> set cs" "c_addr c = p - 24" "c_size c = s" "\<not> is_free (c_flags c)" "chunk_wf c"
    "unat p = unat (c_addr c) + 24" "span p (unat s) \<subseteq> extent c"
proof -
  obtain c where c: "c \<in> set cs" "c_addr c = p - 24" "c_size c = s" "\<not> is_free (c_flags c)"
    using b by (auto simp: live_member)
  have wf: "chunk_wf c" using ok c(1) by (simp add: heap_ok_def chain_ok_def list_all_iff)
  then have "unat (c_addr c) + 24 < 2 ^ 64" by (simp add: chunk_wf_def)
  then have "unat (c_addr c + 24) = unat (c_addr c) + 24" by (subst unat_add_le) simp_all
  then have p: "unat p = unat (c_addr c) + 24" using c(2) by simp
  then have "span p (unat s) \<subseteq> extent c" using wf c(3) by (auto simp: extent_def chunk_wf_def)
  then show ?thesis using that c wf p by blast
qed

lemma live_disjoint:
  assumes ok: "heap_ok owned st cs" and b: "(p - 24, s) \<in> live cs" and c: "(q - 24, t) \<in> live cs"
    and ne: "(p, s) \<noteq> (q, t)"
  shows "span p (unat s) \<inter> span q (unat t) = {}"
proof -
  obtain d where d: "d \<in> set cs" "c_addr d = p - 24" "c_size d = s" "span p (unat s) \<subseteq> extent d"
    by (rule live_block [OF ok b]) (rule that)
  obtain e where e: "e \<in> set cs" "c_addr e = q - 24" "c_size e = t" "span q (unat t) \<subseteq> extent e"
    by (rule live_block [OF ok c]) (rule that)
  have "d \<noteq> e" using ne d e by auto
  moreover obtain us vs where cs: "cs = us @ d # vs" using d(1) by (meson split_list)
  ultimately have "e \<in> set us \<union> set vs" using e(1) by auto
  then have "extent d \<inter> extent e = {}"
    using ok cs by (auto simp: heap_ok_def chain_ok_def separate_append separate_Cons extents_def)
  then show ?thesis using d(4) e(4) by blast
qed

lemma kmalloc_ok:
  assumes "heap_ok owned st cs" and "sbrk_ok owned good ksbrk" and "good (grow_size n) (kbrk st)"
    and n: "unat n \<le> 0xFFF00000" and "heap_bytes cs + unat (grow_size n) < 2 ^ 32"
  shows "\<exists>st' rc cs'. kmalloc ksbrk n st = Some (st', rc) \<and> alloc_result ksbrk owned n st cs st' rc cs'"
proof -
  obtain st1 rc cs' where r: "int_kmalloc ksbrk n st = Some (st1, rc)" "alloc_result ksbrk owned n st cs st1 rc cs'"
    using int_kmalloc_ok [OF assms] by blast
  then obtain st2 where "finish_kmalloc n (st1, rc) = (st2, rc)" "alloc_result ksbrk owned n st cs st2 rc cs'"
    using finish_kmalloc_result n by fastforce
  then show ?thesis using r(1) by (auto simp: kmalloc_def)
qed

lemma client_ok_free:
  assumes ok: "client_ok owned base st B u" and b: "(p, n) \<in> B"
  shows "\<exists>st'. kfree p st = Some st' \<and> client_ok owned base st' (B - {(p, n)}) u \<and> kbrk st' = kbrk st"
proof -
  obtain cs where cs: "heap_ok owned st cs" "live cs = block_of ` B" "heap_bytes cs \<le> u" "extents cs \<inter> base = {}"
    using ok unfolding client_ok_def by blast
  have small: "\<forall>b \<in> B. unat (snd b) \<le> 0xFFF00000" using ok by (simp add: client_ok_def)
  have "(p - 24, ucast n) \<in> live cs" using b cs(2) by (force simp: block_of_def)
  then obtain st' cs' where r: "kfree p st = Some st'" "heap_ok owned st' cs'"
      "live cs' = live cs - {(p - 24, ucast n)}" "heap_bytes cs' = heap_bytes cs" "extents cs' \<subseteq> extents cs"
      "kbrk st' = kbrk st"
    using kfree_ok [OF cs(1)] unfolding heap_step_def by blast
  have "inj_on block_of B" by (rule inj_onI) (use block_of_inj small in blast)
  then have "live cs' = block_of ` (B - {(p, n)})"
    using r(3) cs(2) b inj_on_image_set_diff [of block_of B B "{(p, n)}"] by (simp add: block_of_def)
  moreover have "extents cs' \<inter> base = {}" using r(5) cs(4) by blast
  ultimately have "client_ok owned base st' (B - {(p, n)}) u"
    using r cs(3) small ok unfolding client_ok_def by auto
  then show ?thesis using r(1,6) by blast
qed

lemma client_ok_store:
  assumes ok: "client_ok owned base st B u" and b: "(p, n) \<in> B"
    and m: "same_outside (span p (unat n)) (kmem st) m"
  shows "client_ok owned base (st\<lparr>kmem := m\<rparr>) B u"
proof -
  obtain cs where cs: "heap_ok owned st cs" "live cs = block_of ` B" "heap_bytes cs \<le> u" "extents cs \<inter> base = {}"
    using ok unfolding client_ok_def by blast
  have small: "\<forall>b \<in> B. unat (snd b) \<le> 0xFFF00000" using ok by (simp add: client_ok_def)
  have "unat (ucast n :: u32) = unat n" using b small unat_ucast_small [of n] by auto
  moreover have "(p - 24, ucast n) \<in> live cs" using b cs(2) by (force simp: block_of_def)
  then obtain c where c: "c \<in> set cs" "c_size c = ucast n" "unat p = unat (c_addr c) + 24"
    by (rule live_block [OF cs(1)]) (rule that)
  moreover have "heap_step (span p (unat n)) st (st\<lparr>kmem := m\<rparr>)" using m by (simp add: heap_step_def)
  ultimately have "heap_ok owned (st\<lparr>kmem := m\<rparr>) cs"
    by (intro heap_ok_payload [OF cs(1) c(1)]) simp_all
  then show ?thesis using cs ok unfolding client_ok_def by auto
qed

text \<open>The blocks of clients do not overlap and lie in memory that was taken since the heap was set up.\<close>

lemma client_live:
  assumes ok: "client_ok owned base st B u" and b: "(p, n) \<in> B"
  shows "unat (ucast n :: u32) = unat n" and "heap_ok owned st cs \<Longrightarrow> live cs = block_of ` B \<Longrightarrow> (p - 24, ucast n) \<in> live cs"
proof -
  have "unat n \<le> 0xFFF00000" using assms by (auto simp: client_ok_def)
  then show "unat (ucast n :: u32) = unat n" by (rule unat_ucast_small)
  show "(p - 24, ucast n) \<in> live cs" if "live cs = block_of ` B" using b that by (force simp: block_of_def)
qed

lemma client_block:
  assumes ok: "client_ok owned base st B u" and b: "(p, n) \<in> B"
  shows "p \<noteq> 0" and "region p (unat n)" and "span p (unat n) \<subseteq> owned (kbrk st) - base"
proof -
  obtain cs where cs: "heap_ok owned st cs" "live cs = block_of ` B" "extents cs \<inter> base = {}"
    using ok unfolding client_ok_def by blast
  obtain d where d: "d \<in> set cs" "unat p = unat (c_addr d) + 24" "span p (unat n) \<subseteq> extent d" "chunk_wf d"
      "c_size d = ucast n"
    by (rule live_block [OF cs(1) client_live(2) [OF ok b cs(1,2)]]) (use client_live(1) [OF ok b] in \<open>auto intro: that\<close>)
  have "extent d \<subseteq> owned (kbrk st) - base" using cs(1,3) d(1) by (auto simp: heap_ok_def extents_def)
  then show "span p (unat n) \<subseteq> owned (kbrk st) - base" using d(3) by blast
  show "p \<noteq> 0" using d(2) by auto
  have "unat (c_size d) = unat n" using d(5) client_live(1) [OF ok b] by simp
  then show "region p (unat n)" using d(2,4) by (simp add: region_def chunk_wf_def)
qed

lemma client_disjoint:
  assumes ok: "client_ok owned base st B u" and b: "(p, n) \<in> B" and c: "(q, k) \<in> B" and ne: "(p, n) \<noteq> (q, k)"
  shows "span p (unat n) \<inter> span q (unat k) = {}"
proof -
  obtain cs where cs: "heap_ok owned st cs" "live cs = block_of ` B"
    using ok unfolding client_ok_def by blast
  note n = client_live(1) [OF ok b] client_live(1) [OF ok c]
  have "(p, ucast n :: u32) \<noteq> (q, ucast k)"
  proof
    assume "(p, ucast n :: u32) = (q, ucast k)"
    then have "p = q" "unat n = unat k" using n by simp_all
    then show False using ne word_unat_eq_iff [of n k] by simp
  qed
  then show ?thesis
    using live_disjoint [OF cs(1) client_live(2) [OF ok b cs] client_live(2) [OF ok c cs]] n by simp
qed

text \<open>
  What follows from the contract of the page source alone: every reachable heap is well-formed and
  keeps out of memory that was taken before it was set up, and the source has moved by requests it
  was \<^verbatim>\<open>good\<close> for.
\<close>

locale page_source =
  fixes owned :: "'k \<Rightarrow> nat set" and good :: "u64 \<Rightarrow> 'k \<Rightarrow> bool" and ksbrk :: "'k sbrk"
  assumes source: "sbrk_ok owned good ksbrk"
begin

lemma client_ok_step:
  assumes "client_ok owned base st B u" and "good (grow_size n) (kbrk st)"
    and n: "unat n \<le> 0xFFF00000" and u: "u + unat (grow_size n) < 2 ^ 32"
  shows "\<exists>st' rc. kmalloc ksbrk n st = Some (st', rc) \<and>
    client_ok owned base st' (if rc = 0 then B else insert (rc, n) B) (u + unat (grow_size n)) \<and>
    drew ksbrk (grow_size n) (kbrk st) (kbrk st')"
proof -
  obtain cs where cs: "heap_ok owned st cs" "live cs = block_of ` B" "heap_bytes cs \<le> u" "extents cs \<inter> base = {}"
    using assms(1) unfolding client_ok_def by blast
  have "heap_bytes cs + unat (grow_size n) < 2 ^ 32" using cs(3) u by linarith
  then obtain st' rc cs' where r: "kmalloc ksbrk n st = Some (st', rc)" "alloc_result ksbrk owned n st cs st' rc cs'"
    using kmalloc_ok [OF cs(1) source assms(2) n] by blast
  have moves: "heap_moves owned st cs st' cs'"
    using r(2) unfolding alloc_result_def block_given_def by (simp split: if_splits)
  have "heap_bytes cs' \<le> u + unat (grow_size n)" "drew ksbrk (grow_size n) (kbrk st) (kbrk st')"
    using r(2) cs(3) by (simp_all add: alloc_result_def)
  moreover have "heap_ok owned st' cs'" using moves by (simp add: heap_moves_def)
  moreover have "live cs' = block_of ` (if rc = 0 then B else insert (rc, n) B)"
    using r(2) cs(2) unfolding alloc_result_def block_given_def by (auto simp: block_of_def)
  moreover have "extents cs' \<inter> base = {}" "base \<subseteq> owned (kbrk st')"
    using moves cs(4) assms(1) unfolding heap_moves_def client_ok_def by blast+
  ultimately have "client_ok owned base st' (if rc = 0 then B else insert (rc, n) B) (u + unat (grow_size n))"
    using assms(1) n unfolding client_ok_def by auto
  then show ?thesis using r(1) \<open>drew ksbrk (grow_size n) (kbrk st) (kbrk st')\<close> by blast
qed

lemma run_ok:
  assumes "heap_run good ksbrk st0 st B u"
  shows "client_ok owned (owned (kbrk st0)) st B u"
  using assms
proof (induction rule: heap_run.induct)
  case (boot st)
  then obtain c where c: "heap_ok owned st [c]" "is_free (c_flags c)" "heap_bytes [c] = 0x40000"
      "extent c \<inter> owned (kbrk st0) = {}" "owned (kbrk st0) \<subseteq> owned (kbrk st)"
    using kmalloc_init_ok [OF source boot(1)] by auto
  moreover have "live [c] = {}" using c(2) by (simp add: live_def)
  moreover have "extents [c] = extent c" by (simp add: extents_def)
  ultimately show ?case unfolding client_ok_def by (intro conjI exI [of _ "[c]"]) auto
next
  case (alloc st B u n st' rc)
  then show ?case using client_ok_step [OF alloc.IH alloc(4,2,3)] by auto
next
  case (release st B u p n st')
  then show ?case using client_ok_free [OF release.IH release(2)] by auto
next
  case (store st B u p n m)
  then show ?case using client_ok_store by blast
qed

lemma run_source:
  assumes "heap_run good ksbrk st0 st B u"
    and step: "\<And>n k k'. good n k \<Longrightarrow> drew ksbrk n k k' \<Longrightarrow> R k k'" and "\<And>k. R k k"
    and trans: "\<And>k1 k2 k3. R k1 k2 \<Longrightarrow> R k2 k3 \<Longrightarrow> R k1 k3"
  shows "R (kbrk st0) (kbrk st)"
  using assms(1)
proof (induction rule: heap_run.induct)
  case (boot st)
  then show ?case using kmalloc_init_ok [OF source boot(1)] step [OF boot(1)] by auto
next
  case (alloc st B u n st' rc)
  then have "drew ksbrk (grow_size n) (kbrk st) (kbrk st')"
    using client_ok_step [OF run_ok [OF alloc(1)] alloc(4,2,3)] by auto
  then show ?case using step [OF alloc(4)] trans [OF alloc.IH] by blast
next
  case (release st B u p n st')
  then have "kbrk st' = kbrk st" using client_ok_free [OF run_ok [OF release(1)] release(2)] by auto
  then show ?case using release.IH by simp
qed simp

end

section \<open>The contracts\<close>

text \<open>
  C13 (kmalloc_gives_block): On a well-formed heap, and as long as fewer than four gigabytes are in
  play, \<^verbatim>\<open>kmalloc\<close> returns. Either it delivers a block of exactly the requested size, in memory that
  no one else owns and apart from every block in use, or null, and then no free chunk was large
  enough and the page source refused to grow the heap. In both cases the heap stays well-formed, all blocks in use stay in use, and all memory
  that belongs to others, the contents of the blocks in use included, is unchanged.
\<close>

theorem kmalloc_gives_block:
  assumes "heap_ok owned st cs" and "sbrk_ok owned good ksbrk" and "good (grow_size n) (kbrk st)"
    and "unat n \<le> 0xFFF00000" and "heap_bytes cs + unat (grow_size n) < 2 ^ 32"
  shows "\<exists>st' rc cs'. kmalloc ksbrk n st = Some (st', rc) \<and> heap_ok owned st' cs' \<and>
    (\<forall>x. unat x \<in> owned (kbrk st) - (extents cs - payload cs) \<longrightarrow> kmem st' x = kmem st x) \<and>
    (if rc = 0 then \<not> has_room n cs \<and> refuses ksbrk (grow_size n) (kbrk st) \<and> live cs' = live cs
     else live cs' = insert (rc - 24, ucast n) (live cs) \<and> (\<forall>s. (rc - 24, s) \<notin> live cs) \<and>
       unat rc + unat n \<le> 2 ^ 64 \<and>
       span rc (unat n) \<subseteq> owned (kbrk st') - (owned (kbrk st) - (extents cs - payload cs)))"
proof -
  obtain st' rc cs' where r: "kmalloc ksbrk n st = Some (st', rc)" "alloc_result ksbrk owned n st cs st' rc cs'"
    using kmalloc_ok [OF assms] by blast
  have "heap_moves owned st cs st' cs'"
    using r(2) unfolding alloc_result_def block_given_def by (simp split: if_splits)
  then have "heap_ok owned st' cs'" "kframe owned st cs st'" unfolding heap_moves_def by blast+
  then show ?thesis
    using r unfolding alloc_result_def block_given_def kframe_def reserved_def region_def
    by (intro exI [of _ st'] exI [of _ rc] exI [of _ cs']) (simp split: if_splits)
qed

text \<open>
  C14 (kfree_releases): \<^verbatim>\<open>kfree\<close> of a block in use returns; exactly that block leaves the set of blocks
  in use, only its own bytes and the allocator's headers and free space may change, and a second
  \<^verbatim>\<open>kfree\<close> of the same address fails an assertion.
\<close>

theorem kfree_releases:
  assumes "heap_ok owned st cs" and "(p - 24, s) \<in> live cs"
  shows "\<exists>st' cs'. kfree p st = Some st' \<and> heap_ok owned st' cs' \<and>
    live cs' = live cs - {(p - 24, s)} \<and> heap_bytes cs' = heap_bytes cs \<and>
    (\<forall>x. unat x \<notin> extents cs - (payload cs - span p (unat s)) \<longrightarrow> kmem st' x = kmem st x) \<and>
    kfree p st' = None"
proof -
  obtain st' cs' where r: "kfree p st = Some st'" "heap_ok owned st' cs'"
      "live cs' = live cs - {(p - 24, s)}" "heap_bytes cs' = heap_bytes cs"
      "heap_step (extents cs - (payload cs - span p (unat s))) st st'"
      "is_free (hdr_flags (kmem st') (p - 24))"
    using kfree_ok [OF assms] by blast
  have "unat p = unat (p - 24) + 24" by (rule live_block [OF assms]) simp
  then have "p \<noteq> 0" by auto
  then have "kfree p st' = None" using r(6) by (simp add: kfree_def HEADER_def Let_def)
  then show ?thesis using r unfolding heap_step_def same_outside_def by blast
qed



section \<open>A request that does not fit in 32 bits\<close>

text \<open>
  C39 (kmalloc_truncates_size): \<^verbatim>\<open>find_free_entry\<close> takes the size as a \<^verbatim>\<open>u32\<close> and adds the header to it
  in 32 bits. For a request of \<^verbatim>\<open>0xFFFFFFE8\<close> bytes the sum is 0, so on a fresh heap \<^verbatim>\<open>int_kmalloc\<close> returns
  the first free chunk, however small, records the huge size in its header, and writes the header of
  the rest four gigabytes further on, outside the heap.
\<close>

theorem kmalloc_truncates_size:
  assumes ok: "heap_ok owned st [c]" and free: "is_free (c_flags c)"
    and room: "unat (c_addr c) + 2 ^ 32 + 24 \<le> 2 ^ 64" and small: "c_end c \<le> unat (c_addr c) + 2 ^ 32"
  shows "\<exists>st'. int_kmalloc ksbrk 0xFFFFFFE8 st = Some (st', c_addr c + 24) \<and>
    hdr_size (kmem st') (c_addr c) = 0xFFFFFFE8 \<and> hdr_magic (kmem st') (c_addr c + 2 ^ 32) = MAGIC \<and>
    unat (c_addr c + 2 ^ 32) \<notin> extents [c]"
proof -
  let ?a = "c_addr c" and ?n = "0xFFFFFFE8 :: u64"
  have chain: "chain_ok (kmem st) [c]" using ok by (simp add: heap_ok_def)
  note h = chain_hdr [OF chain]
  have wf: "chunk_wf c" and fin: "is_final (c_flags c)" using chain by (simp_all add: chain_ok_def)
  have head: "khead st = ?a" "kfinal st = ?a" "?a \<noteq> 0" using ok wf by (simp_all add: heap_ok_def chunk_wf_def)
  have w: "?a + 24 + ?n = 0x100000000 + ?a" by simp
  have wu: "unat (0x100000000 + ?a) = 0x100000000 + unat ?a"
    using room by (subst unat_add_le) simp_all
  have regs: "region ?a 24" "region (?a + 24 + ?n) 24"
    using wf room wu unfolding w by (simp_all add: region_def chunk_wf_def)
  have sp: "span (?a + 24 + ?n) 24 \<inter> span ?a 24 = {}" unfolding w using wu by auto
  have "find_free_entry ksbrk (ucast ?n) st = Some (st, ?a)"
    using head free h by (simp add: find_free_entry_def HEADER_def Let_def find_loop.simps)
  moreover define st1 where "st1 = st\<lparr>kmem := cut_mem ?a ?n (kmem st), kfinal := 0x100000000 + ?a\<rparr>"
  note cm = cut_mem_hdr [OF refl regs sp, where m = "kmem st"]
  have "merge_headers (0x100000000 + ?a) st1 = Some (st1, False)"
  proof -
    have "hdr_flags (kmem st1) (0x100000000 + ?a) = c_flags c"
      using cm(1) h unfolding w by (simp add: st1_def hdr_def)
    moreover have "0x100000000 + ?a \<noteq> 0" using wu by (metis add_is_0 unat_0 zero_neq_numeral)
    ultimately show ?thesis using free fin by (simp add: merge_headers_def next_close_header_def)
  qed
  moreover define st2 where "st2 = st1\<lparr>kmem := use_mem ?a ?n (kmem st1)\<rparr>"
  ultimately have "int_kmalloc ksbrk ?n st = Some (st2, ?a + 24)"
    using head by (subst int_kmalloc.simps) (simp add: carve_eq HEADER_def Let_def st1_def st2_def)
  moreover have "hdr_size (kmem st2) ?a = 0xFFFFFFE8"
    using use_mem_hdr(1) [OF regs(1), of ?n "kmem st1"] by (simp add: st2_def hdr_def)
  moreover have "hdr (kmem st2) (?a + 24 + ?n) = hdr (kmem st1) (?a + 24 + ?n)"
    using hdr_same_outside [OF use_mem_hdr(2) [OF regs(1)] regs(2)] sp by (auto simp: st2_def Int_commute)
  then have "hdr_magic (kmem st2) (0x100000000 + ?a) = MAGIC"
    using cm(1) unfolding w by (simp add: st1_def hdr_def)
  moreover have "unat (0x100000000 + ?a) \<notin> extents [c]" using wu small by (simp add: extent_def)
  ultimately show ?thesis by (auto simp: add.commute)
qed

section \<open>Witnesses\<close>

text \<open>A page source that hands out consecutive addresses.\<close>

definition page_bump :: "u64 sbrk" where
  "page_bump n st = Some (st\<lparr>kbrk := kbrk st + n\<rparr>, kbrk st)"

definition page_bump_owned :: "u64 \<Rightarrow> nat set" where
  "page_bump_owned k = {0..<unat k}"

definition page_bump_good :: "u64 \<Rightarrow> u64 \<Rightarrow> bool" where
  "page_bump_good n k \<longleftrightarrow> unat k + unat n < 2 ^ 64"

interpretation bump: page_source page_bump_owned page_bump_good page_bump
  by unfold_locales (auto simp: sbrk_ok_def page_bump_def page_bump_owned_def page_bump_good_def unat_add_le)

lemmas page_bump_ok = bump.source

definition boot_heap :: "u64 kheap" where
  "boot_heap = \<lparr>kmem = (\<lambda>_. 0), kseed = (1, 2, 3, 4), kbrk = 0x10000, khead = 0, kfinal = 0, ktotal = 0\<rparr>"

definition first_heap :: "u64 kheap" where
  "first_heap = fst (the (kmalloc_init page_bump boot_heap))"

lemma first_heap_init: "kmalloc_init page_bump boot_heap = Some (first_heap, True)" "kbrk first_heap = 0x50000"
    "khead first_heap = 0x10000"
  by (simp_all add: first_heap_def kmalloc_init_def page_bump_def boot_heap_def NEW_ALLOC_SIZE_def HEADER_def)

lemma first_heap_ok:
  obtains c where "heap_ok page_bump_owned first_heap [c]" "is_free (c_flags c)" "unat (c_size c) = 0x40000 - 24"
    "heap_bytes [c] = 0x40000" "c_addr c = 0x10000"
proof -
  have "page_bump_good NEW_ALLOC_SIZE (kbrk boot_heap)"
    by (simp add: page_bump_good_def boot_heap_def NEW_ALLOC_SIZE_def)
  then obtain c where "heap_ok page_bump_owned first_heap [c]" "is_free (c_flags c)" "unat (c_size c) = 0x40000 - 24"
      "heap_bytes [c] = 0x40000"
    using kmalloc_init_ok [OF page_bump_ok, of boot_heap] first_heap_init(1) by auto
  moreover from this have "c_addr c = 0x10000" using first_heap_init(3) by (simp add: heap_ok_def)
  ultimately show ?thesis using that by blast
qed

lemma grow_100: "unat (grow_size 100) = 0x81000"
  by (simp add: grow_size_def delta_page_def HEADER_def NEW_ALLOC_SIZE_def)

lemma page_bump_never_refuses: "0x1000 \<le> unat k \<Longrightarrow> \<not> refuses page_bump n k"
  by (auto simp: refuses_def page_bump_def)

theorem kmalloc_gives_block_witness:
  "\<exists>cs st' rc cs'. heap_ok page_bump_owned first_heap cs \<and> kmalloc page_bump 100 first_heap = Some (st', rc) \<and>
    heap_ok page_bump_owned st' cs' \<and> rc \<noteq> 0 \<and> live cs' = insert (rc - 24, 100) (live cs)"
proof -
  obtain c where c: "heap_ok page_bump_owned first_heap [c]" "heap_bytes [c] = 0x40000"
    by (rule first_heap_ok)
  have "\<not> refuses page_bump (grow_size 100) (kbrk first_heap)"
    by (rule page_bump_never_refuses) (simp add: first_heap_init)
  then show ?thesis
    using kmalloc_gives_block [OF c(1) page_bump_ok, of 100] c grow_100
    by (fastforce simp: page_bump_good_def first_heap_init split: if_splits)
qed

theorem kfree_releases_witness:
  "\<exists>st p st'. kmalloc page_bump 100 first_heap = Some (st, p) \<and> kfree p st = Some st' \<and> kfree p st' = None"
proof -
  obtain c where c: "heap_ok page_bump_owned first_heap [c]" "heap_bytes [c] = 0x40000"
    by (rule first_heap_ok)
  obtain st rc cs where r: "kmalloc page_bump 100 first_heap = Some (st, rc)" "alloc_result page_bump page_bump_owned 100 first_heap [c] st rc cs"
    using kmalloc_ok [OF c(1) page_bump_ok, of 100] c grow_100 by (auto simp: page_bump_good_def first_heap_init)
  have "\<not> refuses page_bump (grow_size 100) (kbrk first_heap)"
    by (rule page_bump_never_refuses) (simp add: first_heap_init)
  then have "heap_ok page_bump_owned st cs" "(rc - 24, 100) \<in> live cs"
    using r(2) unfolding alloc_result_def block_given_def heap_moves_def by (simp_all split: if_splits)
  then show ?thesis using kfree_releases [of page_bump_owned st cs rc 100] r(1) by blast
qed

text \<open>Two allocations by a client of the first heap.\<close>

lemma page_bump_run:
  obtains st p q where "heap_run page_bump_good page_bump boot_heap st {(p, 100), (q, 200)} 0x142000"
proof -
  obtain c where c: "heap_ok page_bump_owned first_heap [c]" "heap_bytes [c] = 0x40000"
      "is_free (c_flags c)" "unat (c_size c) = 0x40000 - 24"
    by (rule first_heap_ok)
  have room: "has_room 100 [c]" using c by (simp add: has_room_def)
  obtain st1 p cs1 where r: "kmalloc page_bump 100 first_heap = Some (st1, p)"
      "alloc_result page_bump page_bump_owned 100 first_heap [c] st1 p cs1"
    using kmalloc_ok [OF c(1) page_bump_ok, of 100] c grow_100 by (auto simp: page_bump_good_def first_heap_init)
  have b: "kbrk st1 = 0x50000" using r(2) room first_heap_init(2) by (simp add: alloc_result_def)
  have p: "p \<noteq> 0" "heap_ok page_bump_owned st1 cs1" "heap_bytes cs1 \<le> 0xC1000"
    using r(2) room c(2) grow_100 unfolding alloc_result_def block_given_def heap_moves_def
    by (auto split: if_splits)
  have g: "unat (grow_size 200) = 0x81000"
    by (simp add: grow_size_def delta_page_def HEADER_def NEW_ALLOC_SIZE_def)
  then obtain st2 q cs2 where r2: "kmalloc page_bump 200 st1 = Some (st2, q)"
      "alloc_result page_bump page_bump_owned 200 st1 cs1 st2 q cs2"
    using kmalloc_ok [OF p(2) page_bump_ok, of 200] p(3) b by (auto simp: page_bump_good_def)
  have "\<not> refuses page_bump (grow_size 200) (kbrk st1)" by (rule page_bump_never_refuses) (simp add: b)
  then have q: "q \<noteq> 0" using r2(2) by (auto simp: alloc_result_def)
  have "heap_run page_bump_good page_bump boot_heap first_heap {} 0x40000"
    using first_heap_init(1)
    by (intro heap_run.boot) (simp_all add: page_bump_good_def NEW_ALLOC_SIZE_def, simp add: boot_heap_def)
  then have "heap_run page_bump_good page_bump boot_heap st1 {(p, 100)} 0xC1000"
    using heap_run.alloc [of page_bump_good page_bump boot_heap first_heap "{}" "0x40000" 100 st1 p] r(1) p(1) grow_100
    by (simp add: page_bump_good_def first_heap_init)
  then have "heap_run page_bump_good page_bump boot_heap st2 {(p, 100), (q, 200)} 0x142000"
    using heap_run.alloc [of page_bump_good page_bump boot_heap st1 "{(p, 100)}" "0xC1000" 200 st2 q] r2(1) q b g
    by (simp add: page_bump_good_def insert_commute)
  then show ?thesis by (rule that)
qed



theorem kmalloc_truncates_size_witness:
  "\<exists>st'. int_kmalloc page_bump 0xFFFFFFE8 first_heap = Some (st', 0x10018) \<and>
    hdr_size (kmem st') 0x10000 = 0xFFFFFFE8"
proof -
  obtain c where c: "heap_ok page_bump_owned first_heap [c]" "is_free (c_flags c)" "heap_bytes [c] = 0x40000"
      "c_addr c = 0x10000"
    by (rule first_heap_ok)
  then have "c_end c \<le> unat (c_addr c) + 2 ^ 32" by simp
  then show ?thesis using kmalloc_truncates_size [OF c(1,2), of page_bump] c(4) by auto
qed

end
