(* ===== verification/PageTables.thy ===== *)
theory PageTables
  imports Paging
begin

text \<open>
  What the page table code of \<^verbatim>\<open>arch/amd64/mmu.c\<close> achieves.  The tables that the program and the
  processor share form a tree of index paths; \<^verbatim>\<open>tables_ok\<close> says that the view of the processor (the
  entries, physical addresses) and that of the program (the second page of each structure, virtual
  addresses) are the same tree, and that the tables are mapped where the program expects them.
\<close>

section \<open>Addresses inside a page\<close>

definition aligned :: "u64 \<Rightarrow> bool" where
  "aligned a \<longleftrightarrow> a AND 0xFFF = 0"

lemma mask_page: "(0xFFF :: u64) = mask 12"
  by (simp add: mask_eq_exp_minus_1)

lemma aligned_bits: "aligned a \<longleftrightarrow> (\<forall>k<12. \<not> bit a k)"
proof
  assume "aligned a"
  then have eq: "a AND mask 12 = 0" by (simp add: aligned_def mask_page)
  show "\<forall>k<12. \<not> bit a k"
  proof (intro allI impI)
    fix k :: nat
    assume k: "k < 12"
    have "\<not> bit (a AND mask 12) k" by (simp add: eq)
    then show "\<not> bit a k" using k by (simp add: bit_and_iff bit_mask_iff)
  qed
next
  assume "\<forall>k<12. \<not> bit a k"
  then show "aligned a" unfolding aligned_def mask_page by (auto intro!: bit_word_eqI simp: bit_simps)
qed

lemma aligned_page_base [simp]: "aligned (page_base e)"
  unfolding aligned_bits page_base_def mask_page by (simp add: bit_simps)

lemma offset_bits:
  assumes "unat o' < 4096"
  shows "bit (o' :: u64) k \<Longrightarrow> k < 12"
proof -
  have "unat (take_bit 12 o') = unat o'" using assms by (simp add: unsigned_take_bit_eq take_bit_nat_eq_self)
  then have "take_bit 12 o' = o'" by (metis word_unat_eq_iff)
  then show "bit o' k \<Longrightarrow> k < 12" by (metis bit_take_bit_iff)
qed

lemma page_add:
  assumes "aligned f" and "unat o' < 4096"
  shows "f OR o' = f + o'"
proof (rule disjunctive_add_eq_or [symmetric])
  show "f AND o' = 0"
  proof (rule bit_word_eqI)
    fix k assume "k < LENGTH(64)"
    show "bit (f AND o') k \<longleftrightarrow> bit (0 :: u64) k"
      using assms(1) offset_bits [OF assms(2), of k] by (auto simp: aligned_bits bit_simps)
  qed
qed

lemma unat_page_add:
  assumes "aligned f" and "unat o' < 4096"
  shows "unat (f + o') = unat f + unat o'" and "unat f + 4096 \<le> 2 ^ 64" and "unat f mod 4096 = 0"
proof -
  have "take_bit 12 f = 0" using assms(1) by (simp add: aligned_def mask_page take_bit_eq_mask)
  then have "take_bit 12 (unat f) = 0" by (metis unsigned_take_bit_eq unsigned_0)
  then show m: "unat f mod 4096 = 0" by (simp add: take_bit_eq_mod)
  then obtain q where q: "unat f = 4096 * q" by (metis mod_0_imp_dvd dvdE)
  then have "q < 4503599627370496" using unat_u64_lt [of f] by simp
  then show l: "unat f + 4096 \<le> 2 ^ 64" using q by simp
  show "unat (f + o') = unat f + unat o'" using l assms(2) by (intro unat_add_le) simp
qed

lemma page_of_sum:
  assumes "aligned f" and "unat o' < 4096"
  shows "(f + o') AND 0xFFF = o'" and "page_base (f + o') = f" and "path_of (f + o') = path_of f"
proof -
  have ob: "bit o' k \<Longrightarrow> k < 12" for k by (rule offset_bits [OF assms(2)])
  have fb: "k < 12 \<Longrightarrow> \<not> bit f k" for k using assms(1) by (simp add: aligned_bits)
  note sum = page_add [OF assms, symmetric]
  show "(f + o') AND 0xFFF = o'"
    unfolding sum mask_page using ob fb by (auto intro!: bit_word_eqI simp: bit_simps)
  show "page_base (f + o') = f"
    unfolding sum mask_page page_base_def using ob fb by (auto intro!: bit_word_eqI simp: bit_simps)
  have d: "drop_bit s (f + o') = drop_bit s f" if "12 \<le> s" for s
  proof (rule bit_word_eqI)
    fix k assume "k < LENGTH(64)"
    have "\<not> bit o' (s + k)" using ob [of "s + k"] that by auto
    then show "bit (drop_bit s (f + o')) k = bit (drop_bit s f) k" unfolding sum by (simp add: bit_simps)
  qed
  show "path_of (f + o') = path_of f" by (simp add: path_of_def table_index_def d)
qed

lemma page_split: "a = page_base a + (a AND 0xFFF)" "unat (a AND 0xFFF) < 4096"
proof -
  have "a AND 0xFFF = take_bit 12 a" by (simp add: mask_page take_bit_eq_mask)
  moreover have "take_bit 12 (unat a) < 4096" using take_bit_nat_less_exp [of 12 "unat a"] by simp
  ultimately show o': "unat (a AND 0xFFF) < 4096" by (simp add: unsigned_take_bit_eq)
  have "a = page_base a OR (a AND 0xFFF)"
    unfolding page_base_def mask_page by (auto intro!: bit_word_eqI simp: bit_simps)
  then show "a = page_base a + (a AND 0xFFF)" using page_add [OF aligned_page_base o'] by simp
qed

lemma aligned_next: "aligned f \<Longrightarrow> aligned (f + 0x1000)"
proof -
  assume a: "aligned f"
  have "unat f mod 4096 = 0" by (rule unat_page_add(3) [OF a, of 0]) simp
  then have "unat (f + 0x1000) mod 4096 = 0" by (simp add: unat_word_ariths mod_mod_cancel mod_simps)
  then have "take_bit 12 (unat (f + 0x1000)) = 0" by (simp add: take_bit_eq_mod)
  then have "unat (take_bit 12 (f + 0x1000)) = 0" by (simp only: unsigned_take_bit_eq)
  then show "aligned (f + 0x1000)" by (simp add: aligned_def mask_page take_bit_eq_mask unat_eq_0)
qed

text \<open>Slots of eight bytes in the tables.\<close>

definition index_ok :: "u64 \<Rightarrow> bool" where
  "index_ok i \<longleftrightarrow> i < 512"

lemma slot_offset:
  assumes "index_ok i"
  shows "unat (8 * i) = 8 * unat i" and "unat i < 512" and "unat (8 * i) < 4096"
proof -
  show i: "unat i < 512" using assms by (simp add: index_ok_def word_less_nat_alt)
  have "unat (8 :: u64) * unat i < 2 ^ LENGTH(64)" using i by simp
  then show "unat (8 * i) = 8 * unat i" by (simp add: unat_word_ariths)
  then show "unat (8 * i) < 4096" using i by simp
qed

lemma table_index_ok [simp]: "index_ok (table_index s a)"
proof -
  have "table_index s a = take_bit 9 (drop_bit s a)"
    by (simp add: table_index_def take_bit_eq_mask mask_eq_exp_minus_1)
  moreover have "unat (take_bit 9 (drop_bit s a)) < 512"
    using take_bit_nat_less_exp [of 9 "unat (drop_bit s a)"] by (simp add: unsigned_take_bit_eq)
  ultimately show ?thesis by (simp add: index_ok_def word_less_nat_alt)
qed

lemma path_ok: "\<forall>i\<in>set (path_of a). index_ok i"
  by (simp add: path_of_def)

lemma load_store64 [simp]: "load64 (store64 m a v) a = v"
  by (simp add: load64_def store64_def load_store_same byte_simps)

lemma store_store64 [simp]: "store64 (store64 m a v) a w = store64 m a w"
  by (simp add: store64_def store_bytes_def fun_eq_iff)

lemma load64_apart: "apart a 8 b 8 \<Longrightarrow> load64 (store64 m a v) b = load64 m b"
  by (simp add: load64_def store64_def load_store_apart)

lemma slots_apart:
  assumes "aligned f" and "aligned g" and "index_ok i" and "index_ok j" and "f \<noteq> g \<or> i \<noteq> j"
  shows "apart (f + 8 * i) 8 (g + 8 * j) 8"
proof -
  have f: "unat (f + 8 * i) = unat f + 8 * unat i" "unat f + 4096 \<le> 2 ^ 64" "unat f mod 4096 = 0"
    using unat_page_add [OF assms(1) slot_offset(3) [OF assms(3)]] slot_offset(1) [OF assms(3)] by simp_all
  have g: "unat (g + 8 * j) = unat g + 8 * unat j" "unat g + 4096 \<le> 2 ^ 64" "unat g mod 4096 = 0"
    using unat_page_add [OF assms(2) slot_offset(3) [OF assms(4)]] slot_offset(1) [OF assms(4)] by simp_all
  have ij: "unat i < 512" "unat j < 512" using slot_offset(2) assms(3,4) by blast+
  consider "f = g" "unat i \<noteq> unat j" | "unat f \<noteq> unat g"
    using assms(5) by (metis word_unat_eq_iff)
  then show ?thesis
  proof cases
    case 1
    then show ?thesis using f g ij by (auto simp: apart_def region_def)
  next
    case 2
    obtain p q where "unat f = 4096 * p" "unat g = 4096 * q" using f(3) g(3) by (metis mod_0_imp_dvd dvdE)
    then have "unat f + 4096 \<le> unat g \<or> unat g + 4096 \<le> unat f" using 2 by simp linarith
    then show ?thesis using f g ij by (auto simp: apart_def region_def)
  qed
qed


section \<open>The tree of tables\<close>

text \<open>
  A table at path \<^verbatim>\<open>p\<close> of indices: where the program finds it, its first frame (the entries), and,
  except for the last level, its second frame (the program's pointers).
\<close>

record tnode =
  n_virt :: u64
  n_phys :: u64
  n_back :: u64

type_synonym tree = "u64 list \<Rightarrow> tnode option"

definition slot :: "mem \<Rightarrow> u64 \<Rightarrow> u64 \<Rightarrow> u64" where
  "slot m f i = load64 m (f + 8 * i)"

text \<open>The page frame behind an address, found through the tree.\<close>

definition page_frame :: "tree \<Rightarrow> mem \<Rightarrow> u64 \<Rightarrow> u64 option" where
  "page_frame T m a =
     (case T [table_index 39 a, table_index 30 a, table_index 21 a] of
        None \<Rightarrow> None
      | Some n \<Rightarrow> (let e = slot m (n_phys n) (table_index 12 a) in if present e then Some (page_base e) else None))"

definition tree_ok :: "tree \<Rightarrow> bool" where
  "tree_ok T \<longleftrightarrow>
     (\<forall>p n. T p = Some n \<longrightarrow> length p \<le> 3 \<and> (\<forall>i\<in>set p. index_ok i) \<and>
        aligned (n_virt n) \<and> aligned (n_phys n) \<and> aligned (n_back n)) \<and>
     (\<forall>p i n. T (p @ [i]) = Some n \<longrightarrow> T p \<noteq> None) \<and>
     (\<forall>p n q k. T p = Some n \<and> T q = Some k \<longrightarrow>
        (p \<noteq> q \<longrightarrow> n_phys n \<noteq> n_phys k) \<and> (length p < 3 \<longrightarrow> n_back n \<noteq> n_phys k) \<and>
        (p \<noteq> q \<and> length p < 3 \<and> length q < 3 \<longrightarrow> n_back n \<noteq> n_back k))"

definition linked_ok :: "tree \<Rightarrow> mem \<Rightarrow> bool" where
  "linked_ok T m \<longleftrightarrow>
     (\<forall>p n i. T p = Some n \<and> length p < 3 \<and> index_ok i \<longrightarrow>
        (case T (p @ [i]) of
           None \<Rightarrow> \<not> present (slot m (n_phys n) i)
         | Some k \<Rightarrow> present (slot m (n_phys n) i) \<and> page_base (slot m (n_phys n) i) = n_phys k \<and>
             slot m (n_back n) i = n_virt k))"

definition mapped_ok :: "tree \<Rightarrow> mem \<Rightarrow> bool" where
  "mapped_ok T m \<longleftrightarrow>
     (\<forall>p n. T p = Some n \<longrightarrow> page_frame T m (n_virt n) = Some (n_phys n) \<and>
        (length p < 3 \<longrightarrow> page_frame T m (n_virt n + 0x1000) = Some (n_back n)))"

definition tables_ok :: "tree \<Rightarrow> mmu \<Rightarrow> bool" where
  "tables_ok T st \<longleftrightarrow>
     tree_ok T \<and> linked_ok T (pmem st) \<and> mapped_ok T (pmem st) \<and>
     (\<exists>d n. active st = Some d \<and> T [] = Some n \<and> n_virt n = pml4t d \<and> n_phys n = cr3 st)"

lemma tree_okD:
  assumes "tree_ok T" and "T p = Some n"
  shows "length p \<le> 3" "i \<in> set p \<Longrightarrow> index_ok i" "aligned (n_virt n)" "aligned (n_phys n)" "aligned (n_back n)"
  using assms unfolding tree_ok_def by blast+

lemma tree_ok_distinct:
  assumes "tree_ok T" and "T p = Some n" and "T q = Some k"
  shows "p \<noteq> q \<Longrightarrow> n_phys n \<noteq> n_phys k" and "length p < 3 \<Longrightarrow> n_back n \<noteq> n_phys k"
    and "p \<noteq> q \<Longrightarrow> length p < 3 \<Longrightarrow> length q < 3 \<Longrightarrow> n_back n \<noteq> n_back k"
  using assms unfolding tree_ok_def by blast+

lemma tree_ok_prefix: "tree_ok T \<Longrightarrow> T (p @ [i]) = Some n \<Longrightarrow> \<exists>k. T p = Some k"
  unfolding tree_ok_def by blast

lemma linked_okD:
  assumes "linked_ok T m" and "T p = Some n" and "length p < 3" and "index_ok i"
  shows "T (p @ [i]) = None \<Longrightarrow> \<not> present (slot m (n_phys n) i)"
    and "T (p @ [i]) = Some k \<Longrightarrow> present (slot m (n_phys n) i) \<and>
      page_base (slot m (n_phys n) i) = n_phys k \<and> slot m (n_back n) i = n_virt k"
proof -
  have "case T (p @ [i]) of None \<Rightarrow> \<not> present (slot m (n_phys n) i)
      | Some k \<Rightarrow> present (slot m (n_phys n) i) \<and> page_base (slot m (n_phys n) i) = n_phys k \<and>
          slot m (n_back n) i = n_virt k"
    using assms unfolding linked_ok_def by blast
  then show "T (p @ [i]) = None \<Longrightarrow> \<not> present (slot m (n_phys n) i)"
    "T (p @ [i]) = Some k \<Longrightarrow> present (slot m (n_phys n) i) \<and>
      page_base (slot m (n_phys n) i) = n_phys k \<and> slot m (n_back n) i = n_virt k" by simp_all
qed

lemma walk_append: "walk m t (p @ q) = walk m t p \<bind> (\<lambda>f. walk m f q)"
  by (induction m t p rule: walk.induct) (simp_all add: Let_def)

text \<open>The processor's walk through the tables is the tree.\<close>

lemma walk_tree:
  assumes "tree_ok T" and "linked_ok T m" and "T [] = Some r" and "length p \<le> 3" and "\<forall>i\<in>set p. index_ok i"
  shows "walk m (n_phys r) p = map_option n_phys (T p)"
  using assms(4,5)
proof (induction p rule: rev_induct)
  case Nil
  then show ?case by (simp add: assms(3))
next
  case (snoc i p)
  show ?case
  proof (cases "T p")
    case None
    then have "T (p @ [i]) = None" using tree_ok_prefix [OF assms(1)] by fastforce
    then show ?thesis using snoc None by (simp add: walk_append)
  next
    case (Some n)
    have "length p < 3" "index_ok i" using snoc.prems by simp_all
    note l = linked_okD [OF assms(2) Some this]
    have w: "walk m (n_phys r) (p @ [i]) =
        (if present (slot m (n_phys n) i) then Some (page_base (slot m (n_phys n) i)) else None)"
      using snoc Some by (simp add: walk_append slot_def Let_def)
    then show ?thesis using l by (cases "T (p @ [i])") auto
  qed
qed

lemma translate_frame:
  assumes "tables_ok T st"
  shows "translate st a = map_option (\<lambda>f. f OR (a AND 0xFFF)) (page_frame T (pmem st) a)"
proof -
  obtain r where r: "T [] = Some r" "n_phys r = cr3 st" using assms by (auto simp: tables_ok_def)
  let ?p = "[table_index 39 a, table_index 30 a, table_index 21 a]"
  have "path_of a = ?p @ [table_index 12 a]" by (simp add: path_of_def)
  moreover have "walk (pmem st) (cr3 st) ?p = map_option n_phys (T ?p)"
    using assms walk_tree [of T "pmem st" r ?p] r by (simp add: tables_ok_def)
  ultimately have "walk (pmem st) (cr3 st) (path_of a) =
      map_option n_phys (T ?p) \<bind> (\<lambda>f. walk (pmem st) f [table_index 12 a])"
    by (simp only: walk_append)
  also have "\<dots> = page_frame T (pmem st) a"
    by (cases "T ?p") (simp_all add: page_frame_def slot_def Let_def)
  finally have "walk (pmem st) (cr3 st) (path_of a) = page_frame T (pmem st) a" .
  then show ?thesis by (simp add: translate_def)
qed

lemma page_frame_cong: "path_of a = path_of b \<Longrightarrow> page_frame T m a = page_frame T m b"
  by (auto simp: path_of_def page_frame_def split: option.split)

lemma page_frame_aligned: "page_frame T m a = Some f \<Longrightarrow> aligned f"
  by (auto simp: page_frame_def Let_def split: option.splits if_splits)

text \<open>An address in a mapped page translates to the address in the frame.\<close>

lemma translate_page:
  assumes "tables_ok T st" and "aligned v" and "page_frame T (pmem st) v = Some f" and "unat o' < 4096"
  shows "translate st (v + o') = Some (f + o')"
proof -
  have "page_frame T (pmem st) (v + o') = Some f"
    using assms(3) page_of_sum(3) [OF assms(2,4)] by (simp add: page_frame_cong [of "v + o'" v])
  then show ?thesis
    using page_of_sum(1) [OF assms(2,4)] page_add [OF page_frame_aligned assms(4)] assms(3)
    by (simp add: translate_frame [OF assms(1)])
qed

text \<open>So the program's accesses to its tables reach the slots the tree says.\<close>

lemma table_access:
  assumes ok: "tables_ok T st" and n: "T p = Some n" and i: "index_ok i"
  shows "vload64 st (entry_at (n_virt n) i) = Some (slot (pmem st) (n_phys n) i)"
    and "vstore64 (entry_at (n_virt n) i) v st = Some (st\<lparr>pmem := store64 (pmem st) (n_phys n + 8 * i) v\<rparr>)"
    and "length p < 3 \<Longrightarrow> vload64 st (next_at (n_virt n) i) = Some (slot (pmem st) (n_back n) i)"
    and "length p < 3 \<Longrightarrow> vstore64 (next_at (n_virt n) i) v st =
      Some (st\<lparr>pmem := store64 (pmem st) (n_back n + 8 * i) v\<rparr>)"
proof -
  have tree: "tree_ok T" and map: "mapped_ok T (pmem st)" using ok by (simp_all add: tables_ok_def)
  have a: "aligned (n_virt n)" by (rule tree_okD(3) [OF tree n])
  have f: "page_frame T (pmem st) (n_virt n) = Some (n_phys n)"
    "length p < 3 \<Longrightarrow> page_frame T (pmem st) (n_virt n + 0x1000) = Some (n_back n)"
    using map n unfolding mapped_ok_def by blast+
  have 1: "translate st (n_virt n + 8 * i) = Some (n_phys n + 8 * i)"
    by (rule translate_page [OF ok a f(1) slot_offset(3) [OF i]])
  have 2: "translate st (n_virt n + 0x1000 + 8 * i) = Some (n_back n + 8 * i)" if "length p < 3"
    by (rule translate_page [OF ok aligned_next [OF a] f(2) [OF that] slot_offset(3) [OF i]])
  note defs = vload64_def vload_run_def vstore64_def vstore_run_def slot_def load64_def store64_def
    entry_at_def next_at_def
  show "vload64 st (entry_at (n_virt n) i) = Some (slot (pmem st) (n_phys n) i)"
    "vstore64 (entry_at (n_virt n) i) v st = Some (st\<lparr>pmem := store64 (pmem st) (n_phys n + 8 * i) v\<rparr>)"
    using 1 by (simp_all add: defs)
  show "length p < 3 \<Longrightarrow> vload64 st (next_at (n_virt n) i) = Some (slot (pmem st) (n_back n) i)"
    "length p < 3 \<Longrightarrow> vstore64 (next_at (n_virt n) i) v st =
      Some (st\<lparr>pmem := store64 (pmem st) (n_back n + 8 * i) v\<rparr>)"
    using 2 by (simp_all add: defs)
qed

lemma pml4t_of_tree: "tables_ok T st \<Longrightarrow> \<exists>r. T [] = Some r \<and> pml4t_of st = Some (n_virt r)"
  by (auto simp: tables_ok_def pml4t_of_def)

lemma next_table:
  assumes ok: "tables_ok T st" and n: "T p = Some n" and p: "length p < 3" and i: "index_ok i"
    and k: "T (p @ [i]) = Some k"
  shows "vload64 st (next_at (n_virt n) i) = Some (n_virt k)"
  using table_access(3) [OF ok n i p] linked_okD(2) [OF _ n p i k] ok by (simp add: tables_ok_def)


lemma tables_reached:
  assumes ok: "tables_ok T st" and i: "index_ok i4" "index_ok i3" "index_ok i2"
  shows "\<exists>r. T [] = Some r \<and> pml4t_of st = Some (n_virt r) \<and>
      vload64 st (entry_at (n_virt r) i4) = Some (slot (pmem st) (n_phys r) i4) \<and>
      (present (slot (pmem st) (n_phys r) i4) \<longleftrightarrow> T [i4] \<noteq> None)"
    and "T [i4] = Some n4 \<Longrightarrow> pdpt_of i4 st = Some (n_virt n4) \<and>
      vload64 st (entry_at (n_virt n4) i3) = Some (slot (pmem st) (n_phys n4) i3) \<and>
      (present (slot (pmem st) (n_phys n4) i3) \<longleftrightarrow> T [i4, i3] \<noteq> None)"
    and "T [i4, i3] = Some n3 \<Longrightarrow> pdt_of i4 i3 st = Some (n_virt n3) \<and>
      vload64 st (entry_at (n_virt n3) i2) = Some (slot (pmem st) (n_phys n3) i2) \<and>
      (present (slot (pmem st) (n_phys n3) i2) \<longleftrightarrow> T [i4, i3, i2] \<noteq> None)"
    and "T [i4, i3, i2] = Some n2 \<Longrightarrow> pt_of i4 i3 i2 st = Some (n_virt n2)"
proof -
  have tree: "tree_ok T" and linked: "linked_ok T (pmem st)" using ok by (simp_all add: tables_ok_def)
  have pres: "present (slot (pmem st) (n_phys n) i) \<longleftrightarrow> T (p @ [i]) \<noteq> None"
    if "T p = Some n" "length p < 3" "index_ok i" for p n i
    using linked_okD [OF linked that] by (cases "T (p @ [i])") auto
  obtain r where r: "T [] = Some r" "pml4t_of st = Some (n_virt r)" using pml4t_of_tree [OF ok] by blast
  show "\<exists>r. T [] = Some r \<and> pml4t_of st = Some (n_virt r) \<and>
      vload64 st (entry_at (n_virt r) i4) = Some (slot (pmem st) (n_phys r) i4) \<and>
      (present (slot (pmem st) (n_phys r) i4) \<longleftrightarrow> T [i4] \<noteq> None)"
    using r table_access(1) [OF ok r(1) i(1)] pres [OF r(1) _ i(1)] by simp
  have 4: "pdpt_of i4 st = Some (n_virt n4)" if "T [i4] = Some n4" for n4
    using r(2) next_table [OF ok r(1) _ i(1), of n4] that by (simp add: pdpt_of_def)
  show "T [i4] = Some n4 \<Longrightarrow> pdpt_of i4 st = Some (n_virt n4) \<and>
      vload64 st (entry_at (n_virt n4) i3) = Some (slot (pmem st) (n_phys n4) i3) \<and>
      (present (slot (pmem st) (n_phys n4) i3) \<longleftrightarrow> T [i4, i3] \<noteq> None)"
    using 4 table_access(1) [OF ok _ i(2)] pres [of "[i4]" n4 i3] i by simp
  have 3: "pdt_of i4 i3 st = Some (n_virt n3)" if t: "T [i4, i3] = Some n3" for n3
  proof -
    obtain n4 where n4: "T [i4] = Some n4" using tree_ok_prefix [OF tree, of "[i4]" i3] t by auto
    then show ?thesis using 4 [OF n4] next_table [OF ok n4 _ i(2), of n3] t by (simp add: pdt_of_def)
  qed
  show "T [i4, i3] = Some n3 \<Longrightarrow> pdt_of i4 i3 st = Some (n_virt n3) \<and>
      vload64 st (entry_at (n_virt n3) i2) = Some (slot (pmem st) (n_phys n3) i2) \<and>
      (present (slot (pmem st) (n_phys n3) i2) \<longleftrightarrow> T [i4, i3, i2] \<noteq> None)"
    using 3 table_access(1) [OF ok _ i(3)] pres [of "[i4, i3]" n3 i2] i by simp
  show "pt_of i4 i3 i2 st = Some (n_virt n2)" if t: "T [i4, i3, i2] = Some n2"
  proof -
    obtain n3 where n3: "T [i4, i3] = Some n3" using tree_ok_prefix [OF tree, of "[i4, i3]" i2] t by auto
    then show ?thesis using 3 [OF n3] next_table [OF ok n3 _ i(3), of n2] t by (simp add: pt_of_def)
  qed
qed

lemma tree_none:
  assumes "tables_ok T st"
  shows "T [i4] = None \<Longrightarrow> T [i4, i3] = None" and "T [i4, i3] = None \<Longrightarrow> T [i4, i3, i2] = None"
proof -
  have t: "tree_ok T" using assms by (simp add: tables_ok_def)
  show "T [i4] = None \<Longrightarrow> T [i4, i3] = None" using tree_ok_prefix [OF t, of "[i4]" i3] by fastforce
  show "T [i4, i3] = None \<Longrightarrow> T [i4, i3, i2] = None" using tree_ok_prefix [OF t, of "[i4, i3]" i2] by fastforce
qed

section \<open>Translation\<close>

lemma virtual_to_physical:
  assumes ok: "tables_ok T st"
  shows "mmu_virtual_to_physical a st =
    Some (case translate st a of None \<Rightarrow> (0, False) | Some p \<Rightarrow> (p, True))"
proof -
  define i4 i3 i2 i1 where i: "i4 = table_index 39 a" "i3 = table_index 30 a" "i2 = table_index 21 a"
    "i1 = table_index 12 a"
  have iok: "index_ok i4" "index_ok i3" "index_ok i2" "index_ok i1" by (simp_all add: i)
  note reach = tables_reached [OF ok iok(1-3)] and none = tree_none [OF ok, of i4]
  obtain r :: tnode where r: "pml4t_of st = Some (n_virt r)"
      "vload64 st (entry_at (n_virt r) i4) = Some (slot (pmem st) (n_phys r) i4)"
      "present (slot (pmem st) (n_phys r) i4) \<longleftrightarrow> T [i4] \<noteq> None"
    using reach(1) by blast
  have t: "translate st a = (case T [i4, i3, i2] of None \<Rightarrow> None
      | Some n \<Rightarrow> (if present (slot (pmem st) (n_phys n) i1)
          then Some (page_base (slot (pmem st) (n_phys n) i1) OR (a AND 0xFFF)) else None))"
    by (simp add: translate_frame [OF ok] page_frame_def i Let_def split: option.split)
  note defs = mmu_virtual_to_physical_def Let_def i [symmetric] r
  show ?thesis
  proof (cases "T [i4]")
    case None
    then show ?thesis using none by (simp add: defs t)
  next
    case n4: (Some n4)
    note r4 = reach(2) [OF n4]
    show ?thesis
    proof (cases "T [i4, i3]")
      case None
      then show ?thesis using none r4 n4 by (simp add: defs t)
    next
      case n3: (Some n3)
      note r3 = reach(3) [OF n3]
      show ?thesis
      proof (cases "T [i4, i3, i2]")
        case None
        then show ?thesis using r3 r4 n3 n4 by (simp add: defs t)
      next
        case n2: (Some n2)
        then show ?thesis
          using r3 r4 n3 n4 reach(4) [OF n2] table_access(1) [OF ok n2 iok(4)] by (simp add: defs t)
      qed
    qed
  qed
qed

section \<open>Mapping a page in a table that exists\<close>

lemma slot_store:
  assumes "aligned f" and "aligned g" and "index_ok i" and "index_ok j"
  shows "slot (store64 m (f + 8 * i) e) g j = (if g = f \<and> j = i then e else slot m g j)"
proof (cases "g = f \<and> j = i")
  case False
  then have "apart (f + 8 * i) 8 (g + 8 * j) 8" using slots_apart [OF assms] by blast
  then show ?thesis using False by (auto simp: slot_def load64_apart)
qed (simp add: slot_def)

abbreviation upper_path :: "u64 \<Rightarrow> u64 list" where
  "upper_path a \<equiv> [table_index 39 a, table_index 30 a, table_index 21 a]"

definition set_leaf :: "tree \<Rightarrow> u64 \<Rightarrow> u64 \<Rightarrow> mmu \<Rightarrow> mmu" where
  "set_leaf T a e st =
     (case T (upper_path a) of
        None \<Rightarrow> st
      | Some n \<Rightarrow> st\<lparr>pmem := store64 (pmem st) (n_phys n + 8 * table_index 12 a) e\<rparr>)"

text \<open>\<^verbatim>\<open>spares_tables T a\<close>: no table of the tree lives in the page of \<^verbatim>\<open>a\<close>.\<close>

definition spares_tables :: "tree \<Rightarrow> u64 \<Rightarrow> bool" where
  "spares_tables T a \<longleftrightarrow>
     (\<forall>p n. T p = Some n \<longrightarrow> path_of (n_virt n) \<noteq> path_of a \<and>
        (length p < 3 \<longrightarrow> path_of (n_virt n + 0x1000) \<noteq> path_of a))"

lemma unmapped_spares_tables:
  assumes "tables_ok T st" and "page_frame T (pmem st) a = None"
  shows "spares_tables T a"
  unfolding spares_tables_def
proof (intro allI impI conjI)
  fix p n
  assume n: "T p = Some n"
  have m: "page_frame T (pmem st) (n_virt n) = Some (n_phys n)"
    "length p < 3 \<Longrightarrow> page_frame T (pmem st) (n_virt n + 0x1000) = Some (n_back n)"
    using assms(1) n unfolding tables_ok_def mapped_ok_def by blast+
  show "path_of (n_virt n) \<noteq> path_of a"
    using m(1) assms(2) page_frame_cong [of "n_virt n" a T "pmem st"] by (metis option.distinct(1))
  show "path_of (n_virt n + 0x1000) \<noteq> path_of a" if "length p < 3"
    using m(2) [OF that] assms(2) page_frame_cong [of "n_virt n + 0x1000" a T "pmem st"] by (metis option.distinct(1))
qed

lemma page_frame_set_leaf:
  assumes "tree_ok T" and n: "T (upper_path a) = Some n"
  shows "page_frame T (pmem (set_leaf T a e st)) b =
    (if path_of b = path_of a then (if present e then Some (page_base e) else None)
     else page_frame T (pmem st) b)"
proof (cases "T (upper_path b)")
  case None
  then have "path_of b \<noteq> path_of a" using n by (auto simp: path_of_def)
  then show ?thesis using None by (simp add: page_frame_def)
next
  case (Some k)
  have "slot (pmem (set_leaf T a e st)) (n_phys k) (table_index 12 b) =
      (if n_phys k = n_phys n \<and> table_index 12 b = table_index 12 a then e
       else slot (pmem st) (n_phys k) (table_index 12 b))"
    using n by (simp add: set_leaf_def slot_store tree_okD(4) [OF assms(1) n] tree_okD(4) [OF assms(1) Some])
  note slot = this
  show ?thesis
  proof (cases "upper_path b = upper_path a")
    case True
    then have "k = n" using Some n by simp
    moreover have "path_of b = path_of a \<longleftrightarrow> table_index 12 b = table_index 12 a"
      using True by (simp add: path_of_def)
    ultimately show ?thesis
      using Some slot unfolding page_frame_def by (cases "table_index 12 b = table_index 12 a") (simp_all add: Let_def)
  next
    case False
    then have "n_phys k \<noteq> n_phys n" using tree_ok_distinct(1) [OF assms(1) Some n] by blast
    moreover have "path_of b \<noteq> path_of a" using False by (auto simp: path_of_def)
    ultimately show ?thesis using Some slot unfolding page_frame_def by (simp add: Let_def)
  qed
qed

lemma set_leaf_tables_ok:
  assumes ok: "tables_ok T st" and n: "T (upper_path a) = Some n" and spare: "spares_tables T a"
  shows "tables_ok T (set_leaf T a e st)"
proof -
  have tree: "tree_ok T" and linked: "linked_ok T (pmem st)" and mapped: "mapped_ok T (pmem st)"
    using ok by (simp_all add: tables_ok_def)
  let ?m = "pmem (set_leaf T a e st)"
  have slots: "slot ?m f i = slot (pmem st) f i" if "aligned f" "index_ok i" "f \<noteq> n_phys n" for f i
    using n that by (simp add: set_leaf_def slot_store tree_okD(4) [OF tree n])
  have "linked_ok T ?m"
    unfolding linked_ok_def
  proof (intro allI impI)
    fix p k i
    assume k: "T p = Some k \<and> length p < 3 \<and> index_ok i"
    then have "p \<noteq> upper_path a" by auto
    then have "n_phys k \<noteq> n_phys n" "n_back k \<noteq> n_phys n"
      using tree_ok_distinct [OF tree _ n, of p k] k by auto
    moreover have "aligned (n_phys k)" "aligned (n_back k)" using tree_okD [OF tree] k by blast+
    ultimately have eq: "slot ?m (n_phys k) i = slot (pmem st) (n_phys k) i"
      "slot ?m (n_back k) i = slot (pmem st) (n_back k) i" using slots k by blast+
    show "case T (p @ [i]) of None \<Rightarrow> \<not> present (slot ?m (n_phys k) i)
       | Some ka \<Rightarrow> present (slot ?m (n_phys k) i) \<and> page_base (slot ?m (n_phys k) i) = n_phys ka \<and>
           slot ?m (n_back k) i = n_virt ka"
      unfolding eq using linked k unfolding linked_ok_def by blast
  qed
  moreover have "mapped_ok T ?m"
    using mapped spare unfolding mapped_ok_def spares_tables_def
    by (simp add: page_frame_set_leaf [OF tree n])
  ultimately show ?thesis
    using ok n by (auto simp: tables_ok_def set_leaf_def active_def)
qed

lemma set_leaf_simps [simp]:
  "frames (set_leaf T a e st) = frames st" "heap_end (set_leaf T a e st) = heap_end st"
  "prng_seed (set_leaf T a e st) = prng_seed st" "cr3 (set_leaf T a e st) = cr3 st"
  "directories (set_leaf T a e st) = directories st"
  "active_directory (set_leaf T a e st) = active_directory st"
  "set_leaf T a e' (set_leaf T a e st) = set_leaf T a e' st"
  by (simp_all add: set_leaf_def split: option.split)

lemma get_page_tree:
  assumes "tables_ok T st" and "T (upper_path a) = Some n"
  shows "get_page a st = Some (entry_at (n_virt n) (table_index 12 a))"
  using tables_reached(4) [OF assms(1) _ _ _ assms(2)] by (simp add: get_page_def)

lemma leaf_access:
  assumes "tables_ok T st" and "T (upper_path a) = Some n"
  shows "vload64 st (entry_at (n_virt n) (table_index 12 a)) = Some (slot (pmem st) (n_phys n) (table_index 12 a))"
    and "vstore64 (entry_at (n_virt n) (table_index 12 a)) e st = Some (set_leaf T a e st)"
  using table_access(1,2) [OF assms] assms(2) by (simp_all add: set_leaf_def)

lemma slot_set_leaf:
  "T (upper_path a) = Some n \<Longrightarrow> slot (pmem (set_leaf T a e st)) (n_phys n) (table_index 12 a) = e"
  by (simp add: set_leaf_def slot_def)

lemma present_flags: "present (f OR 0x3)" "page_base (f OR 0x3) = page_base f"
proof -
  have "bit (f OR 0x3) 0" by (simp add: bit_simps)
  then have "bit ((f OR 0x3) AND 1) 0" by (simp add: bit_simps)
  then show "present (f OR 0x3)" by (auto simp: present_def PAGE_FLAG_PRESENT_def simp del: bit_0)
  have "(0x3 :: u64) = mask 2" by (simp add: mask_eq_exp_minus_1)
  then have low: "bit (0x3 :: u64) k \<Longrightarrow> k < 12" for k by (simp only: bit_mask_iff) linarith
  show "page_base (f OR 0x3) = page_base f"
    unfolding page_base_def mask_page
  proof (rule bit_word_eqI)
    fix k assume "k < LENGTH(64)"
    then show "bit ((f OR 0x3) AND NOT (mask 12)) k = bit (f AND NOT (mask 12)) k"
      using low [of k] by (auto simp: bit_and_iff bit_or_iff bit_not_iff bit_mask_iff)
  qed
qed

text \<open>The frame that a mapping uses: the given one, or a fresh one.\<close>

definition frame_for :: "(nat \<Rightarrow> u64) \<Rightarrow> bool \<Rightarrow> u64 \<Rightarrow> mmu \<Rightarrow> (mmu \<times> u64) option" where
  "frame_for bit1 use_frame frame st = (if use_frame then Some (st, frame) else take_frame bit1 1 st)"

lemma take_frame_simps:
  assumes "take_frame bit1 n st = Some (st', f)"
  shows "pmem st' = pmem st" "heap_end st' = heap_end st" "cr3 st' = cr3 st" "directories st' = directories st"
    "active_directory st' = active_directory st" "prng_seed st' = prng_seed st"
  using assms by (auto simp: take_frame_def split: bind_splits)

lemma take_frame_tables_ok:
  "take_frame bit1 n st = Some (st', f) \<Longrightarrow> tables_ok T st \<Longrightarrow> tables_ok T st'"
  using take_frame_simps [of bit1 n st st' f] by (simp add: tables_ok_def active_def)

lemma check_region_step:
  assumes ok: "tables_ok T st" and n: "T (upper_path a) = Some n"
    and alloc: "alloc (table_index 39 a) (table_index 30 a) (table_index 21 a) st = Some (st, x)"
  shows "check_region bit1 alloc a allocate use_frame frame st =
    (case page_frame T (pmem st) a of
       Some f \<Rightarrow> Some (st, False, Some f)
     | None \<Rightarrow> if allocate
         then do { (st, f) \<leftarrow> frame_for bit1 use_frame frame st;
                   Some (set_leaf T a (f OR 0x3) st, True, Some (page_base f)) }
         else Some (st, True, None))"
proof -
  let ?e = "slot (pmem st) (n_phys n) (table_index 12 a)"
  have pf: "page_frame T (pmem st) a = (if present ?e then Some (page_base ?e) else None)"
    using n by (simp add: page_frame_def Let_def)
  note start = get_page_tree [OF ok n] leaf_access(1) [OF ok n] alloc
  show ?thesis
  proof (cases "present ?e")
    case True
    then show ?thesis by (simp add: check_region_def start pf)
  next
    case False
    have spare: "spares_tables T a" by (rule unmapped_spares_tables [OF ok]) (use pf False in simp)
    have fill: "do { st \<leftarrow> vstore64 (entry_at (n_virt n) (table_index 12 a)) f st1;
        e \<leftarrow> vload64 st (entry_at (n_virt n) (table_index 12 a));
        st \<leftarrow> vstore64 (entry_at (n_virt n) (table_index 12 a)) (e OR 0x3) st;
        e \<leftarrow> vload64 st (entry_at (n_virt n) (table_index 12 a));
        Some (st, True, Some (page_base e)) } = Some (set_leaf T a (f OR 0x3) st1, True, Some (page_base f))"
      if ok1: "tables_ok T st1" for st1 f
    proof -
      have ok2: "tables_ok T (set_leaf T a e st1)" for e by (rule set_leaf_tables_ok [OF ok1 n spare])
      show ?thesis
        by (simp add: leaf_access [OF ok1 n] leaf_access [OF ok2 n] slot_set_leaf [of T a n, OF n] present_flags)
    qed
    show ?thesis
    proof (cases use_frame)
      case True
      then show ?thesis using False fill [OF ok, of frame] by (simp add: check_region_def start pf frame_for_def)
    next
      case fresh: False
      show ?thesis
      proof (cases "take_frame bit1 1 st")
        case None
        then show ?thesis using False fresh by (simp add: check_region_def start pf frame_for_def)
      next
        case (Some r)
        obtain st1 f where r: "r = (st1, f)" by force
        have "tables_ok T st1" using Some ok take_frame_tables_ok unfolding r by blast
        then show ?thesis
          using False fresh Some fill [of st1 f] by (simp add: check_region_def start pf frame_for_def r)
      qed
    qed
  qed
qed

lemma allocate_pt_present:
  assumes ok: "tables_ok T st" and "index_ok i4" "index_ok i3" "index_ok i2" and n: "T [i4, i3, i2] = Some n"
  shows "allocate_pt bit1 (Suc k) i4 i3 i2 st = Some (st, False)"
proof -
  note reach = tables_reached [OF assms(1-4)] and none = tree_none [OF ok, of i4]
  obtain n3 where n3: "T [i4, i3] = Some n3" using none(2) [of i3 i2] n by fastforce
  obtain n4 where n4: "T [i4] = Some n4" using none(1) [of i3] n3 by fastforce
  obtain r :: tnode where r: "pml4t_of st = Some (n_virt r)"
      "vload64 st (entry_at (n_virt r) i4) = Some (slot (pmem st) (n_phys r) i4)"
      "present (slot (pmem st) (n_phys r) i4) \<longleftrightarrow> T [i4] \<noteq> None"
    using reach(1) by blast
  show ?thesis
    using r n n3 n4 reach(2) [OF n4] reach(3) [OF n3] by (simp add: allocate_pt_body_def)
qed

end
