(* ===== verification/PageAlloc.thy ===== *)
theory PageAlloc
  imports PageTables
begin

text \<open>
  Allocation in \<^verbatim>\<open>arch/amd64/mmu.c\<close>: the search for a free virtual region, the mapping of runs of
  pages, and the allocation of new tables, which keeps the views of the program and the processor
  in step.
\<close>

declare allocate_pt.simps [simp del]

section \<open>Runs of pages\<close>

definition page_offset :: "nat \<Rightarrow> u64" where
  "page_offset j = of_nat j * 0x1000"

definition pages_of :: "u64 \<Rightarrow> nat" where
  "pages_of len = (unat len + 4095) div 4096"

lemma page_offset_simps [simp]:
  "page_offset 0 = 0" "page_offset j + PAGE_SIZE = page_offset (Suc j)" "page_offset j + 0x1000 = page_offset (Suc j)"
  by (simp_all add: page_offset_def PAGE_SIZE_def algebra_simps)

lemma page_offset_add: "page_offset (i + j) = page_offset i + page_offset j"
  by (simp add: page_offset_def algebra_simps)

lemma unat_page_offset: "4096 * j < 2 ^ 64 \<Longrightarrow> unat (page_offset j) = 4096 * j"
proof -
  assume "4096 * j < 2 ^ 64"
  then have "unat (of_nat (4096 * j) :: u64) = 4096 * j" by (rule unat_of_nat_u64)
  moreover have "page_offset j = of_nat (4096 * j)" by (simp add: page_offset_def mult.commute)
  ultimately show ?thesis by simp
qed

lemma page_below:
  assumes "4096 * pages_of len < 2 ^ 64" and "j \<le> pages_of len"
  shows "page_offset j < len \<longleftrightarrow> j < pages_of len"
proof -
  have "4096 * j < 2 ^ 64" using assms by (meson le_less_trans mult_le_mono2)
  then have "unat (page_offset j) = 4096 * j" by (rule unat_page_offset)
  moreover have "4096 * j < unat len \<longleftrightarrow> j < (unat len + 4095) div 4096" by linarith
  ultimately show ?thesis by (simp add: word_less_nat_alt pages_of_def)
qed

lemma aligned_page_offset: "aligned a \<Longrightarrow> aligned (a + page_offset j)"
proof (induction j)
  case (Suc j)
  then show ?case using aligned_next [of "a + page_offset j"] by (simp add: add.assoc)
qed simp

text \<open>Pages less than 48 address bits apart have different index paths.\<close>

lemma path_bits:
  assumes "path_of a = path_of b" and "12 \<le> k" and "k < 48"
  shows "bit a k = bit b k"
proof -
  have idx: "bit a (s + j) = bit b (s + j)" if "table_index s a = table_index s b" "j < 9" for s j
  proof -
    have m: "(0x1FF :: u64) = mask 9" by (simp add: mask_eq_exp_minus_1)
    have "bit (drop_bit s a AND mask 9) j = bit (drop_bit s b AND mask 9) j"
      using that(1) unfolding table_index_def m by simp
    then show ?thesis using that(2) by (simp add: bit_and_iff bit_mask_iff bit_drop_bit_eq)
  qed
  consider "k < 21" | "21 \<le> k" "k < 30" | "30 \<le> k" "k < 39" | "39 \<le> k" by linarith
  then show ?thesis
  proof cases
    case 1 then show ?thesis using idx [of 12 "k - 12"] assms by (simp add: path_of_def)
  next
    case 2 then show ?thesis using idx [of 21 "k - 21"] assms by (simp add: path_of_def)
  next
    case 3 then show ?thesis using idx [of 30 "k - 30"] assms by (simp add: path_of_def)
  next
    case 4 then show ?thesis using idx [of 39 "k - 39"] assms by (simp add: path_of_def)
  qed
qed

lemma paths_differ:
  assumes "aligned a" and "i \<noteq> j" and "i < 2 ^ 36" and "j < 2 ^ 36" and "unat a + 4096 * i < 2 ^ 64"
    and "unat a + 4096 * j < 2 ^ 64"
  shows "path_of (a + page_offset i) \<noteq> path_of (a + page_offset j)"
proof
  assume eq: "path_of (a + page_offset i) = path_of (a + page_offset j)"
  have u: "unat (a + page_offset k) = unat a + 4096 * k" if "unat a + 4096 * k < 2 ^ 64" for k
    using that unat_page_offset [of k] by (subst unat_add_le) simp_all
  have "take_bit 48 (a + page_offset i) = take_bit 48 (a + page_offset j)"
  proof (rule bit_word_eqI)
    fix k
    assume "k < LENGTH(64)"
    have "\<not> bit (a + page_offset l) k" if "k < 12" for l
      using aligned_page_offset [OF assms(1)] that by (simp add: aligned_bits)
    then show "bit (take_bit 48 (a + page_offset i)) k = bit (take_bit 48 (a + page_offset j)) k"
      using path_bits [OF eq, of k] by (cases "k < 12") (auto simp: bit_take_bit_iff)
  qed
  then have "take_bit 48 (unat (a + page_offset i)) = take_bit 48 (unat (a + page_offset j))"
    by (simp flip: unsigned_take_bit_eq)
  then have "(unat a + 4096 * i) mod 281474976710656 = (unat a + 4096 * j) mod 281474976710656"
    using u assms by (simp add: take_bit_eq_mod)
  then have "(4096 * i) mod (4096 * 68719476736) = (4096 * j) mod (4096 * 68719476736)"
    by (simp add: nat_mod_eq_iff)
  then have "i mod 68719476736 = j mod 68719476736" by (simp only: mult_mod_right [symmetric])
  then show False using assms(2-4) by simp
qed


section \<open>Searching for a free region\<close>

definition heap_page :: "mmu \<Rightarrow> nat \<Rightarrow> u64" where
  "heap_page st j = heap_end st + page_offset j"

text \<open>
  \<^verbatim>\<open>room T st t J\<close>: behind \<^verbatim>\<open>heap_end\<close>, the first \<^verbatim>\<open>J\<close> pages have their tables, and from the \<^verbatim>\<open>t\<close>-th on
  they are not mapped.
\<close>

definition room :: "tree \<Rightarrow> mmu \<Rightarrow> nat \<Rightarrow> nat \<Rightarrow> bool" where
  "room T st t J \<longleftrightarrow>
     aligned (heap_end st) \<and> heap_end st \<noteq> 0 \<and> unat (heap_end st) + 4096 * J \<le> 2 ^ 64 \<and> J \<le> 2 ^ 36 \<and>
     (\<forall>j<J. T (upper_path (heap_page st j)) \<noteq> None) \<and>
     (\<forall>j. t \<le> j \<and> j < J \<longrightarrow> page_frame T (pmem st) (heap_page st j) = None)"

lemma roomD:
  assumes "room T st t J"
  shows "aligned (heap_end st)" "0 < unat (heap_end st)" "unat (heap_end st) + 4096 * J \<le> 2 ^ 64"
    "J \<le> 2 ^ 36" "j < J \<Longrightarrow> \<exists>n. T (upper_path (heap_page st j)) = Some n"
    "t \<le> j \<Longrightarrow> j < J \<Longrightarrow> page_frame T (pmem st) (heap_page st j) = None"
proof -
  show "j < J \<Longrightarrow> \<exists>n. T (upper_path (heap_page st j)) = Some n"
    using assms unfolding room_def by blast
  show "0 < unat (heap_end st)" using assms unfolding room_def by (simp add: unat_pos_iff)
  show "aligned (heap_end st)" "unat (heap_end st) + 4096 * J \<le> 2 ^ 64" "J \<le> 2 ^ 36"
    "t \<le> j \<Longrightarrow> j < J \<Longrightarrow> page_frame T (pmem st) (heap_page st j) = None"
    using assms unfolding room_def by blast+
qed

lemma peek_region_tree:
  assumes "tables_ok T st" and "T (upper_path a) = Some n"
  shows "peek_region bit1 (allocate_pt bit1 (Suc m)) a st = Some (st, page_frame T (pmem st) a = None)"
proof -
  have "allocate_pt bit1 (Suc m) (table_index 39 a) (table_index 30 a) (table_index 21 a) st = Some (st, False)"
    by (rule allocate_pt_present [OF assms(1) _ _ _ assms(2)]) simp_all
  note c = check_region_step [of T st a n "allocate_pt bit1 (Suc m)" False bit1 False False 0, OF assms this]
  show ?thesis by (cases "page_frame T (pmem st) a") (simp_all add: peek_region_def c)
qed

lemma region_is_free_spec:
  assumes ok: "tables_ok T st" and room: "room T st t J" and fits: "off + pages_of len \<le> J"
  shows "i \<le> pages_of len \<Longrightarrow>
    region_is_free (peek_region bit1 (allocate_pt bit1 (Suc m))) len (page_offset off) (page_offset i) st =
      Some (st, \<forall>j. i \<le> j \<and> j < pages_of len \<longrightarrow> page_frame T (pmem st) (heap_page st (off + j)) = None)"
proof (induction "pages_of len - i" arbitrary: i)
  case 0
  have "4096 * pages_of len < 2 ^ 64" using roomD(2,3) [OF room] fits by simp
  then have "\<not> page_offset i < len" using page_below [of len i] 0 by simp
  then show ?case using 0 by (subst region_is_free.simps) auto
next
  case (Suc k)
  have i: "i < pages_of len" using Suc.hyps(2) by simp
  have "4096 * pages_of len < 2 ^ 64" using roomD(2,3) [OF room] fits by simp
  then have lt: "page_offset i < len" using page_below [of len i] i by simp
  have addr: "heap_end st + page_offset off + page_offset i = heap_page st (off + i)"
    by (simp add: heap_page_def page_offset_add add.assoc)
  have "off + i < J" using i fits by simp
  then obtain n where n: "T (upper_path (heap_page st (off + i))) = Some n" using roomD(5) [OF room] by blast
  note peek = peek_region_tree [OF ok n, of bit1 m]
  have IH: "region_is_free (peek_region bit1 (allocate_pt bit1 (Suc m))) len (page_offset off) (page_offset (Suc i)) st =
      Some (st, \<forall>j. Suc i \<le> j \<and> j < pages_of len \<longrightarrow> page_frame T (pmem st) (heap_page st (off + j)) = None)"
    by (rule Suc.hyps(1)) (use Suc.hyps(2) i in auto)
  have rest: "(\<forall>j. i \<le> j \<and> j < pages_of len \<longrightarrow> P j) \<longleftrightarrow> P i \<and> (\<forall>j. Suc i \<le> j \<and> j < pages_of len \<longrightarrow> P j)" for P
    using i by (metis le_antisym not_less_eq_eq le_refl Suc_leD)
  show ?case
    using lt IH peek by (subst region_is_free.simps) (simp add: addr rest)
qed

lemma find_region_spec:
  assumes ok: "tables_ok T st" and room: "room T st t J" and fits: "t + pages_of len \<le> J"
  defines "free \<equiv> \<lambda>o'. \<forall>j<pages_of len. page_frame T (pmem st) (heap_page st (o' + j)) = None"
  shows "o' \<le> t \<Longrightarrow> \<exists>k. o' \<le> k \<and> k \<le> t \<and> free k \<and> (\<forall>l. o' \<le> l \<and> l < k \<longrightarrow> \<not> free l) \<and>
    find_region (peek_region bit1 (allocate_pt bit1 (Suc m))) len (page_offset o') st = Some (st, heap_page st k)"
proof (induction "t - o'" arbitrary: o' rule: less_induct)
  case less
  have "region_is_free (peek_region bit1 (allocate_pt bit1 (Suc m))) len (page_offset o') 0 st = Some (st, free o')"
    using region_is_free_spec [OF ok room, of o' len 0] less.prems fits by (simp add: free_def)
  note step = this
  show ?case
  proof (cases "free o'")
    case True
    then have "find_region (peek_region bit1 (allocate_pt bit1 (Suc m))) len (page_offset o') st = Some (st, heap_page st o')"
      using step by (subst find_region.simps) (simp add: heap_page_def)
    then show ?thesis using True less.prems by (intro exI [of _ o']) auto
  next
    case False
    have "free t" using roomD(6) [OF room] fits unfolding free_def by simp
    then have lt: "o' < t" using False less.prems by (metis le_neq_implies_less)
    then obtain k where k: "Suc o' \<le> k" "k \<le> t" "free k" "\<forall>l. Suc o' \<le> l \<and> l < k \<longrightarrow> \<not> free l"
        "find_region (peek_region bit1 (allocate_pt bit1 (Suc m))) len (page_offset (Suc o')) st = Some (st, heap_page st k)"
      using less.hyps [of "Suc o'", OF diff_less_mono2 [OF lessI lt] Suc_leI [OF lt]] by blast
    have "\<not> free l" if "o' \<le> l" "l < k" for l using that k(4) False by (cases "l = o'") auto
    moreover have "find_region (peek_region bit1 (allocate_pt bit1 (Suc m))) len (page_offset o') st = Some (st, heap_page st k)"
      using k(5) step False by (subst find_region.simps) simp
    ultimately show ?thesis using k(1-3) by (intro exI [of _ k]) auto
  qed
qed

lemma find_free_spec:
  assumes "tables_ok T st" and "room T st t J" and "t + pages_of len \<le> J"
  obtains k where "k \<le> t" "\<And>j. j < pages_of len \<Longrightarrow> page_frame T (pmem st) (heap_page st (k + j)) = None"
    "find_free bit1 (allocate_pt bit1 (Suc m)) len st = Some (st, heap_page st k)"
    "\<And>l. l < k \<Longrightarrow> \<exists>j<pages_of len. page_frame T (pmem st) (heap_page st (l + j)) \<noteq> None"
  using find_region_spec [OF assms, of 0 bit1 m] unfolding find_free_def page_offset_simps by blast

section \<open>Mapping a run\<close>

fun map_leaves :: "tree \<Rightarrow> u64 \<Rightarrow> u64 \<Rightarrow> nat \<Rightarrow> mmu \<Rightarrow> mmu" where
  "map_leaves T a f 0 st = st"
| "map_leaves T a f (Suc n) st = map_leaves T (a + PAGE_SIZE) (f + PAGE_SIZE) n (set_leaf T a (f OR 0x3) st)"

lemma map_leaves_simps [simp]:
  "frames (map_leaves T a f n st) = frames st" "heap_end (map_leaves T a f n st) = heap_end st"
  "prng_seed (map_leaves T a f n st) = prng_seed st" "cr3 (map_leaves T a f n st) = cr3 st"
  "directories (map_leaves T a f n st) = directories st"
  "active_directory (map_leaves T a f n st) = active_directory st"
  by (induction T a f n st rule: map_leaves.induct) simp_all

text \<open>A run of \<^verbatim>\<open>n\<close> pages with tables, on different paths.\<close>

definition run_ok :: "tree \<Rightarrow> u64 \<Rightarrow> nat \<Rightarrow> bool" where
  "run_ok T a n \<longleftrightarrow>
     (\<forall>j<n. T (upper_path (a + page_offset j)) \<noteq> None) \<and>
     (\<forall>i<n. \<forall>j<n. i \<noteq> j \<longrightarrow> path_of (a + page_offset i) \<noteq> path_of (a + page_offset j))"

lemma page_offset_Suc: "a + page_offset (Suc j) = a + PAGE_SIZE + page_offset j"
  by (simp add: page_offset_def PAGE_SIZE_def algebra_simps)

lemma run_ok_Suc:
  assumes "run_ok T a (Suc n)"
  shows "T (upper_path a) \<noteq> None" and "run_ok T (a + PAGE_SIZE) n"
    and "j < n \<Longrightarrow> path_of (a + PAGE_SIZE + page_offset j) \<noteq> path_of a"
proof -
  show "T (upper_path a) \<noteq> None" using assms unfolding run_ok_def by (metis add.right_neutral page_offset_simps(1) zero_less_Suc)
  show "run_ok T (a + PAGE_SIZE) n"
    using assms unfolding run_ok_def by (simp add: page_offset_Suc [symmetric] del: page_offset_simps)
  show "path_of (a + PAGE_SIZE + page_offset j) \<noteq> path_of a" if "j < n"
  proof -
    have "path_of (a + page_offset (Suc j)) \<noteq> path_of (a + page_offset 0)"
      using assms that unfolding run_ok_def by blast
    then show ?thesis by (simp add: page_offset_Suc)
  qed
qed

lemma map_page_step:
  assumes "tables_ok T st" and "T (upper_path a) = Some k" and "page_frame T (pmem st) a = None"
  shows "map_page bit1 (allocate_pt bit1 (Suc m)) a f st = Some (set_leaf T a (f OR 0x3) st)"
proof -
  have alloc: "allocate_pt bit1 (Suc m) (table_index 39 a) (table_index 30 a) (table_index 21 a) st = Some (st, False)"
    by (rule allocate_pt_present [OF assms(1) _ _ _ assms(2)]) simp_all
  note c = check_region_step [of T st a k "allocate_pt bit1 (Suc m)" False bit1 True True f, OF assms(1,2) alloc]
  show ?thesis
    using assms(3) by (simp add: map_page_def c frame_for_def)
qed

lemma map_leaves_ok:
  assumes "tables_ok T st" and "run_ok T a n"
    and "\<forall>j<n. page_frame T (pmem st) (a + page_offset j) = None"
  shows "tables_ok T (map_leaves T a f n st) \<and>
    (\<forall>j<n. page_frame T (pmem (map_leaves T a f n st)) (a + page_offset j) = Some (page_base (f + page_offset j))) \<and>
    (\<forall>b. (\<forall>j<n. path_of b \<noteq> path_of (a + page_offset j)) \<longrightarrow>
      page_frame T (pmem (map_leaves T a f n st)) b = page_frame T (pmem st) b) \<and>
    map_run bit1 (allocate_pt bit1 (Suc m)) a f n st = Some (map_leaves T a f n st)"
  using assms
proof (induction n arbitrary: a f st)
  case (Suc n)
  let ?st = "set_leaf T a (f OR 0x3) st"
  let ?st' = "map_leaves T (a + PAGE_SIZE) (f + PAGE_SIZE) n ?st"
  note run = run_ok_Suc [OF Suc.prems(2)]
  obtain k where k: "T (upper_path a) = Some k" using run(1) by blast
  have tree: "tree_ok T" using Suc.prems(1) by (simp add: tables_ok_def)
  have unm: "page_frame T (pmem st) a = None" using Suc.prems(3) by fastforce
  have ok: "tables_ok T ?st"
    by (rule set_leaf_tables_ok [OF Suc.prems(1) k unmapped_spares_tables [OF Suc.prems(1) unm]])
  note pf = page_frame_set_leaf [OF tree k, of "f OR 0x3" st]
  have "page_frame T (pmem ?st) (a + PAGE_SIZE + page_offset j) = None" if "j < n" for j
  proof -
    have "page_frame T (pmem st) (a + page_offset (Suc j)) = None" using Suc.prems(3) that by blast
    then show ?thesis using run(3) [OF that] by (simp add: pf page_offset_Suc)
  qed
  then have IH: "tables_ok T ?st'"
      "\<forall>j<n. page_frame T (pmem ?st') (a + PAGE_SIZE + page_offset j) = Some (page_base (f + PAGE_SIZE + page_offset j))"
      "\<forall>b. (\<forall>j<n. path_of b \<noteq> path_of (a + PAGE_SIZE + page_offset j)) \<longrightarrow>
        page_frame T (pmem ?st') b = page_frame T (pmem ?st) b"
      "map_run bit1 (allocate_pt bit1 (Suc m)) (a + PAGE_SIZE) (f + PAGE_SIZE) n ?st = Some ?st'"
    using Suc.IH [OF ok run(2), of "f + PAGE_SIZE"] by blast+
  have first: "page_frame T (pmem ?st') a = Some (page_base f)"
  proof -
    have "page_frame T (pmem ?st') a = page_frame T (pmem ?st) a"
      using IH(3) run(3) by metis
    then show ?thesis by (simp add: pf present_flags)
  qed
  have "page_frame T (pmem ?st') (a + page_offset j) = Some (page_base (f + page_offset j))" if "j < Suc n" for j
  proof (cases j)
    case 0
    then show ?thesis using first by simp
  next
    case (Suc i)
    then show ?thesis using IH(2) that by (simp add: page_offset_Suc)
  qed
  moreover have "page_frame T (pmem ?st') b = page_frame T (pmem st) b"
    if "\<forall>j<Suc n. path_of b \<noteq> path_of (a + page_offset j)" for b
  proof -
    have "path_of b \<noteq> path_of (a + page_offset 0)" using that by blast
    moreover have "\<forall>j<n. path_of b \<noteq> path_of (a + PAGE_SIZE + page_offset j)"
      using that page_offset_Suc by (metis Suc_less_eq)
    ultimately show ?thesis using IH(3) by (simp add: pf)
  qed
  moreover have "map_run bit1 (allocate_pt bit1 (Suc m)) a f (Suc n) st = Some ?st'"
    using IH(4) by (simp add: map_page_step [OF Suc.prems(1) k unm])
  ultimately show ?case using IH(1) by simp
qed simp

section \<open>Writing to memory that is no table\<close>

definition off_tables :: "tree \<Rightarrow> u64 \<Rightarrow> nat \<Rightarrow> bool" where
  "off_tables T pa n \<longleftrightarrow>
     region pa n \<and> (\<forall>p k. T p = Some k \<longrightarrow> apart pa n (n_phys k) 4096 \<and>
       (length p < 3 \<longrightarrow> apart pa n (n_back k) 4096))"

lemma slot_off:
  assumes "apart pa (length bs) f 4096" and "aligned f" and "index_ok i"
  shows "slot (store_bytes m pa bs) f i = slot m f i"
proof -
  have u: "unat (f + 8 * i) = unat f + 8 * unat i" "8 * unat i + 8 \<le> 4096"
    using unat_page_add(1) [OF assms(2) slot_offset(3) [OF assms(3)]] slot_offset [OF assms(3)] by simp_all
  then have "apart pa (length bs) (f + 8 * i) 8"
    using assms(1) by (auto simp: apart_def region_def)
  then show ?thesis by (simp add: slot_def load64_def load_store_apart)
qed

lemma store_off_tables:
  assumes ok: "tables_ok T st" and off: "off_tables T pa (length bs)"
  defines "st' \<equiv> st\<lparr>pmem := store_bytes (pmem st) pa bs\<rparr>"
  shows "tables_ok T st'" and "page_frame T (pmem st') a = page_frame T (pmem st) a"
proof -
  have tree: "tree_ok T" and linked: "linked_ok T (pmem st)" and mapped: "mapped_ok T (pmem st)"
    using ok by (simp_all add: tables_ok_def)
  have phys: "slot (pmem st') (n_phys k) i = slot (pmem st) (n_phys k) i" if "T p = Some k" "index_ok i" for p k i
    using slot_off [of pa bs "n_phys k" i] off that tree_okD(4) [OF tree that(1)] unfolding off_tables_def st'_def
    by simp
  have behind: "slot (pmem st') (n_back k) i = slot (pmem st) (n_back k) i"
    if "T p = Some k" "length p < 3" "index_ok i" for p k i
    using slot_off [of pa bs "n_back k" i] off that tree_okD(5) [OF tree that(1)] unfolding off_tables_def st'_def
    by simp
  have frame: "page_frame T (pmem st') b = page_frame T (pmem st) b" for b
    using phys [of "upper_path b" _ "table_index 12 b"] by (simp add: page_frame_def split: option.split)
  then show "page_frame T (pmem st') a = page_frame T (pmem st) a" .
  have "linked_ok T (pmem st')"
    unfolding linked_ok_def
  proof (intro allI impI)
    fix p k i
    assume k: "T p = Some k \<and> length p < 3 \<and> index_ok i"
    have eq: "slot (pmem st') (n_phys k) i = slot (pmem st) (n_phys k) i"
      "slot (pmem st') (n_back k) i = slot (pmem st) (n_back k) i" using phys behind k by blast+
    show "case T (p @ [i]) of None \<Rightarrow> \<not> present (slot (pmem st') (n_phys k) i)
       | Some ka \<Rightarrow> present (slot (pmem st') (n_phys k) i) \<and> page_base (slot (pmem st') (n_phys k) i) = n_phys ka \<and>
           slot (pmem st') (n_back k) i = n_virt ka"
      unfolding eq using linked k unfolding linked_ok_def by blast
  qed
  moreover have "mapped_ok T (pmem st')" using mapped by (simp add: mapped_ok_def frame)
  ultimately show "tables_ok T st'" using ok by (auto simp: tables_ok_def st'_def active_def)
qed

lemma off_tables_part:
  assumes "off_tables T pa n" and "i + k \<le> n" and "0 < k"
  shows "off_tables T (pa + of_nat i) k"
proof -
  have r: "region pa n" using assms(1) by (simp add: off_tables_def)
  have u: "unat (pa + of_nat i) = unat pa + i" by (rule unat_region_nth [OF r]) (use assms in simp)
  show ?thesis
    using assms u unfolding off_tables_def apart_def region_def by fastforce
qed

lemma vstore_bytes_run:
  assumes "tables_ok T st" and "off_tables T pa (length bs)"
    and "\<forall>i<length bs. translate st (a + of_nat i) = Some (pa + of_nat i)"
  shows "vstore_bytes a bs st = Some (st\<lparr>pmem := store_bytes (pmem st) pa bs\<rparr>)"
  using assms
proof (induction bs arbitrary: a pa st)
  case (Cons b bs)
  let ?st = "st\<lparr>pmem := store_bytes (pmem st) pa [b]\<rparr>"
  have r: "region pa (length [b] + length bs)" using Cons.prems(2) by (simp add: off_tables_def)
  have off1: "off_tables T pa (length [b])" using off_tables_part [OF Cons.prems(2), of 0 1] by simp
  have t0: "translate st a = Some pa" using Cons.prems(3) by fastforce
  note ok = store_off_tables [OF Cons.prems(1) off1]
  have tr: "translate ?st x = translate st x" for x
    using ok(2) [of x] by (simp add: translate_frame [OF Cons.prems(1)] translate_frame [OF ok(1)])
  have eq: "store_bytes (store_bytes (pmem st) pa [b]) (pa + 1) bs = store_bytes (pmem st) pa (b # bs)"
    using store_bytes_append [OF r, of "pmem st"] by simp
  show ?case
  proof (cases "bs = []")
    case True
    then show ?thesis using t0 by (simp add: vstore_run_def)
  next
    case False
    have "off_tables T (pa + 1) (length bs)"
      using off_tables_part [OF Cons.prems(2), of 1 "length bs"] False by simp
    moreover have "\<forall>i<length bs. translate ?st (a + 1 + of_nat i) = Some (pa + 1 + of_nat i)"
    proof (intro allI impI)
      fix i assume "i < length bs"
      then have "translate st (a + of_nat (Suc i)) = Some (pa + of_nat (Suc i))" using Cons.prems(3) by (metis Suc_mono length_Cons)
      then show "translate ?st (a + 1 + of_nat i) = Some (pa + 1 + of_nat i)" by (simp add: tr add.assoc)
    qed
    ultimately have "vstore_bytes (a + 1) bs ?st = Some (?st\<lparr>pmem := store_bytes (pmem ?st) (pa + 1) bs\<rparr>)"
      using Cons.IH [OF ok(1)] by blast
    then show ?thesis using t0 by (simp add: vstore_run_def eq)
  qed
qed simp


section \<open>Free words of the bitmap\<close>

text \<open>
  Marking a frame may mark others of the same word, depending on \<^verbatim>\<open>1 << offset\<close>, so the supply of
  frames is counted in words: those whose first 31 frames, the ones that \<^verbatim>\<open>1 << offset\<close> is defined
  for, are free.  A run of at most 31 frames fits into such a word, and any run lies in two words.
\<close>

definition free_words :: "(nat \<Rightarrow> u64) \<Rightarrow> bitmap \<Rightarrow> nat set" where
  "free_words bit1 fr = {i. i < 256 \<and> (\<forall>b<31. \<not> frame_used bit1 fr (64 * i + b))}"

lemma finite_free_words [simp]: "finite (free_words bit1 fr)"
  by (simp add: free_words_def)

lemma free_words_run:
  assumes "free_words bit1 fr \<noteq> {}" and "k \<le> 31"
  shows "\<exists>q. free_run bit1 fr q k"
proof -
  obtain i where i: "i < 256" "\<forall>b<31. \<not> frame_used bit1 fr (64 * i + b)" using assms(1) by (auto simp: free_words_def)
  then have "free_run bit1 fr (64 * i) k" using assms(2) by (simp add: free_run_def)
  then show ?thesis by blast
qed

lemma mark_run_words:
  assumes "k + n \<le> 16384" and "\<forall>j<n. i \<noteq> (k + j) div 64"
  shows "mark_run bit1 (of_nat k * 0x1000) n fr ! i = fr ! i"
  using assms
proof (induction n arbitrary: k fr)
  case (Suc n)
  let ?fr = "fst (set_frame bit1 (of_nat k * 0x1000) True fr)"
  have eq: "mark_run bit1 (of_nat k * 0x1000) (Suc n) fr = mark_run bit1 (of_nat (Suc k) * 0x1000) n ?fr"
    by (simp only: mark_run.simps frame_address_Suc)
  have "\<forall>j<n. i \<noteq> (Suc k + j) div 64"
  proof (intro allI impI)
    fix j assume "j < n"
    then show "i \<noteq> (Suc k + j) div 64" using Suc.prems(2) by (metis Suc_mono add_Suc_shift)
  qed
  then have "mark_run bit1 (of_nat (Suc k) * 0x1000) n ?fr ! i = ?fr ! i"
    using Suc.prems(1) by (intro Suc.IH) simp_all
  moreover have "?fr ! i = fr ! i"
  proof -
    have "k div 64 \<noteq> i" using Suc.prems(2) by fastforce
    then show ?thesis using Suc.prems(1) by (simp add: set_frame_at)
  qed
  ultimately show ?case unfolding eq by simp
qed simp

lemma get_frame_words:
  assumes "bit_ok bit1" and "length fr = 256" and "get_frame bit1 True c fr = Some (rc, fr')" and "unat c \<le> 64"
  shows "card (free_words bit1 fr) \<le> card (free_words bit1 fr') + 2"
proof -
  obtain k where k: "first_run bit1 fr (unat c) k" "rc = of_nat k * 0x1000" "0 < unat c" "k + unat c \<le> 16384"
    by (rule get_frame_run [OF assms(1-3)])
  have fr': "fr' = mark_run bit1 rc (unat c) fr" using assms(3) by (auto simp: get_frame_def split: bind_splits)
  let ?B = "{k div 64, (k + unat c - 1) div 64}"
  have "fr' ! i = fr ! i" if "i \<notin> ?B" for i
    unfolding fr' k(2)
  proof (rule mark_run_words [OF k(4)])
    show "\<forall>j<unat c. i \<noteq> (k + j) div 64"
    proof (intro allI impI notI)
      fix j assume "j < unat c" "i = (k + j) div 64"
      moreover have "k div 64 \<le> (k + j) div 64" "(k + j) div 64 \<le> (k + unat c - 1) div 64"
        using \<open>j < unat c\<close> by (auto intro: div_le_mono)
      moreover have "(k + unat c - 1) div 64 \<le> k div 64 + 1" using assms(4) k(3) by linarith
      ultimately show False using that by auto
    qed
  qed
  then have "frame_used bit1 fr' (64 * i + b) = frame_used bit1 fr (64 * i + b)" if "i \<notin> ?B" "b < 31" for i b
    using that by (simp add: frame_used_def)
  then have "free_words bit1 fr \<subseteq> free_words bit1 fr' \<union> ?B" unfolding free_words_def by blast
  then have "card (free_words bit1 fr) \<le> card (free_words bit1 fr' \<union> ?B)" by (intro card_mono) simp_all
  also have "\<dots> \<le> card (free_words bit1 fr') + card ?B" by (rule card_Un_le)
  also have "card ?B \<le> 2" by (simp add: card_insert_if)
  finally show ?thesis by simp
qed

section \<open>Fresh frames\<close>

definition frame_marked :: "(nat \<Rightarrow> u64) \<Rightarrow> bitmap \<Rightarrow> u64 \<Rightarrow> bool" where
  "frame_marked bit1 fr f \<longleftrightarrow> (unat f < 67108864 \<longrightarrow> frame_used bit1 fr (unat f div 4096))"

definition tables_marked :: "(nat \<Rightarrow> u64) \<Rightarrow> tree \<Rightarrow> bitmap \<Rightarrow> bool" where
  "tables_marked bit1 T fr \<longleftrightarrow>
     (\<forall>p n. T p = Some n \<longrightarrow> frame_marked bit1 fr (n_phys n) \<and> (length p < 3 \<longrightarrow> frame_marked bit1 fr (n_back n)))"

lemma page_offset_frame: "page_offset q = of_nat q * 0x1000"
  by (simp add: page_offset_def)

lemma fresh_apart:
  assumes "free_run bit1 fr q k" and "frame_marked bit1 fr f" and "aligned f" and "0 < k"
  shows "apart (page_offset q) (4096 * k) f 4096"
proof -
  have q: "q + k \<le> 16384" using assms(1) by (simp add: free_run_def)
  have u: "unat (page_offset q) = 4096 * q" using q by (intro unat_page_offset) simp
  obtain g where g: "unat f = 4096 * g" using unat_page_add(3) [OF assms(3), of 0] by (auto elim: dvdE simp: mod_0_imp_dvd)
  have f: "unat f + 4096 \<le> 2 ^ 64" using unat_page_add(2) [OF assms(3), of 0] by simp
  have "\<not> (q \<le> g \<and> g < q + k)"
  proof
    assume r: "q \<le> g \<and> g < q + k"
    then have "frame_used bit1 fr g" using assms(2) g q by (simp add: frame_marked_def)
    then show False using free_runD [OF assms(1), of g] r by simp
  qed
  then show ?thesis using u g f q by (auto simp: apart_def region_def)
qed

lemma fresh_off_tables:
  assumes "tree_ok T" and "tables_marked bit1 T fr" and "free_run bit1 fr q k" and "0 < k"
  shows "off_tables T (page_offset q) (4096 * k)"
proof -
  have q: "q + k \<le> 16384" using assms(3) by (simp add: free_run_def)
  have u: "unat (page_offset q) = 4096 * q" using q by (intro unat_page_offset) simp
  then have "region (page_offset q) (4096 * k)" using q by (simp add: region_def)
  then show ?thesis
    using fresh_apart [OF assms(3) _ _ assms(4)] assms(2) tree_okD(4,5) [OF assms(1)]
    unfolding off_tables_def tables_marked_def by blast
qed

lemma aligned_offset [simp]: "aligned (page_offset q)"
  using aligned_page_offset [of 0 q] by (simp add: aligned_def)

lemma page_base_aligned: "aligned f \<Longrightarrow> page_base f = f"
  using page_of_sum(2) [of f 0] by simp

lemma heap_page_add: "heap_page st (i + j) = heap_page st i + page_offset j"
  by (simp add: heap_page_def page_offset_add add.assoc)

lemma room_paths:
  assumes "room T st t J" and "i < J" and "j < J" and "i \<noteq> j"
  shows "path_of (heap_page st i) \<noteq> path_of (heap_page st j)"
  unfolding heap_page_def
  by (rule paths_differ) (use roomD(1,3,4) [OF assms(1)] assms(2-4) in auto)

lemma room_run_ok:
  assumes "room T st t J" and "k + n \<le> J"
  shows "run_ok T (heap_page st k) n"
  unfolding run_ok_def
proof (intro conjI allI impI)
  fix j assume "j < n"
  then have "k + j < J" using assms(2) by simp
  then show "T (upper_path (heap_page st k + page_offset j)) \<noteq> None"
    using roomD(5) [OF assms(1)] by (metis heap_page_add option.distinct(1))
next
  fix i j assume "i < n" "j < n" "i \<noteq> j"
  then have "path_of (heap_page st (k + i)) \<noteq> path_of (heap_page st (k + j))"
    using assms(2) by (intro room_paths [OF assms(1)]) auto
  then show "path_of (heap_page st k + page_offset i) \<noteq> path_of (heap_page st k + page_offset j)"
    by (simp add: heap_page_add)
qed

text \<open>An address in a mapped run.\<close>

lemma translate_run:
  assumes "tables_ok T st" and "aligned a" and "aligned f"
    and "\<And>j. j < n \<Longrightarrow> page_frame T (pmem st) (a + page_offset j) = Some (f + page_offset j)" and "i < 4096 * n"
  shows "translate st (a + of_nat i) = Some (f + of_nat i)"
proof -
  define j r where jr: "j = i div 4096" "r = i mod 4096"
  have i: "i = 4096 * j + r" "j < n" "r < 4096" using assms(5) by (simp_all add: jr less_mult_imp_div_less mult.commute)
  have "(of_nat i :: u64) = page_offset j + of_nat r" by (simp add: i(1) page_offset_def)
  moreover have "unat (of_nat r :: u64) < 4096" using i(3) by (simp add: unat_of_nat_u64)
  ultimately show ?thesis
    using translate_page [OF assms(1) aligned_page_offset [OF assms(2)] assms(4) [OF i(2)], of "of_nat r"]
    by (simp add: add.assoc)
qed

definition zeroed :: "mem \<Rightarrow> u64 \<Rightarrow> nat \<Rightarrow> bool" where
  "zeroed m f n \<longleftrightarrow> (\<forall>i<n. m (f + of_nat i) = 0)"

lemma zeroed_slot:
  assumes "zeroed m f (4096 * k)" and "j < k" and "index_ok i"
  shows "slot m (f + page_offset j) i = 0"
proof -
  have i: "8 * unat i + 8 \<le> 4096" using slot_offset(2) [OF assms(3)] by simp
  have "load_bytes m (f + page_offset j + 8 * i) 8 = replicate 8 0"
  proof (rule nth_equalityI)
    fix l assume "l < length (load_bytes m (f + page_offset j + 8 * i) 8)"
    then have l: "l < 8" by simp
    have "4096 * j + 4096 \<le> 4096 * k" using assms(2) by simp
    then have "4096 * j + 8 * unat i + l < 4096 * k" using i l by simp
    then have "m (f + of_nat (4096 * j + 8 * unat i + l)) = 0"
      using assms(1) unfolding zeroed_def by blast
    moreover have "f + page_offset j + 8 * i + of_nat l = f + of_nat (4096 * j + 8 * unat i + l)"
      by (simp add: page_offset_def algebra_simps)
    then have "m (f + page_offset j + 8 * i + of_nat l) = 0" using calculation by (simp only:)
    then show "load_bytes m (f + page_offset j + 8 * i) 8 ! l = replicate 8 0 ! l" using l by simp
  qed simp
  then show ?thesis by (simp add: slot_def load64_def numeral_eq_Suc)
qed

section \<open>Memory that is no table\<close>

text \<open>\<^verbatim>\<open>plain_byte\<close>: the byte at \<^verbatim>\<open>x\<close> is in a frame in use and in no table.\<close>

definition plain_byte :: "(nat \<Rightarrow> u64) \<Rightarrow> tree \<Rightarrow> bitmap \<Rightarrow> u64 \<Rightarrow> bool" where
  "plain_byte bit1 T fr x \<longleftrightarrow> off_tables T x 1 \<and> frame_marked bit1 fr (page_base x)"

lemma store_byte_other: "apart a (length bs) x 1 \<Longrightarrow> store_bytes m a bs x = m x"
  using store_bytes_other [of a bs x 1 0] by simp

lemma slot_store_other:
  assumes "aligned f" and "index_ok i" and "apart x 1 f 4096"
  shows "store64 m (f + 8 * i) v x = m x"
proof -
  have "unat (f + 8 * i) = unat f + 8 * unat i" "8 * unat i + 8 \<le> 4096"
    using unat_page_add(1) [OF assms(1) slot_offset(3) [OF assms(2)]] slot_offset [OF assms(2)] by simp_all
  then have "apart (f + 8 * i) (length (le_bytes 8 v)) x 1"
    using assms(3) by (auto simp: apart_def region_def)
  then show ?thesis unfolding store64_def by (rule store_byte_other)
qed

lemma set_leaf_other:
  assumes "tree_ok T" and "off_tables T x 1"
  shows "pmem (set_leaf T a e st) x = pmem st x"
proof (cases "T (upper_path a)")
  case (Some n)
  then have "apart x 1 (n_phys n) 4096" using assms(2) unfolding off_tables_def by blast
  then show ?thesis using Some slot_store_other [OF tree_okD(4) [OF assms(1) Some]] by (simp add: set_leaf_def)
qed (simp add: set_leaf_def)

lemma map_leaves_other:
  "tree_ok T \<Longrightarrow> off_tables T x 1 \<Longrightarrow> pmem (map_leaves T a f n st) x = pmem st x"
  by (induction T a f n st rule: map_leaves.induct) (simp_all add: set_leaf_other)

lemma fresh_byte_apart:
  assumes "free_run bit1 fr q k" and "frame_marked bit1 fr (page_base x)" and "0 < k"
  shows "apart (page_offset q) (4096 * k) x 1"
proof -
  have "apart (page_offset q) (4096 * k) (page_base x) 4096"
    by (rule fresh_apart [OF assms(1,2) aligned_page_base assms(3)])
  moreover have "unat x = unat (page_base x) + unat (x AND 0xFFF)"
    using unat_page_add(1) [OF aligned_page_base page_split(2), of x x] page_split(1) [of x] by simp
  ultimately show ?thesis using page_split(2) [of x] by (auto simp: apart_def region_def)
qed

section \<open>New mappings\<close>

text \<open>
  \<^verbatim>\<open>fresh_maps F fr F' fr'\<close>: new mappings lead to frames that were free and are used now, and no two
  pages share a frame that did not do so before.
\<close>

definition fresh_maps ::
  "(nat \<Rightarrow> u64) \<Rightarrow> (u64 \<Rightarrow> u64 option) \<Rightarrow> bitmap \<Rightarrow> (u64 \<Rightarrow> u64 option) \<Rightarrow> bitmap \<Rightarrow> bool" where
  "fresh_maps bit1 F fr F' fr' \<longleftrightarrow>
     (\<forall>b f. F' b = Some f \<longrightarrow> F b = Some f \<or> \<not> frame_marked bit1 fr f \<and> frame_marked bit1 fr' f) \<and>
     (\<forall>b c f. F' b = Some f \<and> F' c = Some f \<and> path_of b \<noteq> path_of c \<longrightarrow> F b = Some f)"

definition mapped_marked :: "(nat \<Rightarrow> u64) \<Rightarrow> (u64 \<Rightarrow> u64 option) \<Rightarrow> bitmap \<Rightarrow> bool" where
  "mapped_marked bit1 F fr \<longleftrightarrow> (\<forall>b f. F b = Some f \<longrightarrow> frame_marked bit1 fr f)"

lemma frame_marked_mono:
  "frame_marked bit1 fr f \<Longrightarrow> (\<And>j. frame_used bit1 fr j \<Longrightarrow> frame_used bit1 fr' j) \<Longrightarrow> frame_marked bit1 fr' f"
  by (auto simp: frame_marked_def)

lemma fresh_maps_refl [simp]: "fresh_maps bit1 F fr F fr'"
  by (simp add: fresh_maps_def)

lemma fresh_maps_trans:
  assumes "fresh_maps bit1 F fr F1 fr1" and "fresh_maps bit1 F1 fr1 F2 fr2"
    and "\<And>j. frame_used bit1 fr j \<Longrightarrow> frame_used bit1 fr1 j" and "\<And>j. frame_used bit1 fr1 j \<Longrightarrow> frame_used bit1 fr2 j"
  shows "fresh_maps bit1 F fr F2 fr2"
proof -
  have m: "frame_marked bit1 fr f \<Longrightarrow> frame_marked bit1 fr1 f" "frame_marked bit1 fr1 f \<Longrightarrow> frame_marked bit1 fr2 f" for f
    using assms(3,4) by (blast intro: frame_marked_mono)+
  have "F b = Some f \<or> \<not> frame_marked bit1 fr f \<and> frame_marked bit1 fr2 f" if "F2 b = Some f" for b f
    using that assms(1,2) m unfolding fresh_maps_def by metis
  moreover have "F b = Some f" if "F2 b = Some f" "F2 c = Some f" "path_of b \<noteq> path_of c" for b c f
    using that assms(1,2) unfolding fresh_maps_def by metis
  ultimately show ?thesis unfolding fresh_maps_def by blast
qed

lemma mapped_marked_grows:
  assumes "mapped_marked bit1 F fr" and "fresh_maps bit1 F fr F' fr'" and "\<And>j. frame_used bit1 fr j \<Longrightarrow> frame_used bit1 fr' j"
  shows "mapped_marked bit1 F' fr'"
  using assms frame_marked_mono [OF _ assms(3)] unfolding mapped_marked_def fresh_maps_def by metis

lemma frame_marked_offset: "q < 16384 \<Longrightarrow> frame_marked bit1 fr (page_offset q) \<longleftrightarrow> frame_used bit1 fr q"
  using unat_page_offset [of q] by (simp add: frame_marked_def)

text \<open>Mapping a run of fresh frames to different pages.\<close>

lemma fresh_maps_run:
  assumes "mapped_marked bit1 F fr" and "free_run bit1 fr q k" and "\<And>j. q \<le> j \<Longrightarrow> j < q + k \<Longrightarrow> frame_used bit1 fr' j"
    and new: "\<And>b f. F' b = Some f \<Longrightarrow> F b = Some f \<or> (\<exists>j<k. path_of b = P j \<and> f = page_offset q + page_offset j)"
  shows "fresh_maps bit1 F fr F' fr'"
proof -
  have q: "q + k \<le> 16384" using assms(2) by (simp add: free_run_def)
  have u: "unat (page_offset q + page_offset j) = 4096 * (q + j)" if "j < k" for j
    using unat_page_offset [of "q + j"] q that by (simp add: page_offset_add)
  have free: "\<not> frame_marked bit1 fr (page_offset q + page_offset j)" and
    used: "frame_marked bit1 fr' (page_offset q + page_offset j)" if "j < k" for j
    using u [OF that] q that free_runD [OF assms(2), of "q + j"] assms(3) [of "q + j"]
    by (simp_all add: frame_marked_def)
  have "F b = Some f" if b: "F' b = Some f" and c: "F' c = Some f" and ne: "path_of b \<noteq> path_of c" for b c f
  proof (rule ccontr)
    assume "F b \<noteq> Some f"
    then obtain j where j: "j < k" "path_of b = P j" "f = page_offset q + page_offset j" using new [OF b] by blast
    have "F c \<noteq> Some f" using free [OF j(1)] assms(1) unfolding j(3) mapped_marked_def by blast
    then obtain i where i: "i < k" "path_of c = P i" "f = page_offset q + page_offset i" using new [OF c] by blast
    have "4096 * (q + i) = 4096 * (q + j)" using u [OF i(1)] u [OF j(1)] i(3) j(3) by simp
    then show False using i(2) j(2) ne by simp
  qed
  moreover have "F b = Some f \<or> \<not> frame_marked bit1 fr f \<and> frame_marked bit1 fr' f" if "F' b = Some f" for b f
    using new [OF that] free used by blast
  ultimately show ?thesis unfolding fresh_maps_def by blast
qed

section \<open>Allocating memory for a table\<close>

lemma safe_alloc_spec:
  assumes ok: "tables_ok T st" and marked: "tables_marked bit1 T (frames st)" and bits: "bit_ok bit1"
    and len: "length (frames st) = 256" and room: "room T st t J" and fits: "t + k \<le> J" and k: "0 < k"
    and free: "\<exists>q. free_run bit1 (frames st) q k" and bytes: "bytes = page_offset k"
  obtains q v st' where
    "safe_alloc bit1 (allocate_pt bit1 (Suc m)) bytes (\<lambda>_ st. Some st) st = Some (st', heap_page st v, page_offset q)"
    "first_run bit1 (frames st) k q" "v \<le> t" "tables_ok T st'"
    "\<And>j. j < k \<Longrightarrow> page_frame T (pmem st') (heap_page st v + page_offset j) = Some (page_offset q + page_offset j)"
    "\<And>a f. page_frame T (pmem st) a = Some f \<Longrightarrow> page_frame T (pmem st') a = Some f"
    "zeroed (pmem st') (page_offset q) (4096 * k)" "room T st' (t + k) J"
    "length (frames st') = 256" "\<And>j. q \<le> j \<Longrightarrow> j < q + k \<Longrightarrow> frame_used bit1 (frames st') j"
    "\<And>j. frame_used bit1 (frames st) j \<Longrightarrow> frame_used bit1 (frames st') j"
    "cr3 st' = cr3 st" "active st' = active st" "heap_end st' = heap_end st" "prng_seed st' = prng_seed st"
    "k \<le> 64 \<Longrightarrow> card (free_words bit1 (frames st)) \<le> card (free_words bit1 (frames st')) + 2"
    "get_frame bit1 True (of_nat k) (frames st) = Some (page_offset q, frames st')"
    "\<And>x. plain_byte bit1 T (frames st) x \<Longrightarrow> pmem st' x = pmem st x"
    "\<And>b f. page_frame T (pmem st') b = Some f \<Longrightarrow> page_frame T (pmem st) b = Some f \<or>
       (\<exists>j<k. path_of b = path_of (heap_page st v + page_offset j) \<and> f = page_offset q + page_offset j)"
proof -
  have tree: "tree_ok T" using ok by (simp add: tables_ok_def)
  have J: "4096 * k < 2 ^ 64" using roomD(2,3) [OF room] fits by simp
  have ub: "unat bytes = 4096 * k" using unat_page_offset [OF J] bytes by simp
  have "bytes mod PAGE_SIZE = 0"
    by (rule word_unat_eq_iff [THEN iffD2]) (simp add: unat_mod ub PAGE_SIZE_def)
  then have al: "align_up bytes PAGE_SIZE = bytes" by (simp add: align_up_def)
  have pages: "pages_of bytes = k" by (simp add: pages_of_def ub)
  have cnt: "unat (bytes div PAGE_SIZE) = k" by (simp add: unat_div ub PAGE_SIZE_def)
  then have nz: "bytes div PAGE_SIZE \<noteq> 0" using k by auto
  obtain rc fr where get: "get_frame bit1 True (bytes div PAGE_SIZE) (frames st) = Some (rc, fr)"
    using get_frame_spec [OF bits len nz, of True] free cnt by (auto split: option.splits)
  obtain q where q: "first_run bit1 (frames st) k q" "rc = page_offset q" "length fr = 256"
      "\<And>j. q \<le> j \<Longrightarrow> j < q + k \<Longrightarrow> frame_used bit1 fr j"
      "\<And>j. frame_used bit1 (frames st) j \<Longrightarrow> frame_used bit1 fr j"
    by (rule get_frame_run [OF bits len get]) (simp add: cnt page_offset_frame)
  let ?st0 = "st\<lparr>frames := fr\<rparr>"
  have ok0: "tables_ok T ?st0" using ok by (simp add: tables_ok_def active_def)
  have room0: "room T ?st0 t J" using room by (simp add: room_def heap_page_def)
  have hp: "heap_page ?st0 j = heap_page st j" for j by (simp add: heap_page_def)
  have fits0: "t + pages_of bytes \<le> J" using fits pages by simp
  obtain v where v: "v \<le> t" "\<And>j. j < k \<Longrightarrow> page_frame T (pmem st) (heap_page st (v + j)) = None"
      "find_free bit1 (allocate_pt bit1 (Suc m)) bytes ?st0 = Some (?st0, heap_page st v)"
  proof (rule find_free_spec [OF ok0 room0 fits0, of bit1 m])
    fix v
    assume "v \<le> t" "\<And>j. j < pages_of bytes \<Longrightarrow> page_frame T (pmem ?st0) (heap_page ?st0 (v + j)) = None"
      "find_free bit1 (allocate_pt bit1 (Suc m)) bytes ?st0 = Some (?st0, heap_page ?st0 v)"
    then show thesis using that [of v] by (simp add: hp pages)
  qed
  let ?a = "heap_page st v"
  have run: "run_ok T ?a k" by (rule room_run_ok [OF room]) (use v(1) fits in simp)
  let ?st1 = "map_leaves T ?a (page_offset q) k ?st0"
  have map: "tables_ok T ?st1"
      "\<And>j. j < k \<Longrightarrow> page_frame T (pmem ?st1) (?a + page_offset j) = Some (page_base (page_offset q + page_offset j))"
      "\<And>b. (\<And>j. j < k \<Longrightarrow> path_of b \<noteq> path_of (?a + page_offset j)) \<Longrightarrow>
        page_frame T (pmem ?st1) b = page_frame T (pmem st) b"
      "map_run bit1 (allocate_pt bit1 (Suc m)) ?a (page_offset q) k ?st0 = Some ?st1"
    using map_leaves_ok [OF ok0 run, of "page_offset q" bit1 m] v(2) by (simp_all add: heap_page_add)
  have frame1: "page_frame T (pmem ?st1) (?a + page_offset j) = Some (page_offset q + page_offset j)" if "j < k" for j
    using map(2) [OF that] by (simp add: page_base_aligned aligned_page_offset)
  have al_a: "aligned ?a" unfolding heap_page_def by (rule aligned_page_offset [OF roomD(1) [OF room]])
  have off: "off_tables T (page_offset q) (4096 * k)"
    by (rule fresh_off_tables [OF tree marked _ k]) (use q(1) in \<open>simp add: first_run_def\<close>)
  let ?zs = "replicate (4096 * k) 0 :: u8 list"
  let ?st2 = "?st1\<lparr>pmem := store_bytes (pmem ?st1) (page_offset q) ?zs\<rparr>"
  have "vstore_bytes ?a ?zs ?st1 = Some ?st2"
    using vstore_bytes_run [OF map(1), of "page_offset q" ?zs ?a] off
      translate_run [OF map(1) al_a aligned_offset frame1] by simp
  then have mems: "vmemset ?a 0 bytes ?st1 = Some ?st2" by (simp add: vmemset_def ub)
  note st2 = store_off_tables [of T ?st1 "page_offset q" ?zs, OF map(1)]
  have keep: "page_frame T (pmem ?st1) a = Some f" if "page_frame T (pmem st) a = Some f" for a f
  proof -
    have "path_of a \<noteq> path_of (?a + page_offset j)" if "j < k" for j
      using v(2) [OF that] \<open>page_frame T (pmem st) a = Some f\<close> page_frame_cong [of a "?a + page_offset j" T "pmem st"]
      by (auto simp: heap_page_add)
    then show ?thesis using map(3) that by simp
  qed
  have zero: "zeroed (pmem ?st2) (page_offset q) (4096 * k)"
    unfolding zeroed_def using J by (auto simp: store_bytes_at)
  have room2: "room T ?st2 (t + k) J"
  proof -
    have "page_frame T (pmem ?st2) (heap_page st j) = None" if "t + k \<le> j" "j < J" for j
    proof -
      have "path_of (heap_page st j) \<noteq> path_of (?a + page_offset i)" if i: "i < k" for i
      proof -
        have "v + i < J" "j \<noteq> v + i" using i v(1) \<open>t + k \<le> j\<close> \<open>j < J\<close> by auto
        then have "path_of (heap_page st j) \<noteq> path_of (heap_page st (v + i))"
          by (intro room_paths [OF room \<open>j < J\<close>])
        then show ?thesis by (simp add: heap_page_add)
      qed
      then have "page_frame T (pmem ?st1) (heap_page st j) = page_frame T (pmem st) (heap_page st j)"
        by (rule map(3))
      moreover have "page_frame T (pmem st) (heap_page st j) = None" using roomD(6) [OF room] that by simp
      ultimately show ?thesis using st2(2) off by simp
    qed
    then show ?thesis using room by (simp add: room_def heap_page_def)
  qed
  show thesis
  proof (rule that [of ?st2 v q])
    show "safe_alloc bit1 (allocate_pt bit1 (Suc m)) bytes (\<lambda>_ st. Some st) st = Some (?st2, ?a, page_offset q)"
      using get v(3) map(4) mems by (simp add: safe_alloc_def take_frame_def al q(2) cnt)
    show "tables_ok T ?st2" using st2(1) off by simp
    show "page_frame T (pmem ?st2) (?a + page_offset j) = Some (page_offset q + page_offset j)" if "j < k" for j
      using st2(2) off frame1 [OF that] by simp
    show "page_frame T (pmem ?st2) a = Some f" if "page_frame T (pmem st) a = Some f" for a f
      using st2(2) off keep [OF that] by simp
    show "card (free_words bit1 (frames st)) \<le> card (free_words bit1 (frames ?st2)) + 2" if "k \<le> 64"
      using get_frame_words [OF bits len get] that cnt by simp
    have "bytes div PAGE_SIZE = of_nat k" unfolding cnt [symmetric] by simp
    then show "get_frame bit1 True (of_nat k) (frames st) = Some (page_offset q, frames ?st2)"
      using get q(2) by simp
    show "page_frame T (pmem st) b = Some f \<or>
        (\<exists>j<k. path_of b = path_of (?a + page_offset j) \<and> f = page_offset q + page_offset j)"
      if b: "page_frame T (pmem ?st2) b = Some f" for b f
    proof (cases "\<exists>j<k. path_of b = path_of (?a + page_offset j)")
      case True
      then obtain j where j: "j < k" "path_of b = path_of (?a + page_offset j)" by blast
      have "page_frame T (pmem ?st2) (?a + page_offset j) = Some (page_offset q + page_offset j)"
        using st2(2) off frame1 [OF j(1)] by simp
      then show ?thesis using b j page_frame_cong [OF j(2), of T "pmem ?st2"] by auto
    next
      case False
      then show ?thesis using b map(3) [of b] st2(2) off by auto
    qed
    show "pmem ?st2 x = pmem st x" if "plain_byte bit1 T (frames st) x" for x
    proof -
      have "apart (page_offset q) (length ?zs) x 1"
        using fresh_byte_apart [of bit1 "frames st" q k x] q(1) that k by (simp add: plain_byte_def first_run_def)
      then have "pmem ?st2 x = pmem ?st1 x" by (simp add: store_byte_other)
      then show ?thesis using map_leaves_other [OF tree] that by (simp add: plain_byte_def)
    qed
  qed (use q v zero room2 in \<open>auto simp: active_def\<close>)
qed


end
