(* ===== verification/PageGrow.thy ===== *)
theory PageGrow
  imports PageAlloc
begin

text \<open>
  \<^verbatim>\<open>allocate_pt\<close> of \<^verbatim>\<open>arch/amd64/mmu.c\<close>: the tree of tables grows by the missing tables of a path, and
  the program, the processor and the bitmap of frames keep agreeing on it.
\<close>

section \<open>Reads that a new entry leaves alone\<close>

lemma walk_store_absent:
  assumes "aligned g" and "index_ok j" and "\<not> present (slot m g j)"
    and "walk m t p = Some f" and "aligned t" and "\<forall>i\<in>set p. index_ok i"
  shows "walk (store64 m (g + 8 * j) v) t p = Some f"
  using assms(4-6)
proof (induction p arbitrary: t)
  case (Cons i p)
  have e: "present (slot m t i)" "walk m (page_base (slot m t i)) p = Some f"
    using Cons.prems(1) by (auto simp: slot_def Let_def split: if_splits)
  have "\<not> (t = g \<and> i = j)" using e(1) assms(3) by auto
  then have "slot (store64 m (g + 8 * j) v) t i = slot m t i"
    using slot_store [OF assms(1) Cons.prems(2) assms(2)] Cons.prems(3) by auto
  moreover have "walk (store64 m (g + 8 * j) v) (page_base (slot m t i)) p = Some f"
    by (rule Cons.IH [OF e(2) aligned_page_base]) (use Cons.prems(3) in simp)
  ultimately show ?case using e(1) by (simp add: slot_def Let_def)
qed simp

lemma translate_store_absent:
  assumes "aligned g" and "index_ok j" and "\<not> present (slot (pmem st) g j)" and "aligned (cr3 st)"
    and "translate st a = Some x"
  shows "translate (st\<lparr>pmem := store64 (pmem st) (g + 8 * j) v\<rparr>) a = Some x"
proof -
  obtain f where f: "walk (pmem st) (cr3 st) (path_of a) = Some f" "x = f OR (a AND 0xFFF)"
    using assms(5) by (auto simp: translate_def)
  have "walk (store64 (pmem st) (g + 8 * j) v) (cr3 st) (path_of a) = Some f"
    by (rule walk_store_absent [OF assms(1-3) f(1) assms(4) path_ok])
  then show ?thesis using f(2) by (simp add: translate_def)
qed

text \<open>The state after an entry has been written but not yet the program's pointer.\<close>

definition set_entry :: "tnode \<Rightarrow> u64 \<Rightarrow> u64 \<Rightarrow> mmu \<Rightarrow> mmu" where
  "set_entry n i e st = st\<lparr>pmem := store64 (pmem st) (n_phys n + 8 * i) e\<rparr>"

lemma next_after_set_entry:
  assumes ok: "tables_ok T st" and n: "T p = Some n" and p: "length p < 3" and i: "index_ok i"
    and none: "T (p @ [i]) = None" and k: "T q = Some k" and q: "length q < 3" and j: "index_ok j"
  shows "vload64 (set_entry n i e st) (next_at (n_virt k) j) = vload64 st (next_at (n_virt k) j)"
    and "vstore64 (next_at (n_virt k) j) w (set_entry n i e st) =
      Some (set_entry n i e st\<lparr>pmem := store64 (pmem (set_entry n i e st)) (n_back k + 8 * j) w\<rparr>)"
proof -
  have tree: "tree_ok T" and linked: "linked_ok T (pmem st)" and map: "mapped_ok T (pmem st)"
    using ok by (simp_all add: tables_ok_def)
  obtain r where r: "T [] = Some r" "n_phys r = cr3 st" using ok by (auto simp: tables_ok_def)
  have cr3: "aligned (cr3 st)" using tree_okD(4) [OF tree r(1)] r(2) by simp
  have absent: "\<not> present (slot (pmem st) (n_phys n) i)" by (rule linked_okD(1) [OF linked n p i none])
  have f: "page_frame T (pmem st) (n_virt k + 0x1000) = Some (n_back k)"
    using map k q unfolding mapped_ok_def by blast
  have "translate st (next_at (n_virt k) j) = Some (n_back k + 8 * j)"
    unfolding next_at_def
    by (rule translate_page [OF ok aligned_next [OF tree_okD(3) [OF tree k]] f slot_offset(3) [OF j]])
  note t = this translate_store_absent [OF tree_okD(4) [OF tree n] i absent cr3 this, of e]
  have "n_phys n \<noteq> n_back k" using tree_ok_distinct(2) [OF tree k n q] by simp
  then have "apart (n_phys n + 8 * i) 8 (n_back k + 8 * j) 8"
    using tree_okD(4) [OF tree n] tree_okD(5) [OF tree k] i j by (intro slots_apart) simp_all
  then have "load_bytes (store64 (pmem st) (n_phys n + 8 * i) e) (n_back k + 8 * j) 8 =
      load_bytes (pmem st) (n_back k + 8 * j) 8"
    by (simp add: store64_def load_store_apart)
  then show "vload64 (set_entry n i e st) (next_at (n_virt k) j) = vload64 st (next_at (n_virt k) j)"
    using t by (simp add: vload64_def vload_run_def set_entry_def)
  show "vstore64 (next_at (n_virt k) j) w (set_entry n i e st) =
      Some (set_entry n i e st\<lparr>pmem := store64 (pmem (set_entry n i e st)) (n_back k + 8 * j) w\<rparr>)"
    using t(2) by (simp add: vstore64_def vstore_run_def set_entry_def store64_def)
qed

text \<open>\<^verbatim>\<open>loc\<close> points to the table at path \<^verbatim>\<open>p\<close>, before and after an entry of it is written.\<close>

definition finds :: "(mmu \<Rightarrow> u64 option) \<Rightarrow> u64 list \<Rightarrow> bool" where
  "finds loc p \<longleftrightarrow>
     (\<forall>T st n. tables_ok T st \<and> T p = Some n \<longrightarrow> loc st = Some (n_virt n) \<and>
        (\<forall>i e. index_ok i \<and> T (p @ [i]) = None \<longrightarrow> loc (set_entry n i e st) = Some (n_virt n)))"

lemma finds_pml4t: "finds pml4t_of []"
  using pml4t_of_tree by (fastforce simp: finds_def pml4t_of_def set_entry_def active_def)

lemma finds_pdpt:
  assumes "index_ok i4"
  shows "finds (pdpt_of i4) [i4]"
  unfolding finds_def
proof (intro allI impI conjI)
  fix T st and n :: tnode
  assume a: "tables_ok T st \<and> T [i4] = Some n"
  then show here: "pdpt_of i4 st = Some (n_virt n)" using tables_reached(2) [of T st i4 0 0 n] assms by (simp add: index_ok_def)
  fix i e
  assume i: "index_ok i \<and> T ([i4] @ [i]) = None"
  obtain r where r: "T [] = Some r" "pml4t_of st = Some (n_virt r)" using pml4t_of_tree a by blast
  have "pml4t_of (set_entry n i e st) = pml4t_of st" by (simp add: pml4t_of_def active_def set_entry_def)
  then show "pdpt_of i4 (set_entry n i e st) = Some (n_virt n)"
    using here r next_after_set_entry(1) [of T st "[i4]" n i "[]" r i4 e] a i assms by (simp add: pdpt_of_def)
qed

lemma finds_pdt:
  assumes "index_ok i4" and "index_ok i3"
  shows "finds (pdt_of i4 i3) [i4, i3]"
  unfolding finds_def
proof (intro allI impI conjI)
  fix T st and n :: tnode
  assume a: "tables_ok T st \<and> T [i4, i3] = Some n"
  then show here: "pdt_of i4 i3 st = Some (n_virt n)"
    using tables_reached(3) [of T st i4 i3 0 n] assms by (simp add: index_ok_def)
  fix i e
  assume i: "index_ok i \<and> T ([i4, i3] @ [i]) = None"
  obtain r where r: "T [] = Some r" "pml4t_of st = Some (n_virt r)" using pml4t_of_tree a by blast
  have tree: "tree_ok T" using a by (simp add: tables_ok_def)
  obtain k where k: "T [i4] = Some k" using tree_ok_prefix [OF tree, of "[i4]" i3] a by auto
  have pd: "pdpt_of i4 st = Some (n_virt k)" using tables_reached(2) [of T st i4 i3 0 k] k a assms by (simp add: index_ok_def)
  have "pml4t_of (set_entry n i e st) = pml4t_of st" by (simp add: pml4t_of_def active_def set_entry_def)
  then have "pdpt_of i4 (set_entry n i e st) = Some (n_virt k)"
    using pd r next_after_set_entry(1) [of T st "[i4, i3]" n i "[]" r i4 e] a i assms by (simp add: pdpt_of_def)
  then show "pdt_of i4 i3 (set_entry n i e st) = Some (n_virt n)"
    using here pd next_after_set_entry(1) [of T st "[i4, i3]" n i "[i4]" k i3 e] a i k assms by (simp add: pdt_of_def)
qed


section \<open>One more table\<close>

text \<open>
  \<^verbatim>\<open>ready\<close>: what every operation of the page table code starts from, with \<^verbatim>\<open>J - t\<close> free pages
  behind the heap; \<^verbatim>\<open>grown\<close>: tables and mappings have only been added, and data in memory is as before.
\<close>

definition ready_state :: "(nat \<Rightarrow> u64) \<Rightarrow> tree \<Rightarrow> mmu \<Rightarrow> nat \<Rightarrow> nat \<Rightarrow> bool" where
  "ready_state bit1 T st t J \<longleftrightarrow>
     tables_ok T st \<and> tables_marked bit1 T (frames st) \<and> length (frames st) = 256 \<and> room T st t J \<and>
     mapped_marked bit1 (page_frame T (pmem st)) (frames st)"

definition grown :: "(nat \<Rightarrow> u64) \<Rightarrow> tree \<Rightarrow> mmu \<Rightarrow> tree \<Rightarrow> mmu \<Rightarrow> bool" where
  "grown bit1 T st T' st' \<longleftrightarrow>
     T \<subseteq>\<^sub>m T' \<and> (\<forall>a f. page_frame T (pmem st) a = Some f \<longrightarrow> page_frame T' (pmem st') a = Some f) \<and>
     (\<forall>j. frame_used bit1 (frames st) j \<longrightarrow> frame_used bit1 (frames st') j) \<and>
     (\<forall>x. plain_byte bit1 T (frames st) x \<longrightarrow> plain_byte bit1 T' (frames st') x \<and> pmem st' x = pmem st x) \<and>
     fresh_maps bit1 (page_frame T (pmem st)) (frames st) (page_frame T' (pmem st')) (frames st') \<and>
     heap_end st' = heap_end st \<and> cr3 st' = cr3 st \<and> active st' = active st \<and> prng_seed st' = prng_seed st"

lemma grown_refl [simp]: "grown bit1 T st T st"
  by (simp add: grown_def)

lemma grown_trans: "grown bit1 T st T1 st1 \<Longrightarrow> grown bit1 T1 st1 T2 st2 \<Longrightarrow> grown bit1 T st T2 st2"
proof -
  assume 1: "grown bit1 T st T1 st1" and 2: "grown bit1 T1 st1 T2 st2"
  have "fresh_maps bit1 (page_frame T (pmem st)) (frames st) (page_frame T2 (pmem st2)) (frames st2)"
    by (rule fresh_maps_trans [of bit1 _ _ "page_frame T1 (pmem st1)" "frames st1"])
      (use 1 2 in \<open>auto simp: grown_def\<close>)
  then show ?thesis using 1 2 unfolding grown_def by (metis map_le_trans)
qed

definition table_pages :: "u64 list \<Rightarrow> nat" where
  "table_pages p = (if length p < 3 then 2 else 1)"

lemma page_frame_table: "page_frame T m b = Some f \<Longrightarrow> \<exists>n. T (upper_path b) = Some n"
  by (cases "T (upper_path b)") (simp_all add: page_frame_def)

definition link :: "tnode \<Rightarrow> u64 \<Rightarrow> tnode \<Rightarrow> mmu \<Rightarrow> mmu" where
  "link n i k st =
     (let st = set_entry n i (n_phys k OR 0x3) st
      in st\<lparr>pmem := store64 (pmem st) (n_back n + 8 * i) (n_virt k)\<rparr>)"

lemma link_other:
  assumes "tree_ok T" and n: "T p = Some n" and "length p < 3" and "index_ok i" and "off_tables T x 1"
  shows "pmem (link n i k st) x = pmem st x"
proof -
  have "apart x 1 (n_phys n) 4096" "apart x 1 (n_back n) 4096"
    using assms(3,5) n unfolding off_tables_def by blast+
  then show ?thesis
    using slot_store_other assms(4) tree_okD(4,5) [OF assms(1) n] by (simp add: link_def Let_def set_entry_def)
qed

lemma plain_byte_insert:
  assumes "plain_byte bit1 T fr x" and "free_run bit1 fr q k" and "0 < k" and "n_phys l = page_offset q"
    and "length p < 3 \<Longrightarrow> 1 < k \<and> n_back l = page_offset q + 0x1000"
    and "\<And>j. frame_used bit1 fr j \<Longrightarrow> frame_used bit1 fr' j"
  shows "plain_byte bit1 (T(p \<mapsto> l)) fr' x"
proof -
  have a: "apart (page_offset q) (4096 * k) x 1"
    using assms(1) by (intro fresh_byte_apart [OF assms(2) _ assms(3)]) (simp add: plain_byte_def)
  have q: "unat (page_offset q) = 4096 * q" "q + k \<le> 16384"
    using assms(2) unat_page_offset [of q] by (simp_all add: free_run_def)
  have "apart x 1 (n_phys l) 4096" using a assms(3,4) q by (auto simp: apart_def region_def)
  moreover have "apart x 1 (n_back l) 4096" if "length p < 3"
  proof -
    have "unat (n_back l) = 4096 * Suc q"
      using assms(5) [OF that] q unat_page_offset [of "Suc q"] by simp
    then show ?thesis using a assms(5) [OF that] q by (auto simp: apart_def region_def)
  qed
  ultimately show ?thesis
    using assms(1,6) unfolding plain_byte_def off_tables_def frame_marked_def by (auto split: if_splits)
qed

text \<open>\<^verbatim>\<open>fits_in T p k\<close>: the frames of the new table \<^verbatim>\<open>k\<close> below \<^verbatim>\<open>p\<close> are none of the tree's.\<close>

definition fits_in :: "tree \<Rightarrow> u64 list \<Rightarrow> tnode \<Rightarrow> bool" where
  "fits_in T p k \<longleftrightarrow>
     aligned (n_virt k) \<and> aligned (n_phys k) \<and> n_back k = n_phys k + 0x1000 \<and>
     (\<forall>q l. T q = Some l \<longrightarrow> n_phys l \<noteq> n_phys k \<and> (length q < 3 \<longrightarrow> n_back l \<noteq> n_phys k) \<and>
        (length p < 2 \<longrightarrow> n_phys l \<noteq> n_back k \<and> (length q < 3 \<longrightarrow> n_back l \<noteq> n_back k)))"

lemma tree_ok_insert:
  assumes tree: "tree_ok T" and n: "T p = Some n" and p: "length p < 3" and i: "index_ok i"
    and none: "T (p @ [i]) = None" and new: "fits_in T p k"
  shows "tree_ok (T(p @ [i] \<mapsto> k))"
proof -
  have below: "T (p @ [i] @ [j]) = None" for j
    using tree_ok_prefix [OF tree, of "p @ [i]" j] none by fastforce
  have self: "n_back k \<noteq> n_phys k" using new by (simp add: fits_in_def)
  have props: "length q \<le> 3 \<and> (\<forall>i\<in>set q. index_ok i) \<and> aligned (n_virt l) \<and> aligned (n_phys l) \<and> aligned (n_back l)"
    if "(T(p @ [i] \<mapsto> k)) q = Some l" for q l
    using that tree_okD [OF tree n] tree_okD [OF tree, of q l] i p new aligned_next
    by (auto simp: fits_in_def split: if_splits)
  have closed: "(T(p @ [i] \<mapsto> k)) q \<noteq> None" if "(T(p @ [i] \<mapsto> k)) (q @ [j]) = Some l" for q j l
    using that n tree_ok_prefix [OF tree, of q j] by (auto split: if_splits)
  have distinct: "(q \<noteq> r \<longrightarrow> n_phys l \<noteq> n_phys l') \<and> (length q < 3 \<longrightarrow> n_back l \<noteq> n_phys l') \<and>
      (q \<noteq> r \<and> length q < 3 \<and> length r < 3 \<longrightarrow> n_back l \<noteq> n_back l')"
    if l: "(T(p @ [i] \<mapsto> k)) q = Some l" "(T(p @ [i] \<mapsto> k)) r = Some l'" for q r l l'
  proof -
    consider "q = p @ [i]" "r = p @ [i]" | "q = p @ [i]" "r \<noteq> p @ [i]" | "q \<noteq> p @ [i]" "r = p @ [i]"
      | "q \<noteq> p @ [i]" "r \<noteq> p @ [i]" by blast
    then show ?thesis
    proof cases
      case 1
      then show ?thesis using l self by simp
    next
      case 2
      then have "l = k" "T r = Some l'" using l by simp_all
      then show ?thesis using 2 new unfolding fits_in_def by (auto dest: sym)
    next
      case 3
      then have "l' = k" "T q = Some l" using l by simp_all
      then show ?thesis using 3 new unfolding fits_in_def by auto
    next
      case 4
      then have "T q = Some l" "T r = Some l'" using l by simp_all
      then show ?thesis using tree_ok_distinct [OF tree] by blast
    qed
  qed
  show ?thesis unfolding tree_ok_def using props closed distinct by blast
qed

lemma slot_link:
  assumes "tree_ok T" and n: "T p = Some n" and "length p < 3" and "index_ok i" and "aligned g" and "index_ok j"
  shows "slot (pmem (link n i k st)) g j =
    (if g = n_back n \<and> j = i then n_virt k else if g = n_phys n \<and> j = i then n_phys k OR 0x3
     else slot (pmem st) g j)"
  by (simp add: link_def Let_def set_entry_def slot_store assms(4-6) tree_okD(4,5) [OF assms(1) n])

lemma link_keeps_slots:
  assumes tree: "tree_ok T" and n: "T p = Some n" and p: "length p < 3" and i: "index_ok i"
    and l: "T q = Some l" and j: "index_ok j" and other: "q \<noteq> p \<or> j \<noteq> i"
  shows "slot (pmem (link n i k st)) (n_phys l) j = slot (pmem st) (n_phys l) j"
    and "length q < 3 \<Longrightarrow> slot (pmem (link n i k st)) (n_back l) j = slot (pmem st) (n_back l) j"
proof -
  note s = slot_link [OF tree n p i]
  have "n_phys l \<noteq> n_back n" using tree_ok_distinct(2) [OF tree n l p] by simp
  moreover have "\<not> (n_phys l = n_phys n \<and> j = i)" using tree_ok_distinct(1) [OF tree n l] other by auto
  ultimately show "slot (pmem (link n i k st)) (n_phys l) j = slot (pmem st) (n_phys l) j"
    using s [OF tree_okD(4) [OF tree l] j] by auto
  assume q: "length q < 3"
  have "n_back l \<noteq> n_phys n" using tree_ok_distinct(2) [OF tree l n q] by simp
  moreover have "\<not> (n_back l = n_back n \<and> j = i)" using tree_ok_distinct(3) [OF tree n l _ p q] other by auto
  ultimately show "slot (pmem (link n i k st)) (n_back l) j = slot (pmem st) (n_back l) j"
    using s [OF tree_okD(5) [OF tree l] j] by auto
qed

lemma link_frames:
  assumes tree: "tree_ok T" and n: "T p = Some n" and p: "length p < 3" and i: "index_ok i"
    and none: "T (p @ [i]) = None" and b: "T (upper_path b) \<noteq> None"
  shows "page_frame (T(p @ [i] \<mapsto> k)) (pmem (link n i k st)) b = page_frame T (pmem st) b"
proof -
  obtain l where l: "T (upper_path b) = Some l" using b by blast
  have "upper_path b \<noteq> p" using p by auto
  then have "slot (pmem (link n i k st)) (n_phys l) (table_index 12 b) = slot (pmem st) (n_phys l) (table_index 12 b)"
    using link_keeps_slots(1) [OF tree n p i l] by simp
  moreover have "upper_path b \<noteq> p @ [i]"
  proof
    assume "upper_path b = p @ [i]"
    then have "T (upper_path b) = None" using none by (simp only:)
    then show False using l by simp
  qed
  then have "(T(p @ [i] \<mapsto> k)) (upper_path b) = Some l" using l by (metis fun_upd_other)
  ultimately show ?thesis using l unfolding page_frame_def by (simp del: fun_upd_apply)
qed

lemma link_tables_ok:
  assumes ok: "tables_ok T st" and n: "T p = Some n" and p: "length p < 3" and i: "index_ok i"
    and none: "T (p @ [i]) = None" and new: "fits_in T p k"
    and map: "page_frame T (pmem st) (n_virt k) = Some (n_phys k)"
      "length p < 2 \<Longrightarrow> page_frame T (pmem st) (n_virt k + 0x1000) = Some (n_back k)"
    and zero: "\<And>j. length p < 2 \<Longrightarrow> index_ok j \<Longrightarrow> slot (pmem st) (n_phys k) j = 0"
  shows "tables_ok (T(p @ [i] \<mapsto> k)) (link n i k st)"
proof -
  let ?T = "T(p @ [i] \<mapsto> k)" and ?m = "pmem (link n i k st)"
  have tree: "tree_ok T" and linked: "linked_ok T (pmem st)" and mapped: "mapped_ok T (pmem st)"
    using ok by (simp_all add: tables_ok_def)
  have known: "page_frame T (pmem st) b = Some f \<Longrightarrow> page_frame ?T ?m b = Some f" for b f
    using link_frames [OF tree n p i none, of b k st] by (auto simp: page_frame_def split: option.splits)
  have "linked_ok ?T ?m"
    unfolding linked_ok_def
  proof (intro allI impI)
    fix q l j
    assume a: "?T q = Some l \<and> length q < 3 \<and> index_ok j"
    consider (new) "q = p @ [i]" | (here) "q = p" "j = i" | (old) "q \<noteq> p @ [i]" "q \<noteq> p \<or> j \<noteq> i" by blast
    then show "case ?T (q @ [j]) of None \<Rightarrow> \<not> present (slot ?m (n_phys l) j)
       | Some ka \<Rightarrow> present (slot ?m (n_phys l) j) \<and> page_base (slot ?m (n_phys l) j) = n_phys ka \<and>
           slot ?m (n_back l) j = n_virt ka"
    proof cases
      case new
      have "T (p @ [i] @ [j]) = None" using tree_ok_prefix [OF tree, of "p @ [i]" j] none by fastforce
      moreover have "slot ?m (n_phys k) j = 0"
      proof -
        have "n_phys n \<noteq> n_phys k" "n_back n \<noteq> n_phys k" "aligned (n_phys k)"
          using \<open>fits_in T p k\<close> n p unfolding fits_in_def by blast+
        then have "slot ?m (n_phys k) j = slot (pmem st) (n_phys k) j"
          using slot_link [OF tree n p i, of "n_phys k" j k st] a by metis
        moreover have "length p < 2" using a new by simp
        ultimately show ?thesis using zero a by simp
      qed
      ultimately show ?thesis using a new by (simp add: present_def)
    next
      case here
      then have "l = n" using a n by (simp split: if_splits)
      have "n_back n \<noteq> n_phys n" using tree_ok_distinct(2) [OF tree n n p] .
      then show ?thesis
        using here \<open>l = n\<close> i \<open>fits_in T p k\<close> slot_link [OF tree n p i tree_okD(4) [OF tree n] i, of k st]
          slot_link [OF tree n p i tree_okD(5) [OF tree n] i, of k st]
        by (auto simp: present_flags page_base_aligned fits_in_def)
    next
      case old
      then have l: "T q = Some l" using a by simp
      have q: "length q < 3" "index_ok j" using a by simp_all
      have t: "?T (q @ [j]) = T (q @ [j])" using old by auto
      have "case T (q @ [j]) of None \<Rightarrow> \<not> present (slot (pmem st) (n_phys l) j)
        | Some ka \<Rightarrow> present (slot (pmem st) (n_phys l) j) \<and> page_base (slot (pmem st) (n_phys l) j) = n_phys ka \<and>
           slot (pmem st) (n_back l) j = n_virt ka"
        using linked l q unfolding linked_ok_def by blast
      then show ?thesis
        unfolding t link_keeps_slots(1) [OF tree n p i l q(2) old(2)]
          link_keeps_slots(2) [OF tree n p i l q(2) old(2) q(1)] .
    qed
  qed
  moreover have "mapped_ok ?T ?m"
    unfolding mapped_ok_def
  proof (intro allI impI)
    fix q l
    assume "?T q = Some l"
    then consider (new) "q = p @ [i]" "l = k" | (old) "T q = Some l" by (cases "q = p @ [i]") simp_all
    then show "page_frame ?T ?m (n_virt l) = Some (n_phys l) \<and>
        (length q < 3 \<longrightarrow> page_frame ?T ?m (n_virt l + 0x1000) = Some (n_back l))"
    proof cases
      case new
      have "length p < 2" if "length q < 3" using that new(1) by simp
      then show ?thesis unfolding new(2) using known [OF map(1)] known [OF map(2)] by blast
    next
      case old
      then have "page_frame T (pmem st) (n_virt l) = Some (n_phys l)"
        "length q < 3 \<Longrightarrow> page_frame T (pmem st) (n_virt l + 0x1000) = Some (n_back l)"
        using mapped unfolding mapped_ok_def by blast+
      then show ?thesis using known by blast
    qed
  qed
  moreover have "\<exists>d r. active (link n i k st) = Some d \<and> ?T [] = Some r \<and> n_virt r = pml4t d \<and> n_phys r = cr3 (link n i k st)"
  proof -
    have "active (link n i k st) = active st" "cr3 (link n i k st) = cr3 st" "?T [] = T []"
      by (simp_all add: link_def set_entry_def active_def Let_def)
    then show ?thesis using ok unfolding tables_ok_def by metis
  qed
  ultimately show ?thesis
    using tree_ok_insert [OF tree n p i none new] unfolding tables_ok_def by blast
qed

lemma fresh_distinct:
  assumes "free_run bit1 fr q k" and "frame_marked bit1 fr f" and "aligned f" and "j < k"
  shows "f \<noteq> page_offset q + page_offset j"
proof
  assume f: "f = page_offset q + page_offset j"
  have q: "q + k \<le> 16384" using assms(1) by (simp add: free_run_def)
  have "unat f = 4096 * (q + j)"
    using unat_page_offset [of "q + j"] q assms(4) by (simp add: f page_offset_add)
  then have "frame_used bit1 fr (q + j)" using assms(2,4) q by (simp add: frame_marked_def)
  then show False using assms(1,4) by (simp add: free_run_def)
qed

lemma page_offset_1: "page_offset 1 = 0x1000" "page_offset (Suc 0) = 0x1000"
  by (simp_all add: page_offset_def)

lemma aligned_heap_page: "room T st t J \<Longrightarrow> aligned (heap_page st v)"
  unfolding heap_page_def by (rule aligned_page_offset [OF roomD(1)])

lemma new_frame_marked:
  assumes "free_run bit1 fr q k" and "j < k" and "\<And>j. q \<le> j \<Longrightarrow> j < q + k \<Longrightarrow> frame_used bit1 fr' j"
  shows "frame_marked bit1 fr' (page_offset q + page_offset j)"
proof -
  have q: "q + k \<le> 16384" using assms(1) by (simp add: free_run_def)
  have "unat (page_offset q + page_offset j) = 4096 * (q + j)"
    using unat_page_offset [of "q + j"] q assms(2) by (simp add: page_offset_add)
  then show ?thesis using assms(2,3) by (simp add: frame_marked_def)
qed

lemma tables_marked_insert:
  assumes "tables_marked bit1 T fr" and "\<And>j. frame_used bit1 fr j \<Longrightarrow> frame_used bit1 fr' j"
    and "frame_marked bit1 fr' (n_phys k)" and "length p < 3 \<Longrightarrow> frame_marked bit1 fr' (n_back k)"
  shows "tables_marked bit1 (T(p \<mapsto> k)) fr'"
  using assms unfolding tables_marked_def frame_marked_def by auto

lemma room_mono:
  assumes "room T st t J" and "\<And>x. T x \<noteq> None \<Longrightarrow> T' x \<noteq> None" and "heap_end st' = heap_end st"
    and "\<And>b. T (upper_path b) \<noteq> None \<Longrightarrow> page_frame T' (pmem st') b = page_frame T (pmem st) b"
  shows "room T' st' t J"
  unfolding room_def heap_page_def assms(3)
proof (intro conjI allI impI)
  show "T' (upper_path (heap_end st + page_offset j)) \<noteq> None" if "j < J" for j
    using assms(1,2) that unfolding room_def heap_page_def by blast
  show "page_frame T' (pmem st') (heap_end st + page_offset j) = None" if "t \<le> j \<and> j < J" for j
    using assms(1) assms(4) [of "heap_end st + page_offset j"] that unfolding room_def heap_page_def by metis
qed (use assms(1) in \<open>auto simp: room_def\<close>)

lemma add_table_spec:
  assumes ready: "ready_state bit1 T st t J" and bits: "bit_ok bit1"
    and n: "T p = Some n" and p: "length p < 3" and i: "index_ok i" and none: "T (p @ [i]) = None"
    and finds: "finds loc p" and fits: "t + table_pages (p @ [i]) \<le> J"
    and free: "\<exists>q. free_run bit1 (frames st) q (table_pages (p @ [i]))"
  shows "\<exists>T' st'. add_table bit1 (allocate_pt bit1 (Suc m)) (page_offset (table_pages (p @ [i]))) loc i st = Some st' \<and>
    ready_state bit1 T' st' (t + table_pages (p @ [i])) J \<and> grown bit1 T st T' st' \<and>
    dom T' = insert (p @ [i]) (dom T) \<and>
    (\<forall>b. upper_path b = p @ [i] \<longrightarrow> page_frame T' (pmem st') b = None) \<and>
    (\<exists>rc. get_frame bit1 True (of_nat (table_pages (p @ [i]))) (frames st) = Some (rc, frames st'))"
proof -
  define k where "k = table_pages (p @ [i])"
  have k: "0 < k" by (simp add: k_def table_pages_def)
  have ok: "tables_ok T st" and marked: "tables_marked bit1 T (frames st)" and len: "length (frames st) = 256"
    and room: "room T st t J" and mapped: "mapped_marked bit1 (page_frame T (pmem st)) (frames st)"
    using ready by (simp_all add: ready_state_def)
  have tree: "tree_ok T" using ok by (simp add: tables_ok_def)
  have fits: "t + k \<le> J" using fits by (simp add: k_def)
  obtain q v st' where st': "safe_alloc bit1 (allocate_pt bit1 (Suc m)) (page_offset k) (\<lambda>_ st. Some st) st =
        Some (st', heap_page st v, page_offset q)"
      "first_run bit1 (frames st) k q" "v \<le> t" "tables_ok T st'"
      "\<And>j. j < k \<Longrightarrow> page_frame T (pmem st') (heap_page st v + page_offset j) = Some (page_offset q + page_offset j)"
      "\<And>a f. page_frame T (pmem st) a = Some f \<Longrightarrow> page_frame T (pmem st') a = Some f"
      "zeroed (pmem st') (page_offset q) (4096 * k)" "room T st' (t + k) J"
      "length (frames st') = 256" "\<And>j. q \<le> j \<Longrightarrow> j < q + k \<Longrightarrow> frame_used bit1 (frames st') j"
      "\<And>j. frame_used bit1 (frames st) j \<Longrightarrow> frame_used bit1 (frames st') j"
      "cr3 st' = cr3 st" "active st' = active st" "heap_end st' = heap_end st" "prng_seed st' = prng_seed st"
      "get_frame bit1 True (of_nat k) (frames st) = Some (page_offset q, frames st')"
      "\<And>x. plain_byte bit1 T (frames st) x \<Longrightarrow> pmem st' x = pmem st x"
      "\<And>b f. page_frame T (pmem st') b = Some f \<Longrightarrow> page_frame T (pmem st) b = Some f \<or>
         (\<exists>j<k. path_of b = path_of (heap_page st v + page_offset j) \<and> f = page_offset q + page_offset j)"
    by (rule safe_alloc_spec [OF ok marked bits len room fits k free [folded k_def] refl, of m])
      (rule that; assumption)
  let ?f = "page_offset q" and ?a = "heap_page st v"
  define node where "node = \<lparr>n_virt = ?a, n_phys = ?f, n_back = ?f + 0x1000\<rparr>"
  define T' where "T' = T(p @ [i] \<mapsto> node)"
  let ?st = "link n i node st'"
  have e1: "vstore64 (entry_at (n_virt n) i) (?f OR 0x3) st' = Some (set_entry n i (?f OR 0x3) st')"
    using table_access(2) [OF st'(4) n i] by (simp add: set_entry_def)
  have e2: "vstore64 (next_at (n_virt n) i) ?a (set_entry n i (?f OR 0x3) st') = Some ?st"
    using next_after_set_entry(2) [OF st'(4) n p i none n p i, where e = "?f OR 0x3" and w = ?a] by (simp add: link_def node_def Let_def)
  have find: "loc st' = Some (n_virt n)" "loc (set_entry n i (?f OR 0x3) st') = Some (n_virt n)"
    using finds st'(4) n i none unfolding finds_def by blast+
  have result: "add_table bit1 (allocate_pt bit1 (Suc m)) (page_offset k) loc i st = Some ?st"
    by (simp add: add_table_def st'(1) find e1 e2)
  have k2: "length p < 2 \<longleftrightarrow> k = 2" using p by (auto simp: k_def table_pages_def)
  have run: "free_run bit1 (frames st) q k" using st'(2) by (simp add: first_run_def)
  have alien: "f \<noteq> ?f + page_offset j"
    if "frame_marked bit1 (frames st) f" "aligned f" "j < k" for f j
    using fresh_distinct [OF run that] .
  have fit: "fits_in T p node"
    unfolding fits_in_def node_def using alien [of _ 0] alien [of _ 1] marked tree_okD(4,5) [OF tree] k k2
      aligned_heap_page [OF room]
      aligned_offset [of q]
    by (auto simp: tables_marked_def page_offset_1)
  have ok': "tables_ok T' ?st"
    unfolding T'_def
  proof (rule link_tables_ok [OF st'(4) n p i none fit])
    show "page_frame T (pmem st') (n_virt node) = Some (n_phys node)" using st'(5) [of 0] k by (simp add: node_def)
    show "page_frame T (pmem st') (n_virt node + 0x1000) = Some (n_back node)" if "length p < 2"
      using st'(5) [of 1] that k2 by (simp add: node_def page_offset_def)
    show "slot (pmem st') (n_phys node) j = 0" if "length p < 2" "index_ok j" for j
      using zeroed_slot [OF st'(7) k that(2)] by (simp add: node_def)
  qed
  have fr: "frames ?st = frames st'" "heap_end ?st = heap_end st'" "cr3 ?st = cr3 st'" "active ?st = active st'"
    "prng_seed ?st = prng_seed st'"
    by (simp_all add: link_def set_entry_def active_def Let_def)
  note same = link_frames [OF tree n p i none, of _ node st', folded T'_def]
  have blank: "page_frame T' (pmem ?st) b = None" if "upper_path b = p @ [i]" for b
  proof -
    have "n_phys n \<noteq> ?f" "n_back n \<noteq> ?f" using fit n p unfolding fits_in_def by (auto simp: node_def)
    then have "slot (pmem ?st) ?f (table_index 12 b) = slot (pmem st') (?f + page_offset 0) (table_index 12 b)"
      by (simp add: slot_link [OF tree n p i])
    also have "\<dots> = 0" by (rule zeroed_slot [OF st'(7) k]) simp
    finally show ?thesis by (simp add: page_frame_def that T'_def node_def present_def)
  qed
  have fresh: "fresh_maps bit1 (page_frame T (pmem st)) (frames st) (page_frame T' (pmem ?st)) (frames st')"
  proof (rule fresh_maps_run [OF mapped run st'(10)])
    show "page_frame T (pmem st) b = Some f \<or>
        (\<exists>j<k. path_of b = path_of (?a + page_offset j) \<and> f = page_offset q + page_offset j)"
      if b: "page_frame T' (pmem ?st) b = Some f" for b f
    proof (cases "T (upper_path b)")
      case None
      then show ?thesis using b blank [of b] page_frame_table [OF b] by (auto simp: T'_def split: if_splits)
    next
      case (Some l)
      then show ?thesis using b same [of b] st'(18) [of b f] by simp
    qed
  qed
  have "tables_marked bit1 T' (frames ?st)"
    unfolding T'_def fr(1)
  proof (rule tables_marked_insert [OF marked st'(11)])
    show "frame_marked bit1 (frames st') (n_phys node)"
      using new_frame_marked [OF run k st'(10)] by (simp add: node_def)
    show "frame_marked bit1 (frames st') (n_back node)" if "length (p @ [i]) < 3"
      using new_frame_marked [OF run _ st'(10), of 1] that k2 by (simp add: node_def page_offset_def)
  qed
  moreover have "room T' ?st (t + k) J"
  proof (rule room_mono [OF st'(8)])
    show "T' x \<noteq> None" if "T x \<noteq> None" for x using that by (simp add: T'_def)
    show "page_frame T' (pmem ?st) b = page_frame T (pmem st') b" if "T (upper_path b) \<noteq> None" for b
      by (rule same [OF that])
  qed (rule fr(2))
  moreover have "mapped_marked bit1 (page_frame T' (pmem ?st)) (frames ?st)"
    using mapped_marked_grows [OF mapped fresh st'(11)] by (simp add: fr)
  ultimately have "ready_state bit1 T' ?st (t + k) J" using ok' st'(9) fr by (simp add: ready_state_def)
  moreover have "grown bit1 T st T' ?st"
    unfolding grown_def fr
  proof (intro conjI allI impI)
    show "T \<subseteq>\<^sub>m T'" using none by (auto simp: T'_def map_le_def)
    show "page_frame T' (pmem ?st) b = Some f" if "page_frame T (pmem st) b = Some f" for b f
    proof -
      have "T (upper_path b) \<noteq> None" using page_frame_table [OF that] by blast
      then show ?thesis using same [of b] st'(6) [OF that] by simp
    qed
    show "plain_byte bit1 T' (frames st') x" "pmem ?st x = pmem st x" if x: "plain_byte bit1 T (frames st) x" for x
    proof -
      show "plain_byte bit1 T' (frames st') x"
        unfolding T'_def by (rule plain_byte_insert [OF x run k _ _ st'(11)]) (use k2 in \<open>simp_all add: node_def\<close>)
      have "off_tables T x 1" using x by (simp add: plain_byte_def)
      then show "pmem ?st x = pmem st x" using link_other [OF tree n p i] st'(17) [OF x] by simp
    qed
  qed (use st' fresh in auto)
  moreover have "dom T' = insert (p @ [i]) (dom T)" by (auto simp: T'_def)
  ultimately show ?thesis using result st'(16) fr blank unfolding k_def by metis
qed


section \<open>The tables of a path\<close>

lemma ready_state_mono:
  assumes "ready_state bit1 T st t J" and "t \<le> t'"
  shows "ready_state bit1 T st t' J"
  using assms unfolding ready_state_def room_def by (meson order_trans)

lemma table_pages_bytes:
  "length p < 2 \<Longrightarrow> page_offset (table_pages (p @ [i])) = 0x2000"
  "length p = 2 \<Longrightarrow> page_offset (table_pages (p @ [i])) = 0x1000"
  by (simp_all add: table_pages_def page_offset_def)

lemma ensure_table:
  assumes ready: "ready_state bit1 T st t J" and bits: "bit_ok bit1" and n: "T p = Some n" and p: "length p < 3"
    and i: "index_ok i" and finds: "finds loc p" and fits: "t + 2 \<le> J" and words: "free_words bit1 (frames st) \<noteq> {}"
    and bytes: "bytes = page_offset (table_pages (p @ [i]))"
  shows "\<exists>T' st'. (if \<not> present (slot (pmem st) (n_phys n) i)
        then add_table bit1 (allocate_pt bit1 (Suc m)) bytes loc i st else Some st) = Some st' \<and>
    ready_state bit1 T' st' (t + 2) J \<and> grown bit1 T st T' st' \<and> dom T' = insert (p @ [i]) (dom T) \<and>
    card (free_words bit1 (frames st)) \<le> card (free_words bit1 (frames st')) + 2 \<and>
    (T (p @ [i]) = None \<longrightarrow> (\<forall>b. upper_path b = p @ [i] \<longrightarrow> page_frame T' (pmem st') b = None))"
proof (cases "T (p @ [i])")
  case None
  have le: "t + table_pages (p @ [i]) \<le> t + 2" and k: "table_pages (p @ [i]) \<le> 31"
    by (simp_all add: table_pages_def)
  have "t + table_pages (p @ [i]) \<le> J" using le fits by (rule order_trans)
  then obtain T' st' where 1: "add_table bit1 (allocate_pt bit1 (Suc m)) bytes loc i st = Some st'"
      "ready_state bit1 T' st' (t + table_pages (p @ [i])) J" "grown bit1 T st T' st'"
      "dom T' = insert (p @ [i]) (dom T)"
      "\<exists>rc. get_frame bit1 True (of_nat (table_pages (p @ [i]))) (frames st) = Some (rc, frames st')"
      "\<forall>b. upper_path b = p @ [i] \<longrightarrow> page_frame T' (pmem st') b = None"
    using add_table_spec [OF ready bits n p i None finds _ free_words_run [OF words k], of m] unfolding bytes by blast
  have "card (free_words bit1 (frames st)) \<le> card (free_words bit1 (frames st')) + 2"
    using get_frame_words [OF bits _ _, of "frames st" "of_nat (table_pages (p @ [i]))" _ "frames st'"] 1(5) ready k
    by (auto simp: ready_state_def unat_of_nat_u64)
  note 1 = 1(1-4,6) this
  have "\<not> present (slot (pmem st) (n_phys n) i)"
    using linked_okD(1) [OF _ n p i None] ready by (simp add: ready_state_def tables_ok_def)
  then show ?thesis using 1 ready_state_mono [OF 1(2) le] by auto
next
  case (Some k)
  have "present (slot (pmem st) (n_phys n) i)"
    using linked_okD(2) [OF _ n p i Some] ready by (simp add: ready_state_def tables_ok_def)
  moreover have "dom T = insert (p @ [i]) (dom T)" using Some by auto
  moreover have "ready_state bit1 T st (t + 2) J" by (rule ready_state_mono [OF ready]) simp
  ultimately show ?thesis using Some by (intro exI [of _ T] exI [of _ st]) simp
qed

lemma words_left: "5 \<le> card (free_words bit1 fr) \<Longrightarrow> card (free_words bit1 fr) \<le> card (free_words bit1 fr') + k \<Longrightarrow> k < 5 \<Longrightarrow>
    free_words bit1 fr' \<noteq> {}"
  by auto

lemma allocate_pt_spec:
  assumes ready: "ready_state bit1 T st t J" and bits: "bit_ok bit1"
    and i: "index_ok i4" "index_ok i3" "index_ok i2" and fits: "t + 6 \<le> J" and words: "5 \<le> card (free_words bit1 (frames st))"
  shows "\<exists>T' st'. allocate_pt bit1 (Suc (Suc m)) i4 i3 i2 st = Some (st', T [i4, i3, i2] = None) \<and>
    ready_state bit1 T' st' (t + 6) J \<and> grown bit1 T st T' st' \<and>
    dom T' = dom T \<union> {[i4], [i4, i3], [i4, i3, i2]} \<and>
    card (free_words bit1 (frames st)) \<le> card (free_words bit1 (frames st')) + 6 \<and>
    (T [i4, i3, i2] = None \<longrightarrow> (\<forall>b. upper_path b = [i4, i3, i2] \<longrightarrow> page_frame T' (pmem st') b = None))"
proof -
  have ok: "tables_ok T st" using ready by (simp add: ready_state_def)
  obtain r :: tnode where r: "T [] = Some r" "pml4t_of st = Some (n_virt r)"
      "vload64 st (entry_at (n_virt r) i4) = Some (slot (pmem st) (n_phys r) i4)"
    using tables_reached(1) [OF ok i] by blast
  have z0: "free_words bit1 (frames st) \<noteq> {}" using words by auto
  obtain T1 st1 where 1: "(if \<not> present (slot (pmem st) (n_phys r) i4)
        then add_table bit1 (allocate_pt bit1 (Suc m)) 0x2000 pml4t_of i4 st else Some st) = Some st1"
      "ready_state bit1 T1 st1 (t + 2) J" "grown bit1 T st T1 st1" "dom T1 = insert [i4] (dom T)"
      "card (free_words bit1 (frames st)) \<le> card (free_words bit1 (frames st1)) + 2"
    using ensure_table [OF ready bits r(1) _ i(1) finds_pml4t _ z0, where bytes = "0x2000" and m = m] fits
      table_pages_bytes(1) [where p = "[]" and i = i4] by auto
  obtain n4 where n4: "T1 [i4] = Some n4" using 1(4) by blast
  have ok1: "tables_ok T1 st1" using 1(2) by (simp add: ready_state_def)
  have z1: "free_words bit1 (frames st1) \<noteq> {}" using words_left [OF words 1(5)] by simp
  note r4 = tables_reached(2) [OF ok1 i n4]
  obtain T2 st2 where 2: "(if \<not> present (slot (pmem st1) (n_phys n4) i3)
        then add_table bit1 (allocate_pt bit1 (Suc m)) 0x2000 (pdpt_of i4) i3 st1 else Some st1) = Some st2"
      "ready_state bit1 T2 st2 (t + 2 + 2) J" "grown bit1 T1 st1 T2 st2" "dom T2 = insert [i4, i3] (dom T1)"
      "card (free_words bit1 (frames st1)) \<le> card (free_words bit1 (frames st2)) + 2"
    using ensure_table [OF 1(2) bits n4 _ i(2) finds_pdpt [OF i(1)] _ z1, where bytes = "0x2000" and m = m] fits
      table_pages_bytes(1) [where p = "[i4]" and i = i3] by auto
  obtain n3 where n3: "T2 [i4, i3] = Some n3" using 2(4) by blast
  have ok2: "tables_ok T2 st2" using 2(2) by (simp add: ready_state_def)
  have "card (free_words bit1 (frames st)) \<le> card (free_words bit1 (frames st2)) + 4" using 1(5) 2(5) by simp
  then have z2: "free_words bit1 (frames st2) \<noteq> {}" using words_left [OF words] by simp
  note r3 = tables_reached(3) [OF ok2 i n3]
  have same: "T2 [i4, i3, i2] = None \<longleftrightarrow> T [i4, i3, i2] = None"
  proof -
    have "[i4, i3, i2] \<in> dom T2 \<longleftrightarrow> [i4, i3, i2] \<in> dom T" using 1(4) 2(4) by simp
    then show ?thesis unfolding domIff by blast
  qed
  have start: "allocate_pt bit1 (Suc (Suc m)) i4 i3 i2 st =
      (if present (slot (pmem st2) (n_phys n3) i2) then Some (st2, False)
       else do { st \<leftarrow> add_table bit1 (allocate_pt bit1 (Suc m)) 0x1000 (pdt_of i4 i3) i2 st2; Some (st, True) })"
    unfolding allocate_pt.simps(2) [of _ "Suc m"] allocate_pt_body_def
    using r(2,3) 1(1) 2(1) r4 r3 by simp
  obtain T3 st3 where 3: "(if \<not> present (slot (pmem st2) (n_phys n3) i2)
        then add_table bit1 (allocate_pt bit1 (Suc m)) 0x1000 (pdt_of i4 i3) i2 st2 else Some st2) = Some st3"
      "ready_state bit1 T3 st3 (t + 2 + 2 + 2) J" "grown bit1 T2 st2 T3 st3" "dom T3 = insert [i4, i3, i2] (dom T2)"
      "card (free_words bit1 (frames st2)) \<le> card (free_words bit1 (frames st3)) + 2"
      "T2 [i4, i3, i2] = None \<longrightarrow> (\<forall>b. upper_path b = [i4, i3, i2] \<longrightarrow> page_frame T3 (pmem st3) b = None)"
    using ensure_table [OF 2(2) bits n3 _ i(3) finds_pdt [OF i(1,2)] _ z2, where bytes = "0x1000" and m = m] fits
      table_pages_bytes(2) [where p = "[i4, i3]" and i = i2] by auto
  have "allocate_pt bit1 (Suc (Suc m)) i4 i3 i2 st = Some (st3, T [i4, i3, i2] = None)"
    using start 3(1) r3 same by (auto split: if_splits)
  moreover have "grown bit1 T st T3 st3" using grown_trans 1(3) 2(3) 3(3) by blast
  moreover have "dom T3 = dom T \<union> {[i4], [i4, i3], [i4, i3, i2]}" using 1(4) 2(4) 3(4) by auto
  moreover have "ready_state bit1 T3 st3 (t + 6) J" by (rule ready_state_mono [OF 3(2)]) simp
  moreover have "card (free_words bit1 (frames st)) \<le> card (free_words bit1 (frames st3)) + 6"
    using 1(5) 2(5) 3(5) by simp
  moreover have "T [i4, i3, i2] = None \<longrightarrow> (\<forall>b. upper_path b = [i4, i3, i2] \<longrightarrow> page_frame T3 (pmem st3) b = None)"
    using 3(6) unfolding same .
  ultimately show ?thesis by (intro exI [of _ T3] exI [of _ st3] conjI)
qed

end
