(* ===== verification/Mmu.thy ===== *)
theory Mmu
  imports PageGrow
begin

text \<open>
  The properties of \<^verbatim>\<open>arch/amd64/mmu.c\<close> on top of the tree of page tables, and a small machine on
  which they are run: seven frames of tables and one page table that has room.
\<close>

section \<open>A machine with four tables\<close>

fun fill :: "(u64 \<times> u64 \<times> u64) list \<Rightarrow> mem" where
  "fill [] = (\<lambda>_. 0)"
| "fill ((f, i, e) # xs) = store64 (fill xs) (f + 8 * i) e"

definition small_entries :: "(u64 \<times> u64 \<times> u64) list" where
  "small_entries =
     [(0x1000, 511, 0x3003), (0x2000, 511, 0xFFFFFF8000003000),
      (0x3000, 0, 0x5003), (0x4000, 0, 0xFFFFFF8000005000),
      (0x5000, 0, 0x7003), (0x6000, 0, 0xFFFFFF8000007000),
      (0x7000, 1, 0x1003), (0x7000, 2, 0x2003), (0x7000, 3, 0x3003), (0x7000, 4, 0x4003),
      (0x7000, 5, 0x5003), (0x7000, 6, 0x6003), (0x7000, 7, 0x7003)]"

definition small_tree :: tree where
  "small_tree =
     [[] \<mapsto> \<lparr>n_virt = 0xFFFFFF8000001000, n_phys = 0x1000, n_back = 0x2000\<rparr>,
      [511] \<mapsto> \<lparr>n_virt = 0xFFFFFF8000003000, n_phys = 0x3000, n_back = 0x4000\<rparr>,
      [511, 0] \<mapsto> \<lparr>n_virt = 0xFFFFFF8000005000, n_phys = 0x5000, n_back = 0x6000\<rparr>,
      [511, 0, 0] \<mapsto> \<lparr>n_virt = 0xFFFFFF8000007000, n_phys = 0x7000, n_back = 0x8000\<rparr>]"

definition small_machine :: mmu where
  "small_machine =
     \<lparr>pmem = fill small_entries, cr3 = 0x1000, frames = 0xFF # replicate 255 0, heap_end = 0xFFFFFF8000008000,
      directories = [0x1 \<mapsto> \<lparr>pml4t = 0xFFFFFF8000001000, dir_physical = 0x1000\<rparr>], active_directory = 0x1,
      prng_seed = (1, 2, 3, 4)\<rparr>"

lemma slot_empty: "slot (\<lambda>_. 0) g j = 0"
proof -
  have "load_bytes (\<lambda>_. 0) a 8 = replicate 8 0" for a by (rule nth_equalityI) simp_all
  then show ?thesis by (simp add: slot_def load64_def numeral_eq_Suc)
qed

lemma slot_fill:
  assumes "\<forall>(f, i, e)\<in>set xs. aligned f \<and> index_ok i" and "aligned g" and "index_ok j"
  shows "slot (fill xs) g j = (case map_of (map (\<lambda>(f, i, e). ((f, i), e)) xs) (g, j) of None \<Rightarrow> 0 | Some e \<Rightarrow> e)"
  using assms
proof (induction xs rule: fill.induct)
  case (2 f i e xs)
  then have "slot (store64 (fill xs) (f + 8 * i) e) g j = (if g = f \<and> j = i then e else slot (fill xs) g j)"
    by (intro slot_store) simp_all
  then show ?case using 2 by auto
qed (simp add: slot_empty)

lemma small_slot:
  assumes "aligned g" and "index_ok j"
  shows "slot (pmem small_machine) g j =
    (case map_of (map (\<lambda>(f, i, e). ((f, i), e)) small_entries) (g, j) of None \<Rightarrow> 0 | Some e \<Rightarrow> e)"
proof -
  have "\<forall>(f, i, e)\<in>set small_entries. aligned f \<and> index_ok i"
    by (simp add: small_entries_def aligned_def index_ok_def)
  then show ?thesis using slot_fill [OF _ assms] by (simp add: small_machine_def)
qed

lemma small_tree_cases:
  "small_tree p = Some n \<Longrightarrow>
     p = [] \<and> n = \<lparr>n_virt = 0xFFFFFF8000001000, n_phys = 0x1000, n_back = 0x2000\<rparr> \<or>
     p = [511] \<and> n = \<lparr>n_virt = 0xFFFFFF8000003000, n_phys = 0x3000, n_back = 0x4000\<rparr> \<or>
     p = [511, 0] \<and> n = \<lparr>n_virt = 0xFFFFFF8000005000, n_phys = 0x5000, n_back = 0x6000\<rparr> \<or>
     p = [511, 0, 0] \<and> n = \<lparr>n_virt = 0xFFFFFF8000007000, n_phys = 0x7000, n_back = 0x8000\<rparr>"
  by (auto simp: small_tree_def split: if_splits)

lemma small_tree_at:
  "small_tree [] = Some \<lparr>n_virt = 0xFFFFFF8000001000, n_phys = 0x1000, n_back = 0x2000\<rparr>"
  "small_tree [i] = (if i = 511 then Some \<lparr>n_virt = 0xFFFFFF8000003000, n_phys = 0x3000, n_back = 0x4000\<rparr> else None)"
  "small_tree [i, j] = (if i = 511 \<and> j = 0
     then Some \<lparr>n_virt = 0xFFFFFF8000005000, n_phys = 0x5000, n_back = 0x6000\<rparr> else None)"
  "small_tree [i, j, k] = (if i = 511 \<and> j = 0 \<and> k = 0
     then Some \<lparr>n_virt = 0xFFFFFF8000007000, n_phys = 0x7000, n_back = 0x8000\<rparr> else None)"
  by (simp_all add: small_tree_def)

lemma small_aligned:
  "aligned 0x1000" "aligned 0x2000" "aligned 0x3000" "aligned 0x4000" "aligned 0x5000" "aligned 0x6000"
  "aligned 0x7000" "aligned 0x8000" "aligned 0xFFFFFF8000001000" "aligned 0xFFFFFF8000003000"
  "aligned 0xFFFFFF8000005000" "aligned 0xFFFFFF8000007000" "aligned 0xFFFFFF8000008000"
  "index_ok 0" "index_ok 511"
  by (simp_all add: aligned_def index_ok_def)

lemma small_tree_ok: "tree_ok small_tree"
  unfolding tree_ok_def
proof (intro conjI allI impI)
  fix p n assume "small_tree p = Some n"
  then show "length p \<le> 3" "\<forall>i\<in>set p. index_ok i" "aligned (n_virt n)" "aligned (n_phys n)" "aligned (n_back n)"
    by (auto dest!: small_tree_cases simp: small_aligned)
next
  fix p i n assume "small_tree (p @ [i]) = Some n"
  then have "p @ [i] = [511] \<or> p @ [i] = [511, 0] \<or> p @ [i] = [511, 0, 0]"
    by (auto dest!: small_tree_cases)
  then have "p = [] \<or> p = [511] \<or> p = [511, 0]"
    by (metis append1_eq_conv append_Cons append_Nil)
  then show "small_tree p \<noteq> None" by (auto simp: small_tree_at)
next
  fix p n q k assume "small_tree p = Some n \<and> small_tree q = Some k"
  then have "small_tree p = Some n" "small_tree q = Some k" by simp_all
  then show "p \<noteq> q \<Longrightarrow> n_phys n \<noteq> n_phys k" "length p < 3 \<Longrightarrow> n_back n \<noteq> n_phys k"
    "p \<noteq> q \<and> length p < 3 \<and> length q < 3 \<Longrightarrow> n_back n \<noteq> n_back k"
    by (auto dest!: small_tree_cases)
qed


lemma small_linked: "linked_ok small_tree (pmem small_machine)"
  unfolding linked_ok_def
proof (intro allI impI)
  fix p n i
  assume a: "small_tree p = Some n \<and> length p < 3 \<and> index_ok i"
  then have "small_tree p = Some n" "length p < 3" "index_ok i" by simp_all
  then consider (0) "p = []" "n = \<lparr>n_virt = 0xFFFFFF8000001000, n_phys = 0x1000, n_back = 0x2000\<rparr>"
    | (1) "p = [511]" "n = \<lparr>n_virt = 0xFFFFFF8000003000, n_phys = 0x3000, n_back = 0x4000\<rparr>"
    | (2) "p = [511, 0]" "n = \<lparr>n_virt = 0xFFFFFF8000005000, n_phys = 0x5000, n_back = 0x6000\<rparr>"
    using small_tree_cases [of p n] by auto
  then show "case small_tree (p @ [i]) of None \<Rightarrow> \<not> present (slot (pmem small_machine) (n_phys n) i)
     | Some k \<Rightarrow> present (slot (pmem small_machine) (n_phys n) i) \<and>
         page_base (slot (pmem small_machine) (n_phys n) i) = n_phys k \<and> slot (pmem small_machine) (n_back n) i = n_virt k"
    by cases (use a in \<open>simp_all add: small_slot small_aligned small_entries_def small_tree_at present_def
        PAGE_FLAG_PRESENT_def page_base_def\<close>)
qed

lemma small_paths:
  "table_index 39 0xFFFFFF8000001000 = 511" "table_index 30 0xFFFFFF8000001000 = 0"
  "table_index 21 0xFFFFFF8000001000 = 0" "table_index 12 0xFFFFFF8000001000 = 1"
  by (simp_all add: table_index_def)

lemma below_16:
  fixes j :: nat
  assumes "j < 16"
  shows "j \<in> {0, 1, 2, 3, 4, 5, 6, 7, 8, 9, 10, 11, 12, 13, 14, 15}"
proof -
  have "j \<in> set [0..<16]" using assms by simp
  then show ?thesis by (simp add: upt_conv_Cons numeral_eq_Suc)
qed

lemma small_leaf:
  "index_ok i \<Longrightarrow> slot (pmem small_machine) 0x7000 i =
     (if i = 1 then 0x1003 else if i = 2 then 0x2003 else if i = 3 then 0x3003 else if i = 4 then 0x4003
      else if i = 5 then 0x5003 else if i = 6 then 0x6003 else if i = 7 then 0x7003 else 0)"
  by (simp add: small_slot small_aligned small_entries_def)

lemma small_page:
  assumes "j < 16"
  shows "table_index 39 (0xFFFFFF8000000000 + page_offset j) = 511"
    "table_index 30 (0xFFFFFF8000000000 + page_offset j) = 0"
    "table_index 21 (0xFFFFFF8000000000 + page_offset j) = 0"
    "table_index 12 (0xFFFFFF8000000000 + page_offset j) = of_nat j"
proof -
  note j = below_16 [OF assms]
  show "table_index 39 (0xFFFFFF8000000000 + page_offset j) = 511"
    "table_index 30 (0xFFFFFF8000000000 + page_offset j) = 0"
    "table_index 21 (0xFFFFFF8000000000 + page_offset j) = 0"
    "table_index 12 (0xFFFFFF8000000000 + page_offset j) = of_nat j"
    using j by (auto simp: page_offset_def table_index_def)
qed

lemma small_frame:
  assumes "j < 16"
  shows "page_frame small_tree (pmem small_machine) (0xFFFFFF8000000000 + page_offset j) =
    (if 1 \<le> j \<and> j \<le> 7 then Some (page_offset j) else None)"
proof -
  note j = below_16 [OF assms]
  have i: "index_ok (of_nat j)" using j unfolding insert_iff empty_iff
    by (elim disjE FalseE; hypsubst; simp add: index_ok_def)
  have pf: "page_frame small_tree (pmem small_machine) (0xFFFFFF8000000000 + page_offset j) =
      (let e = slot (pmem small_machine) 0x7000 (of_nat j) in if present e then Some (page_base e) else None)"
    by (simp add: page_frame_def small_page [OF assms] small_tree_at)
  show ?thesis
    unfolding pf small_leaf [OF i] using j unfolding insert_iff empty_iff
    by (elim disjE FalseE; hypsubst; simp add: present_def PAGE_FLAG_PRESENT_def page_base_def page_offset_def)
qed

lemma small_mapped: "mapped_ok small_tree (pmem small_machine)"
proof -
  have f: "page_frame small_tree (pmem small_machine) 0xFFFFFF8000001000 = Some 0x1000"
    "page_frame small_tree (pmem small_machine) 0xFFFFFF8000002000 = Some 0x2000"
    "page_frame small_tree (pmem small_machine) 0xFFFFFF8000003000 = Some 0x3000"
    "page_frame small_tree (pmem small_machine) 0xFFFFFF8000004000 = Some 0x4000"
    "page_frame small_tree (pmem small_machine) 0xFFFFFF8000005000 = Some 0x5000"
    "page_frame small_tree (pmem small_machine) 0xFFFFFF8000006000 = Some 0x6000"
    "page_frame small_tree (pmem small_machine) 0xFFFFFF8000007000 = Some 0x7000"
    using small_frame [of 1] small_frame [of 2] small_frame [of 3] small_frame [of 4] small_frame [of 5]
      small_frame [of 6] small_frame [of 7] by (simp_all add: page_offset_def)
  then show ?thesis unfolding mapped_ok_def by (auto dest!: small_tree_cases)
qed

lemma small_tables_ok: "tables_ok small_tree small_machine"
  using small_tree_ok small_linked small_mapped
  by (simp add: tables_ok_def active_def small_machine_def small_tree_at)

lemma small_room: "room small_tree small_machine 0 7"
  unfolding room_def
proof (intro conjI allI impI)
  have a: "heap_page small_machine j = 0xFFFFFF8000000000 + page_offset (8 + j)" for j
    by (simp add: heap_page_def small_machine_def page_offset_add) (simp add: page_offset_def)
  show "small_tree (upper_path (heap_page small_machine j)) \<noteq> None" if "j < 7" for j
    using that by (simp add: a small_page small_tree_at)
  show "page_frame small_tree (pmem small_machine) (heap_page small_machine j) = None" if "0 \<le> j \<and> j < 7" for j
    using that by (simp add: a small_frame)
qed (simp_all add: small_machine_def small_aligned)

lemma small_frame_marked:
  assumes "f \<in> {0x1000, 0x2000, 0x3000, 0x4000, 0x5000, 0x6000, 0x7000}"
  shows "frame_marked shl_intended (frames small_machine) f"
proof -
  have u: "frame_used shl_intended (frames small_machine) j" if "j \<in> {1, 2, 3, 4, 5, 6, 7}" for j
    using that by (auto simp: frame_used_def small_machine_def shl_intended_def)
  have "unat f div 4096 \<in> {1, 2, 3, 4, 5, 6, 7}"
    using assms unfolding insert_iff empty_iff by (elim disjE FalseE; hypsubst; simp)
  then show ?thesis using u [of "unat f div 4096"] by (simp add: frame_marked_def)
qed

lemma small_marked: "tables_marked shl_intended small_tree (frames small_machine)"
proof -
  note m = small_frame_marked
  show ?thesis
    unfolding tables_marked_def
  proof (intro allI impI)
    fix p n
    assume "small_tree p = Some n"
    note c = small_tree_cases [OF this]
    show "frame_marked shl_intended (frames small_machine) (n_phys n) \<and>
        (length p < 3 \<longrightarrow> frame_marked shl_intended (frames small_machine) (n_back n))"
      using c by (elim disjE) (simp_all add: m)
  qed
qed

lemma small_mapped_marked: "mapped_marked shl_intended (page_frame small_tree (pmem small_machine)) (frames small_machine)"
  unfolding mapped_marked_def
proof (intro allI impI)
  fix b f
  assume b: "page_frame small_tree (pmem small_machine) b = Some f"
  then obtain n where "small_tree (upper_path b) = Some n" using page_frame_table by blast
  then have "n_phys n = 0x7000" by (auto dest!: small_tree_cases)
  then have "f \<in> {0x1000, 0x2000, 0x3000, 0x4000, 0x5000, 0x6000, 0x7000}"
    using b \<open>small_tree (upper_path b) = Some n\<close>
    by (auto simp: page_frame_def Let_def small_leaf present_def PAGE_FLAG_PRESENT_def page_base_def split: if_splits)
  then show "frame_marked shl_intended (frames small_machine) f" by (rule small_frame_marked)
qed

lemma small_ready: "ready_state shl_intended small_tree small_machine 0 7"
  using small_tables_ok small_room small_marked small_mapped_marked by (simp add: ready_state_def small_machine_def)

lemma small_words: "5 \<le> card (free_words shl_intended (frames small_machine))"
proof -
  have "{1, 2, 3, 4, 5} \<subseteq> free_words shl_intended (frames small_machine)"
    by (auto simp: free_words_def frame_used_def small_machine_def nth_Cons')
  then have "card {1, 2, 3, 4, 5 :: nat} \<le> card (free_words shl_intended (frames small_machine))" by (intro card_mono) simp_all
  then show ?thesis by simp
qed


section \<open>Properties\<close>

text \<open>
  C20 (virtual_to_physical_is_hardware): \<^verbatim>\<open>mmu_virtual_to_physical\<close>, which follows the virtual pointers that the
  program keeps behind its tables, returns for every address what the processor's walk through
  the entries returns, and reports through \<^verbatim>\<open>exists\<close> whether the page is present.
\<close>

theorem virtual_to_physical_is_hardware:
  assumes "tables_ok T st"
  shows "mmu_virtual_to_physical a st =
    Some (case translate st a of None \<Rightarrow> (0, False) | Some p \<Rightarrow> (p, True))"
  using assms by (rule virtual_to_physical)

theorem virtual_to_physical_is_hardware_witness:
  "mmu_virtual_to_physical 0xFFFFFF8000003008 small_machine = Some (0x3008, True)"
proof -
  have f: "page_frame small_tree (pmem small_machine) 0xFFFFFF8000003000 = Some 0x3000"
    using small_frame [of 3] by (simp add: page_offset_def)
  have "translate small_machine (0xFFFFFF8000003000 + 8) = Some (0x3000 + 8)"
    by (rule translate_page [OF small_tables_ok small_aligned(10) f]) simp
  then show ?thesis using virtual_to_physical_is_hardware [OF small_tables_ok, of "0xFFFFFF8000003008"] by simp
qed

text \<open>
  C22 (region_check_maps): When the page table of an address exists, \<^verbatim>\<open>check_virtual_region_is_free\<close> says that a
  mapped page is taken and leaves everything as it is; for an unmapped page it answers that the
  page is free, and with \<^verbatim>\<open>allocate\<close> it maps exactly this page to the given frame: afterwards
  every other address translates as before, and the tables are still in order.
\<close>

theorem region_check_maps:
  assumes "tables_ok T st" and "T [table_index 39 a, table_index 30 a, table_index 21 a] = Some n"
  shows "case translate st a of
      Some p \<Rightarrow> check_virtual_region_is_free bit1 (Suc m) a allocate use_frame f st = Some (st, False, Some (page_base p))
    | None \<Rightarrow> check_virtual_region_is_free bit1 (Suc m) a False use_frame f st = Some (st, True, None) \<and>
        (\<exists>st'. check_virtual_region_is_free bit1 (Suc m) a True True f st = Some (st', True, Some (page_base f)) \<and>
           tables_ok T st' \<and>
           (\<forall>b. translate st' b =
              (if path_of b = path_of a then Some (page_base f OR (b AND 0xFFF)) else translate st b)))"
proof -
  have alloc: "allocate_pt bit1 (Suc m) (table_index 39 a) (table_index 30 a) (table_index 21 a) st = Some (st, False)"
    by (rule allocate_pt_present [OF assms(1) _ _ _ assms(2)]) simp_all
  have step: "check_virtual_region_is_free bit1 (Suc m) a allocate use_frame f st =
    (case page_frame T (pmem st) a of
       Some f \<Rightarrow> Some (st, False, Some f)
     | None \<Rightarrow> if allocate
         then do { (st, f) \<leftarrow> frame_for bit1 use_frame f st;
                   Some (set_leaf T a (f OR 0x3) st, True, Some (page_base f)) }
         else Some (st, True, None))" for allocate use_frame f
    unfolding check_virtual_region_is_free_def
    by (rule check_region_step [of T st a n "allocate_pt bit1 (Suc m)" False, OF assms alloc])
  show ?thesis
  proof (cases "page_frame T (pmem st) a")
    case None
    let ?st = "set_leaf T a (f OR 0x3) st"
    have tree: "tree_ok T" using assms(1) by (simp add: tables_ok_def)
    have ok: "tables_ok T ?st"
      by (rule set_leaf_tables_ok [OF assms unmapped_spares_tables [OF assms(1) None]])
    have "translate ?st b = (if path_of b = path_of a then Some (page_base f OR (b AND 0xFFF)) else translate st b)" for b
      by (simp add: translate_frame [OF ok] translate_frame [OF assms(1)] page_frame_set_leaf [OF tree assms(2)] present_flags)
    moreover have "translate st a = None" using None by (simp add: translate_frame [OF assms(1)])
    ultimately show ?thesis using None ok by (simp add: step frame_for_def)
  next
    case (Some g)
    have "page_base (g OR (a AND 0xFFF)) = g"
      using page_add [OF page_frame_aligned [OF Some] page_split(2)] page_of_sum(2) [OF page_frame_aligned [OF Some] page_split(2)]
      by simp
    then show ?thesis using Some by (simp add: translate_frame [OF assms(1)] step)
  qed
qed

theorem region_check_maps_witness:
  "\<exists>st. check_virtual_region_is_free shl_x86 1 0xFFFFFF8000008000 True True 0x9000 small_machine = Some (st, True, Some 0x9000) \<and>
     translate st 0xFFFFFF8000008010 = Some 0x9010"
proof -
  let ?a = "0xFFFFFF8000008000 :: u64"
  have n: "small_tree [table_index 39 ?a, table_index 30 ?a, table_index 21 ?a] =
      Some \<lparr>n_virt = 0xFFFFFF8000007000, n_phys = 0x7000, n_back = 0x8000\<rparr>"
    by (simp add: table_index_def small_tree_at)
  have "page_frame small_tree (pmem small_machine) ?a = None" using small_frame [of 8] by (simp add: page_offset_def)
  then have t: "translate small_machine ?a = None" by (simp add: translate_frame [OF small_tables_ok])
  have b: "path_of 0xFFFFFF8000008010 = path_of ?a" by (simp add: path_of_def table_index_def)
  have r: "\<exists>st'. check_virtual_region_is_free shl_x86 (Suc 0) ?a True True 0x9000 small_machine = Some (st', True, Some (page_base 0x9000)) \<and>
      (\<forall>b. translate st' b = (if path_of b = path_of ?a then Some (page_base 0x9000 OR (b AND 0xFFF)) else translate small_machine b))"
    using region_check_maps [OF small_tables_ok n] unfolding t option.case by blast
  then obtain st where "check_virtual_region_is_free shl_x86 (Suc 0) ?a True True 0x9000 small_machine = Some (st, True, Some (page_base 0x9000))"
      "translate st 0xFFFFFF8000008010 = Some (page_base 0x9000 OR (0xFFFFFF8000008010 AND 0xFFF))"
    using b by auto
  then show ?thesis by (intro exI [of _ st]) (simp add: page_base_def)
qed

text \<open>
  C10 (allocate_pt_keeps_views): \<^verbatim>\<open>allocate_pt\<close> returns whenever six pages behind the heap are free in tables
  that exist and five words of the frame bitmap have no frame in use at
  the places 0 to 30, however many of the three tables of the
  path are missing.  Afterwards they exist, it says whether it was the last one it created, no
  mapping and no table has been lost, every frame of a table is marked, the program and the
  processor still agree on all of them, and no byte of a frame in use has changed, tables apart.
\<close>

theorem allocate_pt_keeps_views:
  assumes "ready_state bit1 T st t J" and "bit_ok bit1" and "t + 6 \<le> J" and "5 \<le> card (free_words bit1 (frames st))"
    and "i4 < 512" and "i3 < 512" and "i2 < 512"
  shows "\<exists>T' st'. allocate_pt bit1 (Suc (Suc m)) i4 i3 i2 st = Some (st', T [i4, i3, i2] = None) \<and>
    dom T' = dom T \<union> {[i4], [i4, i3], [i4, i3, i2]} \<and> T \<subseteq>\<^sub>m T' \<and> tables_ok T' st' \<and>
    tables_marked bit1 T' (frames st') \<and> (\<forall>a p. translate st a = Some p \<longrightarrow> translate st' a = Some p) \<and>
    (\<forall>x. plain_byte bit1 T (frames st) x \<longrightarrow> pmem st' x = pmem st x)"
proof -
  have i: "index_ok i4" "index_ok i3" "index_ok i2" using assms(5-7) by (simp_all add: index_ok_def)
  obtain T' st' where 1: "allocate_pt bit1 (Suc (Suc m)) i4 i3 i2 st = Some (st', T [i4, i3, i2] = None)"
      "ready_state bit1 T' st' (t + 6) J" "grown bit1 T st T' st'" "dom T' = dom T \<union> {[i4], [i4, i3], [i4, i3, i2]}"
    using allocate_pt_spec [OF assms(1,2) i assms(3,4), of m] by (elim exE conjE)
  have ok: "tables_ok T st" "tables_ok T' st'" using assms(1) 1(2) by (simp_all add: ready_state_def)
  have "translate st' a = Some p" if "translate st a = Some p" for a p
  proof -
    obtain f where "page_frame T (pmem st) a = Some f" "p = f OR (a AND 0xFFF)"
      using \<open>translate st a = Some p\<close> unfolding translate_frame [OF ok(1)] map_option_eq_Some by blast
    moreover then have "page_frame T' (pmem st') a = Some f" using 1(3) by (simp add: grown_def)
    ultimately show ?thesis by (simp add: translate_frame [OF ok(2)])
  qed
  then show ?thesis using 1 ok by (auto simp: ready_state_def grown_def)
qed

theorem allocate_pt_keeps_views_witness:
  "\<exists>T st. allocate_pt shl_intended 2 510 511 511 small_machine = Some (st, True) \<and> tables_ok T st \<and>
     T [510, 511, 511] \<noteq> None"
proof -
  obtain T st where "allocate_pt shl_intended (Suc (Suc 0)) 510 511 511 small_machine =
      Some (st, small_tree [510, 511, 511] = None)" "tables_ok T st"
      "dom T = dom small_tree \<union> {[510], [510, 511], [510, 511, 511]}"
    using allocate_pt_keeps_views [OF small_ready bit_ok_shifts(1) _ small_words, of 510 511 511 0] by auto
  moreover have "T [510, 511, 511] \<noteq> None" using calculation(3) by blast
  ultimately show ?thesis by (auto simp: small_tree_at numeral_2_eq_2)
qed

end
