(* ===== verification/PageSupply.thy ===== *)
theory PageSupply
  imports Mmu
begin

text \<open>
  \<^verbatim>\<open>ksbrk\<close> of \<^verbatim>\<open>arch/amd64/mmu.c\<close>, the page source of the heap: how many frames are left, what one
  more page table costs, and the pages that a call returns.
\<close>

section \<open>Frames that are left\<close>

text \<open>
  C defines \<^verbatim>\<open>1 << k\<close> for an \<^verbatim>\<open>int\<close> up to \<^verbatim>\<open>k = 30\<close>.  The frames at these places of a word are independent
  of each other, and the first-fit search takes a frame at a later place only when they are used up,
  so each allocation of one frame costs at most one of them.
\<close>

definition bit_defined :: "(nat \<Rightarrow> u64) \<Rightarrow> bool" where
  "bit_defined bit1 \<longleftrightarrow> bit_ok bit1 \<and> (\<forall>k<31. bit1 k = push_bit k 1)"

definition spare :: "(nat \<Rightarrow> u64) \<Rightarrow> bitmap \<Rightarrow> nat set" where
  "spare bit1 fr = {f. f < 16384 \<and> f mod 64 < 31 \<and> \<not> frame_used bit1 fr f}"

lemma finite_spare [simp]: "finite (spare bit1 fr)"
  by (rule finite_subset [of _ "{..<16384}"]) (auto simp: spare_def)

lemma spare_free_run:
  assumes "spare bit1 fr \<noteq> {}"
  shows "\<exists>q. free_run bit1 fr q 1"
proof -
  obtain q where "q < 16384" "\<not> frame_used bit1 fr q" using assms by (auto simp: spare_def)
  then have "free_run bit1 fr q 1" by (simp add: free_run_def)
  then show ?thesis by blast
qed

lemma or_other_bit:
  assumes "a \<noteq> b"
  shows "((w :: u64) OR push_bit a 1) AND push_bit b 1 = w AND push_bit b 1"
  using assms by (auto intro!: bit_word_eqI simp: bit_simps)

lemma take_one_spare:
  assumes "bit_defined bit1" and "length fr = 256" and "get_frame bit1 True 1 fr = Some (rc, fr')"
  obtains k where "rc = page_offset k" "k < 16384" "\<not> frame_used bit1 fr k" "frame_used bit1 fr' k"
    "spare bit1 fr \<subseteq> insert k (spare bit1 fr')" "length fr' = 256"
    "\<And>j. frame_used bit1 fr j \<Longrightarrow> frame_used bit1 fr' j"
proof -
  have ok: "bit_ok bit1" using assms(1) by (simp add: bit_defined_def)
  obtain k where k: "first_run bit1 fr (unat (1 :: u64)) k" "rc = of_nat k * 0x1000" "length fr' = 256"
      "\<And>j. k \<le> j \<Longrightarrow> j < k + unat (1 :: u64) \<Longrightarrow> frame_used bit1 fr' j"
      "\<And>j. frame_used bit1 fr j \<Longrightarrow> frame_used bit1 fr' j"
    by (rule get_frame_run [OF ok assms(2,3)]) blast
  have free: "\<not> frame_used bit1 fr k" "k < 16384" and first: "\<And>m. m < k \<Longrightarrow> frame_used bit1 fr m"
    using k(1) by (auto simp: first_run_def free_run_def)
  have "fr' = mark_run bit1 rc (Suc 0) fr" using assms(3) by (auto simp: get_frame_def split: bind_splits)
  then have fr': "fr' = fr[k div 64 := fr ! (k div 64) OR bit1 (k mod 64)]"
    by (simp add: k(2) set_frame_at [OF free(2)])
  have "f \<in> spare bit1 fr'" if f: "f \<in> spare bit1 fr" "f \<noteq> k" for f
  proof (cases "f div 64 = k div 64")
    case False
    then show ?thesis using f(1) by (simp add: spare_def frame_used_def fr')
  next
    case True
    have sm: "f mod 64 < 31" "\<not> frame_used bit1 fr f" "f < 16384" using f(1) by (simp_all add: spare_def)
    have ne: "k mod 64 \<noteq> f mod 64" using True f(2) by (metis mod_div_mult_eq)
    have "k mod 64 < 31"
    proof (rule ccontr)
      assume "\<not> k mod 64 < 31"
      then have "f mod 64 < k mod 64" using sm(1) by simp
      then have "f < k" using True by (metis div_mult_mod_eq nat_add_left_cancel_less)
      then show False using first sm(2) by blast
    qed
    then have "bit1 (k mod 64) = push_bit (k mod 64) 1" "bit1 (f mod 64) = push_bit (f mod 64) 1"
      using assms(1) sm(1) by (simp_all add: bit_defined_def)
    then show ?thesis
      using sm True free(2) or_other_bit [OF ne, of "fr ! (k div 64)"] assms(2)
      by (simp add: spare_def frame_used_def fr')
  qed
  then have "spare bit1 fr \<subseteq> insert k (spare bit1 fr')" by blast
  then show thesis
    using that [of k] k free by (simp add: page_offset_def)
qed

lemma card_spare_one:
  assumes "spare bit1 fr \<subseteq> insert k (spare bit1 fr')"
  shows "card (spare bit1 fr) \<le> Suc (card (spare bit1 fr'))"
  using card_mono [OF _ assms] card_insert_le_m1 [of _ "spare bit1 fr'" k]
  by (metis card_insert_if finite_insert finite_spare le_SucI le_trans order_refl)

section \<open>Pages of one gigabyte\<close>

text \<open>The number of the page of \<^verbatim>\<open>a\<close> in its gigabyte: the last two indices of the path.\<close>

definition gb_page :: "u64 \<Rightarrow> nat" where
  "gb_page a = unat a mod 1073741824 div 4096"

lemma unat_table_index: "unat (table_index s a) = unat a div 2 ^ s mod 512"
proof -
  have "table_index s a = take_bit 9 (drop_bit s a)"
    by (simp add: table_index_def take_bit_eq_mask mask_eq_exp_minus_1)
  moreover have "unat (take_bit 9 (drop_bit s a)) = take_bit 9 (drop_bit s (unat a))"
    by (simp only: unsigned_take_bit_eq unat_drop_bit_eq)
  ultimately show ?thesis by (simp add: take_bit_eq_mod drop_bit_eq_div)
qed

lemma same_gigabyte:
  assumes "aligned a" and "gb_page a + j < 262144"
  shows "unat (a + page_offset j) = unat a + 4096 * j" and "gb_page (a + page_offset j) = gb_page a + j"
    and "unat (a + page_offset j) div 1073741824 = unat a div 1073741824"
    and "aligned (a + page_offset j)"
proof -
  define q r where qr: "q = unat a div 1073741824" "r = unat a mod 1073741824"
  have a: "unat a = 1073741824 * q + r" by (simp add: qr)
  have "unat a mod 4096 = 0" by (rule unat_page_add(3) [OF assms(1), of 0]) simp
  then have "r mod 4096 = 0" by (simp add: qr mod_mod_cancel)
  then obtain g where g: "r = 4096 * g" by (metis mod_0_imp_dvd dvdE)
  then have gb: "gb_page a = g" by (simp add: gb_page_def flip: qr)
  have j: "4096 * g + 4096 * j < 1073741824" using assms(2) gb by simp
  have "1073741824 * q + r < 1073741824 * 17179869184" using a unat_u64_lt [of a] by simp
  then have "q < 17179869184" by linarith
  then have top: "1073741824 * q + 1073741824 \<le> 2 ^ 64" by simp
  have u: "unat (page_offset j) = 4096 * j" using j by (intro unat_page_offset) simp
  then show s: "unat (a + page_offset j) = unat a + 4096 * j"
    using a g j top by (subst unat_add_le) simp_all
  have e: "unat (a + page_offset j) = 1073741824 * q + 4096 * (g + j)" using s a g by simp
  have "1073741824 * q + 4096 * (g + j) = 4096 * (g + j) + q * 1073741824" by simp
  then have "(1073741824 * q + 4096 * (g + j)) mod 1073741824 = 4096 * (g + j)"
    "(1073741824 * q + 4096 * (g + j)) div 1073741824 = q" using j by simp_all
  then show "gb_page (a + page_offset j) = gb_page a + j"
    "unat (a + page_offset j) div 1073741824 = unat a div 1073741824"
    unfolding gb_page_def e using gb qr by (simp_all add: gb_page_def)
  show "aligned (a + page_offset j)" by (rule aligned_page_offset [OF assms(1)])
qed

lemma gb_indices:
  assumes "unat b div 1073741824 = unat a div 1073741824"
  shows "table_index 39 b = table_index 39 a" and "table_index 30 b = table_index 30 a"
    and "unat (table_index 21 b) = gb_page b div 512"
proof -
  have "unat b div 549755813888 = unat a div 549755813888"
    using assms by (metis div_mult2_eq [of _ 1073741824 512, simplified])
  then show "table_index 39 b = table_index 39 a" "table_index 30 b = table_index 30 a"
    using assms by (simp_all add: word_unat_eq_iff unat_table_index)
  have "unat b div 2097152 mod 512 = unat b mod 1073741824 div 2097152"
    using mod_mult2_eq [of "unat b" 2097152 512] by simp
  then show "unat (table_index 21 b) = gb_page b div 512"
    by (simp add: unat_table_index gb_page_def flip: div_mult2_eq)
qed

section \<open>The supply behind the heap\<close>

definition leaf_path :: "u64 \<Rightarrow> nat \<Rightarrow> u64 list" where
  "leaf_path a l = [table_index 39 a, table_index 30 a, of_nat l]"

lemma upper_path_leaf:
  assumes "unat b div 1073741824 = unat a div 1073741824"
  shows "upper_path b = leaf_path a (gb_page b div 512)"
proof -
  have "table_index 21 b = of_nat (gb_page b div 512)"
    using gb_indices(3) [OF assms] by (metis word_nat_cases unat_of_nat_u64 of_nat_unat ucast_id)
  then show ?thesis using gb_indices(1,2) [OF assms] by (simp add: leaf_path_def)
qed

text \<open>
  \<^verbatim>\<open>stocked T st t L\<close>: all pages from the end of the heap up to the end of the page table number \<^verbatim>\<open>L\<close>
  of the gigabyte have tables, from the \<^verbatim>\<open>t\<close>-th on they are not mapped, and \<^verbatim>\<open>L\<close> is the last table.
\<close>

definition pages_behind :: "mmu \<Rightarrow> nat \<Rightarrow> nat" where
  "pages_behind st L = 512 * Suc L - gb_page (heap_end st)"

definition stocked :: "(nat \<Rightarrow> u64) \<Rightarrow> tree \<Rightarrow> mmu \<Rightarrow> nat \<Rightarrow> nat \<Rightarrow> bool" where
  "stocked bit1 T st t L \<longleftrightarrow>
     ready_state bit1 T st t (pages_behind st L) \<and> L < 512 \<and> gb_page (heap_end st) < 512 * Suc L \<and>
     (\<forall>l. L < l \<and> l < 512 \<longrightarrow> T (leaf_path (heap_end st) l) = None)"

lemma stockedD:
  assumes "stocked bit1 T st t L"
  shows "ready_state bit1 T st t (pages_behind st L)" "L < 512" "gb_page (heap_end st) < 512 * Suc L"
    "room T st t (pages_behind st L)" "tables_ok T st" "tables_marked bit1 T (frames st)" "length (frames st) = 256"
    "aligned (heap_end st)" "L < l \<Longrightarrow> l < 512 \<Longrightarrow> T (leaf_path (heap_end st) l) = None"
proof -
  show 1: "ready_state bit1 T st t (pages_behind st L)" and "L < 512" "gb_page (heap_end st) < 512 * Suc L"
    "L < l \<Longrightarrow> l < 512 \<Longrightarrow> T (leaf_path (heap_end st) l) = None"
    using assms by (simp_all add: stocked_def)
  show 2: "room T st t (pages_behind st L)" "tables_ok T st" "tables_marked bit1 T (frames st)" "length (frames st) = 256"
    using 1 by (simp_all add: ready_state_def)
  show "aligned (heap_end st)" by (rule roomD(1) [OF 2(1)])
qed

lemma stocked_page:
  assumes "stocked bit1 T st t L" and "j < pages_behind st L"
  shows "unat (heap_page st j) = unat (heap_end st) + 4096 * j" "gb_page (heap_page st j) = gb_page (heap_end st) + j"
    "unat (heap_page st j) div 1073741824 = unat (heap_end st) div 1073741824"
    "upper_path (heap_page st j) = leaf_path (heap_end st) ((gb_page (heap_end st) + j) div 512)"
    "leaf_path (heap_page st j) = leaf_path (heap_end st)"
proof -
  have lt: "gb_page (heap_end st) + j < 262144"
    using assms(2) stockedD(2,3) [OF assms(1)] by (simp add: pages_behind_def)
  note g = same_gigabyte [OF stockedD(8) [OF assms(1)] lt, folded heap_page_def]
  show "unat (heap_page st j) = unat (heap_end st) + 4096 * j" "gb_page (heap_page st j) = gb_page (heap_end st) + j"
    "unat (heap_page st j) div 1073741824 = unat (heap_end st) div 1073741824" by (rule g(1-3))+
  show "upper_path (heap_page st j) = leaf_path (heap_end st) ((gb_page (heap_end st) + j) div 512)"
    using upper_path_leaf [OF g(3)] g(2) by simp
  show "leaf_path (heap_page st j) = leaf_path (heap_end st)"
    using gb_indices(1,2) [OF g(3)] by (simp add: leaf_path_def fun_eq_iff)
qed

lemma stocked_mono: "stocked bit1 T st t L \<Longrightarrow> t \<le> t' \<Longrightarrow> stocked bit1 T st t' L"
  unfolding stocked_def by (blast intro: ready_state_mono)

text \<open>Moving the end of the heap.\<close>

lemma unat_heap_page: "room T st t J \<Longrightarrow> v < J \<Longrightarrow> unat (heap_page st v) = unat (heap_end st) + 4096 * v"
  using unat_page_offset [of v] roomD(3) [of T st t J] by (simp add: heap_page_def) (subst unat_add_le; simp)

lemma room_shift:
  assumes "room T st t J" and "v < J"
  shows "room T (st\<lparr>heap_end := heap_page st v\<rparr>) (t - v) (J - v)"
proof -
  let ?st = "st\<lparr>heap_end := heap_page st v\<rparr>"
  note d = roomD [OF assms(1)] and u = unat_heap_page [OF assms]
  have hp: "heap_page ?st j = heap_page st (v + j)" for j
    by (simp add: heap_page_def page_offset_add add.assoc)
  show ?thesis
    unfolding room_def hp
  proof (intro conjI allI impI)
    show "aligned (heap_end ?st)" using aligned_heap_page [OF assms(1)] by simp
    show "heap_end ?st \<noteq> 0" using u d(2) by auto
    show "unat (heap_end ?st) + 4096 * (J - v) \<le> 2 ^ 64" using d(3) assms(2) u by simp
    show "J - v \<le> 2 ^ 36" using d(4) by simp
    show "T (upper_path (heap_page st (v + j))) \<noteq> None" if "j < J - v" for j
      using d(5) [of "v + j"] that by auto
    show "page_frame T (pmem ?st) (heap_page st (v + j)) = None" if "t - v \<le> j \<and> j < J - v" for j
      using d(6) [of "v + j"] that by simp linarith
  qed
qed

lemma ready_shift:
  assumes "ready_state bit1 T st t J" and "v < J"
  shows "ready_state bit1 T (st\<lparr>heap_end := heap_page st v\<rparr>) (t - v) (J - v)"
  using assms room_shift by (simp add: ready_state_def tables_ok_def active_def)

lemma stocked_shift:
  assumes "stocked bit1 T st t L" and "v < pages_behind st L"
  defines "st' \<equiv> st\<lparr>heap_end := heap_page st v\<rparr>"
  shows "stocked bit1 T st' (t - v) L" and "pages_behind st' L = pages_behind st L - v"
proof -
  note p = stocked_page [OF assms(1,2)] and d = stockedD [OF assms(1)]
  show b: "pages_behind st' L = pages_behind st L - v" by (simp add: pages_behind_def p(2) st'_def)
  have "ready_state bit1 T st' (t - v) (pages_behind st' L)"
    unfolding b using ready_shift [OF d(1) assms(2)] by (simp add: st'_def)
  moreover have "gb_page (heap_end st') < 512 * Suc L"
    using p(2) assms(2) by (simp add: st'_def pages_behind_def)
  ultimately show "stocked bit1 T st' (t - v) L"
    using d(2,9) p(5) unfolding stocked_def by (simp add: st'_def)
qed

text \<open>What an operation keeps that may move the end of the heap and draw random numbers.\<close>

definition kept :: "(nat \<Rightarrow> u64) \<Rightarrow> tree \<Rightarrow> mmu \<Rightarrow> tree \<Rightarrow> mmu \<Rightarrow> bool" where
  "kept bit1 T st T' st' \<longleftrightarrow> grown bit1 T st T' (st'\<lparr>heap_end := heap_end st, prng_seed := prng_seed st\<rparr>)"

lemma grown_kept: "grown bit1 T st T' st' \<Longrightarrow> kept bit1 T st T' st'"
  by (simp add: kept_def grown_def active_def)

lemma kept_shift: "kept bit1 T st T (st\<lparr>heap_end := a\<rparr>)"
  by (simp add: kept_def grown_def active_def)

lemma kept_trans: "kept bit1 T st T1 st1 \<Longrightarrow> kept bit1 T1 st1 T2 st2 \<Longrightarrow> kept bit1 T st T2 st2"
proof -
  assume 1: "kept bit1 T st T1 st1" and 2: "kept bit1 T1 st1 T2 st2"
  let ?set = "\<lambda>s. s\<lparr>heap_end := heap_end st, prng_seed := prng_seed st\<rparr>"
  have "grown bit1 T1 (?set st1) T2 (?set st2)" using 2 by (simp add: kept_def grown_def active_def)
  then show ?thesis using 1 unfolding kept_def by (rule grown_trans [rotated])
qed

section \<open>One more page table\<close>

lemma allocate_leaf:
  assumes ready: "ready_state bit1 T st t J" and bits: "bit_ok bit1"
    and i: "index_ok i4" "index_ok i3" "index_ok i2" and n3: "T [i4, i3] = Some n3" and none: "T [i4, i3, i2] = None"
    and fits: "t + 1 \<le> J" and free: "\<exists>q. free_run bit1 (frames st) q 1"
  shows "\<exists>T' st' rc. allocate_pt bit1 (Suc (Suc m)) i4 i3 i2 st = Some (st', True) \<and>
    ready_state bit1 T' st' (t + 1) J \<and> grown bit1 T st T' st' \<and> dom T' = insert [i4, i3, i2] (dom T) \<and>
    (\<forall>b. upper_path b = [i4, i3, i2] \<longrightarrow> page_frame T' (pmem st') b = None) \<and>
    get_frame bit1 True 1 (frames st) = Some (rc, frames st')"
proof -
  have ok: "tables_ok T st" using ready by (simp add: ready_state_def)
  have tree: "tree_ok T" using ok by (simp add: tables_ok_def)
  obtain n4 where n4: "T [i4] = Some n4" using tree_ok_prefix [OF tree, of "[i4]" i3] n3 by auto
  obtain r :: tnode where r: "pml4t_of st = Some (n_virt r)"
      "vload64 st (entry_at (n_virt r) i4) = Some (slot (pmem st) (n_phys r) i4)"
      "present (slot (pmem st) (n_phys r) i4) \<longleftrightarrow> T [i4] \<noteq> None"
    using tables_reached(1) [OF ok i] by blast
  note r4 = tables_reached(2) [OF ok i n4] and r3 = tables_reached(3) [OF ok i n3]
  have one: "table_pages ([i4, i3] @ [i2]) = 1" by (simp add: table_pages_def)
  obtain T' st' rc where a: "add_table bit1 (allocate_pt bit1 (Suc m)) 0x1000 (pdt_of i4 i3) i2 st = Some st'"
      "ready_state bit1 T' st' (t + 1) J" "grown bit1 T st T' st'" "dom T' = insert [i4, i3, i2] (dom T)"
      "\<forall>b. upper_path b = [i4, i3, i2] \<longrightarrow> page_frame T' (pmem st') b = None"
      "get_frame bit1 True 1 (frames st) = Some (rc, frames st')"
    using add_table_spec [OF ready bits n3 _ i(3) _ finds_pdt [OF i(1,2)], unfolded one, OF _ _ fits free, of m] none
    by (auto simp: page_offset_1)
  have "allocate_pt bit1 (Suc (Suc m)) i4 i3 i2 st = Some (st', True)"
    unfolding allocate_pt.simps(2) [of _ "Suc m"] allocate_pt_body_def
    using r r4 r3 n4 n3 none a(1) by simp
  then show ?thesis using a(2-6) by blast
qed

text \<open>The room behind the heap reaches to the end of the new table.\<close>

lemma room_grows:
  assumes "room T st t J" and "room T' st' t' J" and "J \<le> J'" and "unat (heap_end st') + 4096 * J' \<le> 2 ^ 64" and "J' \<le> 2 ^ 36"
    and "\<And>j. J \<le> j \<Longrightarrow> j < J' \<Longrightarrow> T' (upper_path (heap_page st' j)) \<noteq> None"
    and "\<And>j. J \<le> j \<Longrightarrow> j < J' \<Longrightarrow> page_frame T' (pmem st') (heap_page st' j) = None"
  shows "room T' st' t' J'"
  unfolding room_def
proof (intro conjI allI impI)
  show "T' (upper_path (heap_page st' j)) \<noteq> None" if "j < J'" for j
    using roomD(5) [OF assms(2)] assms(6) that by (metis not_le option.distinct(1))
  show "page_frame T' (pmem st') (heap_page st' j) = None" if "t' \<le> j \<and> j < J'" for j
    using roomD(6) [OF assms(2)] assms(7) that by (metis not_le)
qed (use assms(2,4,5) in \<open>simp_all add: room_def\<close>)

lemma stocked_next:
  assumes st: "stocked bit1 T st t L" and bits: "bit_ok bit1" and fits: "t + 1 \<le> pages_behind st L"
    and low: "gb_page (heap_end st) < 511 * 512" and free: "\<exists>q. free_run bit1 (frames st) q 1"
  shows "\<exists>T' st' L'. allocate_next_pt bit1 (Suc (Suc m)) (heap_end st) st = Some st' \<and>
    stocked bit1 T' st' (t + 1) L' \<and> grown bit1 T st T' st' \<and> L \<le> L' \<and> gb_page (heap_end st) div 512 < L' \<and>
    (frames st' = frames st \<or> (\<exists>rc. get_frame bit1 True 1 (frames st) = Some (rc, frames st'))) \<and>
    dom T' \<subseteq> dom T \<union> range (leaf_path (heap_end st))"
proof -
  let ?a = "heap_end st"
  define i4 i3 i2 where i: "i4 = table_index 39 ?a" "i3 = table_index 30 ?a" "i2 = table_index 21 ?a"
  define l where "l = gb_page ?a div 512"
  note d = stockedD [OF st]
  have ix: "index_ok i4" "index_ok i3" "index_ok i2" by (simp_all add: i)
  have l: "l < 511" "unat i2 = l" "l \<le> L" using low gb_indices(3) [of ?a ?a] d(3) by (auto simp: l_def i)
  have i2: "i2 = of_nat l" by (simp add: l(2) [symmetric])
  have u: "unat (i2 + 1) = Suc l" using l(1,2) by (subst unat_add_le) simp_all
  then have ix': "index_ok (i2 + 1)" using l(1) by (simp add: index_ok_def word_less_nat_alt)
  have path: "[i4, i3, i2 + 1] = leaf_path ?a (Suc l)" by (simp add: leaf_path_def i(1,2) i2 add.commute)
  obtain n2 where n2: "T [i4, i3, i2] = Some n2"
    using roomD(5) [OF d(4), of 0] fits by (auto simp: heap_page_def i)
  have tree: "tree_ok T" using d(5) by (simp add: tables_ok_def)
  obtain n3 where n3: "T [i4, i3] = Some n3" using tree_ok_prefix [OF tree, of "[i4, i3]" i2] n2 by auto
  have first: "allocate_pt bit1 (Suc (Suc m)) i4 i3 i2 st = Some (st, False)"
    by (rule allocate_pt_present [OF d(5) ix n2])
  show ?thesis
  proof (cases "Suc l \<le> L")
    case True
    define j where "j = 512 * Suc l - gb_page ?a"
    have g: "gb_page ?a + j = 512 * Suc l" using l(2) gb_indices(3) [of ?a ?a] by (simp add: j_def l_def)
    have j: "j < pages_behind st L" using True g by (simp add: pages_behind_def j_def)
    obtain n where "T (upper_path (heap_page st j)) = Some n" using roomD(5) [OF d(4) j] by blast
    then have "T [i4, i3, i2 + 1] = Some n" using stocked_page(4) [OF st j] g by (simp add: path)
    then have "allocate_pt bit1 (Suc (Suc m)) i4 i3 (i2 + 1) st = Some (st, False)"
      by (rule allocate_pt_present [OF d(5) ix(1,2) ix'])
    then have "allocate_next_pt bit1 (Suc (Suc m)) ?a st = Some st"
      using first by (simp add: allocate_next_pt_def Let_def i [symmetric])
    moreover have "stocked bit1 T st (t + 1) L" by (rule stocked_mono [OF st]) simp
    moreover have "gb_page ?a div 512 < L" using True by (simp add: l_def)
    ultimately show ?thesis by (intro exI [of _ T] exI [of _ st] exI [of _ L]) simp
  next
    case False
    then have L: "L = l" using l(3) by simp
    have "T (leaf_path ?a (Suc l)) = None" by (rule d(9)) (use L l(1) in simp_all)
    then have none: "T [i4, i3, i2 + 1] = None" by (simp add: path)
    obtain T' st' rc where a: "allocate_pt bit1 (Suc (Suc m)) i4 i3 (i2 + 1) st = Some (st', True)"
        "ready_state bit1 T' st' (t + 1) (pages_behind st L)" "grown bit1 T st T' st'"
        "dom T' = insert [i4, i3, i2 + 1] (dom T)"
        "\<forall>b. upper_path b = [i4, i3, i2 + 1] \<longrightarrow> page_frame T' (pmem st') b = None"
        "get_frame bit1 True 1 (frames st) = Some (rc, frames st')"
      using allocate_leaf [OF d(1) bits ix(1,2) ix' n3 none fits free, of m] by blast
    have e: "heap_end st' = ?a" using a(3) by (simp add: grown_def)
    have J: "pages_behind st' (Suc l) = pages_behind st L + 512"
      using d(3) by (simp add: pages_behind_def e L)
    have new: "upper_path (heap_page st' j) = [i4, i3, i2 + 1]"
      if "pages_behind st L \<le> j" "j < pages_behind st L + 512" for j
    proof -
      have g: "512 * Suc l \<le> gb_page ?a + j" "gb_page ?a + j < 512 * Suc (Suc l)"
        using that d(3) L by (simp_all add: pages_behind_def)
      then have "gb_page ?a + j < 262144" using l(1) by simp
      note s = same_gigabyte [OF d(8) this]
      have "(gb_page ?a + j) div 512 = Suc l" using g by (simp add: div_nat_eqI)
      then show ?thesis using upper_path_leaf [OF s(3)] s(2) by (simp add: heap_page_def e path)
    qed
    have "room T' st' (t + 1) (pages_behind st L + 512)"
    proof (rule room_grows [OF d(4)])
      show "room T' st' (t + 1) (pages_behind st L)" using a(2) by (simp add: ready_state_def)
      have "gb_page ?a + (pages_behind st L + 511) < 262144" using l(1) d(3) by (simp add: pages_behind_def L)
      from same_gigabyte(1,4) [OF d(8) this]
      show "unat (heap_end st') + 4096 * (pages_behind st L + 512) \<le> 2 ^ 64"
        using unat_page_add(2) [of "?a + page_offset (pages_behind st L + 511)" 0] by (simp add: e)
      show "pages_behind st L + 512 \<le> 2 ^ 36" using l(1) by (simp add: pages_behind_def L)
      show "T' (upper_path (heap_page st' j)) \<noteq> None" if "pages_behind st L \<le> j" "j < pages_behind st L + 512" for j
        unfolding new [OF that] using a(4) by blast
      show "page_frame T' (pmem st') (heap_page st' j) = None"
        if "pages_behind st L \<le> j" "j < pages_behind st L + 512" for j
        using a(5) new [OF that] by blast
    qed simp
    then have "ready_state bit1 T' st' (t + 1) (pages_behind st' (Suc l))"
      using a(2) by (simp add: ready_state_def J)
    moreover have "T' (leaf_path ?a k) = None" if "Suc l < k" "k < 512" for k
    proof -
      have "T (leaf_path ?a k) = None" by (rule d(9)) (use L that in simp_all)
      moreover have "(of_nat k :: u64) \<noteq> of_nat (Suc l)"
      proof
        assume "(of_nat k :: u64) = of_nat (Suc l)"
        then have "unat (of_nat k :: u64) = unat (of_nat (Suc l) :: u64)" by (simp only:)
        moreover have "k < 2 ^ 64" "Suc l < 2 ^ 64" using that l(1) by simp_all
        ultimately show False using that(1) by (simp only: unat_of_nat_u64)
      qed
      then have "leaf_path ?a k \<noteq> leaf_path ?a (Suc l)" by (simp only: leaf_path_def list.inject) blast
      ultimately show ?thesis using a(4) unfolding path by blast
    qed
    ultimately have "stocked bit1 T' st' (t + 1) (Suc l)"
      using l(1) d(3) by (simp add: stocked_def e L)
    moreover have "allocate_next_pt bit1 (Suc (Suc m)) ?a st = Some st'"
      using first a(1) by (simp add: allocate_next_pt_def Let_def i [symmetric])
    moreover have "dom T' \<subseteq> dom T \<union> range (leaf_path ?a)" unfolding a(4) path by blast
    ultimately show ?thesis using a(3,6) L by (intro exI [of _ T'] exI [of _ st'] exI [of _ "Suc l"]) (simp add: l_def)
  qed
qed

section \<open>The pages of \<^verbatim>\<open>ksbrk\<close>\<close>

text \<open>A page whose table exists is mapped to a fresh frame.\<close>

lemma map_fresh:
  assumes bits: "bit_defined bit1" and ready: "ready_state bit1 T st t J" and n: "T (upper_path a) = Some n"
    and unm: "page_frame T (pmem st) a = None" and free: "\<exists>q. free_run bit1 (frames st) q 1"
  obtains q rc st' where
    "check_virtual_region_is_free bit1 (Suc m) a True False 0 st = Some (st', True, Some (page_offset q))"
    "grown bit1 T st T st'" "page_frame T (pmem st') a = Some (page_offset q)"
    "\<And>b. path_of b \<noteq> path_of a \<Longrightarrow> page_frame T (pmem st') b = page_frame T (pmem st) b"
    "\<And>t'. t \<le> t' \<Longrightarrow> (\<And>j. t' \<le> j \<Longrightarrow> j < J \<Longrightarrow> path_of (heap_page st j) \<noteq> path_of a) \<Longrightarrow> ready_state bit1 T st' t' J"
    "q < 16384" "\<not> frame_used bit1 (frames st) q" "frame_used bit1 (frames st') q"
    "card (spare bit1 (frames st)) \<le> Suc (card (spare bit1 (frames st')))"
    "get_frame bit1 True 1 (frames st) = Some (rc, frames st')" "off_tables T (page_offset q) 4096"
proof -
  have ok: "tables_ok T st" and marked: "tables_marked bit1 T (frames st)" and len: "length (frames st) = 256"
    and room: "room T st t J" and mapped: "mapped_marked bit1 (page_frame T (pmem st)) (frames st)"
    using ready by (simp_all add: ready_state_def)
  have tree: "tree_ok T" using ok by (simp add: tables_ok_def)
  have "\<exists>r. get_frame bit1 True 1 (frames st) = Some r"
    using get_frame_spec [of bit1 "frames st" 1 True] bits len free
    by (auto simp: bit_defined_def split: option.splits)
  then obtain rc fr where get: "get_frame bit1 True 1 (frames st) = Some (rc, fr)" by auto
  obtain q where q: "rc = page_offset q" "q < 16384" "\<not> frame_used bit1 (frames st) q" "frame_used bit1 fr q"
      "spare bit1 (frames st) \<subseteq> insert q (spare bit1 fr)" "length fr = 256"
      "\<And>j. frame_used bit1 (frames st) j \<Longrightarrow> frame_used bit1 fr j"
    by (rule take_one_spare [OF bits len get]) blast
  let ?st0 = "st\<lparr>frames := fr\<rparr>"
  let ?st1 = "set_leaf T a (page_offset q OR 0x3) ?st0"
  have ok0: "tables_ok T ?st0" using ok by (simp add: tables_ok_def active_def)
  have ok1: "tables_ok T ?st1"
    by (rule set_leaf_tables_ok [OF ok0 n unmapped_spares_tables [OF ok0]]) (use unm in simp)
  have alloc: "allocate_pt bit1 (Suc m) (table_index 39 a) (table_index 30 a) (table_index 21 a) st = Some (st, False)"
    by (rule allocate_pt_present [OF ok _ _ _ n]) simp_all
  have base: "page_base (page_offset q) = page_offset q" by (simp add: page_base_aligned)
  note pf = page_frame_set_leaf [OF tree n, of "page_offset q OR 0x3" ?st0]
  have result: "check_virtual_region_is_free bit1 (Suc m) a True False 0 st = Some (?st1, True, Some (page_offset q))"
    using check_region_step [of T st a n "allocate_pt bit1 (Suc m)" False bit1 True False 0, OF ok n alloc] unm get
    by (simp add: check_virtual_region_is_free_def frame_for_def take_frame_def q(1) base)
  have other: "page_frame T (pmem ?st1) b = page_frame T (pmem st) b" if "path_of b \<noteq> path_of a" for b
    using that by (simp add: pf)
  have here: "page_frame T (pmem ?st1) a = Some (page_offset q)" by (simp add: pf present_flags base)
  have run: "free_run bit1 (frames st) q 1" using q(2,3) by (simp add: free_run_def)
  have "tables_marked bit1 T fr" using marked q(7) unfolding tables_marked_def frame_marked_def by blast
  moreover have fresh: "fresh_maps bit1 (page_frame T (pmem st)) (frames st) (page_frame T (pmem ?st1)) fr"
  proof (rule fresh_maps_run [OF mapped run, of _ _ "\<lambda>_. path_of a"])
    show "frame_used bit1 fr j" if "q \<le> j" "j < q + 1" for j using that q(4) by (cases "j = q") simp_all
    show "page_frame T (pmem st) b = Some f \<or> (\<exists>j<1. path_of b = path_of a \<and> f = page_offset q + page_offset j)"
      if "page_frame T (pmem ?st1) b = Some f" for b f
      using that by (auto simp: pf present_flags base split: if_splits)
  qed
  moreover have "room T ?st1 t' J"
    if t': "t \<le> t'" and far: "\<And>j. t' \<le> j \<Longrightarrow> j < J \<Longrightarrow> path_of (heap_page st j) \<noteq> path_of a" for t'
    unfolding room_def heap_page_def
  proof (intro conjI allI impI)
    show "page_frame T (pmem ?st1) (heap_end ?st1 + page_offset j) = None" if "t' \<le> j \<and> j < J" for j
      using far [of j] other [of "heap_page st j"] roomD(6) [OF room, of j] that t' by (simp add: heap_page_def)
  qed (use room in \<open>auto simp: room_def heap_page_def\<close>)
  ultimately have ready1: "ready_state bit1 T ?st1 t' J"
    if "t \<le> t'" "\<And>j. t' \<le> j \<Longrightarrow> j < J \<Longrightarrow> path_of (heap_page st j) \<noteq> path_of a" for t'
    using that ok1 q(6) mapped_marked_grows [OF mapped fresh q(7)] by (simp add: ready_state_def)
  have "page_frame T (pmem ?st1) b = Some f" if "page_frame T (pmem st) b = Some f" for b f
    using other [of b] that unm page_frame_cong [of b a T "pmem st"] by (cases "path_of b = path_of a") auto
  then have "grown bit1 T st T ?st1"
    using q(7) fresh set_leaf_other [OF tree] unfolding grown_def
    by (auto simp: plain_byte_def frame_marked_def active_def)
  moreover have "off_tables T (page_offset q) 4096" using fresh_off_tables [OF tree marked run] by simp
  ultimately show thesis
    using that [of ?st1 q rc] result ready1 here other q(2-4) card_spare_one [OF q(5)] get by simp
qed

text \<open>One round of the loop: the first page behind the heap.\<close>

lemma ksbrk_page:
  assumes bits: "bit_defined bit1" and ready: "ready_state bit1 T st t J" and J: "1 < J"
    and unm: "page_frame T (pmem st) (heap_end st) = None" and spare: "spare bit1 (frames st) \<noteq> {}"
  obtains q st' where
    "check_virtual_region_is_free bit1 (Suc m) (heap_end st) True False 0 st = Some (st', True, Some (page_offset q))"
    "ready_state bit1 T (st'\<lparr>heap_end := heap_page st 1\<rparr>) (t - 1) (J - 1)" "grown bit1 T st T st'"
    "page_frame T (pmem st') (heap_end st) = Some (page_offset q)"
    "\<And>b. path_of b \<noteq> path_of (heap_end st) \<Longrightarrow> page_frame T (pmem st') b = page_frame T (pmem st) b"
    "q < 16384" "\<not> frame_used bit1 (frames st) q" "frame_used bit1 (frames st') q"
    "card (spare bit1 (frames st)) \<le> Suc (card (spare bit1 (frames st')))"
proof -
  have room: "room T st t J" using ready by (simp add: ready_state_def)
  obtain n where n: "T (upper_path (heap_end st)) = Some n" using roomD(5) [OF room, of 0] J by (auto simp: heap_page_def)
  obtain q rc st' where r:
      "check_virtual_region_is_free bit1 (Suc m) (heap_end st) True False 0 st = Some (st', True, Some (page_offset q))"
      "grown bit1 T st T st'" "page_frame T (pmem st') (heap_end st) = Some (page_offset q)"
      "\<And>b. path_of b \<noteq> path_of (heap_end st) \<Longrightarrow> page_frame T (pmem st') b = page_frame T (pmem st) b"
      "\<And>t'. t \<le> t' \<Longrightarrow> (\<And>j. t' \<le> j \<Longrightarrow> j < J \<Longrightarrow> path_of (heap_page st j) \<noteq> path_of (heap_end st)) \<Longrightarrow>
        ready_state bit1 T st' t' J"
      "q < 16384" "\<not> frame_used bit1 (frames st) q" "frame_used bit1 (frames st') q"
      "card (spare bit1 (frames st)) \<le> Suc (card (spare bit1 (frames st')))"
    by (rule map_fresh [OF bits ready n unm spare_free_run [OF spare], of m]) (rule that; (assumption | blast))
  have "ready_state bit1 T st' (max t 1) J"
  proof (rule r(5))
    fix j assume "max t 1 \<le> j" "j < J"
    then have "path_of (heap_page st j) \<noteq> path_of (heap_page st 0)" by (intro room_paths [OF room]) auto
    then show "path_of (heap_page st j) \<noteq> path_of (heap_end st)" by (simp add: heap_page_def)
  qed simp
  from ready_shift [OF this J]
  have "ready_state bit1 T (st'\<lparr>heap_end := heap_page st 1\<rparr>) (t - 1) (J - 1)"
    using r(2) by (cases t) (simp_all add: heap_page_def grown_def)
  then show thesis using that [of st' q] r by blast
qed

text \<open>\<^verbatim>\<open>fresh_pages\<close>: the first pages behind the heap of \<^verbatim>\<open>st\<close> are mapped in \<^verbatim>\<open>st'\<close> to frames that were free.\<close>

definition fresh_pages :: "(nat \<Rightarrow> u64) \<Rightarrow> tree \<Rightarrow> mmu \<Rightarrow> mmu \<Rightarrow> nat list \<Rightarrow> bool" where
  "fresh_pages bit1 T st st' fs \<longleftrightarrow>
     distinct fs \<and> (\<forall>f\<in>set fs. f < 16384 \<and> \<not> frame_used bit1 (frames st) f \<and> frame_used bit1 (frames st') f) \<and>
     (\<forall>j<length fs. page_frame T (pmem st') (heap_page st j) = Some (page_offset (fs ! j)))"

lemma fresh_pages_Cons:
  assumes "fresh_pages bit1 T st1 st' fs" and "\<And>j. heap_page st1 j = heap_page st (Suc j)"
    and "page_frame T (pmem st') (heap_end st) = Some (page_offset q)" and "q < 16384"
    and "\<not> frame_used bit1 (frames st) q" and "frame_used bit1 (frames st1) q"
    and "\<And>j. frame_used bit1 (frames st) j \<Longrightarrow> frame_used bit1 (frames st1) j"
    and "\<And>j. frame_used bit1 (frames st1) j \<Longrightarrow> frame_used bit1 (frames st') j"
  shows "fresh_pages bit1 T st st' (q # fs)"
proof -
  have "heap_page st 0 = heap_end st" by (simp add: heap_page_def)
  then show ?thesis
    using assms unfolding fresh_pages_def by (auto simp: nth_Cons split: nat.split)
qed

lemma ksbrk_loop_spec:
  assumes bits: "bit_defined bit1" and len: "4096 * pages_of len < 2 ^ 64"
  shows "ready_state bit1 T st t J \<Longrightarrow> c < J \<Longrightarrow> (\<And>j. j < c \<Longrightarrow> page_frame T (pmem st) (heap_page st j) = None) \<Longrightarrow>
    c \<le> card (spare bit1 (frames st)) \<Longrightarrow> i + c = pages_of len \<Longrightarrow>
    \<exists>st' fs r'. ksbrk_loop bit1 (Suc m) len (page_offset i) r st = Some (st', r') \<and>
      ready_state bit1 T st' (t - c) (J - c) \<and> heap_end st' = heap_page st c \<and> kept bit1 T st T st' \<and> prng_seed st' = prng_seed st \<and>
      length fs = c \<and> fresh_pages bit1 T st st' fs \<and>
      card (spare bit1 (frames st)) \<le> card (spare bit1 (frames st')) + c"
proof (induction c arbitrary: st t J i r)
  case 0
  have "\<not> page_offset i < len" using page_below [OF len, of i] 0(5) by simp
  then have "ksbrk_loop bit1 (Suc m) len (page_offset i) r st = Some (st, r)" by (subst ksbrk_loop.simps) simp
  moreover have "kept bit1 T st T st" by (simp add: kept_def)
  ultimately show ?case using 0(1) by (auto simp: heap_page_def fresh_pages_def)
next
  case (Suc c)
  have lt: "page_offset i < len" using page_below [OF len, of i] Suc.prems(5) by simp
  have h0: "heap_page st 0 = heap_end st" by (simp add: heap_page_def)
  have unm: "page_frame T (pmem st) (heap_end st) = None" using Suc.prems(3) [of 0] by (simp add: h0)
  have sp: "spare bit1 (frames st) \<noteq> {}" using Suc.prems(4) by auto
  have J: "1 < J" using Suc.prems(2) by simp
  obtain q st1 where 1: "check_virtual_region_is_free bit1 (Suc m) (heap_end st) True False 0 st =
        Some (st1, True, Some (page_offset q))"
      "ready_state bit1 T (st1\<lparr>heap_end := heap_page st 1\<rparr>) (t - 1) (J - 1)" "grown bit1 T st T st1"
      "page_frame T (pmem st1) (heap_end st) = Some (page_offset q)"
      "\<And>b. path_of b \<noteq> path_of (heap_end st) \<Longrightarrow> page_frame T (pmem st1) b = page_frame T (pmem st) b"
      "q < 16384" "\<not> frame_used bit1 (frames st) q" "frame_used bit1 (frames st1) q"
      "card (spare bit1 (frames st)) \<le> Suc (card (spare bit1 (frames st1)))"
    by (rule ksbrk_page [OF bits Suc.prems(1) J unm sp, of m]) blast
  let ?st = "st1\<lparr>heap_end := heap_page st 1\<rparr>"
  have hp: "heap_page ?st j = heap_page st (Suc j)" for j
    by (simp add: heap_page_def add.assoc flip: page_offset_add)
  have he: "heap_end st1 + 0x1000 = heap_page st 1"
    using 1(3) by (simp add: grown_def heap_page_def page_offset_1)
  have room: "room T st t J" using Suc.prems(1) by (simp add: ready_state_def)
  have unm': "page_frame T (pmem ?st) (heap_page ?st j) = None" if "j < c" for j
  proof -
    have "path_of (heap_page st (Suc j)) \<noteq> path_of (heap_page st 0)"
      using Suc.prems(2) that by (intro room_paths [OF room]) auto
    then show ?thesis
      unfolding hp using Suc.prems(3) [of "Suc j"] 1(5) [of "heap_page st (Suc j)"] that by (simp add: h0)
  qed
  have pr: "c < J - 1" "c \<le> card (spare bit1 (frames ?st))" "Suc i + c = pages_of len"
    using Suc.prems(2,4,5) 1(9) by simp_all
  obtain st' fs r' where IH: "ksbrk_loop bit1 (Suc m) len (page_offset (Suc i)) (if r = 0 then page_offset q else r) ?st =
        Some (st', r')" "ready_state bit1 T st' (t - 1 - c) (J - 1 - c)" "heap_end st' = heap_page ?st c"
      "kept bit1 T ?st T st'" "prng_seed st' = prng_seed ?st" "length fs = c" "fresh_pages bit1 T ?st st' fs"
      "card (spare bit1 (frames ?st)) \<le> card (spare bit1 (frames st')) + c"
    using Suc.IH [OF 1(2) pr(1) unm' pr(2,3), of "if r = 0 then page_offset q else r"] by blast
  have run: "ksbrk_loop bit1 (Suc m) len (page_offset i) r st = Some (st', r')"
    using lt 1(1) IH(1) he by (subst ksbrk_loop.simps) (simp add: Let_def)
  have "kept bit1 T st T ?st" using kept_trans [OF grown_kept [OF 1(3)] kept_shift] .
  then have k: "kept bit1 T st T st'" using IH(4) by (rule kept_trans)
  have "page_frame T (pmem st') (heap_end st) = Some (page_offset q)"
    using IH(4) 1(4) by (simp add: kept_def grown_def)
  then have "fresh_pages bit1 T st st' (q # fs)"
    using 1(3,6-8) IH(4) by (intro fresh_pages_Cons [OF IH(7) hp]) (auto simp: kept_def grown_def)
  moreover have "heap_end st' = heap_page st (Suc c)" using IH(3) unfolding hp .
  ultimately show ?case
    using run IH(2,5,6,8) k 1(3,9) by (intro exI [of _ st'] exI [of _ "q # fs"] exI [of _ r'])
      (simp add: grown_def)
qed

section \<open>Filling pages\<close>

lemma vstore_bytes_append:
  "vstore_bytes a (xs @ ys) st =
     do { st \<leftarrow> vstore_bytes a xs st; vstore_bytes (a + of_nat (length xs)) ys st }"
proof (induction xs arbitrary: a st)
  case (Cons x xs)
  have "a + 1 + of_nat (length xs) = a + of_nat (length (x # xs))" by simp
  then show ?case by (cases "vstore_run a [x] st") (simp_all add: Cons.IH add.assoc)
qed simp

lemma page_byte: "aligned f \<Longrightarrow> i < 4096 \<Longrightarrow> page_base (f + of_nat i) = f"
  using page_of_sum(2) [of f "of_nat i"] by (simp add: unat_of_nat_u64)

lemma load_bytes_eqI: "(\<And>i. i < n \<Longrightarrow> m (a + of_nat i) = m' (a + of_nat i)) \<Longrightarrow> load_bytes m a n = load_bytes m' a n"
  by (rule nth_equalityI) simp_all

text \<open>A buffer that lies in pages with separate frames is filled frame by frame.\<close>

lemma fill_pages:
  assumes "tables_ok T st" and "aligned a" and "\<And>j. j < k \<Longrightarrow> page_frame T (pmem st) (a + page_offset j) = Some (f j)"
    and "\<And>j. j < k \<Longrightarrow> off_tables T (f j) 4096" and "inj_on f {..<k}" and "length bs = 4096 * k"
  shows "\<exists>m. vstore_bytes a bs st = Some (st\<lparr>pmem := m\<rparr>) \<and> tables_ok T (st\<lparr>pmem := m\<rparr>) \<and>
    (\<forall>b. page_frame T m b = page_frame T (pmem st) b) \<and>
    (\<forall>j<k. load_bytes m (f j) 4096 = take 4096 (drop (4096 * j) bs)) \<and>
    (\<forall>x. (\<forall>j<k. page_base x \<noteq> f j) \<longrightarrow> m x = pmem st x)"
  using assms
proof (induction k arbitrary: a f bs st)
  case 0
  then show ?case by (intro exI [of _ "pmem st"]) simp
next
  case (Suc k)
  let ?xs = "take 4096 bs" and ?ys = "drop 4096 bs"
  have len: "length ?xs = 4096" "length ?ys = 4096 * k" using Suc.prems(6) by simp_all
  let ?m = "store_bytes (pmem st) (f 0) ?xs"
  let ?st = "st\<lparr>pmem := ?m\<rparr>"
  have pf: "page_frame T (pmem st) a = Some (f 0)" using Suc.prems(3) [of 0] by simp
  have al: "aligned (f j)" if "j < Suc k" for j using Suc.prems(3) [OF that] by (rule page_frame_aligned)
  have off: "off_tables T (f 0) (length ?xs)" unfolding len using Suc.prems(4) [of 0] by simp
  note ok = store_off_tables [OF Suc.prems(1) off]
  have "\<forall>i<length ?xs. translate st (a + of_nat i) = Some (f 0 + of_nat i)"
    unfolding len using translate_page [OF Suc.prems(1,2) pf] by (simp add: unat_of_nat_u64)
  then have first: "vstore_bytes a ?xs st = Some ?st" by (rule vstore_bytes_run [OF Suc.prems(1) off])
  have pg: "a + 0x1000 + page_offset j = a + page_offset (Suc j)" for j
    by (simp add: page_offset_Suc PAGE_SIZE_def)
  have "\<exists>m. vstore_bytes (a + 0x1000) ?ys ?st = Some (?st\<lparr>pmem := m\<rparr>) \<and> tables_ok T (?st\<lparr>pmem := m\<rparr>) \<and>
    (\<forall>b. page_frame T m b = page_frame T (pmem ?st) b) \<and>
    (\<forall>j<k. load_bytes m (f (Suc j)) 4096 = take 4096 (drop (4096 * j) ?ys)) \<and>
    (\<forall>x. (\<forall>j<k. page_base x \<noteq> f (Suc j)) \<longrightarrow> m x = pmem ?st x)"
  proof (rule Suc.IH [OF ok(1) aligned_next [OF Suc.prems(2)]])
    show "page_frame T (pmem ?st) (a + 0x1000 + page_offset j) = Some (f (Suc j))" if "j < k" for j
      unfolding pg using Suc.prems(3) [of "Suc j"] ok(2) that by simp
    show "off_tables T (f (Suc j)) 4096" if "j < k" for j using Suc.prems(4) [of "Suc j"] that by simp
    show "inj_on (\<lambda>j. f (Suc j)) {..<k}" using Suc.prems(5) by (auto simp: inj_on_def)
  qed (rule len(2))
  then obtain m where m: "vstore_bytes (a + 0x1000) ?ys ?st = Some (?st\<lparr>pmem := m\<rparr>)" "tables_ok T (?st\<lparr>pmem := m\<rparr>)"
      "\<forall>b. page_frame T m b = page_frame T (pmem ?st) b"
      "\<forall>j<k. load_bytes m (f (Suc j)) 4096 = take 4096 (drop (4096 * j) ?ys)"
      "\<forall>x. (\<forall>j<k. page_base x \<noteq> f (Suc j)) \<longrightarrow> m x = pmem ?st x" by blast
  have "bs = ?xs @ ?ys" by simp
  then have run: "vstore_bytes a bs st = Some (st\<lparr>pmem := m\<rparr>)"
    using vstore_bytes_append [of a ?xs ?ys st] first m(1) len by simp
  have "load_bytes m (f 0) 4096 = load_bytes ?m (f 0) 4096"
  proof (rule load_bytes_eqI)
    fix i :: nat assume i: "i < 4096"
    have "f 0 \<noteq> f (Suc j)" if "j < k" for j using Suc.prems(5) that by (auto simp: inj_on_def)
    then show "m (f 0 + of_nat i) = ?m (f 0 + of_nat i)" using m(5) page_byte [OF al i, of 0] by simp
  qed
  then have l0: "load_bytes m (f 0) 4096 = ?xs" using load_store_same [of ?xs 4096 "pmem st" "f 0"] len by simp
  have "load_bytes m (f j) 4096 = take 4096 (drop (4096 * j) bs)" if "j < Suc k" for j
    using l0 m(4) that by (cases j) (simp_all add: add.commute)
  moreover have "m x = pmem st x" if "\<forall>j<Suc k. page_base x \<noteq> f j" for x
  proof -
    have "4096 \<le> unat (x - f 0)"
    proof (rule ccontr)
      assume "\<not> 4096 \<le> unat (x - f 0)"
      then have "page_base (f 0 + of_nat (unat (x - f 0))) = f 0" by (intro page_byte [OF al]) simp_all
      then show False using that by simp
    qed
    then have "?m x = pmem st x" using len by (simp add: store_bytes_outside)
    moreover have "m x = ?m x" using m(5) that by auto
    ultimately show ?thesis by simp
  qed
  ultimately show ?case using run m(2,3) ok(2) by (intro exI [of _ m]) simp
qed

section \<open>A call of \<^verbatim>\<open>ksbrk\<close>\<close>

lemma unat_align_up:
  assumes "4096 * pages_of len < 2 ^ 64"
  shows "unat (align_up len PAGE_SIZE) = 4096 * pages_of len"
proof (cases "unat len mod 4096 = 0")
  case True
  then have "len mod PAGE_SIZE = 0" by (simp add: word_unat_eq_iff unat_mod PAGE_SIZE_def)
  then show ?thesis using True by (auto simp: align_up_def pages_of_def elim!: dvdE simp flip: mod_eq_0_iff_dvd)
next
  case False
  define q r where qr: "q = unat len div 4096" "r = unat len mod 4096"
  have l: "unat len = 4096 * q + r" "0 < r" "r < 4096" using False by (simp_all add: qr)
  then have p: "pages_of len = Suc q" by (simp add: pages_of_def)
  have m: "unat (len mod PAGE_SIZE) = r" by (simp add: unat_mod PAGE_SIZE_def qr)
  have "unat (len - len mod PAGE_SIZE) = 4096 * q" using l m by (subst unat_sub_le) simp_all
  then have "unat (len - len mod PAGE_SIZE + PAGE_SIZE) = 4096 * Suc q"
    using assms p by (subst unat_add_le) (simp_all add: PAGE_SIZE_def)
  moreover have "len mod PAGE_SIZE \<noteq> 0"
  proof
    assume "len mod PAGE_SIZE = 0"
    then show False using m l(2) by (simp only: unat_0)
  qed
  ultimately show ?thesis unfolding align_up_def p by (simp only: if_False)
qed

lemma stocked_advance:
  assumes "stocked bit1 T st t L" and "k < pages_behind st L" and "heap_end st' = heap_page st k"
    and "ready_state bit1 T st' (t - k) (pages_behind st L - k)"
  shows "stocked bit1 T st' (t - k) L" "pages_behind st' L = pages_behind st L - k"
proof -
  note p = stocked_page [OF assms(1,2)] and d = stockedD [OF assms(1)]
  show b: "pages_behind st' L = pages_behind st L - k" by (simp add: pages_behind_def p(2) assms(3))
  show "stocked bit1 T st' (t - k) L"
    using d(2,9) p(2,5) assms(2-4) unfolding stocked_def b by (simp add: pages_behind_def)
qed

lemma stocked_memory:
  assumes "stocked bit1 T st t L" and "tables_ok T (st\<lparr>pmem := m\<rparr>)" and "\<And>b. page_frame T m b = page_frame T (pmem st) b"
  shows "stocked bit1 T (st\<lparr>prng_seed := s, pmem := m\<rparr>) t L"
  using assms unfolding stocked_def ready_state_def pages_behind_def room_def heap_page_def tables_ok_def active_def
    mapped_marked_def by simp

lemma page_offset_inj: "f < 16384 \<Longrightarrow> g < 16384 \<Longrightarrow> page_offset f = page_offset g \<longleftrightarrow> f = g"
proof
  assume "f < 16384" "g < 16384" "page_offset f = page_offset g"
  then have "unat (page_offset f) = unat (page_offset g)" "4096 * f < 2 ^ 64" "4096 * g < 2 ^ 64" by simp_all
  then show "f = g" by (simp only: unat_page_offset)
qed simp

lemma pages_of_pos:
  assumes "len \<noteq> 0"
  shows "0 < pages_of len"
proof -
  have "unat len \<noteq> 0" using assms by (simp add: unat_eq_0)
  then show ?thesis by (simp add: pages_of_def div_greater_zero_iff)
qed

text \<open>The search for a region, with the table behind it: up to the loop.\<close>

lemma ksbrk_region:
  assumes st: "stocked bit1 T st t L" and bits: "bit_defined bit1"
    and fits: "t + pages_of len + 2 \<le> pages_behind st L" and low: "gb_page (heap_end st) + t < 511 * 512"
    and spare: "spare bit1 (frames st) \<noteq> {}"
    and len: "len \<noteq> 0" and taken: "\<And>j. j + 8 < t \<Longrightarrow> page_frame T (pmem st) (heap_page st j) \<noteq> None"
  obtains T' st2 st3 L' v a u where
    "mmu_find_free_virtual_region bit1 (Suc (Suc m)) len st = Some (st, a)"
    "allocate_next_pt bit1 (Suc (Suc m)) a (st\<lparr>heap_end := a\<rparr>) = Some st2"
    "mmu_find_free_virtual_region bit1 (Suc (Suc m)) len st2 = Some (st2, heap_page st v)"
    "st3 = st2\<lparr>heap_end := heap_page st v\<rparr>" "v \<le> t + 1" "stocked bit1 T' st3 (t + 1 - v) L'"
    "kept bit1 T st T' st3" "prng_seed st3 = prng_seed st" "t \<le> u + 8" "(gb_page (heap_end st) + u) div 512 < L'" "pages_of len < pages_behind st3 L'"
    "\<And>j. j < pages_of len \<Longrightarrow> page_frame T' (pmem st3) (heap_page st (v + j)) = None"
    "card (spare bit1 (frames st)) \<le> Suc (card (spare bit1 (frames st3)))"
proof -
  define k where "k = pages_of len"
  note d = stockedD [OF st]
  have bok: "bit_ok bit1" using bits by (simp add: bit_defined_def)
  have "t + pages_of len \<le> pages_behind st L" using fits by simp
  then obtain v1 where v1: "v1 \<le> t" "find_free bit1 (allocate_pt bit1 (Suc (Suc m))) len st = Some (st, heap_page st v1)"
      "\<And>j. j < pages_of len \<Longrightarrow> page_frame T (pmem st) (heap_page st (v1 + j)) = None"
    by (rule find_free_spec [OF d(5,4), of len bit1 "Suc m"]) blast
  have t: "t \<le> v1 + 8" using v1(3) [of 0] taken [of v1] pages_of_pos [OF len] by (cases "v1 + 8 < t") auto
  let ?st1 = "st\<lparr>heap_end := heap_page st v1\<rparr>"
  have v1J: "v1 < pages_behind st L" using v1(1) fits by simp
  note s1 = stocked_shift [OF st v1J] and p1 = stocked_page(2) [OF st v1J]
  have f1: "t - v1 + 1 \<le> pages_behind ?st1 L" using s1(2) v1(1) fits by simp
  have low1: "gb_page (heap_end ?st1) < 511 * 512" using p1 low v1(1) by simp
  have "spare bit1 (frames ?st1) \<noteq> {}" using spare by simp
  from spare_free_run [OF this]
  obtain T2 st2 L2 where 2: "allocate_next_pt bit1 (Suc (Suc m)) (heap_end ?st1) ?st1 = Some st2"
      "stocked bit1 T2 st2 (t - v1 + 1) L2" "grown bit1 T ?st1 T2 st2" "L \<le> L2" "gb_page (heap_end ?st1) div 512 < L2"
      "frames st2 = frames ?st1 \<or> (\<exists>rc. get_frame bit1 True 1 (frames ?st1) = Some (rc, frames st2))"
    using stocked_next [OF s1(1) bok f1 low1, of m] by blast
  note d2 = stockedD [OF 2(2)]
  have e2: "heap_end st2 = heap_page st v1" "prng_seed st2 = prng_seed st" using 2(3) by (simp_all add: grown_def)
  have c2: "card (spare bit1 (frames st)) \<le> Suc (card (spare bit1 (frames st2)))"
  proof (cases "frames st2 = frames ?st1")
    case False
    then obtain rc where g: "get_frame bit1 True 1 (frames st) = Some (rc, frames st2)" using 2(6) by auto
    show ?thesis by (rule take_one_spare [OF bits d(7) g]) (rule card_spare_one)
  qed simp
  have b2: "pages_behind ?st1 L \<le> pages_behind st2 L2" using 2(4) e2 by (simp add: pages_behind_def)
  have f2: "t - v1 + 1 + k + 1 \<le> pages_behind st2 L2" using b2 s1(2) fits v1(1) by (simp add: k_def)
  then have "t - v1 + 1 + k \<le> pages_behind st2 L2" by simp
  then obtain v2 where v2: "v2 \<le> t - v1 + 1"
      "\<And>j. j < k \<Longrightarrow> page_frame T2 (pmem st2) (heap_page st2 (v2 + j)) = None"
      "find_free bit1 (allocate_pt bit1 (Suc (Suc m))) len st2 = Some (st2, heap_page st2 v2)"
    by (rule find_free_spec [OF d2(5,4), of len bit1 "Suc m", folded k_def]) blast
  let ?st3 = "st2\<lparr>heap_end := heap_page st2 v2\<rparr>"
  have v2J: "v2 < pages_behind st2 L2" using v2(1) f2 by simp
  note s3 = stocked_shift [OF 2(2) v2J]
  have hp: "heap_page st2 j = heap_page st (v1 + j)" for j by (simp add: heap_page_def e2 page_offset_add add.assoc)
  show thesis
  proof (rule that [of "heap_page st v1" st2 "v1 + v2" ?st3 T2 L2 v1])
    show "stocked bit1 T2 ?st3 (t + 1 - (v1 + v2)) L2" using s3(1) v1(1) by simp
    show "kept bit1 T st T2 ?st3" by (rule kept_trans [OF kept_trans [OF kept_shift grown_kept [OF 2(3)]] kept_shift])
    show "(gb_page (heap_end st) + v1) div 512 < L2" using 2(5) p1 by simp
    show "t \<le> v1 + 8" by (rule t)
    show "pages_of len < pages_behind ?st3 L2" using s3(2) f2 v2(1) by (simp add: k_def)
  qed (use v1 v2 2(1) e2 c2 in \<open>simp_all add: mmu_find_free_virtual_region_def hp add.assoc k_def\<close>)
qed

text \<open>The loop and the random numbers that are stored in the new pages.\<close>

lemma ksbrk_fill:
  assumes st: "stocked bit1 T st t L" and bits: "bit_defined bit1" and k: "pages_of len < pages_behind st L"
    and unm: "\<And>j. j < pages_of len \<Longrightarrow> page_frame T (pmem st) (heap_page st j) = None"
    and spare: "pages_of len \<le> card (spare bit1 (frames st))"
    and out: "prng_get_pseudorandom (prng_seed st) (align_up len PAGE_SIZE) = (seed, out)"
  obtains st1 r fs m' where "ksbrk_loop bit1 (Suc m) len 0 0 st = Some (st1, r)" "prng_seed st1 = prng_seed st"
    "vstore_bytes (heap_end st) out (st1\<lparr>prng_seed := seed\<rparr>) = Some (st1\<lparr>prng_seed := seed, pmem := m'\<rparr>)"
    "stocked bit1 T (st1\<lparr>prng_seed := seed, pmem := m'\<rparr>) (t - pages_of len) L"
    "heap_end st1 = heap_page st (pages_of len)" "kept bit1 T st T (st1\<lparr>prng_seed := seed, pmem := m'\<rparr>)"
    "length fs = pages_of len" "fresh_pages bit1 T st (st1\<lparr>prng_seed := seed, pmem := m'\<rparr>) fs"
    "\<And>j. j < pages_of len \<Longrightarrow> load_bytes m' (page_offset (fs ! j)) 4096 = take 4096 (drop (4096 * j) out)"
    "card (spare bit1 (frames st)) \<le> card (spare bit1 (frames st1)) + pages_of len"
proof -
  define k where "k = pages_of len"
  note d = stockedD [OF st]
  have k64: "4096 * pages_of len < 2 ^ 64" using roomD(2,3) [OF d(4)] k by simp
  obtain st1 fs r where 1: "ksbrk_loop bit1 (Suc m) len 0 0 st = Some (st1, r)"
      "ready_state bit1 T st1 (t - k) (pages_behind st L - k)" "heap_end st1 = heap_page st k"
      "kept bit1 T st T st1" "prng_seed st1 = prng_seed st" "length fs = k" "fresh_pages bit1 T st st1 fs"
      "card (spare bit1 (frames st)) \<le> card (spare bit1 (frames st1)) + k"
    using ksbrk_loop_spec [OF bits k64 d(1) k unm spare, of 0 m 0] by (auto simp: k_def)
  note s1 = stocked_advance [OF st k [folded k_def] 1(3,2)]
  note d1 = stockedD [OF s1(1)]
  let ?a = "heap_end st" and ?st1 = "st1\<lparr>prng_seed := seed\<rparr>"
  have ok: "tables_ok T ?st1" using d1(5) by (simp add: tables_ok_def active_def)
  have fs: "fs ! j < 16384" "\<not> frame_used bit1 (frames st) (fs ! j)" if "j < k" for j
    using 1(6,7) that by (simp_all add: fresh_pages_def)
  have map: "page_frame T (pmem ?st1) (?a + page_offset j) = Some (page_offset (fs ! j))" if "j < k" for j
    using 1(6,7) that by (simp add: fresh_pages_def heap_page_def)
  have off: "off_tables T (page_offset (fs ! j)) 4096" if "j < k" for j
    using fresh_off_tables [of T bit1 "frames st" "fs ! j" 1] d(5,6) fs [OF that] by (simp add: tables_ok_def free_run_def)
  have inj: "inj_on (\<lambda>j. page_offset (fs ! j)) {..<k}"
    using 1(6,7) fs(1) by (auto intro!: inj_onI simp: page_offset_inj nth_eq_iff_index_eq fresh_pages_def)
  have len: "length out = 4096 * k"
    using length_prng [of "prng_seed st" "align_up len PAGE_SIZE"] unat_align_up [OF k64] by (simp add: out k_def)
  obtain mm where m: "vstore_bytes ?a out ?st1 = Some (?st1\<lparr>pmem := mm\<rparr>)" "tables_ok T (?st1\<lparr>pmem := mm\<rparr>)"
      "\<And>b. page_frame T mm b = page_frame T (pmem st1) b"
      "\<And>j. j < k \<Longrightarrow> load_bytes mm (page_offset (fs ! j)) 4096 = take 4096 (drop (4096 * j) out)"
      "\<And>x. (\<forall>j<k. page_base x \<noteq> page_offset (fs ! j)) \<Longrightarrow> mm x = pmem st1 x"
    using fill_pages [OF ok d(8) map off inj len] by auto
  have frame: "page_frame T mm = page_frame T (pmem st1)" by (rule ext) (rule m(3))
  have plain: "mm x = pmem st x" if x: "plain_byte bit1 T (frames st) x" for x
  proof -
    have "page_base x \<noteq> page_offset (fs ! j)" if "j < k" for j
      using x frame_marked_offset [OF fs(1) [OF that], of bit1 "frames st"] fs(2) [OF that]
      by (auto simp: plain_byte_def)
    then have "mm x = pmem st1 x" using m(5) by blast
    then show ?thesis using 1(4) x by (simp add: kept_def grown_def)
  qed
  show thesis
  proof (rule that [of st1 r mm fs])
    show "stocked bit1 T (st1\<lparr>prng_seed := seed, pmem := mm\<rparr>) (t - pages_of len) L"
      using stocked_memory [OF s1(1), of mm seed] m(2,3) by (simp add: k_def tables_ok_def active_def)
    show "kept bit1 T st T (st1\<lparr>prng_seed := seed, pmem := mm\<rparr>)"
      using 1(4) plain by (simp add: kept_def grown_def active_def frame)
    show "fresh_pages bit1 T st (st1\<lparr>prng_seed := seed, pmem := mm\<rparr>) fs"
      using 1(7) by (simp add: fresh_pages_def frame)
  qed (use 1 m(1,4) in \<open>simp_all add: k_def\<close>)
qed

lemma ksbrk_spec:
  assumes st: "stocked bit1 T st t L" and bits: "bit_defined bit1" and len: "len \<noteq> 0"
    and fits: "t + pages_of len + 2 \<le> pages_behind st L" and low: "gb_page (heap_end st) + t < 511 * 512"
    and spare: "pages_of len < card (spare bit1 (frames st))"
    and taken: "\<And>j. j + 8 < t \<Longrightarrow> page_frame T (pmem st) (heap_page st j) \<noteq> None"
    and out: "prng_get_pseudorandom (prng_seed st) (align_up len PAGE_SIZE) = (seed, out)"
  defines "k \<equiv> pages_of len"
  obtains T' st' L' v u fs where "ksbrk bit1 (Suc (Suc m)) len st = Some (st', heap_page st v)" "v \<le> t + 1"
    "stocked bit1 T' st' (t + 1 - v - k) L'" "heap_end st' = heap_page st (v + k)" "kept bit1 T st T' st'"
    "t \<le> u + 8" "(gb_page (heap_end st) + u) div 512 < L'" "prng_seed st' = seed" "length fs = k" "distinct fs"
    "\<And>f. f \<in> set fs \<Longrightarrow> f < 16384 \<and> \<not> frame_used bit1 (frames st) f \<and> frame_used bit1 (frames st') f"
    "\<And>j. j < k \<Longrightarrow> page_frame T (pmem st) (heap_page st (v + j)) = None"
    "\<And>j. j < k \<Longrightarrow> page_frame T' (pmem st') (heap_page st (v + j)) = Some (page_offset (fs ! j))"
    "\<And>j. j < k \<Longrightarrow> load_bytes (pmem st') (page_offset (fs ! j)) 4096 = take 4096 (drop (4096 * j) out)"
    "card (spare bit1 (frames st)) \<le> card (spare bit1 (frames st')) + k + 1"
proof -
  have "spare bit1 (frames st) \<noteq> {}" using spare by auto
  then obtain T' st2 st3 L' v a u where A: "mmu_find_free_virtual_region bit1 (Suc (Suc m)) len st = Some (st, a)"
      "allocate_next_pt bit1 (Suc (Suc m)) a (st\<lparr>heap_end := a\<rparr>) = Some st2"
      "mmu_find_free_virtual_region bit1 (Suc (Suc m)) len st2 = Some (st2, heap_page st v)"
      "st3 = st2\<lparr>heap_end := heap_page st v\<rparr>" "v \<le> t + 1" "stocked bit1 T' st3 (t + 1 - v) L'"
      "kept bit1 T st T' st3" "prng_seed st3 = prng_seed st" "t \<le> u + 8" "(gb_page (heap_end st) + u) div 512 < L'" "k < pages_behind st3 L'"
      "\<And>j. j < k \<Longrightarrow> page_frame T' (pmem st3) (heap_page st (v + j)) = None"
      "card (spare bit1 (frames st)) \<le> Suc (card (spare bit1 (frames st3)))"
    by (rule ksbrk_region [OF st bits fits low _ len taken, of m, folded k_def]) (assumption+, (rule that; assumption))
  have hp: "heap_page st3 j = heap_page st (v + j)" for j
    by (simp add: A(4) heap_page_def page_offset_add add.assoc)
  have c: "k \<le> card (spare bit1 (frames st3))" using A(13) spare by (simp add: k_def)
  have unm: "page_frame T' (pmem st3) (heap_page st3 j) = None" if "j < k" for j using A(12) [OF that] by (simp add: hp)
  have o3: "prng_get_pseudorandom (prng_seed st3) (align_up len PAGE_SIZE) = (seed, out)" using out A(8) by simp
  obtain st4 r fs m' where B: "ksbrk_loop bit1 (Suc (Suc m)) len 0 0 st3 = Some (st4, r)" "prng_seed st4 = prng_seed st3"
      "vstore_bytes (heap_end st3) out (st4\<lparr>prng_seed := seed\<rparr>) = Some (st4\<lparr>prng_seed := seed, pmem := m'\<rparr>)"
      "stocked bit1 T' (st4\<lparr>prng_seed := seed, pmem := m'\<rparr>) (t + 1 - v - k) L'"
      "heap_end st4 = heap_page st3 k" "kept bit1 T' st3 T' (st4\<lparr>prng_seed := seed, pmem := m'\<rparr>)"
      "length fs = k" "fresh_pages bit1 T' st3 (st4\<lparr>prng_seed := seed, pmem := m'\<rparr>) fs"
      "\<And>j. j < k \<Longrightarrow> load_bytes m' (page_offset (fs ! j)) 4096 = take 4096 (drop (4096 * j) out)"
      "card (spare bit1 (frames st3)) \<le> card (spare bit1 (frames st4)) + k"
    by (rule ksbrk_fill [OF A(6) bits, of len, folded k_def, OF A(11) unm c o3, of "Suc m"]) (assumption, (rule that; assumption))
  let ?st' = "st4\<lparr>prng_seed := seed, pmem := m'\<rparr>"
  have run: "ksbrk bit1 (Suc (Suc m)) len st = Some (?st', heap_page st v)"
    using A(1-3) B(1-3) len o3 by (simp add: ksbrk_def ksbrk_physical_def A(4))
  have unm0: "page_frame T (pmem st) (heap_page st (v + j)) = None" if "j < k" for j
    using A(7) A(12) [OF that] by (cases "page_frame T (pmem st) (heap_page st (v + j))") (auto simp: kept_def grown_def)
  have fresh: "f < 16384 \<and> \<not> frame_used bit1 (frames st) f \<and> frame_used bit1 (frames ?st') f" if "f \<in> set fs" for f
    using B(8) that A(7) by (auto simp: fresh_pages_def kept_def grown_def)
  show thesis
  proof (rule that [OF run A(5) B(4) _ kept_trans [OF A(7) B(6)] A(9,10) _ B(7) _ fresh unm0])
    show "card (spare bit1 (frames st)) \<le> card (spare bit1 (frames ?st')) + k + 1" using A(13) B(10) by simp
  qed (use B(5,7-9) hp in \<open>simp_all add: fresh_pages_def\<close>)
qed


section \<open>What a caller of \<^verbatim>\<open>ksbrk\<close> may rely on\<close>

text \<open>
  \<^verbatim>\<open>supplied T st g\<close> holds between the calls: the pages from number \<^verbatim>\<open>g\<close> of the gigabyte on are not
  mapped, those between the end of the heap and \<^verbatim>\<open>g\<close> are, the last eight perhaps excepted, and at
  least 256 pages from \<^verbatim>\<open>g\<close> on have their tables.  A call needs the frames of its pages and one more,
  for the next table, and the last table of the gigabyte must not be reached.
\<close>

definition supplied :: "(nat \<Rightarrow> u64) \<Rightarrow> tree \<Rightarrow> mmu \<Rightarrow> nat \<Rightarrow> bool" where
  "supplied bit1 T st g \<longleftrightarrow> (\<exists>t L. stocked bit1 T st t L \<and> t + 256 \<le> pages_behind st L \<and>
     g = gb_page (heap_end st) + t \<and> (\<forall>j. j + 8 < t \<longrightarrow> page_frame T (pmem st) (heap_page st j) \<noteq> None))"

definition can_supply :: "(nat \<Rightarrow> u64) \<Rightarrow> tree \<Rightarrow> u64 \<Rightarrow> mmu \<Rightarrow> nat \<Rightarrow> bool" where
  "can_supply bit1 T len st g \<longleftrightarrow>
     supplied bit1 T st g \<and> len \<noteq> 0 \<and> pages_of len \<le> 240 \<and> pages_of len < card (spare bit1 (frames st)) \<and>
     g < 511 * 512"

lemma supplied_ok: "supplied bit1 T st g \<Longrightarrow> tables_ok T st"
  unfolding supplied_def by (blast dest: stockedD(5))

lemma supplied_seed [simp]: "supplied bit1 T (st\<lparr>prng_seed := s\<rparr>) g \<longleftrightarrow> supplied bit1 T st g"
  by (simp add: supplied_def stocked_def ready_state_def pages_behind_def room_def heap_page_def tables_ok_def active_def)

lemma can_supply_seed [simp]: "can_supply bit1 T len (st\<lparr>prng_seed := s\<rparr>) g \<longleftrightarrow> can_supply bit1 T len st g"
  by (simp add: can_supply_def)

lemma translate_seed [simp]: "translate (st\<lparr>prng_seed := s\<rparr>) a = translate st a"
  by (simp add: translate_def)

lemma ksbrk_supply:
  assumes bits: "bit_defined bit1" and can: "can_supply bit1 T len st g"
    and out: "prng_get_pseudorandom (prng_seed st) (align_up len PAGE_SIZE) = (seed, out)"
  obtains T' st' g' p fs where "ksbrk bit1 (Suc (Suc m)) len st = Some (st', p)" "supplied bit1 T' st' g'" "kept bit1 T st T' st'"
    "prng_seed st' = seed" "aligned p" "p \<noteq> 0" "unat p + 4096 * pages_of len < 2 ^ 64" "length fs = pages_of len"
    "distinct fs" "\<And>f. f \<in> set fs \<Longrightarrow> \<not> frame_used bit1 (frames st) f \<and> frame_used bit1 (frames st') f"
    "\<And>j. j < pages_of len \<Longrightarrow> page_frame T (pmem st) (p + page_offset j) = None"
    "\<And>j. j < pages_of len \<Longrightarrow> page_frame T' (pmem st') (p + page_offset j) = Some (page_offset (fs ! j))"
    "\<And>j. j < pages_of len \<Longrightarrow> load_bytes (pmem st') (page_offset (fs ! j)) 4096 = take 4096 (drop (4096 * j) out)"
    "card (spare bit1 (frames st)) \<le> card (spare bit1 (frames st')) + pages_of len + 1"
    "g' \<le> g + pages_of len + 1"
proof -
  define k where "k = pages_of len"
  obtain t L where L: "stocked bit1 T st t L" "t + 256 \<le> pages_behind st L" "g = gb_page (heap_end st) + t"
      "\<And>j. j + 8 < t \<Longrightarrow> page_frame T (pmem st) (heap_page st j) \<noteq> None"
    using can by (auto simp: can_supply_def supplied_def)
  have k: "k \<le> 240" "len \<noteq> 0" "k < card (spare bit1 (frames st))" "gb_page (heap_end st) + t < 511 * 512"
    using can by (simp_all add: can_supply_def k_def flip: L(3))
  have "0 < k" using pages_of_pos [OF k(2)] by (simp add: k_def)
  have fits: "t + k + 2 \<le> pages_behind st L" using L(2) k(1) by simp
  obtain T' st' L' v u fs where r: "ksbrk bit1 (Suc (Suc m)) len st = Some (st', heap_page st v)" "v \<le> t + 1"
      "stocked bit1 T' st' (t + 1 - v - k) L'" "heap_end st' = heap_page st (v + k)" "kept bit1 T st T' st'"
      "t \<le> u + 8" "(gb_page (heap_end st) + u) div 512 < L'" "prng_seed st' = seed" "length fs = k" "distinct fs"
      "\<And>f. f \<in> set fs \<Longrightarrow> f < 16384 \<and> \<not> frame_used bit1 (frames st) f \<and> frame_used bit1 (frames st') f"
      "\<And>j. j < k \<Longrightarrow> page_frame T (pmem st) (heap_page st (v + j)) = None"
      "\<And>j. j < k \<Longrightarrow> page_frame T' (pmem st') (heap_page st (v + j)) = Some (page_offset (fs ! j))"
      "\<And>j. j < k \<Longrightarrow> load_bytes (pmem st') (page_offset (fs ! j)) 4096 = take 4096 (drop (4096 * j) out)"
      "card (spare bit1 (frames st)) \<le> card (spare bit1 (frames st')) + k + 1"
    by (rule ksbrk_spec [OF L(1) bits k(2) fits [unfolded k_def] k(4) k(3) [unfolded k_def] L(4) out, of m, folded k_def])
      (assumption+, (rule that; assumption))
  have hp: "heap_page st v + page_offset j = heap_page st (v + j)" for j
    by (simp add: heap_page_def page_offset_add add.assoc)
  note room = stockedD(4) [OF L(1)]
  have vk: "v + k < pages_behind st L" using r(2) fits L(2) by simp
  note low = unat_heap_page [OF room, of v]
  have "\<not> v + 8 < t" using r(12) [of 0] L(4) [of v] \<open>0 < k\<close> by auto
  then have t': "t + 1 - v - k \<le> 8" "t + 1 - v - k + k \<le> 9 \<or> t + 1 - v - k = 0" using \<open>0 < k\<close> by auto
  have gb: "gb_page (heap_end st') = gb_page (heap_end st) + (v + k)" using stocked_page(2) [OF L(1) vk] r(4) by simp
  define g' where "g' = gb_page (heap_end st') + (t + 1 - v - k)"
  have "gb_page (heap_end st) + u < 512 * L'" using r(7) by (simp add: div_less_iff_less_mult mult.commute)
  then have "t + 1 - v - k + 256 \<le> pages_behind st' L'"
    unfolding pages_behind_def gb using r(2,6) t' k(1) by simp
  then have "supplied bit1 T' st' g'"
    using r(3) t' unfolding supplied_def g'_def by (intro exI [of _ "t + 1 - v - k"] exI [of _ L']) auto
  moreover have "unat (heap_page st v) + 4096 * k < 2 ^ 64" using low vk roomD(3) [OF room] by simp
  moreover have "heap_page st v \<noteq> 0" using low vk roomD(2) [OF room] by (auto simp: unat_eq_0)
  moreover have "aligned (heap_page st v)" by (rule aligned_heap_page [OF room])
  moreover have "\<not> frame_used bit1 (frames st) f \<and> frame_used bit1 (frames st') f" if "f \<in> set fs" for f
    using r(11) [OF that] by simp
  moreover have "g' \<le> g + k + 1" using r(2) by (simp add: g'_def gb L(3))
  ultimately show thesis
    using r(5,8-10,12-15) by (intro that [OF r(1)]) (simp_all add: k_def hp)
qed

text \<open>
  \<^verbatim>\<open>adds_views st st'\<close>: what was mapped is still mapped to the same place, and an address that has been
  mapped since has its physical byte for itself.
\<close>

definition adds_views :: "mmu \<Rightarrow> mmu \<Rightarrow> bool" where
  "adds_views st st' \<longleftrightarrow> (\<forall>a q. translate st a = Some q \<longrightarrow> translate st' a = Some q) \<and>
     (\<forall>a b q. translate st' a = Some q \<and> translate st' b = Some q \<and> path_of a \<noteq> path_of b \<longrightarrow> translate st a = Some q)"

lemma adds_views_refl: "adds_views st st"
  by (simp add: adds_views_def)

lemma adds_views_trans: "adds_views st st1 \<Longrightarrow> adds_views st1 st2 \<Longrightarrow> adds_views st st2"
  unfolding adds_views_def by metis

lemma adds_views_seed [simp]:
  "adds_views (st\<lparr>prng_seed := s\<rparr>) st' \<longleftrightarrow> adds_views st st'" "adds_views st (st'\<lparr>prng_seed := s\<rparr>) \<longleftrightarrow> adds_views st st'"
  by (simp_all add: adds_views_def)

lemma translate_Some_iff:
  assumes "tables_ok T st"
  shows "translate st a = Some q \<longleftrightarrow> page_frame T (pmem st) a = Some (page_base q) \<and> q = page_base q OR (a AND 0xFFF)"
proof -
  have "page_base (f OR (a AND 0xFFF)) = f" if "page_frame T (pmem st) a = Some f" for f
    using page_add [OF page_frame_aligned [OF that] page_split(2)]
      page_of_sum(2) [OF page_frame_aligned [OF that] page_split(2)] by simp
  then show ?thesis unfolding translate_frame [OF assms] by auto
qed

lemma kept_adds_views:
  assumes "tables_ok T st" and "tables_ok T' st'" and "kept bit1 T st T' st'"
  shows "adds_views st st'"
proof -
  have keep: "page_frame T' (pmem st') a = Some f" if "page_frame T (pmem st) a = Some f" for a f
    using assms(3) that by (simp add: kept_def grown_def)
  have new: "page_frame T (pmem st) a = Some f"
    if "page_frame T' (pmem st') a = Some f" "page_frame T' (pmem st') b = Some f" "path_of a \<noteq> path_of b" for a b f
  proof -
    have "fresh_maps bit1 (page_frame T (pmem st)) (frames st) (page_frame T' (pmem st')) (frames st')"
      using assms(3) by (simp add: kept_def grown_def)
    then show ?thesis using that unfolding fresh_maps_def by blast
  qed
  note t = translate_Some_iff [OF assms(1)] and t' = translate_Some_iff [OF assms(2)]
  have "translate st' a = Some q" if "translate st a = Some q" for a q
    using that keep [of a "page_base q"] unfolding t t' by (elim conjE) (intro conjI)
  moreover have "translate st a = Some q"
    if "translate st' a = Some q" "translate st' b = Some q" "path_of a \<noteq> path_of b" for a b q
    using that new [of a "page_base q" b] unfolding t t' by (elim conjE) (intro conjI)
  ultimately show ?thesis unfolding adds_views_def by blast
qed

lemma translate_in_page:
  assumes "tables_ok T st" and "aligned p" and "i < 4096 * k" and "4096 * k < 2 ^ 64"
  shows "translate st (p + of_nat i) =
    map_option (\<lambda>f. f + of_nat (i mod 4096)) (page_frame T (pmem st) (p + page_offset (i div 4096)))"
proof -
  let ?v = "p + page_offset (i div 4096)" and ?o = "of_nat (i mod 4096) :: u64"
  have "of_nat i = (of_nat (4096 * (i div 4096) + i mod 4096) :: u64)" by simp
  then have a: "p + of_nat i = ?v + ?o" by (simp only: of_nat_add of_nat_mult page_offset_def) simp
  have al: "aligned ?v" by (rule aligned_page_offset [OF assms(2)])
  have o: "unat ?o < 4096" by (subst unat_of_nat_u64) simp_all
  show ?thesis
  proof (cases "page_frame T (pmem st) ?v")
    case None
    have "page_frame T (pmem st) (?v + ?o) = None"
      using None page_of_sum(3) [OF al o] by (simp add: page_frame_cong [of "?v + ?o" ?v])
    then show ?thesis using None by (simp add: a translate_frame [OF assms(1)])
  next
    case (Some f)
    then show ?thesis using translate_page [OF assms(1) al Some o] by (simp add: a)
  qed
qed

text \<open>
  C8 (ksbrk_gives_pages): As long as the frames last, \<^verbatim>\<open>ksbrk\<close> returns the first of as many consecutive
  pages as the length asks for.  None of them was mapped before; now each is mapped to a frame of
  its own that was free, and filled with the output of the random number generator.  Every older
  mapping is kept, no newly mapped page shares its frame, no byte of a frame in use has changed
  (tables apart), and the next call finds the state it needs again.
\<close>

theorem ksbrk_gives_pages:
  assumes "bit_defined bit1" and "can_supply bit1 T len st g"
  shows "\<exists>T' st' g' p fs. ksbrk bit1 (Suc (Suc m)) len st = Some (st', p) \<and> aligned p \<and> p \<noteq> 0 \<and>
    unat p + 4096 * pages_of len < 2 ^ 64 \<and> length fs = pages_of len \<and> distinct fs \<and>
    (\<forall>f\<in>set fs. \<not> frame_used bit1 (frames st) f \<and> frame_used bit1 (frames st') f) \<and>
    (\<forall>i<4096 * pages_of len. translate st (p + of_nat i) = None \<and>
       (\<exists>q. q = page_offset (fs ! (i div 4096)) + of_nat (i mod 4096) \<and> translate st' (p + of_nat i) = Some q \<and>
         pmem st' q = snd (prng_get_pseudorandom (prng_seed st) (align_up len PAGE_SIZE)) ! i)) \<and>
    adds_views st st' \<and> (\<forall>x. plain_byte bit1 T (frames st) x \<longrightarrow> pmem st' x = pmem st x) \<and>
    supplied bit1 T' st' g' \<and> g' \<le> g + pages_of len + 1"
proof -
  obtain seed out where out: "prng_get_pseudorandom (prng_seed st) (align_up len PAGE_SIZE) = (seed, out)" by fastforce
  obtain T' st' g' p fs where r: "ksbrk bit1 (Suc (Suc m)) len st = Some (st', p)" "supplied bit1 T' st' g'" "kept bit1 T st T' st'"
      "prng_seed st' = seed" "aligned p" "p \<noteq> 0" "unat p + 4096 * pages_of len < 2 ^ 64" "length fs = pages_of len"
      "distinct fs" "\<And>f. f \<in> set fs \<Longrightarrow> \<not> frame_used bit1 (frames st) f \<and> frame_used bit1 (frames st') f"
      "\<And>j. j < pages_of len \<Longrightarrow> page_frame T (pmem st) (p + page_offset j) = None"
      "\<And>j. j < pages_of len \<Longrightarrow> page_frame T' (pmem st') (p + page_offset j) = Some (page_offset (fs ! j))"
      "\<And>j. j < pages_of len \<Longrightarrow> load_bytes (pmem st') (page_offset (fs ! j)) 4096 = take 4096 (drop (4096 * j) out)"
      "g' \<le> g + pages_of len + 1"
    by (rule ksbrk_supply [OF assms out, of m]) (rule that; assumption)
  have ok: "tables_ok T st" "tables_ok T' st'" using supplied_ok assms(2) r(2) by (auto simp: can_supply_def)
  have k: "4096 * pages_of len < 2 ^ 64" using r(7) by simp
  have len: "length out = 4096 * pages_of len"
    using length_prng [of "prng_seed st" "align_up len PAGE_SIZE"] unat_align_up [OF k] by (simp add: out)
  have "translate st (p + of_nat i) = None \<and>
      translate st' (p + of_nat i) = Some (page_offset (fs ! (i div 4096)) + of_nat (i mod 4096)) \<and>
      pmem st' (page_offset (fs ! (i div 4096)) + of_nat (i mod 4096)) = out ! i" if i: "i < 4096 * pages_of len" for i
  proof -
    have j: "i div 4096 < pages_of len" "i mod 4096 < 4096" using i by (simp_all add: less_mult_imp_div_less mult.commute)
    have "load_bytes (pmem st') (page_offset (fs ! (i div 4096))) 4096 ! (i mod 4096) =
        take 4096 (drop (4096 * (i div 4096)) out) ! (i mod 4096)" by (simp only: r(13) [OF j(1)])
    then have "pmem st' (page_offset (fs ! (i div 4096)) + of_nat (i mod 4096)) = out ! i" using i j(2) len by simp
    then show ?thesis
      using r(11,12) [OF j(1)] translate_in_page [OF ok(1) r(5) i k] translate_in_page [OF ok(2) r(5) i k] by simp
  qed
  moreover have "pmem st' x = pmem st x" if "plain_byte bit1 T (frames st) x" for x
    using r(3) that by (simp add: kept_def grown_def)
  ultimately show ?thesis
    using r(1,2,5-10,14) kept_adds_views [OF ok r(3)]
    by (intro exI [of _ T'] exI [of _ st'] exI [of _ g'] exI [of _ p] exI [of _ fs]) (simp add: out)
qed


section \<open>The small machine\<close>

lemma bit_defined_intended: "bit_defined shl_intended"
  using bit_ok_shifts(1) by (simp add: bit_defined_def shl_intended_def)

lemma small_address:
  assumes "j < 512"
  shows "unat (0xFFFFFF8000000000 + page_offset j) = 0xFFFFFF8000000000 + 4096 * j"
    "gb_page (0xFFFFFF8000000000 + page_offset j) = j"
  using same_gigabyte(1,2) [of "0xFFFFFF8000000000" j] assms by (simp_all add: gb_page_def aligned_def)

lemma small_path:
  assumes "j < 512"
  shows "upper_path (0xFFFFFF8000000000 + page_offset j) = [511, 0, 0]"
    "table_index 12 (0xFFFFFF8000000000 + page_offset j) = of_nat j"
proof -
  let ?a = "0xFFFFFF8000000000 :: u64" and ?b = "0xFFFFFF8000000000 + page_offset j"
  have "aligned ?a" "gb_page ?a + j < 262144" using assms by (simp_all add: gb_page_def aligned_def)
  then have "upper_path ?b = leaf_path ?a (gb_page ?b div 512)" by (intro upper_path_leaf same_gigabyte(3))
  then show "upper_path ?b = [511, 0, 0]"
    using assms by (simp add: small_address leaf_path_def table_index_def)
  have "unat ?b div 2 ^ 12 = 512 * 0x7FFFFFC0000 + j" unfolding small_address(1) [OF assms] by simp
  then have "unat (table_index 12 ?b) = j" using assms by (simp only: unat_table_index mod_mult_self4 mod_less)
  then show "table_index 12 ?b = of_nat j" by (metis of_nat_unat ucast_id)
qed

lemma small_behind: "pages_behind small_machine 0 = 504"
proof -
  have "gb_page 0xFFFFFF8000008000 = 8" using small_address(2) [of 8] by (simp add: page_offset_def)
  then show ?thesis by (simp add: pages_behind_def small_machine_def)
qed

lemma small_room_far: "room small_tree small_machine 0 504"
  unfolding room_def
proof (intro conjI allI impI)
  have a: "heap_page small_machine j = 0xFFFFFF8000000000 + page_offset (8 + j)" for j
    by (simp add: heap_page_def small_machine_def page_offset_add) (simp add: page_offset_def)
  show "small_tree (upper_path (heap_page small_machine j)) \<noteq> None" if "j < 504" for j
    using small_path(1) [of "8 + j"] that by (simp add: a small_tree_at)
  show "page_frame small_tree (pmem small_machine) (heap_page small_machine j) = None" if "0 \<le> j \<and> j < 504" for j
  proof -
    let ?i = "of_nat (8 + j) :: u64"
    have j: "8 + j < 512" using that by simp
    have u: "unat ?i = 8 + j" using j by (intro unat_of_nat_u64) simp
    then have "index_ok ?i" using j by (simp only: index_ok_def word_less_nat_alt) simp
    moreover have "?i \<notin> {1, 2, 3, 4, 5, 6, 7}" using u by (auto simp: word_unat_eq_iff)
    ultimately have "slot (pmem small_machine) 0x7000 ?i = 0" by (simp only: small_leaf) simp
    then show ?thesis
      using small_path [OF j] by (simp add: page_frame_def a small_tree_at present_def)
  qed
qed (simp_all add: small_machine_def small_aligned)

lemma small_stocked: "stocked shl_intended small_tree small_machine 0 0"
proof -
  have "ready_state shl_intended small_tree small_machine 0 504"
    using small_ready small_room_far by (simp add: ready_state_def)
  moreover have "small_tree (leaf_path (heap_end small_machine) l) = None" if "0 < l" "l < 512" for l
  proof -
    have "unat (of_nat l :: u64) = l" using that by (simp add: unat_of_nat_u64)
    then have "(of_nat l :: u64) \<noteq> 0" using that by auto
    then show ?thesis by (simp add: leaf_path_def small_tree_at)
  qed
  moreover have "gb_page (heap_end small_machine) < 512" using small_behind by (simp add: pages_behind_def)
  ultimately show ?thesis by (simp add: stocked_def small_behind)
qed

text \<open>All words of the bitmap but the first are empty.\<close>

lemma small_spare: "7905 \<le> card (spare shl_intended (frames small_machine))"
proof -
  let ?p = "\<lambda>(w, b). 64 * w + b :: nat"
  have "inj_on ?p ({1..<256} \<times> {0..<31})"
    by (rule inj_on_inverseI [of _ "\<lambda>n. (n div 64, n mod 64)"]) auto
  then have "card (?p ` ({1..<256} \<times> {0..<31})) = 7905" by (simp add: card_image)
  moreover have "?p ` ({1..<256} \<times> {0..<31}) \<subseteq> spare shl_intended (frames small_machine)"
    by (auto simp: spare_def frame_used_def small_machine_def nth_Cons')
  ultimately show ?thesis by (metis card_mono finite_spare)
qed

lemma small_can_supply:
  assumes "len \<noteq> 0" and "pages_of len \<le> 240"
  shows "can_supply shl_intended small_tree len small_machine 8"
proof -
  have "gb_page (heap_end small_machine) = 8" using small_behind by (simp add: pages_behind_def)
  then have "supplied shl_intended small_tree small_machine 8"
    using small_stocked unfolding supplied_def by (intro exI [of _ 0]) (simp add: small_behind)
  then show ?thesis using assms small_spare by (simp add: can_supply_def)
qed

theorem ksbrk_gives_pages_witness:
  "\<exists>T st n p f g. ksbrk shl_intended (Suc (Suc 0)) 0x1800 small_machine = Some (st, p) \<and> f \<noteq> g \<and>
     translate st p = Some (page_offset f) \<and> translate st (p + 0x1000) = Some (page_offset g) \<and>
     supplied shl_intended T st n"
proof -
  have k: "pages_of 0x1800 = 2" by (simp add: pages_of_def)
  obtain T st n p fs where r: "ksbrk shl_intended (Suc (Suc 0)) 0x1800 small_machine = Some (st, p)" "length fs = 2"
      "distinct fs" "supplied shl_intended T st n"
      "\<forall>i<8192. translate st (p + of_nat i) = Some (page_offset (fs ! (i div 4096)) + of_nat (i mod 4096))"
    using ksbrk_gives_pages [OF bit_defined_intended small_can_supply, of "0x1800" 0] k by auto
  have "translate st p = Some (page_offset (fs ! 0))" "translate st (p + 0x1000) = Some (page_offset (fs ! 1))"
    using r(5) [rule_format, of 0] r(5) [rule_format, of 4096] by simp_all
  moreover have "fs ! 0 \<noteq> fs ! 1" using r(2,3) by (simp add: nth_eq_iff_index_eq)
  ultimately show ?thesis using r(1,4) by blast
qed

end
