(* ===== verification/PageHeap.thy ===== *)
theory PageHeap
  imports HeapClient PageSupply
begin

text \<open>
  The kernel heap on the page tables: \<^verbatim>\<open>ksbrk\<close> of \<^verbatim>\<open>arch/amd64/mmu.c\<close> as the page source of
  \<^verbatim>\<open>kmalloc.c\<close>.  The heap's memory \<^verbatim>\<open>kmem\<close> is addressed by virtual addresses; a page comes into it with
  the contents of its frame when it is mapped.
\<close>

section \<open>The page tables as a page source\<close>

text \<open>The page tables behind the heap, with the seed of \<^verbatim>\<open>prng.c\<close>, one variable for both.\<close>

definition heap_mmu :: "mmu kheap \<Rightarrow> mmu" where
  "heap_mmu h = (kbrk h)\<lparr>prng_seed := kseed h\<rparr>"

definition with_mmu :: "mmu \<Rightarrow> mmu kheap \<Rightarrow> mmu kheap" where
  "with_mmu m h = h\<lparr>kbrk := m, kseed := prng_seed m\<rparr>"

definition newly_mapped :: "mmu \<Rightarrow> mmu \<Rightarrow> mem \<Rightarrow> mem" where
  "newly_mapped old new mem = (\<lambda>x.
     case translate old x of
       Some _ \<Rightarrow> mem x
     | None \<Rightarrow> (case translate new x of Some q \<Rightarrow> pmem new q | None \<Rightarrow> mem x))"

definition page_sbrk :: "(nat \<Rightarrow> u64) \<Rightarrow> nat \<Rightarrow> mmu sbrk" where
  "page_sbrk bit1 nest len h = do {
     (m, p) \<leftarrow> ksbrk bit1 nest len (heap_mmu h);
     Some (with_mmu m h\<lparr>kmem := newly_mapped (kbrk h) m (kmem h)\<rparr>, p)
   }"

section \<open>Its contract\<close>

definition mapped :: "mmu \<Rightarrow> nat set" where
  "mapped m = {unat x | x. translate m x \<noteq> None}"

definition page_good :: "(nat \<Rightarrow> u64) \<Rightarrow> u64 \<Rightarrow> mmu \<Rightarrow> bool" where
  "page_good bit1 len m \<longleftrightarrow> bit_defined bit1 \<and> (\<exists>T g. can_supply bit1 T len m g)"

lemma mapped_iff: "unat x \<in> mapped m \<longleftrightarrow> translate m x \<noteq> None"
proof
  assume "unat x \<in> mapped m"
  then obtain y where y: "unat x = unat y" "translate m y \<noteq> None"
    unfolding mapped_def mem_Collect_eq by (elim exE conjE) (rule that)
  from y(1) have "x = y" by (rule word_unat_eq_iff [THEN iffD2])
  then show "translate m x \<noteq> None" using y(2) by simp
qed (unfold mapped_def, blast)

lemma mapped_mono: "adds_views m m' \<Longrightarrow> mapped m \<subseteq> mapped m'"
  unfolding mapped_def adds_views_def by blast

lemma unat_le_pages: "unat n \<le> 4096 * pages_of n"
  by (simp add: pages_of_def)

text \<open>A call on the state of the heap.\<close>

lemma page_sbrk_spec:
  assumes "bit_defined bit1" and "can_supply bit1 T n (kbrk h) g"
  obtains T' m g' p where "page_sbrk bit1 (Suc (Suc nest)) n h =
      Some (with_mmu m h\<lparr>kmem := newly_mapped (kbrk h) m (kmem h)\<rparr>, p)"
    "p \<noteq> 0" "unat p + unat n < 2 ^ 64" "supplied bit1 T' m g'" "adds_views (kbrk h) m"
    "span p (unat n) \<subseteq> mapped m - mapped (kbrk h)"
    "card (spare bit1 (frames (kbrk h))) \<le> card (spare bit1 (frames m)) + pages_of n + 1"
    "g' \<le> g + pages_of n + 1"
proof -
  let ?k = "pages_of n"
  have can: "can_supply bit1 T n (heap_mmu h) g" using assms(2) by (simp add: heap_mmu_def)
  obtain seed out where out: "prng_get_pseudorandom (prng_seed (heap_mmu h)) (align_up n PAGE_SIZE) = (seed, out)"
    by fastforce
  obtain T' m g' p fs where r: "ksbrk bit1 (Suc (Suc nest)) n (heap_mmu h) = Some (m, p)" "supplied bit1 T' m g'"
      "kept bit1 T (heap_mmu h) T' m" "aligned p" "p \<noteq> 0" "unat p + 4096 * ?k < 2 ^ 64"
      "\<And>j. j < ?k \<Longrightarrow> page_frame T (pmem (heap_mmu h)) (p + page_offset j) = None"
      "\<And>j. j < ?k \<Longrightarrow> page_frame T' (pmem m) (p + page_offset j) = Some (page_offset (fs ! j))"
      "card (spare bit1 (frames (heap_mmu h))) \<le> card (spare bit1 (frames m)) + ?k + 1"
      "g' \<le> g + ?k + 1"
    by (rule ksbrk_supply [OF assms(1) can out, of nest]) (rule that; assumption)
  have ok: "tables_ok T (heap_mmu h)" "tables_ok T' m" using can r(2) by (auto simp: can_supply_def supplied_ok)
  have views: "adds_views (kbrk h) m" using kept_adds_views [OF ok r(3)] by (simp add: heap_mmu_def)
  have "y \<in> mapped m - mapped (kbrk h)" if y: "y \<in> span p (unat n)" for y
  proof -
    define i where "i = y - unat p"
    have i: "i < 4096 * ?k" "y = unat p + i" using y unat_le_pages [of n] by (auto simp: i_def)
    have "unat (p + of_nat i) = unat p + i"
      using i(1) r(6) by (subst unat_add_le) (simp_all add: unat_of_nat_u64)
    then have u: "y = unat (p + of_nat i)" using i(2) by simp
    have j: "i div 4096 < ?k" "4096 * ?k < 2 ^ 64" using i(1) r(6) by (simp_all add: less_mult_imp_div_less mult.commute)
    have "translate (heap_mmu h) (p + of_nat i) = None" "translate m (p + of_nat i) \<noteq> None"
      using translate_in_page [OF ok(1) r(4) i(1) j(2)] translate_in_page [OF ok(2) r(4) i(1) j(2)] r(7,8) [OF j(1)]
      by simp_all
    then show ?thesis unfolding u by (simp add: mapped_iff heap_mmu_def)
  qed
  then have "span p (unat n) \<subseteq> mapped m - mapped (kbrk h)" by blast
  then show thesis
    using r(1,2,5,6,9,10) views unat_le_pages [of n]
    by (intro that) (simp_all add: page_sbrk_def heap_mmu_def)
qed

interpretation pages: page_source mapped "page_good bit1" "page_sbrk bit1 (Suc (Suc nest))" for bit1 nest
proof
  show "sbrk_ok mapped (page_good bit1) (page_sbrk bit1 (Suc (Suc nest)))"
    unfolding sbrk_ok_def
  proof (intro allI impI)
    fix n and h :: "mmu kheap"
    assume "page_good bit1 n (kbrk h)"
    then obtain T g where "bit_defined bit1" "can_supply bit1 T n (kbrk h) g" by (auto simp: page_good_def)
    then obtain T' m p where r: "page_sbrk bit1 (Suc (Suc nest)) n h =
          Some (with_mmu m h\<lparr>kmem := newly_mapped (kbrk h) m (kmem h)\<rparr>, p)"
        "unat p + unat n < 2 ^ 64" "adds_views (kbrk h) m" "span p (unat n) \<subseteq> mapped m - mapped (kbrk h)"
      by (rule page_sbrk_spec)
    have "same_outside (- mapped (kbrk h)) (kmem h) (newly_mapped (kbrk h) m (kmem h))"
      by (auto simp: same_outside_def mapped_iff newly_mapped_def)
    then show "\<exists>h' p. page_sbrk bit1 (Suc (Suc nest)) n h = Some (h', p) \<and>
        khead h' = khead h \<and> kfinal h' = kfinal h \<and> ktotal h' = ktotal h \<and> mapped (kbrk h) \<subseteq> mapped (kbrk h') \<and>
        same_outside (- mapped (kbrk h)) (kmem h) (kmem h') \<and>
        (p \<noteq> 0 \<longrightarrow> unat p + unat n < 2 ^ 64 \<and> span p (unat n) \<subseteq> mapped (kbrk h') - mapped (kbrk h))"
      using r mapped_mono [OF r(3)]
      by (intro exI [of _ "with_mmu m h\<lparr>kmem := newly_mapped (kbrk h) m (kmem h)\<rparr>"] exI [of _ p])
        (simp add: with_mmu_def)
  qed
qed

text \<open>A good state never refuses a request, and a request only adds mappings.\<close>

lemma page_never_refuses:
  assumes "page_good bit1 n m"
  shows "\<not> refuses (page_sbrk bit1 (Suc (Suc nest))) n m"
proof
  assume "refuses (page_sbrk bit1 (Suc (Suc nest))) n m"
  then obtain h h' where h: "kbrk h = m" "page_sbrk bit1 (Suc (Suc nest)) n h = Some (h', 0)"
    by (auto simp: refuses_def)
  obtain T g where "bit_defined bit1" "can_supply bit1 T n (kbrk h) g" using assms h(1) by (auto simp: page_good_def)
  then show False by (rule page_sbrk_spec [of _ _ _ _ _ nest]) (use h(2) in simp)
qed

lemma drew_adds_views:
  assumes "page_good bit1 n m" and "drew (page_sbrk bit1 (Suc (Suc nest))) n m m'"
  shows "adds_views m m'"
proof (cases "m' = m")
  case False
  then obtain h h' p where h: "kbrk h = m" "page_sbrk bit1 (Suc (Suc nest)) n h = Some (h', p)" "kbrk h' = m'"
    using assms(2) by (auto simp: drew_def)
  obtain T g where "bit_defined bit1" "can_supply bit1 T n (kbrk h) g" using assms(1) h(1) by (auto simp: page_good_def)
  then show ?thesis by (rule page_sbrk_spec [of _ _ _ _ _ nest]) (use h in \<open>simp add: with_mmu_def\<close>)
qed (simp add: adds_views_refl)

section \<open>The heap on the page tables\<close>

lemma page_run_views:
  assumes "heap_run (page_good bit1) (page_sbrk bit1 (Suc (Suc nest))) h0 h B u"
  shows "adds_views (kbrk h0) (kbrk h)"
proof (rule pages.run_source [OF assms, where R = adds_views])
  show "adds_views k k'" if "page_good bit1 n k" "drew (page_sbrk bit1 (Suc (Suc nest))) n k k'" for n k k'
    using that by (rule drew_adds_views)
  show "adds_views k k" for k by (rule adds_views_refl)
  show "adds_views k1 k3" if "adds_views k1 k2" "adds_views k2 k3" for k1 k2 k3
    using that by (rule adds_views_trans)
qed

lemma page_block_mapped:
  assumes run: "heap_run (page_good bit1) (page_sbrk bit1 (Suc (Suc nest))) h0 h B u"
    and b: "(p, n) \<in> B" and i: "i < unat n"
  shows "translate (kbrk h0) (p + of_nat i) = None"
    and "\<exists>q. translate (kbrk h) (p + of_nat i) = Some q \<and>
      (\<forall>a. translate (kbrk h) a = Some q \<longrightarrow> path_of a = path_of (p + of_nat i))"
proof -
  note c = client_block [OF pages.run_ok [OF run] b]
  have "unat p + i < 2 ^ 64" using c(2) i by (simp add: region_def)
  then have u: "unat (p + of_nat i) = unat p + i" by (subst unat_add_le) (simp_all add: unat_of_nat_u64)
  have "unat p + i \<in> span p (unat n)" using i by simp
  then have "unat (p + of_nat i) \<in> mapped (kbrk h) - mapped (kbrk h0)" unfolding u using c(3) by blast
  then show m: "translate (kbrk h0) (p + of_nat i) = None" by (simp add: mapped_iff)
  obtain q where q: "translate (kbrk h) (p + of_nat i) = Some q"
    using \<open>unat (p + of_nat i) \<in> mapped (kbrk h) - mapped (kbrk h0)\<close> by (auto simp: mapped_iff)
  have "path_of a = path_of (p + of_nat i)" if a: "translate (kbrk h) a = Some q" for a
  proof (rule ccontr)
    assume "path_of a \<noteq> path_of (p + of_nat i)"
    then have "translate (kbrk h0) (p + of_nat i) = Some q"
      using page_run_views [OF run] q a unfolding adds_views_def by metis
    then show False using m by simp
  qed
  then show "\<exists>q. translate (kbrk h) (p + of_nat i) = Some q \<and>
      (\<forall>a. translate (kbrk h) a = Some q \<longrightarrow> path_of a = path_of (p + of_nat i))" using q by blast
qed

lemma page_run_serves:
  assumes run: "heap_run (page_good bit1) (page_sbrk bit1 (Suc (Suc nest))) h0 h B u"
    and n: "unat n \<le> 0xFFF00000" and u: "u + unat (grow_size n) < 2 ^ 32" and good: "page_good bit1 (grow_size n) (kbrk h)"
  shows "\<exists>h' p. kmalloc (page_sbrk bit1 (Suc (Suc nest))) n h = Some (h', p) \<and> p \<noteq> 0"
proof -
  obtain cs where cs: "heap_ok mapped h cs" "heap_bytes cs \<le> u"
    using pages.run_ok [OF run] unfolding client_ok_def by blast
  have "heap_bytes cs + unat (grow_size n) < 2 ^ 32" using cs(2) u by linarith
  then obtain h' p cs' where r: "kmalloc (page_sbrk bit1 (Suc (Suc nest))) n h = Some (h', p)"
      "alloc_result (page_sbrk bit1 (Suc (Suc nest))) mapped n h cs h' p cs'"
    using kmalloc_ok [OF cs(1) pages.source good n] by blast
  have "p \<noteq> 0" using r(2) page_never_refuses [OF good, of nest] by (auto simp: alloc_result_def split: if_splits)
  then show ?thesis using r(1) by blast
qed


text \<open>Where the page tables can supply 64 pages, the heap starts.\<close>

lemma page_heap_starts:
  assumes bits: "bit_defined bit1" and can: "can_supply bit1 T NEW_ALLOC_SIZE (kbrk h) g"
  obtains h' T' g' where "kmalloc_init (page_sbrk bit1 (Suc (Suc nest))) h = Some (h', True)"
    "heap_run (page_good bit1) (page_sbrk bit1 (Suc (Suc nest))) h h' {} 0x40000"
    "supplied bit1 T' (kbrk h') g'" "g' \<le> g + 65"
    "card (spare bit1 (frames (kbrk h))) \<le> card (spare bit1 (frames (kbrk h'))) + 65"
proof -
  have k: "pages_of NEW_ALLOC_SIZE = 64" by (simp add: pages_of_def NEW_ALLOC_SIZE_def)
  obtain T' m g' p where m: "page_sbrk bit1 (Suc (Suc nest)) NEW_ALLOC_SIZE h =
      Some (with_mmu m h\<lparr>kmem := newly_mapped (kbrk h) m (kmem h)\<rparr>, p)"
      "p \<noteq> 0" "supplied bit1 T' m g'"
      "card (spare bit1 (frames (kbrk h))) \<le> card (spare bit1 (frames m)) + pages_of NEW_ALLOC_SIZE + 1"
      "g' \<le> g + pages_of NEW_ALLOC_SIZE + 1"
    by (rule page_sbrk_spec [OF bits can, of nest]) (rule that; assumption)
  obtain h' where h': "kmalloc_init (page_sbrk bit1 (Suc (Suc nest))) h = Some (h', True)" "kbrk h' = m"
    using m(1,2) by (simp add: kmalloc_init_def Let_def with_mmu_def)
  have "page_good bit1 NEW_ALLOC_SIZE (kbrk h)" unfolding page_good_def using bits can by blast
  then have "heap_run (page_good bit1) (page_sbrk bit1 (Suc (Suc nest))) h h' {} 0x40000"
    using h'(1) by (rule heap_run.boot)
  then show thesis using that [of h' T' g'] h' m(3-5) k by simp
qed

section \<open>A heap on the small machine\<close>

definition small_heap :: "mmu kheap" where
  "small_heap = \<lparr>kmem = (\<lambda>_. 0), kseed = (1, 2, 3, 4), kbrk = small_machine, khead = 0, kfinal = 0, ktotal = 0\<rparr>"

lemma small_heap_run:
  obtains h p where
    "heap_run (page_good shl_intended) (page_sbrk shl_intended (Suc (Suc 0))) small_heap h {(p, 100)} 0xC1000"
proof -
  let ?S = "page_sbrk shl_intended (Suc (Suc 0))" and ?good = "page_good shl_intended"
  have k: "pages_of NEW_ALLOC_SIZE = 64" "NEW_ALLOC_SIZE \<noteq> 0" by (simp_all add: pages_of_def NEW_ALLOC_SIZE_def)
  have can: "can_supply shl_intended small_tree NEW_ALLOC_SIZE (kbrk small_heap) 8"
    using small_can_supply k by (simp add: small_heap_def)
  obtain h1 T g where boot: "heap_run ?good ?S small_heap h1 {} 0x40000" and m: "supplied shl_intended T (kbrk h1) g" "g \<le> 8 + 65"
      "card (spare shl_intended (frames (kbrk small_heap))) \<le> card (spare shl_intended (frames (kbrk h1))) + 65"
    by (rule page_heap_starts [OF bit_defined_intended can, of 0]) blast
  have n: "unat (grow_size 100) = 0x81000"
    by (simp add: grow_size_def delta_page_def HEADER_def NEW_ALLOC_SIZE_def)
  have "can_supply shl_intended T (grow_size 100) (kbrk h1) g"
    using m small_spare n by (auto simp: can_supply_def pages_of_def small_heap_def)
  then have good1: "?good (grow_size 100) (kbrk h1)" unfolding page_good_def using bit_defined_intended by blast
  have u: "0x40000 + unat (grow_size 100) < 2 ^ 32" "unat (100 :: u64) \<le> 0xFFF00000" by (simp_all add: n)
  obtain h2 q where h2: "kmalloc ?S 100 h1 = Some (h2, q)" "q \<noteq> 0"
    using page_run_serves [OF boot u(2,1) good1] by blast
  have "heap_run ?good ?S small_heap h2 (if q = 0 then {} else insert (q, 100) {}) (0x40000 + unat (grow_size 100))"
    by (rule heap_run.alloc [of ?good ?S small_heap h1, OF boot u(2,1) good1 h2(1)])
  then show thesis using that h2(2) n by simp
qed


end
