(* ===== verification/RingBuffer.thy ===== *)
theory RingBuffer
  imports Prelude
begin

text \<open>
  The ring buffer of \<^verbatim>\<open>src/kernel/ringbuffer.c\<close>.  The record is the C struct; its
  \<^verbatim>\<open>buffer\<close> is the block that \<^verbatim>\<open>kmalloc\<close> returned, as the list of its bytes, or
  \<^term>\<open>None\<close> for a null pointer.  Reads and writes follow the source's loops, with every
  \<^verbatim>\<open>memcpy\<close> bounds-checked against the block.  The buffer is related to the abstract byte
  queue it implements; the interface the rest of the kernel relies on is the locale
  \<^verbatim>\<open>byte_fifo\<close>, interpreted here on the C operations.
\<close>

section \<open>State and operations\<close>

record ringbuffer =
  buffer :: "u8 list option"
  buffer_size :: u32
  read_ptr :: u32
  write_ptr :: u32

text \<open>
  \<^verbatim>\<open>kmalloc\<close> is passed in as the function from a size to the bytes of the block it returns.
\<close>

definition ringbuffer_init :: "(u32 \<Rightarrow> u8 list option) \<Rightarrow> u32 \<Rightarrow> bool \<times> ringbuffer" where
  "ringbuffer_init kmalloc n =
     (let rb = \<lparr>buffer = kmalloc n, buffer_size = 0, read_ptr = 0, write_ptr = 0\<rparr>
      in if buffer rb = None then (False, rb) else (True, rb\<lparr>buffer_size := n\<rparr>))"

definition ringbuffer_used :: "ringbuffer \<Rightarrow> u32" where
  "ringbuffer_used rb =
     (if write_ptr rb < read_ptr rb
      then (buffer_size rb - read_ptr rb) + write_ptr rb
      else write_ptr rb - read_ptr rb)"

definition ringbuffer_capacity :: "ringbuffer \<Rightarrow> u32" where
  "ringbuffer_capacity rb = buffer_size rb - 1"

definition ringbuffer_unused :: "ringbuffer \<Rightarrow> u32" where
  "ringbuffer_unused rb = ringbuffer_capacity rb - ringbuffer_used rb"

text \<open>The \<^verbatim>\<open>buffer_left\<close> of the write loop: how far one \<^verbatim>\<open>memcpy\<close> may go before wrapping.\<close>

definition write_left :: "ringbuffer \<Rightarrow> u32" where
  "write_left rb =
     (if read_ptr rb \<le> write_ptr rb
      then let left = buffer_size rb - write_ptr rb
           in if read_ptr rb = 0 \<and> 0 < left then left - 1 else left
      else read_ptr rb - write_ptr rb - 1)"

partial_function (option) ringbuffer_write_loop ::
  "ringbuffer \<Rightarrow> u8 list \<Rightarrow> u32 \<Rightarrow> (ringbuffer \<times> u32) option" where
  "ringbuffer_write_loop rb src len =
     (if len = 0 then Some (rb, len)
      else if write_left rb = 0 then Some (rb, len)
      else do {
        let write_len = min (min len (write_left rb)) (buffer_size rb - write_ptr rb);
        buf \<leftarrow> buffer rb;
        chunk \<leftarrow> slice src 0 (unat write_len);
        buf' \<leftarrow> blit buf (unat (write_ptr rb)) chunk;
        wp \<leftarrow> c_umod (write_ptr rb + write_len) (buffer_size rb);
        ringbuffer_write_loop (rb\<lparr>buffer := Some buf', write_ptr := wp\<rparr>)
          (drop (unat write_len) src) (len - write_len)
      })"

definition ringbuffer_write :: "ringbuffer \<Rightarrow> u8 list \<Rightarrow> u32 \<Rightarrow> (ringbuffer \<times> u32) option" where
  "ringbuffer_write rb src len = do {
     (rb', left) \<leftarrow> ringbuffer_write_loop rb src len;
     Some (rb', len - left)
   }"

definition read_avail :: "ringbuffer \<Rightarrow> u32" where
  "read_avail rb =
     (if write_ptr rb \<le> read_ptr rb then buffer_size rb - read_ptr rb
      else write_ptr rb - read_ptr rb)"

text \<open>
  The read loop.  The destination is the list of the bytes copied out so far; a null
  destination (\<^verbatim>\<open>dst = None\<close>) drops the bytes and only moves the pointer.
\<close>

partial_function (option) ringbuffer_read_loop ::
  "ringbuffer \<Rightarrow> u8 list option \<Rightarrow> u32 \<Rightarrow> (ringbuffer \<times> u8 list option \<times> u32) option" where
  "ringbuffer_read_loop rb dst len =
     (if len = 0 then Some (rb, dst, len)
      else if read_ptr rb = write_ptr rb then Some (rb, dst, len)
      else do {
        let read_len = min len (read_avail rb);
        dst' \<leftarrow> (case dst of
                   None \<Rightarrow> Some None
                 | Some out \<Rightarrow> do {
                     buf \<leftarrow> buffer rb;
                     chunk \<leftarrow> slice buf (unat (read_ptr rb)) (unat read_len);
                     Some (Some (out @ chunk))
                   });
        rp \<leftarrow> c_umod (read_ptr rb + read_len) (buffer_size rb);
        ringbuffer_read_loop (rb\<lparr>read_ptr := rp\<rparr>) dst' (len - read_len)
      })"

definition ringbuffer_read ::
  "ringbuffer \<Rightarrow> bool \<Rightarrow> u32 \<Rightarrow> (ringbuffer \<times> u8 list option \<times> u32) option" where
  "ringbuffer_read rb want len = do {
     (rb', out, left) \<leftarrow> ringbuffer_read_loop rb (if want then Some [] else None) len;
     Some (rb', out, len - left)
   }"

definition ringbuffer_isempty :: "ringbuffer \<Rightarrow> bool" where
  "ringbuffer_isempty rb \<longleftrightarrow> write_ptr rb = read_ptr rb"

definition ringbuffer_free :: "ringbuffer \<Rightarrow> ringbuffer" where
  "ringbuffer_free rb = \<lparr>buffer = None, buffer_size = 0, read_ptr = 0, write_ptr = 0\<rparr>"

section \<open>Invariant and abstraction\<close>

definition rb_inv :: "ringbuffer \<Rightarrow> bool" where
  "rb_inv rb \<longleftrightarrow>
     (\<exists>buf. buffer rb = Some buf \<and> length buf = unat (buffer_size rb)) \<and>
     read_ptr rb < buffer_size rb \<and> write_ptr rb < buffer_size rb"

definition rb_bytes :: "ringbuffer \<Rightarrow> u8 list" where
  "rb_bytes rb = (case buffer rb of None \<Rightarrow> [] | Some buf \<Rightarrow> buf)"

definition contents :: "ringbuffer \<Rightarrow> u8 list" where
  "contents rb =
     map (\<lambda>i. rb_bytes rb ! ((unat (read_ptr rb) + i) mod unat (buffer_size rb)))
       [0..<unat (ringbuffer_used rb)]"

lemma length_contents [simp]: "length (contents rb) = unat (ringbuffer_used rb)"
  by (simp add: contents_def)

lemma rb_inv_nat:
  assumes "rb_inv rb"
  shows "unat (read_ptr rb) < unat (buffer_size rb)" "unat (write_ptr rb) < unat (buffer_size rb)"
    "length (rb_bytes rb) = unat (buffer_size rb)" "buffer rb = Some (rb_bytes rb)"
    "buffer_size rb \<noteq> 0"
  using assms by (auto simp: rb_inv_def rb_bytes_def word_less_nat_alt)

lemma unat_used:
  assumes "rb_inv rb"
  shows "unat (ringbuffer_used rb) =
     (if unat (write_ptr rb) < unat (read_ptr rb)
      then unat (buffer_size rb) - unat (read_ptr rb) + unat (write_ptr rb)
      else unat (write_ptr rb) - unat (read_ptr rb))"
  using rb_inv_nat [OF assms] unat_u32_lt [of "buffer_size rb"]
  by (auto simp: ringbuffer_used_def word_less_nat_alt unat_word_ariths unat_sub_if')

lemma unat_used_lt: "rb_inv rb \<Longrightarrow> unat (ringbuffer_used rb) < unat (buffer_size rb)"
  using rb_inv_nat [of rb] by (auto simp: unat_used)

lemma unat_capacity: "rb_inv rb \<Longrightarrow> unat (ringbuffer_capacity rb) = unat (buffer_size rb) - 1"
  using rb_inv_nat [of rb] by (auto simp: ringbuffer_capacity_def unat_sub_le)

lemma unat_unused:
  "rb_inv rb \<Longrightarrow>
     unat (ringbuffer_unused rb) = unat (buffer_size rb) - 1 - unat (ringbuffer_used rb)"
  using unat_used_lt [of rb] by (simp add: ringbuffer_unused_def unat_sub_le unat_capacity)

lemma unat_write_left:
  assumes "rb_inv rb"
  shows "unat (write_left rb) =
     (if unat (read_ptr rb) \<le> unat (write_ptr rb)
      then unat (buffer_size rb) - unat (write_ptr rb) - (if unat (read_ptr rb) = 0 then 1 else 0)
      else unat (read_ptr rb) - unat (write_ptr rb) - 1)"
  using rb_inv_nat [OF assms]
  by (auto simp: write_left_def Let_def word_less_nat_alt word_le_nat_alt unat_sub_le unat_eq_0
      unat_sub_if')

lemma unat_read_avail:
  assumes "rb_inv rb"
  shows "unat (read_avail rb) =
     (if unat (write_ptr rb) \<le> unat (read_ptr rb)
      then unat (buffer_size rb) - unat (read_ptr rb)
      else unat (write_ptr rb) - unat (read_ptr rb))"
  using rb_inv_nat [OF assms] by (auto simp: read_avail_def word_le_nat_alt unat_sub_le)

section \<open>One trip through each loop\<close>

text \<open>
  A run of bytes stored at the write pointer, no longer than \<^verbatim>\<open>write_left\<close> and not past the end of
  the block, is appended to the queue.
\<close>

definition put_chunk :: "ringbuffer \<Rightarrow> u8 list \<Rightarrow> u32 \<Rightarrow> ringbuffer" where
  "put_chunk rb chunk wp =
     rb\<lparr>buffer := Some (take (unat (write_ptr rb)) (rb_bytes rb) @ chunk @
                       drop (unat (write_ptr rb) + length chunk) (rb_bytes rb)),
        write_ptr := wp\<rparr>"

lemma put_chunk_sel [simp]:
  "buffer_size (put_chunk rb chunk wp) = buffer_size rb"
  "read_ptr (put_chunk rb chunk wp) = read_ptr rb"
  "write_ptr (put_chunk rb chunk wp) = wp"
  "rb_bytes (put_chunk rb chunk wp) =
     take (unat (write_ptr rb)) (rb_bytes rb) @ chunk @
     drop (unat (write_ptr rb) + length chunk) (rb_bytes rb)"
  by (simp_all add: put_chunk_def rb_bytes_def)

definition put_ok :: "ringbuffer \<Rightarrow> u8 list \<Rightarrow> u32 \<Rightarrow> bool" where
  "put_ok rb chunk wp \<longleftrightarrow> rb_inv rb \<and> length chunk \<le> unat (write_left rb) \<and>
     unat (write_ptr rb) + length chunk \<le> unat (buffer_size rb) \<and>
     unat wp = (unat (write_ptr rb) + length chunk) mod unat (buffer_size rb)"

lemma put_okD:
  assumes "put_ok rb chunk wp"
  shows "rb_inv rb" "length chunk \<le> unat (write_left rb)"
    "unat (write_ptr rb) + length chunk \<le> unat (buffer_size rb)"
    "unat wp = (unat (write_ptr rb) + length chunk) mod unat (buffer_size rb)"
  using assms by (simp_all add: put_ok_def)

lemma put_chunk_inv: "put_ok rb chunk wp \<Longrightarrow> rb_inv (put_chunk rb chunk wp)"
  using rb_inv_nat [OF put_okD(1), of rb chunk wp] put_okD [of rb chunk wp]
  by (auto simp: rb_inv_def word_less_nat_alt put_chunk_def)

lemma put_chunk_used:
  "put_ok rb chunk wp \<Longrightarrow>
     unat (ringbuffer_used (put_chunk rb chunk wp)) = unat (ringbuffer_used rb) + length chunk"
  using rb_inv_nat [OF put_okD(1), of rb chunk wp] put_okD [of rb chunk wp]
  by (auto simp: unat_used put_chunk_inv unat_write_left mod_wrap_once split: if_splits)

text \<open>Where the indices of the old and of the new bytes fall, as arithmetic on \<^typ>\<open>nat\<close>.\<close>

lemma ring_old_index:
  fixes R W N k i :: nat
  assumes "R < N" "W < N" and "k \<le> (if R \<le> W then N - W - (if R = 0 then 1 else 0) else R - W - 1)"
    and "i < (if W < R then N - R + W else W - R)"
  shows "\<not> (W \<le> (R + i) mod N \<and> (R + i) mod N < W + k)"
  using assms by (auto simp: mod_wrap_once split: if_splits)

lemma ring_new_index:
  fixes R W N k i :: nat
  assumes "R < N" "W < N" "W + k \<le> N" and "(if W < R then N - R + W else W - R) = u"
    and "u \<le> i" "i < u + k"
  shows "(R + i) mod N = W + (i - u)"
  using assms by (auto simp: mod_wrap_once split: if_splits)

lemma put_chunk_nth:
  assumes "put_ok rb chunk wp" and "x < unat (buffer_size rb)"
  shows "rb_bytes (put_chunk rb chunk wp) ! x =
    (if unat (write_ptr rb) \<le> x \<and> x < unat (write_ptr rb) + length chunk
     then chunk ! (x - unat (write_ptr rb)) else rb_bytes rb ! x)"
  using assms rb_inv_nat(3) [OF put_okD(1) [OF assms(1)]] put_okD(3) [OF assms(1)]
  by (intro nth_blit) simp_all

lemma put_chunk_contents:
  assumes "put_ok rb chunk wp"
  shows "contents (put_chunk rb chunk wp) = contents rb @ chunk"
proof (rule nth_equalityI)
  show "length (contents (put_chunk rb chunk wp)) = length (contents rb @ chunk)"
    by (simp add: put_chunk_used assms)
next
  note ok = put_okD [OF assms]
  note nat = rb_inv_nat [OF ok(1)]
  let ?R = "unat (read_ptr rb)" and ?W = "unat (write_ptr rb)" and ?N = "unat (buffer_size rb)"
  let ?u = "unat (ringbuffer_used rb)"
  fix i
  assume "i < length (contents (put_chunk rb chunk wp))"
  then have i: "i < ?u + length chunk" by (simp add: put_chunk_used assms)
  have lt: "(?R + i) mod ?N < ?N" using nat(1) by simp
  have l: "contents (put_chunk rb chunk wp) ! i = rb_bytes (put_chunk rb chunk wp) ! ((?R + i) mod ?N)"
    using i by (simp add: contents_def put_chunk_used assms)
  show "contents (put_chunk rb chunk wp) ! i = (contents rb @ chunk) ! i"
  proof (cases "i < ?u")
    case True
    have "\<not> (?W \<le> (?R + i) mod ?N \<and> (?R + i) mod ?N < ?W + length chunk)"
      by (rule ring_old_index [OF nat(1,2) ok(2) [unfolded unat_write_left [OF ok(1)]]])
        (use True in \<open>simp add: unat_used ok(1)\<close>)
    then show ?thesis
      using True unfolding l put_chunk_nth [OF assms lt] by (auto simp: contents_def nth_append)
  next
    case False
    then have "(?R + i) mod ?N = ?W + (i - ?u)"
      by (intro ring_new_index [OF nat(1,2) ok(3) unat_used [OF ok(1), symmetric]]) (use i in simp_all)
    then show ?thesis
      using False i unfolding l put_chunk_nth [OF assms lt] by (auto simp: nth_append)
  qed
qed

lemma write_left_unused:
  "rb_inv rb \<Longrightarrow> unat (write_left rb) \<le> unat (ringbuffer_unused rb)"
  "rb_inv rb \<Longrightarrow> write_left rb = 0 \<Longrightarrow> unat (ringbuffer_unused rb) = 0"
  using rb_inv_nat [of rb] unat_write_left [of rb]
  by (auto simp: unat_unused unat_used split: if_splits)

lemma put_chunk_unused:
  "put_ok rb chunk wp \<Longrightarrow>
     unat (ringbuffer_unused (put_chunk rb chunk wp)) = unat (ringbuffer_unused rb) - length chunk"
  by (simp add: unat_unused put_chunk_inv put_okD(1) put_chunk_used)

text \<open>The length of one trip of the write loop, and that the trip is a \<^const>\<open>put_chunk\<close>.\<close>

definition write_len :: "ringbuffer \<Rightarrow> u32 \<Rightarrow> u32" where
  "write_len rb len = min (min len (write_left rb)) (buffer_size rb - write_ptr rb)"

lemma unat_write_len:
  assumes "rb_inv rb"
  shows "unat (write_len rb len) =
     min (min (unat len) (unat (write_left rb))) (unat (buffer_size rb) - unat (write_ptr rb))"
  using rb_inv_nat [OF assms] by (simp add: write_len_def unat_min unat_sub_le)

lemma write_len_pos:
  "rb_inv rb \<Longrightarrow> len \<noteq> 0 \<Longrightarrow> write_left rb \<noteq> 0 \<Longrightarrow> 0 < unat (write_len rb len)"
  using rb_inv_nat [of rb] by (simp add: unat_write_len unat_gt_0)

lemma write_len_put_ok:
  assumes "rb_inv rb" and "unat len \<le> length src"
  shows "put_ok rb (take (unat (write_len rb len)) src)
           ((write_ptr rb + write_len rb len) mod buffer_size rb)"
proof -
  have "unat (write_ptr rb) + unat (write_len rb len) \<le> unat (buffer_size rb)"
    using rb_inv_nat [OF assms(1)] by (simp add: unat_write_len assms(1))
  then show ?thesis
    using assms unat_u32_lt [of "buffer_size rb"]
    by (simp add: put_ok_def unat_write_len unat_mod unat_add_le)
qed

lemma write_loop_step:
  assumes "rb_inv rb" and "unat len \<le> length src" and "len \<noteq> 0" and "write_left rb \<noteq> 0"
  shows "ringbuffer_write_loop rb src len =
     ringbuffer_write_loop
       (put_chunk rb (take (unat (write_len rb len)) src)
         ((write_ptr rb + write_len rb len) mod buffer_size rb))
       (drop (unat (write_len rb len)) src) (len - write_len rb len)"
proof -
  have le: "unat (write_len rb len) \<le> length src"
    using assms(1,2) by (simp add: unat_write_len)
  have fits: "unat (write_ptr rb) + unat (write_len rb len) \<le> length (rb_bytes rb)"
    using rb_inv_nat [OF assms(1)] by (simp add: unat_write_len assms(1))
  show ?thesis
    using assms(3,4) le fits rb_inv_nat(4,5) [OF assms(1)]
    by (subst ringbuffer_write_loop.simps)
      (simp add: Let_def flip: write_len_def, simp add: slice_def blit_def c_umod_def put_chunk_def min_def)
qed

lemma write_loop_correct:
  assumes "rb_inv rb" and "unat len \<le> length src"
  shows "\<exists>rb' left. ringbuffer_write_loop rb src len = Some (rb', left) \<and> rb_inv rb' \<and>
     buffer_size rb' = buffer_size rb \<and>
     contents rb' = contents rb @ take (min (unat len) (unat (ringbuffer_unused rb))) src \<and>
     unat left = unat len - min (unat len) (unat (ringbuffer_unused rb))"
  using assms
proof (induction "unat len" arbitrary: rb src len rule: less_induct)
  case less
  consider "len = 0" | "len \<noteq> 0" "write_left rb = 0" | "len \<noteq> 0" "write_left rb \<noteq> 0" by blast
  then show ?case
  proof cases
    case 1
    then show ?thesis using less.prems by (subst ringbuffer_write_loop.simps) simp
  next
    case 2
    then show ?thesis
      using less.prems write_left_unused(2) [of rb] by (subst ringbuffer_write_loop.simps) simp
  next
    case 3
    let ?w = "write_len rb len"
    let ?rb = "put_chunk rb (take (unat ?w) src) ((write_ptr rb + ?w) mod buffer_size rb)"
    have ok: "put_ok rb (take (unat ?w) src) ((write_ptr rb + ?w) mod buffer_size rb)"
      using less.prems by (rule write_len_put_ok)
    have w: "0 < unat ?w" "unat ?w \<le> unat len" "unat ?w \<le> unat (ringbuffer_unused rb)"
      using write_len_pos [OF less.prems(1) 3] less.prems(1) write_left_unused(1) [of rb]
      by (simp_all add: unat_write_len)
    have lw: "unat (len - ?w) = unat len - unat ?w" using w by (simp add: unat_sub_le)
    have src: "length (take (unat ?w) src) = unat ?w" using w less.prems(2) by simp
    have rest: "unat (len - ?w) \<le> length (drop (unat ?w) src)"
      using less.prems(2) by (simp add: lw diff_le_mono)
    have lt: "unat (len - ?w) < unat len" using w lw by simp
    obtain rb' left where IH: "ringbuffer_write_loop ?rb (drop (unat ?w) src) (len - ?w) = Some (rb', left)"
        "rb_inv rb'" "buffer_size rb' = buffer_size ?rb"
        "contents rb' = contents ?rb @
           take (min (unat (len - ?w)) (unat (ringbuffer_unused ?rb))) (drop (unat ?w) src)"
        "unat left = unat (len - ?w) - min (unat (len - ?w)) (unat (ringbuffer_unused ?rb))"
      using less.hyps [OF lt put_chunk_inv [OF ok] rest] by blast
    have sum: "min (unat len) (unat (ringbuffer_unused rb)) =
        unat ?w + min (unat (len - ?w)) (unat (ringbuffer_unused ?rb))"
      unfolding put_chunk_unused [OF ok] src lw using w by linarith
    have "contents rb' = contents rb @ take (min (unat len) (unat (ringbuffer_unused rb))) src"
      unfolding IH(4) put_chunk_contents [OF ok] sum take_add by simp
    moreover have "unat left = unat len - min (unat len) (unat (ringbuffer_unused rb))"
      unfolding IH(5) sum using lw by simp
    ultimately show ?thesis
      using IH(1-3) write_loop_step [OF less.prems 3] by simp
  qed
qed

text \<open>The same for the read loop: a trip takes a run off the front of the queue.\<close>

definition read_len :: "ringbuffer \<Rightarrow> u32 \<Rightarrow> u32" where
  "read_len rb len = min len (read_avail rb)"

definition advance :: "ringbuffer \<Rightarrow> u32 \<Rightarrow> ringbuffer" where
  "advance rb n = rb\<lparr>read_ptr := (read_ptr rb + n) mod buffer_size rb\<rparr>"

lemma advance_sel [simp]:
  "buffer_size (advance rb n) = buffer_size rb" "write_ptr (advance rb n) = write_ptr rb"
  "rb_bytes (advance rb n) = rb_bytes rb" "buffer (advance rb n) = buffer rb"
  "read_ptr (advance rb n) = (read_ptr rb + n) mod buffer_size rb"
  by (simp_all add: advance_def rb_bytes_def)

definition take_ok :: "ringbuffer \<Rightarrow> u32 \<Rightarrow> bool" where
  "take_ok rb n \<longleftrightarrow> rb_inv rb \<and> unat n \<le> unat (ringbuffer_used rb) \<and>
     unat (read_ptr rb) + unat n \<le> unat (buffer_size rb)"

lemma take_okD:
  "take_ok rb n \<Longrightarrow> rb_inv rb" "take_ok rb n \<Longrightarrow> unat n \<le> unat (ringbuffer_used rb)"
  "take_ok rb n \<Longrightarrow> unat (read_ptr rb) + unat n \<le> unat (buffer_size rb)"
  by (simp_all add: take_ok_def)

lemma advance_read_ptr:
  assumes "take_ok rb n"
  shows "unat (read_ptr (advance rb n)) = (unat (read_ptr rb) + unat n) mod unat (buffer_size rb)"
  using take_okD(3) [OF assms] unat_u32_lt [of "buffer_size rb"] by (simp add: unat_mod unat_add_le)

lemma advance_inv:
  assumes "take_ok rb n"
  shows "rb_inv (advance rb n)"
  using rb_inv_nat [OF take_okD(1) [OF assms]] advance_read_ptr [OF assms]
  by (simp add: rb_inv_def word_less_nat_alt del: advance_sel(5))

lemma advance_used:
  assumes "take_ok rb n"
  shows "unat (ringbuffer_used (advance rb n)) = unat (ringbuffer_used rb) - unat n"
  using rb_inv_nat [OF take_okD(1) [OF assms]] take_okD [OF assms] advance_read_ptr [OF assms]
  by (auto simp: unat_used advance_inv assms mod_wrap_once split: if_splits)

lemma take_contents:
  assumes "take_ok rb n"
  shows "take (unat n) (contents rb) = take (unat n) (drop (unat (read_ptr rb)) (rb_bytes rb))"
proof (rule nth_equalityI)
  show "length (take (unat n) (contents rb)) =
      length (take (unat n) (drop (unat (read_ptr rb)) (rb_bytes rb)))"
    using rb_inv_nat [OF take_okD(1) [OF assms]] take_okD [OF assms] by simp
next
  fix i
  assume "i < length (take (unat n) (contents rb))"
  then have i: "i < unat n" "i < unat (ringbuffer_used rb)" by simp_all
  then show "take (unat n) (contents rb) ! i = take (unat n) (drop (unat (read_ptr rb)) (rb_bytes rb)) ! i"
    using rb_inv_nat [OF take_okD(1) [OF assms]] take_okD(3) [OF assms] by (simp add: contents_def)
qed

lemma advance_contents:
  assumes "take_ok rb n"
  shows "contents (advance rb n) = drop (unat n) (contents rb)"
proof (rule nth_equalityI)
  show "length (contents (advance rb n)) = length (drop (unat n) (contents rb))"
    by (simp add: advance_used assms)
next
  fix i
  assume "i < length (contents (advance rb n))"
  then have i: "i < unat (ringbuffer_used rb) - unat n" "unat n + i < unat (ringbuffer_used rb)"
    by (simp_all add: advance_used assms)
  have "(unat (read_ptr (advance rb n)) + i) mod unat (buffer_size rb)
      = (unat (read_ptr rb) + (unat n + i)) mod unat (buffer_size rb)"
    unfolding advance_read_ptr [OF assms] by (simp add: mod_simps add.assoc)
  then show "contents (advance rb n) ! i = drop (unat n) (contents rb) ! i"
    using i by (simp add: contents_def advance_used assms del: advance_sel(5))
qed

lemma read_len_take_ok:
  assumes "rb_inv rb" and "read_ptr rb \<noteq> write_ptr rb"
  shows "take_ok rb (read_len rb len)"
proof -
  have "unat (read_ptr rb) \<noteq> unat (write_ptr rb)" using assms(2) unsigned_word_eqI by blast
  then show ?thesis
    using rb_inv_nat(1,2) [OF assms(1)] assms(1)
    by (simp add: take_ok_def read_len_def unat_min unat_read_avail unat_used) linarith
qed

lemma read_loop_step:
  assumes "rb_inv rb" and "len \<noteq> 0" and "read_ptr rb \<noteq> write_ptr rb"
  shows "ringbuffer_read_loop rb dst len =
     ringbuffer_read_loop (advance rb (read_len rb len))
       (map_option (\<lambda>out. out @ take (unat (read_len rb len)) (contents rb)) dst)
       (len - read_len rb len)"
  using assms(2,3) rb_inv_nat [OF assms(1)] take_okD(3) [OF read_len_take_ok [OF assms(1,3)], of len]
  by (subst ringbuffer_read_loop.simps)
    (simp add: Let_def take_contents read_len_take_ok assms(1,3) flip: read_len_def,
     auto simp: slice_def c_umod_def advance_def split: option.splits)

lemma read_loop_correct:
  assumes "rb_inv rb"
  shows "\<exists>rb' left. ringbuffer_read_loop rb dst len = Some (rb',
        map_option (\<lambda>out. out @ take (min (unat len) (unat (ringbuffer_used rb))) (contents rb)) dst, left) \<and>
     rb_inv rb' \<and> buffer_size rb' = buffer_size rb \<and>
     contents rb' = drop (min (unat len) (unat (ringbuffer_used rb))) (contents rb) \<and>
     unat left = unat len - min (unat len) (unat (ringbuffer_used rb))"
  using assms
proof (induction "unat len" arbitrary: rb dst len rule: less_induct)
  case less
  consider "len = 0" | "len \<noteq> 0" "read_ptr rb = write_ptr rb" | "len \<noteq> 0" "read_ptr rb \<noteq> write_ptr rb"
    by blast
  then show ?case
  proof cases
    case 1
    then show ?thesis using less.prems
      by (subst ringbuffer_read_loop.simps) (cases dst; simp)
  next
    case 2
    then show ?thesis using less.prems
      by (subst ringbuffer_read_loop.simps) (cases dst; simp add: unat_used)
  next
    case 3
    let ?w = "read_len rb len"
    let ?d = "map_option (\<lambda>out. out @ take (unat ?w) (contents rb)) dst"
    have ok: "take_ok rb ?w" using less.prems 3(2) by (rule read_len_take_ok)
    have "unat (read_ptr rb) \<noteq> unat (write_ptr rb)" using 3(2) unsigned_word_eqI by blast
    then have w: "0 < unat ?w" "unat ?w \<le> unat len" "unat ?w \<le> unat (ringbuffer_used rb)"
      using rb_inv_nat(1,2) [OF less.prems] 3(1) take_okD(2) [OF ok]
      by (auto simp: read_len_def unat_min unat_read_avail less.prems unat_gt_0)
    have lw: "unat (len - ?w) = unat len - unat ?w" using w by (simp add: unat_sub_le)
    obtain rb' left where IH: "ringbuffer_read_loop (advance rb ?w) ?d (len - ?w) = Some (rb',
        map_option (\<lambda>out. out @ take (min (unat (len - ?w)) (unat (ringbuffer_used (advance rb ?w))))
          (contents (advance rb ?w))) ?d, left)"
        "rb_inv rb'" "buffer_size rb' = buffer_size rb"
        "contents rb' = drop (min (unat (len - ?w)) (unat (ringbuffer_used (advance rb ?w))))
          (contents (advance rb ?w))"
        "unat left = unat (len - ?w) - min (unat (len - ?w)) (unat (ringbuffer_used (advance rb ?w)))"
      using less.hyps [of "len - ?w" "advance rb ?w" ?d] advance_inv [OF ok] w lw by auto
    have sum: "min (unat len) (unat (ringbuffer_used rb)) =
        unat ?w + min (unat (len - ?w)) (unat (ringbuffer_used (advance rb ?w)))"
      using w lw by (simp add: advance_used [OF ok])
    have "unat left = unat len - min (unat len) (unat (ringbuffer_used rb))"
      unfolding IH(5) sum using lw by simp
    moreover have "contents rb' = drop (min (unat len) (unat (ringbuffer_used rb))) (contents rb)"
      unfolding IH(4) sum advance_contents [OF ok] by (simp add: add.commute)
    ultimately show ?thesis
      using IH(1-3) unfolding read_loop_step [OF less.prems 3] sum take_add
      by (cases dst) (simp_all add: advance_contents [OF ok])
  qed
qed

section \<open>The queue interface\<close>

text \<open>
  What a client of the buffer relies on: a queue of bytes of fixed capacity that accepts as much
  of a message as there is room for and delivers bytes in the order they were accepted.
  \<^verbatim>\<open>fifo_run\<close> performs a sequence of calls and collects what was accepted and what came out.
\<close>

datatype fifo_op = Push "u8 list" | Pop nat

fun op_fits :: "fifo_op \<Rightarrow> bool" where
  "op_fits (Push xs) \<longleftrightarrow> length xs < 2 ^ 32"
| "op_fits (Pop n) \<longleftrightarrow> n < 2 ^ 32"

fun fifo_run ::
  "('q \<Rightarrow> u8 list \<Rightarrow> ('q \<times> nat) option) \<Rightarrow> ('q \<Rightarrow> nat \<Rightarrow> ('q \<times> u8 list) option) \<Rightarrow>
   'q \<Rightarrow> fifo_op list \<Rightarrow> ('q \<times> u8 list \<times> u8 list) option" where
  "fifo_run push pop q [] = Some (q, [], [])"
| "fifo_run push pop q (Push xs # ops) = do {
     (q1, n) \<leftarrow> push q xs;
     (q2, acc, out) \<leftarrow> fifo_run push pop q1 ops;
     Some (q2, take n xs @ acc, out)
   }"
| "fifo_run push pop q (Pop n # ops) = do {
     (q1, xs) \<leftarrow> pop q n;
     (q2, acc, out) \<leftarrow> fifo_run push pop q1 ops;
     Some (q2, acc, xs @ out)
   }"

locale byte_fifo =
  fixes inv :: "'q \<Rightarrow> bool"
    and items :: "'q \<Rightarrow> u8 list"
    and cap :: "'q \<Rightarrow> nat"
    and push :: "'q \<Rightarrow> u8 list \<Rightarrow> ('q \<times> nat) option"
    and pop :: "'q \<Rightarrow> nat \<Rightarrow> ('q \<times> u8 list) option"
  assumes push_law: "inv q \<Longrightarrow> length xs < 2 ^ 32 \<Longrightarrow>
      \<exists>q'. push q xs = Some (q', min (length xs) (cap q - length (items q))) \<and> inv q' \<and>
        cap q' = cap q \<and> items q' = items q @ take (cap q - length (items q)) xs"
    and pop_law: "inv q \<Longrightarrow> n < 2 ^ 32 \<Longrightarrow>
      \<exists>q'. pop q n = Some (q', take n (items q)) \<and> inv q' \<and>
        cap q' = cap q \<and> items q' = drop n (items q)"
    and within_cap: "inv q \<Longrightarrow> length (items q) \<le> cap q"
begin

lemma run_conserves:
  assumes "inv q" and "list_all op_fits ops"
  shows "\<exists>q' acc out. fifo_run push pop q ops = Some (q', acc, out) \<and> inv q' \<and>
     cap q' = cap q \<and> items q @ acc = out @ items q'"
  using assms
proof (induction ops arbitrary: q)
  case Nil
  then show ?case by simp
next
  case (Cons op ops)
  show ?case
  proof (cases op)
    case (Push xs)
    with Cons.prems obtain q1 where q1: "push q xs = Some (q1, min (length xs) (cap q - length (items q)))"
      "inv q1" "cap q1 = cap q" "items q1 = items q @ take (cap q - length (items q)) xs"
      using push_law [of q xs] by auto
    with Cons.IH [of q1] Cons.prems Push show ?thesis by (auto simp: min_def)
  next
    case (Pop n)
    with Cons.prems obtain q1 where q1: "pop q n = Some (q1, take n (items q))"
      "inv q1" "cap q1 = cap q" "items q1 = drop n (items q)"
      using pop_law [of q n] by auto
    with Cons.IH [of q1] Cons.prems Pop show ?thesis
      by (auto simp: append_assoc) (metis append_assoc append_take_drop_id)
  qed
qed

lemma push_then_pop:
  assumes "inv q" and "items q = []" and "length xs \<le> cap q" and "length xs < 2 ^ 32"
  shows "\<exists>q1 q2. push q xs = Some (q1, length xs) \<and> pop q1 (length xs) = Some (q2, xs) \<and>
     items q2 = []"
proof -
  obtain q1 where q1: "push q xs = Some (q1, length xs)" "inv q1" "items q1 = xs"
    using push_law [OF assms(1,4)] assms by auto
  then show ?thesis using pop_law [OF q1(2) assms(4)] by auto
qed

end

text \<open>The C operations as such a queue, with the calls' length arguments spelled out.\<close>

definition rb_push :: "ringbuffer \<Rightarrow> u8 list \<Rightarrow> (ringbuffer \<times> nat) option" where
  "rb_push rb xs = do {
     (rb', n) \<leftarrow> ringbuffer_write rb xs (of_nat (length xs));
     Some (rb', unat n)
   }"

definition rb_pop :: "ringbuffer \<Rightarrow> nat \<Rightarrow> (ringbuffer \<times> u8 list) option" where
  "rb_pop rb n = do {
     (rb', out, k) \<leftarrow> ringbuffer_read rb True (of_nat n);
     Some (rb', case out of None \<Rightarrow> [] | Some xs \<Rightarrow> xs)
   }"

definition rb_cap :: "ringbuffer \<Rightarrow> nat" where
  "rb_cap rb = unat (ringbuffer_capacity rb)"

lemma rb_cap_eq: "rb_inv rb \<Longrightarrow> rb_cap rb = unat (buffer_size rb) - 1"
  by (simp add: rb_cap_def unat_capacity)

lemma ringbuffer_write_Some:
  assumes "rb_inv rb" and "unat len \<le> length src"
  shows "\<exists>rb' n. ringbuffer_write rb src len = Some (rb', n) \<and>
     unat n = min (unat len) (rb_cap rb - length (contents rb)) \<and> rb_inv rb' \<and>
     rb_cap rb' = rb_cap rb \<and> contents rb' = contents rb @ take (unat n) src"
proof -
  obtain rb' left where w: "ringbuffer_write_loop rb src len = Some (rb', left)" "rb_inv rb'"
      "buffer_size rb' = buffer_size rb"
      "contents rb' = contents rb @ take (min (unat len) (unat (ringbuffer_unused rb))) src"
      "unat left = unat len - min (unat len) (unat (ringbuffer_unused rb))"
    using write_loop_correct [OF assms] by blast
  have "unat (len - left) = min (unat len) (unat (ringbuffer_unused rb))"
    using w(5) by (simp add: unat_sub_le)
  moreover have "unat (ringbuffer_unused rb) = rb_cap rb - length (contents rb)"
    by (simp add: unat_unused rb_cap_eq assms(1))
  ultimately show ?thesis using w by (simp add: ringbuffer_write_def rb_cap_def ringbuffer_capacity_def)
qed

lemma ringbuffer_read_Some:
  assumes "rb_inv rb"
  shows "\<exists>rb' n. ringbuffer_read rb want len =
       Some (rb', if want then Some (take (unat n) (contents rb)) else None, n) \<and>
     unat n = min (unat len) (length (contents rb)) \<and> rb_inv rb' \<and>
     rb_cap rb' = rb_cap rb \<and> contents rb' = drop (unat n) (contents rb)"
proof -
  let ?k = "min (unat len) (unat (ringbuffer_used rb))"
  obtain rb' left where r: "ringbuffer_read_loop rb (if want then Some [] else None) len =
        Some (rb', map_option (\<lambda>out. out @ take ?k (contents rb)) (if want then Some [] else None), left)"
      "rb_inv rb'" "buffer_size rb' = buffer_size rb" "contents rb' = drop ?k (contents rb)"
      "unat left = unat len - ?k"
    using read_loop_correct [OF assms, of "if want then Some [] else None" len] by blast
  have "unat (len - left) = ?k" using r(5) by (simp add: unat_sub_le)
  with r show ?thesis
    by (simp add: ringbuffer_read_def rb_cap_def ringbuffer_capacity_def)
qed

interpretation rb: byte_fifo rb_inv contents rb_cap rb_push rb_pop
proof unfold_locales
  fix rb :: ringbuffer and xs :: "u8 list"
  assume "rb_inv rb" "length xs < 2 ^ 32"
  then show "\<exists>rb'. rb_push rb xs = Some (rb', min (length xs) (rb_cap rb - length (contents rb))) \<and>
      rb_inv rb' \<and> rb_cap rb' = rb_cap rb \<and>
      contents rb' = contents rb @ take (rb_cap rb - length (contents rb)) xs"
    using ringbuffer_write_Some [of rb "of_nat (length xs)" xs] unat_of_nat_u32 [of "length xs"]
    by (auto simp: rb_push_def min_def)
next
  fix rb :: ringbuffer and n :: nat
  assume "rb_inv rb" "n < 2 ^ 32"
  then show "\<exists>rb'. rb_pop rb n = Some (rb', take n (contents rb)) \<and> rb_inv rb' \<and>
      rb_cap rb' = rb_cap rb \<and> contents rb' = drop n (contents rb)"
    using ringbuffer_read_Some [of rb True "of_nat n"] unat_of_nat_u32 [of n]
    by (auto simp: rb_pop_def min_def)
next
  fix rb :: ringbuffer
  assume "rb_inv rb"
  then show "length (contents rb) \<le> rb_cap rb"
    using unat_used_lt [of rb] by (simp add: rb_cap_eq)
qed

section \<open>The built-in self test\<close>

text \<open>
  \<^verbatim>\<open>ringbuffer_test\<close>: the strings carry their terminating zero; \<^verbatim>\<open>memcmp\<close> against a literal is
  equality of the leading bytes.
\<close>

definition ringbuffer_test :: "(u32 \<Rightarrow> u8 list option) \<Rightarrow> unit option" where
  "ringbuffer_test kmalloc = do {
     let (ok, rb) = ringbuffer_init kmalloc 6;
     c_assert ok;
     (rb, n) \<leftarrow> ringbuffer_write rb [97, 98, 0] 2; c_assert (2 = n);
     (rb, n) \<leftarrow> ringbuffer_write rb [99, 100, 0] 2; c_assert (2 = n);
     (rb, n) \<leftarrow> ringbuffer_write rb [101, 102, 0] 2; c_assert (1 = n);
     (rb, n) \<leftarrow> ringbuffer_write rb [103, 104, 0] 2; c_assert (0 = n);
     (rb, out, n) \<leftarrow> ringbuffer_read rb True 2; c_assert (2 = n);
     c_assert (out = Some [97, 98]);
     (rb, out, n) \<leftarrow> ringbuffer_read rb True 2; c_assert (2 = n);
     c_assert (out = Some [99, 100]);
     (rb, out, n) \<leftarrow> ringbuffer_read rb True 2; c_assert (1 = n);
     c_assert (out = Some [101]);
     (rb, out, n) \<leftarrow> ringbuffer_read rb True 2; c_assert (0 = n);
     let rb = ringbuffer_free rb;
     Some ()
   }"

section \<open>Properties\<close>

text \<open>
  C29 (ringbuffer_write_appends): on a well-formed buffer \<^verbatim>\<open>ringbuffer_write\<close> always returns, never touches
  memory outside its block, accepts exactly \<open>min len unused\<close> bytes, and appends exactly that
  prefix of the input to the queue of stored bytes; the buffer stays well-formed.
\<close>

theorem ringbuffer_write_appends:
  assumes "rb_inv rb" and "unat len \<le> length src"
  shows "\<exists>rb' n. ringbuffer_write rb src len = Some (rb', n) \<and>
     unat n = min (unat len) (unat (ringbuffer_unused rb)) \<and>
     contents rb' = contents rb @ take (unat n) src \<and>
     rb_inv rb' \<and> unat (ringbuffer_unused rb') = unat (ringbuffer_unused rb) - unat n"
proof -
  have un: "unat (ringbuffer_unused q) = rb_cap q - length (contents q)" if "rb_inv q" for q
    using that by (simp add: unat_unused rb_cap_eq)
  obtain rb' n where "ringbuffer_write rb src len = Some (rb', n)"
      "unat n = min (unat len) (rb_cap rb - length (contents rb))" "rb_inv rb'"
      "rb_cap rb' = rb_cap rb" "contents rb' = contents rb @ take (unat n) src"
    using ringbuffer_write_Some [OF assms] by blast
  then show ?thesis using un [of rb] un [of rb'] assms by (auto simp: min_def)
qed

theorem ringbuffer_write_appends_witness:
  "\<exists>rb' n. ringbuffer_write \<lparr>buffer = Some [1, 2, 3, 4], buffer_size = 4, read_ptr = 3, write_ptr = 2\<rparr>
       [7, 8] 2 = Some (rb', n) \<and> unat n = 0"
proof -
  let ?rb = "\<lparr>buffer = Some [1, 2, 3, 4 :: u8], buffer_size = 4, read_ptr = 3, write_ptr = 2\<rparr>"
  have "rb_inv ?rb" by (simp add: rb_inv_def)
  moreover have "unat (2 :: u32) \<le> length [7, 8 :: u8]" by simp
  ultimately show ?thesis
    using ringbuffer_write_appends [of ?rb 2 "[7, 8]"]
    by (fastforce simp: ringbuffer_unused_def ringbuffer_capacity_def ringbuffer_used_def)
qed

text \<open>
  C30 (ringbuffer_read_takes): on a well-formed buffer \<^verbatim>\<open>ringbuffer_read\<close> always returns, hands out exactly
  the \<open>min len used\<close> oldest bytes in order (or drops them when the destination is null), and
  leaves the rest queued.
\<close>

theorem ringbuffer_read_takes:
  assumes "rb_inv rb"
  shows "\<exists>rb' n. ringbuffer_read rb want len =
       Some (rb', if want then Some (take (unat n) (contents rb)) else None, n) \<and>
     unat n = min (unat len) (unat (ringbuffer_used rb)) \<and>
     contents rb' = drop (unat n) (contents rb) \<and> rb_inv rb' \<and>
     (ringbuffer_isempty rb' \<longleftrightarrow> unat (ringbuffer_used rb) \<le> unat len)"
proof -
  have em: "ringbuffer_isempty q \<longleftrightarrow> contents q = []" if "rb_inv q" for q
    using rb_inv_nat(1,2) [OF that]
    by (auto simp: ringbuffer_isempty_def unat_used that simp flip: length_0_conv
        intro: unsigned_word_eqI split: if_splits)
  obtain rb' n where "ringbuffer_read rb want len =
        Some (rb', if want then Some (take (unat n) (contents rb)) else None, n)"
      "unat n = min (unat len) (length (contents rb))" "rb_inv rb'"
      "contents rb' = drop (unat n) (contents rb)"
    using ringbuffer_read_Some [OF assms] by blast
  then show ?thesis
    using em [of rb'] by (intro exI [of _ rb'] exI [of _ n]) (auto simp: min_def)
qed

theorem ringbuffer_read_takes_witness:
  "\<exists>rb' n. ringbuffer_read \<lparr>buffer = Some [1, 2, 3, 4], buffer_size = 4, read_ptr = 3, write_ptr = 1\<rparr>
       True 9 = Some (rb', Some (take (unat n) [4, 1]), n) \<and> unat n = 2"
proof -
  let ?rb = "\<lparr>buffer = Some [1, 2, 3, 4 :: u8], buffer_size = 4, read_ptr = 3, write_ptr = 1\<rparr>"
  have "rb_inv ?rb" by (simp add: rb_inv_def)
  then show ?thesis
    using ringbuffer_read_takes [of ?rb True 9]
    by (fastforce simp: contents_def ringbuffer_used_def rb_bytes_def upt_rec)
qed

text \<open>
  C5 (ringbuffer_stream): over any sequence of writes and reads no byte is lost, duplicated or reordered:
  what was stored at the start followed by everything accepted is everything delivered
  followed by what is still stored.
\<close>

theorem ringbuffer_stream:
  assumes "rb_inv rb" and "list_all op_fits ops"
  shows "\<exists>rb' accepted delivered. fifo_run rb_push rb_pop rb ops = Some (rb', accepted, delivered) \<and>
     rb_inv rb' \<and> contents rb @ accepted = delivered @ contents rb'"
  using rb.run_conserves [OF assms] by blast

theorem ringbuffer_stream_witness:
  "\<exists>rb' accepted delivered. fifo_run rb_push rb_pop
       \<lparr>buffer = Some [0, 0, 0], buffer_size = 3, read_ptr = 0, write_ptr = 0\<rparr>
       [Push [1, 2, 3], Pop 1, Push [4, 5]] = Some (rb', accepted, delivered) \<and>
     accepted = delivered @ contents rb'"
proof -
  let ?rb = "\<lparr>buffer = Some [0, 0, 0 :: u8], buffer_size = 3, read_ptr = 0, write_ptr = 0\<rparr>"
  have "rb_inv ?rb" and "contents ?rb = []"
    by (simp_all add: rb_inv_def contents_def ringbuffer_used_def)
  moreover have "list_all op_fits [Push [1, 2, 3], Pop 1, Push [4, 5]]" by simp
  ultimately show ?thesis
    using ringbuffer_stream [of ?rb "[Push [1, 2, 3], Pop 1, Push [4, 5]]"] by force
qed

text \<open>
  When the allocation succeeds, \<^verbatim>\<open>ringbuffer_init\<close> produces a well-formed empty
  buffer with room for one byte less than the block.
\<close>

lemma ringbuffer_init_empty:
  assumes "kmalloc n = Some buf" and "length buf = unat n" and "n \<noteq> 0"
  shows "\<exists>rb. ringbuffer_init kmalloc n = (True, rb) \<and> rb_inv rb \<and> contents rb = [] \<and>
     ringbuffer_isempty rb \<and> ringbuffer_unused rb = n - 1"
  using assms
  by (simp add: ringbuffer_init_def rb_inv_def contents_def ringbuffer_used_def
      ringbuffer_isempty_def ringbuffer_unused_def ringbuffer_capacity_def word_neq_0_conv)

lemma ringbuffer_init_empty_witness:
  "\<exists>rb. ringbuffer_init (\<lambda>n. Some (replicate (unat n) 0)) 6 = (True, rb) \<and> rb_inv rb \<and>
     ringbuffer_unused rb = 5"
  using ringbuffer_init_empty [of "\<lambda>n. Some (replicate (unat n) 0)" 6 "replicate (unat (6 :: u32)) 0"]
  by auto

text \<open>
  A buffer initialised with size zero reports \<open>2^32 - 1\<close> unused bytes although
  every write to it accepts nothing: \<^verbatim>\<open>ringbuffer_capacity\<close> wraps around.
\<close>

lemma ringbuffer_zero_size:
  assumes "kmalloc 0 = Some buf"
  shows "\<exists>rb. ringbuffer_init kmalloc 0 = (True, rb) \<and> ringbuffer_unused rb = 0xFFFFFFFF \<and>
     ringbuffer_write rb src len = Some (rb, 0)"
  using assms
  by (simp add: ringbuffer_init_def ringbuffer_unused_def ringbuffer_capacity_def ringbuffer_used_def
      ringbuffer_write_def ringbuffer_write_loop.simps write_left_def)

lemma ringbuffer_zero_size_witness:
  "\<exists>rb. ringbuffer_init (\<lambda>n. Some []) 0 = (True, rb) \<and> ringbuffer_write rb [1] 1 = Some (rb, 0)"
  using ringbuffer_zero_size [of "\<lambda>n. Some []" "[]" "[1]" 1] by auto

text \<open>
  The self test of the source passes whenever \<^verbatim>\<open>kmalloc\<close> supplies its block.
\<close>

lemma ringbuffer_test_passes:
  assumes "kmalloc 6 = Some buf" and "length buf = 6"
  shows "ringbuffer_test kmalloc = Some ()"
proof -
  obtain a b c d e f where "buf = [a, b, c, d, e, f]"
    using assms(2) by (auto simp: length_Suc_conv eval_nat_numeral)
  then show ?thesis
    using assms(1)
    by (simp add: ringbuffer_test_def ringbuffer_init_def ringbuffer_write_def ringbuffer_read_def
        ringbuffer_write_loop.simps ringbuffer_read_loop.simps write_left_def read_avail_def
        slice_def blit_def c_umod_def Let_def min_def)
      (simp add: word_le_nat_alt)
qed

lemma ringbuffer_test_passes_witness:
  "ringbuffer_test (\<lambda>n. Some (replicate (unat n) 0)) = Some ()"
  by (rule ringbuffer_test_passes [of _ "replicate 6 0"]) simp_all

end
