(* ===== verification/Idt.thy ===== *)
theory Idt
  imports Kprintf
begin

text \<open>
  Interrupts, \<^verbatim>\<open>arch/amd64/idt.c\<close>: the descriptor table, the pair of 8259A interrupt controllers
  behind ports \<^verbatim>\<open>0x20\<close>, \<^verbatim>\<open>0x21\<close>, \<^verbatim>\<open>0xA0\<close>, \<^verbatim>\<open>0xA1\<close>, and the dispatch to installed handlers.  The
  arrays \<^verbatim>\<open>idt\<close> and \<^verbatim>\<open>list_of_handlers\<close> are lists of 256 elements; a handler acts on the bus trace
  and on the part \<open>'s\<close> of the kernel state that it owns.  The addresses of the assembler stubs
  \<^verbatim>\<open>isr0\<close>, \<dots>, \<^verbatim>\<open>isr255\<close> are the parameter \<^verbatim>\<open>isr\<close>.
\<close>

section \<open>The interrupt controllers\<close>

definition MASTER_PIC_COMMAND_PORT :: u16 where "MASTER_PIC_COMMAND_PORT = 0x20"
definition MASTER_PIC_DATA_PORT :: u16 where "MASTER_PIC_DATA_PORT = 0x21"
definition SLAVE_PIC_COMMAND_PORT :: u16 where "SLAVE_PIC_COMMAND_PORT = 0xA0"
definition SLAVE_PIC_DATA_PORT :: u16 where "SLAVE_PIC_DATA_PORT = 0xA1"
definition ICW1_ICW4 :: u8 where "ICW1_ICW4 = 0x01"
definition ICW1_INIT :: u8 where "ICW1_INIT = 0x10"
definition ICW4_8086 :: u8 where "ICW4_8086 = 0x01"

definition io_wait :: "trace \<Rightarrow> trace" where
  "io_wait t = outb 0x80 0 t"

definition pic_remap :: "device \<Rightarrow> u32 \<Rightarrow> trace \<Rightarrow> trace" where
  "pic_remap dev offset t =
     (let (a1, t) = inb dev MASTER_PIC_DATA_PORT t;
          (a2, t) = inb dev SLAVE_PIC_DATA_PORT t;
          t = outb MASTER_PIC_COMMAND_PORT (ICW1_INIT OR ICW1_ICW4) t;
          t = io_wait t;
          t = outb SLAVE_PIC_COMMAND_PORT (ICW1_INIT OR ICW1_ICW4) t;
          t = io_wait t;
          t = outb MASTER_PIC_DATA_PORT (ucast offset) t;
          t = io_wait t;
          t = outb SLAVE_PIC_DATA_PORT (ucast (offset + 0x8)) t;
          t = io_wait t;
          t = outb MASTER_PIC_DATA_PORT 4 t;
          t = io_wait t;
          t = outb SLAVE_PIC_DATA_PORT 2 t;
          t = io_wait t;
          t = outb MASTER_PIC_DATA_PORT ICW4_8086 t;
          t = io_wait t;
          t = outb SLAVE_PIC_DATA_PORT ICW4_8086 t;
          t = io_wait t;
          t = outb MASTER_PIC_DATA_PORT (ucast a1) t
      in outb SLAVE_PIC_DATA_PORT (ucast a2) t)"

text \<open>\<^verbatim>\<open>1 << line\<close> as an \<^verbatim>\<open>int\<close>: undefined from 31 on.\<close>

definition int_bit :: "u8 \<Rightarrow> u32 option" where
  "int_bit k = (if unat k < 31 then Some (push_bit (unat k) 1) else None)"

definition irq_set_mask :: "device \<Rightarrow> u8 \<Rightarrow> trace \<Rightarrow> trace option" where
  "irq_set_mask dev irq_line t = do {
     let port = (if irq_line < 8 then MASTER_PIC_DATA_PORT else SLAVE_PIC_DATA_PORT);
     let irq_line = (if irq_line \<ge> 8 then irq_line - 8 else irq_line);
     let (v, t) = inb dev port t;
     b \<leftarrow> int_bit irq_line;
     let value = (ucast (ucast v OR b) :: u8);
     Some (outb port value t)
   }"

definition irq_clear_mask :: "device \<Rightarrow> u8 \<Rightarrow> trace \<Rightarrow> trace option" where
  "irq_clear_mask dev irq_line t = do {
     let port = (if irq_line < 8 then MASTER_PIC_DATA_PORT else SLAVE_PIC_DATA_PORT);
     let irq_line = (if irq_line \<ge> 8 then irq_line - 8 else irq_line);
     let (v, t) = inb dev port t;
     b \<leftarrow> int_bit irq_line;
     let value = (ucast (ucast v AND NOT b) :: u8);
     Some (outb port value t)
   }"

definition eoi :: "u8 \<Rightarrow> trace \<Rightarrow> trace" where
  "eoi irq t =
     (let t = (if irq > 7 then outb SLAVE_PIC_COMMAND_PORT 0x20 t else t)
      in outb MASTER_PIC_COMMAND_PORT 0x20 t)"

section \<open>Descriptors and handlers\<close>

record interrupt_descriptor =
  address_low :: u16
  selector :: u16
  ist :: u8
  flags :: u8
  address_mid :: u16
  address_high :: u32
  reserved :: u32

record idtr =
  limit :: u16
  base :: u64

record cpu_status =
  rax :: u64
  rbx :: u64
  rcx :: u64
  rdx :: u64
  rsi :: u64
  rdi :: u64
  rbp :: u64
  r8 :: u64
  r9 :: u64
  r10 :: u64
  r11 :: u64
  r12 :: u64
  r13 :: u64
  r14 :: u64
  r15 :: u64
  vector_number :: u64
  error_code :: u64
  iret_rip :: u64
  iret_cs :: u64
  iret_flags :: u64
  iret_rsp :: u64
  iret_ss :: u64

type_synonym 's handler = "cpu_status \<Rightarrow> trace \<times> 's \<Rightarrow> (trace \<times> 's) option"

record 's interrupts =
  idt :: "interrupt_descriptor list"
  list_of_handlers :: "'s handler option list"
  idt_reg :: idtr
  loaded :: bool
  enabled :: bool

definition isr_list :: "(nat \<Rightarrow> u64) \<Rightarrow> u64 list" where
  "isr_list isr = map isr [0..<256]"

definition set_idt_entry :: "u8 \<Rightarrow> u64 \<Rightarrow> u8 \<Rightarrow> 's interrupts \<Rightarrow> 's interrupts" where
  "set_idt_entry vector handler_addr dpl st =
     (let entry = idt st ! unat vector;
          entry = entry\<lparr>address_low := ucast (handler_addr AND 0xFFFF)\<rparr>;
          entry = entry\<lparr>address_mid := ucast (drop_bit 16 handler_addr AND 0xFFFF)\<rparr>;
          entry = entry\<lparr>address_high := ucast (drop_bit 32 handler_addr)\<rparr>;
          entry = entry\<lparr>selector := 0x8\<rparr>;
          entry = entry\<lparr>flags := 0b1110 OR push_bit 5 (dpl AND 0b11) OR push_bit 7 1\<rparr>;
          entry = entry\<lparr>ist := 0\<rparr>
      in st\<lparr>idt := (idt st)[unat vector := entry]\<rparr>)"

definition load_idt :: "u64 \<Rightarrow> 's interrupts \<Rightarrow> 's interrupts" where
  "load_idt idt_addr st = st\<lparr>idt_reg := \<lparr>limit = 0xFFF, base = idt_addr\<rparr>, loaded := True\<rparr>"

definition handler_install ::
  "(nat \<Rightarrow> u64) \<Rightarrow> device \<Rightarrow> u8 \<Rightarrow> 's handler \<Rightarrow> trace \<times> 's interrupts \<Rightarrow> (trace \<times> 's interrupts) option" where
  "handler_install isr dev num h s = do {
     let (t, st) = s;
     t \<leftarrow> (if num \<ge> 0x20 then irq_clear_mask dev (num - 0x20) t else Some t);
     let st = set_idt_entry num (isr_list isr ! unat num) 0 st;
     Some (t, st\<lparr>list_of_handlers := (list_of_handlers st)[unat num := Some h]\<rparr>)
   }"

text \<open>The two fault handlers print and then spin: they never return.\<close>

partial_function (option) spin :: "'a \<Rightarrow> 'b option" where
  "spin x = spin x"

definition double_fault :: "device \<Rightarrow> trace \<times> 's \<Rightarrow> (trace \<times> 's) option" where
  "double_fault dev s = do {
     (_, t) \<leftarrow> kprintf dev ''Double fault\<newline>'' [] (fst s);
     spin (t, snd s)
   }"

definition page_fault :: "device \<Rightarrow> 's handler" where
  "page_fault dev r s = do {
     (_, t) \<leftarrow> kprintf dev ''Page fault\<newline>'' [] (fst s);
     spin (t, snd s)
   }"

definition interrupt_dispatch ::
  "device \<Rightarrow> 's interrupts \<Rightarrow> cpu_status \<Rightarrow> trace \<times> 's \<Rightarrow> (trace \<times> 's) option" where
  "interrupt_dispatch dev st r s = do {
     c_assert (unat (vector_number r) < length (list_of_handlers st));
     (case list_of_handlers st ! unat (vector_number r) of
        None \<Rightarrow> do {
          (_, t) \<leftarrow> kprintf dev ''[NOTE] Interrupt(0x%x) called but has no interrupt handler''
            [Num (vector_number r)] (fst s);
          Some (t, snd s)
        }
      | Some handler \<Rightarrow> handler r s)
   }"

text \<open>The loop \<^verbatim>\<open>for (int i = 0; i < 0x10; i++) irq_set_mask(i)\<close>.\<close>

fun mask_lines :: "device \<Rightarrow> nat list \<Rightarrow> trace \<Rightarrow> trace option" where
  "mask_lines dev [] t = Some t"
| "mask_lines dev (i # is) t = do { t \<leftarrow> irq_set_mask dev (of_nat i) t; mask_lines dev is t }"

definition idt_init ::
  "(nat \<Rightarrow> u64) \<Rightarrow> u64 \<Rightarrow> device \<Rightarrow> trace \<times> 's interrupts \<Rightarrow> (trace \<times> 's interrupts) option" where
  "idt_init isr idt_addr dev s = do {
     let (t, st) = s;
     let st = st\<lparr>list_of_handlers := replicate 256 None\<rparr>;
     let t = pic_remap dev 0x20 t;
     t \<leftarrow> mask_lines dev [0..<0x10] t;
     (t, st) \<leftarrow> handler_install isr dev 0x0E (page_fault dev) (t, st);
     let st = load_idt idt_addr st;
     Some (t, st\<lparr>enabled := True\<rparr>)
   }"

section \<open>What an 8259A does\<close>

text \<open>
  The documented behaviour of the controllers, as far as the code relies on it.  A command word
  with bit 4 set starts the initialisation: it clears the mask, and the next three words on the
  data port are the vector base, the cascade line and the mode.  Outside the initialisation a
  word on the data port is the new mask, and a read of that port returns the mask.  \<^verbatim>\<open>icw\<close> is the
  number of the initialisation word that is expected next, 0 for none.
\<close>

record pic =
  icw :: nat
  vbase :: u8
  imr :: u8

fun pic_event :: "u16 \<Rightarrow> u16 \<Rightarrow> io_event \<Rightarrow> pic \<Rightarrow> pic" where
  "pic_event cmd data (Outb p v) s =
     (if p = cmd then (if bit v 4 then s\<lparr>icw := 2, imr := 0\<rparr> else s)
      else if p = data
      then (if icw s = 2 then s\<lparr>icw := 3, vbase := v AND 0xF8\<rparr>
            else if icw s = 3 then s\<lparr>icw := 4\<rparr>
            else if icw s = 4 then s\<lparr>icw := 0\<rparr>
            else s\<lparr>imr := v\<rparr>)
      else s)"
| "pic_event cmd data e s = s"

definition master_after :: "pic \<Rightarrow> trace \<Rightarrow> pic" where
  "master_after m t = fold (pic_event 0x20 0x21) t m"

definition slave_after :: "pic \<Rightarrow> trace \<Rightarrow> pic" where
  "slave_after m t = fold (pic_event 0xA0 0xA1) t m"

text \<open>The device is a pair of controllers that were in the states \<^verbatim>\<open>m\<close> and \<^verbatim>\<open>s\<close> at power-up.\<close>

definition pic_device :: "device \<Rightarrow> pic \<Rightarrow> pic \<Rightarrow> bool" where
  "pic_device dev m s \<longleftrightarrow>
     (\<forall>t. ucast (dev t 0x21) = imr (master_after m t) \<and> ucast (dev t 0xA1) = imr (slave_after s t))"

text \<open>The 16-bit mask of both controllers, and the vector that a line raises.\<close>

definition line_masked :: "pic \<Rightarrow> pic \<Rightarrow> nat \<Rightarrow> bool" where
  "line_masked m s i \<longleftrightarrow> (if i < 8 then bit (imr m) i else bit (imr s) (i - 8))"

definition line_vector :: "pic \<Rightarrow> pic \<Rightarrow> nat \<Rightarrow> u8" where
  "line_vector m s i = (if i < 8 then vbase m OR of_nat i else vbase s OR of_nat (i - 8))"

named_theorems pic_simps \<open>running a trace on the controllers\<close>

lemma after_append [pic_simps]:
  "master_after m (t @ u) = fold (pic_event 0x20 0x21) u (master_after m t)"
  "slave_after m (t @ u) = fold (pic_event 0xA0 0xA1) u (slave_after m t)"
  by (simp_all add: master_after_def slave_after_def)

lemmas pic_ports [pic_simps] =
  MASTER_PIC_COMMAND_PORT_def MASTER_PIC_DATA_PORT_def SLAVE_PIC_COMMAND_PORT_def SLAVE_PIC_DATA_PORT_def

text \<open>Masking and unmasking a line changes this line only.\<close>

lemma nat_8_cases: "i < 8 \<Longrightarrow> i \<in> {0, 1, 2, 3, 4, 5, 6, 7}" for i :: nat
  by auto

lemma line_split:
  assumes "i < (16 :: nat)"
  shows "(of_nat i :: u8) < 8 \<longleftrightarrow> i < 8" "unat (of_nat i :: u8) = i"
    "\<not> i < 8 \<Longrightarrow> unat (of_nat i - 8 :: u8) = i - 8"
proof -
  show u: "unat (of_nat i :: u8) = i" using assms by (simp add: unat_of_nat take_bit_nat_eq_self)
  then show "(of_nat i :: u8) < 8 \<longleftrightarrow> i < 8" by (simp add: word_less_nat_alt)
  show "\<not> i < 8 \<Longrightarrow> unat (of_nat i - 8 :: u8) = i - 8" using u by (simp add: unat_sub_le)
qed

lemma mask_word:
  assumes "k < 8"
  shows "(ucast (ucast (ucast (v :: u8) :: u16) OR push_bit k 1 :: u32) :: u8) = set_bit k v"
    "(ucast (ucast (ucast (v :: u8) :: u16) AND NOT (push_bit k 1) :: u32) :: u8) = unset_bit k v"
  using assms by (auto intro!: bit_word_eqI simp: bit_simps)

definition pics_ready :: "pic \<Rightarrow> pic \<Rightarrow> trace \<Rightarrow> bool" where
  "pics_ready m s t \<longleftrightarrow> icw (master_after m t) = 0 \<and> icw (slave_after s t) = 0"

text \<open>\<^verbatim>\<open>masks_to f i\<close>: from \<^verbatim>\<open>t\<close> to \<^verbatim>\<open>t'\<close>, the mask bit of line \<^verbatim>\<open>i\<close> was changed by \<^verbatim>\<open>f\<close>, and nothing else.\<close>

definition masks_to :: "(nat \<Rightarrow> u8 \<Rightarrow> u8) \<Rightarrow> nat \<Rightarrow> pic \<Rightarrow> pic \<Rightarrow> trace \<Rightarrow> trace \<Rightarrow> bool" where
  "masks_to f i m s t t' \<longleftrightarrow>
     master_after m t' = (if i < 8 then master_after m t\<lparr>imr := f i (imr (master_after m t))\<rparr> else master_after m t) \<and>
     slave_after s t' = (if i < 8 then slave_after s t
       else slave_after s t\<lparr>imr := f (i - 8) (imr (slave_after s t))\<rparr>)"

lemma irq_mask_effect:
  assumes dev: "pic_device dev m s" and ready: "pics_ready m s t" and i: "i < 16"
  shows "\<exists>t'. irq_set_mask dev (of_nat i) t = Some t' \<and> masks_to set_bit i m s t t'"
    and "\<exists>t'. irq_clear_mask dev (of_nat i) t = Some t' \<and> masks_to unset_bit i m s t t'"
proof -
  have d: "ucast (dev t 0x21) = imr (master_after m t)" "ucast (dev t 0xA1) = imr (slave_after s t)"
    using dev by (simp_all add: pic_device_def)
  have r: "icw (master_after m t) = 0" "icw (slave_after s t) = 0" using ready by (simp_all add: pics_ready_def)
  have "i - 8 < 31" using i by simp
  note split = line_split [OF i] this
  have "irq_set_mask dev (of_nat i) t =
      Some (t @ (if i < 8 then [Inb 0x21, Outb 0x21 (set_bit i (imr (master_after m t)))]
        else [Inb 0xA1, Outb 0xA1 (set_bit (i - 8) (imr (slave_after s t)))]))"
    "irq_clear_mask dev (of_nat i) t =
      Some (t @ (if i < 8 then [Inb 0x21, Outb 0x21 (unset_bit i (imr (master_after m t)))]
        else [Inb 0xA1, Outb 0xA1 (unset_bit (i - 8) (imr (slave_after s t)))]))"
    using i d split mask_word [of i] mask_word [of "i - 8"]
    by (simp_all add: irq_set_mask_def irq_clear_mask_def io_defs pic_ports int_bit_def Let_def
        flip: not_less)
  then show "\<exists>t'. irq_set_mask dev (of_nat i) t = Some t' \<and> masks_to set_bit i m s t t'"
    "\<exists>t'. irq_clear_mask dev (of_nat i) t = Some t' \<and> masks_to unset_bit i m s t t'"
    using r by (auto simp: masks_to_def pic_simps)
qed

lemma masks_to_ready:
  "masks_to f i m s t t' \<Longrightarrow> pics_ready m s t' \<longleftrightarrow> pics_ready m s t"
  by (simp add: masks_to_def pics_ready_def)

text \<open>The initialisation sequence keeps the masks and moves the vectors.\<close>

lemma pic_remap_effect:
  assumes dev: "pic_device dev m s" and ready: "pics_ready m s t"
  shows "master_after m (pic_remap dev off t) = master_after m t\<lparr>vbase := ucast off AND 0xF8\<rparr>"
    and "slave_after s (pic_remap dev off t) = slave_after s t\<lparr>vbase := ucast (off + 8) AND 0xF8\<rparr>"
proof -
  have d: "ucast (dev t 0x21) = imr (master_after m t)"
      "ucast (dev (t @ [Inb 0x21]) 0xA1) = imr (slave_after s t)"
    using dev unfolding pic_device_def by (simp_all add: pic_simps)
  have r: "icw (master_after m t) = 0" "icw (slave_after s t) = 0" using ready by (simp_all add: pics_ready_def)
  have b: "bit (ICW1_INIT OR ICW1_ICW4) 4" by (simp add: ICW1_INIT_def ICW1_ICW4_def)
  have c: "(ucast (ucast v :: u16) :: u8) = v" for v by (rule bit_word_eqI) (simp add: bit_simps)
  show "master_after m (pic_remap dev off t) = master_after m t\<lparr>vbase := ucast off AND 0xF8\<rparr>"
    "slave_after s (pic_remap dev off t) = slave_after s t\<lparr>vbase := ucast (off + 8) AND 0xF8\<rparr>"
    using r b d by (auto intro!: pic.equality
        simp: pic_remap_def io_defs io_wait_def Let_def pic_simps c)
qed

text \<open>Masking lines one after the other.\<close>

lemma mask_lines_effect:
  assumes dev: "pic_device dev m s" and ready: "pics_ready m s t" and lines: "\<forall>i \<in> set is. i < 16"
  shows "\<exists>t'. mask_lines dev is t = Some t' \<and> pics_ready m s t' \<and>
    vbase (master_after m t') = vbase (master_after m t) \<and> vbase (slave_after s t') = vbase (slave_after s t) \<and>
    (\<forall>i < 16. line_masked (master_after m t') (slave_after s t') i \<longleftrightarrow>
       i \<in> set is \<or> line_masked (master_after m t) (slave_after s t) i)"
  using ready lines
proof (induction "is" arbitrary: t)
  case Nil
  then show ?case by simp
next
  case (Cons i "is")
  obtain t1 where t1: "irq_set_mask dev (of_nat i) t = Some t1" "masks_to set_bit i m s t t1"
    using irq_mask_effect(1) [OF dev Cons.prems(1)] Cons.prems(2) by auto
  have "pics_ready m s t1" using masks_to_ready [OF t1(2)] Cons.prems(1) by simp
  then obtain t' where r: "mask_lines dev is t1 = Some t'" "pics_ready m s t'"
      "vbase (master_after m t') = vbase (master_after m t1)" "vbase (slave_after s t') = vbase (slave_after s t1)"
      "\<forall>k < 16. line_masked (master_after m t') (slave_after s t') k \<longleftrightarrow>
         k \<in> set is \<or> line_masked (master_after m t1) (slave_after s t1) k"
    using Cons.IH [of t1] Cons.prems(2) by auto
  have "line_masked (master_after m t1) (slave_after s t1) k \<longleftrightarrow>
      k = i \<or> line_masked (master_after m t) (slave_after s t) k" if "k < 16" for k
    using t1(2) that Cons.prems(2)
    by (auto simp: masks_to_def line_masked_def bit_set_bit_iff possible_bit_def split: if_splits)
  moreover have "vbase (master_after m t1) = vbase (master_after m t)" "vbase (slave_after s t1) = vbase (slave_after s t)"
    using t1(2) by (simp_all add: masks_to_def)
  ultimately show ?case using t1(1) r by auto
qed

section \<open>Gates\<close>

text \<open>How the processor reads a descriptor: the handler's address, the privilege level, the gate type.\<close>

definition gate_target :: "interrupt_descriptor \<Rightarrow> u64" where
  "gate_target e = ucast (address_low e) OR push_bit 16 (ucast (address_mid e)) OR push_bit 32 (ucast (address_high e))"

definition gate_dpl :: "interrupt_descriptor \<Rightarrow> u8" where
  "gate_dpl e = drop_bit 5 (flags e) AND 0b11"

definition gate_present :: "interrupt_descriptor \<Rightarrow> bool" where
  "gate_present e \<longleftrightarrow> bit (flags e) 7"

definition gate_type :: "interrupt_descriptor \<Rightarrow> u8" where
  "gate_type e = flags e AND 0b1111"

lemma split_target:
  "ucast (ucast (h AND 0xFFFF) :: u16) OR push_bit 16 (ucast (ucast (drop_bit 16 h AND 0xFFFF) :: u16)) OR
     push_bit 32 (ucast (ucast (drop_bit 32 h) :: u32)) = (h :: u64)"
proof (rule bit_word_eqI)
  fix n
  assume "n < LENGTH(64)"
  then have n: "n < 64" by simp
  have m: "0xFFFF = (mask 16 :: u64)" by (simp add: mask_eq_exp_minus_1)
  show "bit (ucast (ucast (h AND 0xFFFF) :: u16) OR push_bit 16 (ucast (ucast (drop_bit 16 h AND 0xFFFF) :: u16)) OR
     push_bit 32 (ucast (ucast (drop_bit 32 h) :: u32)) :: u64) n = bit h n"
  proof (cases "n < 32")
    case True
    then show ?thesis unfolding m by (auto simp: bit_simps not_less)
  next
    case False
    then have "32 + (n - 32) = n" "\<not> n - 16 < 16" by simp_all
    then show ?thesis using n False unfolding m by (auto simp: bit_simps not_less)
  qed
qed

lemma flag_bits:
  fixes dpl :: u8
  defines "f \<equiv> 0b1110 OR push_bit 5 (dpl AND 0b11) OR push_bit 7 1"
  shows "drop_bit 5 f AND 0b11 = dpl AND 0b11" "bit f 7" "f AND 0b1111 = 0b1110"
proof -
  have lt: "n < 8 \<Longrightarrow> n \<in> {0, 1, 2, 3, 4, 5, 6, 7}" for n :: nat by auto
  have b: "bit f n \<longleftrightarrow> n \<in> {1, 2, 3, 7} \<or> n \<in> {5, 6} \<and> bit dpl (n - 5)" if "n < 8" for n
    using lt [OF that] unfolding f_def by (auto simp: bit_simps bit_numeral_rec)
  have m: "bit (0b11 :: u8) n \<longleftrightarrow> n \<in> {0, 1}" "bit (0b1111 :: u8) n \<longleftrightarrow> n \<in> {0, 1, 2, 3}"
      "bit (0b1110 :: u8) n \<longleftrightarrow> n \<in> {1, 2, 3}" if "n < 8" for n
    using lt [OF that] by (auto simp: bit_simps bit_numeral_rec)
  show "bit f 7" by (simp add: b)
  show "drop_bit 5 f AND 0b11 = dpl AND 0b11" "f AND 0b1111 = 0b1110"
    by (rule bit_word_eqI, use b m in \<open>auto simp: bit_and_iff bit_drop_bit_eq\<close>)+
qed

text \<open>
  The address that \<^verbatim>\<open>set_idt_entry\<close> cuts into three fields is the address
  that the processor puts together again, with the requested privilege level (two bits), present,
  in the kernel's code segment, as an interrupt gate; no other vector changes.
\<close>

theorem idt_gate_roundtrip:
  assumes "length (idt st) = 256"
  shows "(let e = idt (set_idt_entry v h dpl st) ! unat v in
      gate_target e = h \<and> gate_dpl e = dpl AND 0b11 \<and> gate_present e \<and> gate_type e = 0b1110 \<and>
      selector e = 0x8 \<and> ist e = 0) \<and>
    (\<forall>w. w \<noteq> v \<longrightarrow> idt (set_idt_entry v h dpl st) ! unat w = idt st ! unat w)"
proof -
  have "unat v < 2 ^ LENGTH(8)" by (rule unsigned_less)
  then have v: "unat v < length (idt st)" using assms(1) by simp
  have "unat v \<noteq> unat w" if "w \<noteq> v" for w using that by (simp add: word_unat_eq_iff)
  then show ?thesis
    using v split_target [of h] flag_bits [of dpl]
    by (simp add: set_idt_entry_def Let_def gate_target_def gate_dpl_def gate_present_def gate_type_def)
qed

theorem idt_gate_roundtrip_witness:
  "gate_target (idt (set_idt_entry 33 0xFFFFFF8012345678 0
     \<lparr>idt = replicate 256 \<lparr>address_low = 0, selector = 0, ist = 0, flags = 0, address_mid = 0,
        address_high = 0, reserved = 0\<rparr>, list_of_handlers = ([] :: unit handler option list),
      idt_reg = \<lparr>limit = 0, base = 0\<rparr>, loaded = False, enabled = False\<rparr>) ! 33) = 0xFFFFFF8012345678"
  using idt_gate_roundtrip [of "\<lparr>idt = replicate 256 \<lparr>address_low = 0, selector = 0, ist = 0, flags = 0,
      address_mid = 0, address_high = 0, reserved = 0\<rparr>, list_of_handlers = ([] :: unit handler option list),
      idt_reg = \<lparr>limit = 0, base = 0\<rparr>, loaded = False, enabled = False\<rparr>" 33 "0xFFFFFF8012345678" 0]
  by (simp add: Let_def)

section \<open>Installing handlers\<close>

text \<open>A concrete pair of controllers, for the witnesses.\<close>

definition power_up :: pic where
  "power_up = \<lparr>icw = 0, vbase = 0x08, imr = 0\<rparr>"

definition two_pics :: device where
  "two_pics t p = (if p = 0x21 then ucast (imr (master_after power_up t))
     else ucast (imr (slave_after power_up t)))"

lemma two_pics_ok: "pic_device two_pics power_up power_up" "pics_ready power_up power_up []"
proof -
  have c: "(ucast (ucast v :: u32) :: u8) = v" for v by (rule bit_word_eqI) (simp add: bit_simps)
  show "pic_device two_pics power_up power_up" by (simp add: pic_device_def two_pics_def c)
  show "pics_ready power_up power_up []" by (simp add: pics_ready_def master_after_def slave_after_def power_up_def)
qed

definition no_interrupts :: "'s interrupts" where
  "no_interrupts = \<lparr>idt = replicate 256 \<lparr>address_low = 0, selector = 0, ist = 0, flags = 0, address_mid = 0,
     address_high = 0, reserved = 0\<rparr>, list_of_handlers = replicate 256 None,
     idt_reg = \<lparr>limit = 0, base = 0\<rparr>, loaded = False, enabled = False\<rparr>"

lemma handler_install_gate:
  assumes "length (idt st) = 256" and "length (list_of_handlers st) = 256"
    and "handler_install isr dev v h (t, st) = Some (t', st')"
  shows "gate_target (idt st' ! unat v) = isr (unat v)" "gate_present (idt st' ! unat v)"
    "list_of_handlers st' = (list_of_handlers st)[unat v := Some h]"
    "length (idt st') = 256" "length (list_of_handlers st') = 256"
    "idt_reg st' = idt_reg st" "loaded st' = loaded st" "enabled st' = enabled st"
proof -
  have "unat v < 2 ^ LENGTH(8)" by (rule unsigned_less)
  then have v: "unat v < 256" by simp
  then have i: "isr_list isr ! unat v = isr (unat v)" by (simp add: isr_list_def)
  have st': "st' = (set_idt_entry v (isr (unat v)) 0 st)
      \<lparr>list_of_handlers := (list_of_handlers (set_idt_entry v (isr (unat v)) 0 st))[unat v := Some h]\<rparr>"
    using assms(3) i by (auto simp: handler_install_def Let_def split: bind_splits if_splits)
  have keep: "list_of_handlers (set_idt_entry v a 0 st) = list_of_handlers st"
    "idt_reg (set_idt_entry v a 0 st) = idt_reg st" "loaded (set_idt_entry v a 0 st) = loaded st"
    "enabled (set_idt_entry v a 0 st) = enabled st" "length (idt (set_idt_entry v a 0 st)) = 256" for a
    using assms(1) by (simp_all add: set_idt_entry_def Let_def)
  show "gate_target (idt st' ! unat v) = isr (unat v)"
    using assms(1) v split_target [of "isr (unat v)"]
    by (simp add: st' set_idt_entry_def Let_def gate_target_def)
  show "gate_present (idt st' ! unat v)"
    using assms(1) v flag_bits(2) [of 0] by (simp add: st' set_idt_entry_def Let_def gate_present_def)
  show "list_of_handlers st' = (list_of_handlers st)[unat v := Some h]"
    "length (idt st') = 256" "length (list_of_handlers st') = 256"
    "idt_reg st' = idt_reg st" "loaded st' = loaded st" "enabled st' = enabled st"
    using assms(2) keep by (simp_all add: st')
qed

lemma handler_install_delivers_aux:
  assumes "pic_device dev m s" and "pics_ready m s t"
    and "length (idt st) = 256" and "length (list_of_handlers st) = 256" and "i < 16"
  shows "\<exists>t' st'. handler_install isr dev (0x20 + of_nat i) h (t, st) = Some (t', st') \<and> pics_ready m s t' \<and>
    (\<forall>k < 16. line_masked (master_after m t') (slave_after s t') k \<longleftrightarrow>
       k \<noteq> i \<and> line_masked (master_after m t) (slave_after s t) k) \<and>
    gate_target (idt st' ! (0x20 + i)) = isr (0x20 + i) \<and> gate_present (idt st' ! (0x20 + i)) \<and>
    (\<forall>r x. interrupt_dispatch dev st' r x =
       (if unat (vector_number r) = 0x20 + i then h r x else interrupt_dispatch dev st r x))"
proof -
  let ?v = "0x20 + of_nat i :: u8"
  have "unat (of_nat i :: u8) = i" by (rule line_split(2) [OF assms(5)])
  then have v: "unat ?v = 0x20 + i" using assms(5) by (subst unat_add_le) simp_all
  then have "?v \<ge> 0x20" "?v - 0x20 = of_nat i" by (simp_all add: word_le_nat_alt)
  obtain t' where t': "irq_clear_mask dev (of_nat i) t = Some t'" "masks_to unset_bit i m s t t'"
    using irq_mask_effect(2) [OF assms(1,2,5)] by blast
  then obtain st' where st': "handler_install isr dev ?v h (t, st) = Some (t', st')"
    using \<open>?v \<ge> 0x20\<close> \<open>?v - 0x20 = of_nat i\<close> by (simp add: handler_install_def Let_def)
  note g = handler_install_gate [OF assms(3,4) st']
  have "line_masked (master_after m t') (slave_after s t') k \<longleftrightarrow>
       k \<noteq> i \<and> line_masked (master_after m t) (slave_after s t) k" if "k < 16" for k
    using t'(2) that assms(5)
    by (auto simp: masks_to_def line_masked_def bit_unset_bit_iff split: if_splits)
  moreover have "pics_ready m s t'" using masks_to_ready [OF t'(2)] assms(2) by simp
  moreover have "interrupt_dispatch dev st' r x =
       (if unat (vector_number r) = 0x20 + i then h r x else interrupt_dispatch dev st r x)" for r x
    using g(3,5) assms(4,5) by (cases "unat (vector_number r) < 256") (auto simp: interrupt_dispatch_def v)
  ultimately show ?thesis using st' g(1,2) unfolding v by blast
qed



text \<open>
  \<^verbatim>\<open>idt_init\<close> returns with the table loaded and interrupts enabled, all sixteen
  lines masked and moved to the vectors \<^verbatim>\<open>0x20\<close> to \<^verbatim>\<open>0x2F\<close>, and the page fault handler as the only
  one installed.
\<close>

theorem idt_init_quiet:
  assumes "pic_device dev m s" and "pics_ready m s t" and "length (idt st) = 256"
  shows "\<exists>t' st'. idt_init isr a dev (t, st) = Some (t', st') \<and> pics_ready m s t' \<and>
    (\<forall>i < 16. line_masked (master_after m t') (slave_after s t') i \<and>
       unat (line_vector (master_after m t') (slave_after s t') i) = 0x20 + i) \<and>
    list_of_handlers st' = (replicate 256 None)[0x0E := Some (page_fault dev)] \<and>
    gate_target (idt st' ! 0x0E) = isr 0x0E \<and> loaded st' \<and> enabled st' \<and>
    idt_reg st' = \<lparr>limit = 0xFFF, base = a\<rparr> \<and> length (idt st') = 256"
proof -
  let ?t = "pic_remap dev 0x20 t" and ?st = "st\<lparr>list_of_handlers := replicate 256 None\<rparr>"
  note re = pic_remap_effect [OF assms(1,2), of "0x20"]
  have "pics_ready m s ?t" using assms(2) re by (simp add: pics_ready_def)
  then obtain t' where t': "mask_lines dev [0..<0x10] ?t = Some t'" "pics_ready m s t'"
      "vbase (master_after m t') = 0x20" "vbase (slave_after s t') = 0x28"
      "\<forall>i < 16. line_masked (master_after m t') (slave_after s t') i"
    using mask_lines_effect [OF assms(1), of ?t "[0..<0x10]"] re by auto
  obtain st1 where st1: "handler_install isr dev 0x0E (page_fault dev) (t', ?st) = Some (t', st1)"
    by (simp add: handler_install_def Let_def)
  have "length (idt ?st) = 256" "length (list_of_handlers ?st) = 256" using assms(3) by simp_all
  note g = handler_install_gate [OF this st1]
  have "unat (line_vector (master_after m t') (slave_after s t') i) = 0x20 + i" if "i < 16" for i
  proof (cases "i < 8")
    case True
    then show ?thesis using nat_8_cases [of i] t'(3) by (auto simp: line_vector_def)
  next
    case False
    then have "i - 8 < 8" "i = i - 8 + 8" using that by simp_all
    then obtain j where "j < 8" "i = j + 8" by blast
    then show ?thesis using nat_8_cases [of j] t'(4) by (auto simp: line_vector_def)
  qed
  moreover have "idt_init isr a dev (t, st) = Some (t', (load_idt a st1)\<lparr>enabled := True\<rparr>)"
    using t'(1) st1 by (simp add: idt_init_def Let_def)
  ultimately show ?thesis using t' g(1,3,4) by (simp add: load_idt_def)
qed

theorem idt_init_quiet_witness:
  "\<exists>t' st'. idt_init (\<lambda>n. of_nat n) 0x1000 two_pics ([], no_interrupts :: unit interrupts) = Some (t', st') \<and>
     line_masked (master_after power_up t') (slave_after power_up t') 1"
  using idt_init_quiet [OF two_pics_ok, of "no_interrupts :: unit interrupts" "\<lambda>n. of_nat n" "0x1000"]
  by (force simp: no_interrupts_def)

text \<open>
  Vectors from \<^verbatim>\<open>0x47\<close> on belong to no line, yet \<^verbatim>\<open>handler_install\<close>
  computes a mask bit for them, with a shift that C leaves undefined; vectors from \<^verbatim>\<open>0x30\<close> to
  \<^verbatim>\<open>0x46\<close> make it rewrite the slave's mask with itself.
\<close>

lemma handler_install_high_vectors:
  "(v \<ge> 0x47 \<longrightarrow> handler_install isr dev v h (t, st) = None) \<and>
   (0x30 \<le> v \<and> v < 0x47 \<longrightarrow> (\<exists>st'. handler_install isr dev v h (t, st) =
      Some (t @ [Inb 0xA1, Outb 0xA1 (ucast (dev t 0xA1))], st')))"
proof (intro conjI impI)
  have irq: "irq_clear_mask dev (v - 0x20) t = (if v \<ge> 0x47 then None else
      Some (t @ [Inb 0xA1, Outb 0xA1 (ucast (dev t 0xA1))]))" if "v \<ge> 0x30"
  proof -
    have u: "unat v \<ge> 0x30" using that by (simp add: word_le_nat_alt)
    then have "unat (v - 0x20) = unat v - 0x20" by (simp add: unat_sub_le)
    then have l: "v - 0x20 < 8 \<longleftrightarrow> False" "8 \<le> v - 0x20 \<longleftrightarrow> True" "unat (v - 0x28) = unat v - 0x28"
        "v \<ge> 0x47 \<longleftrightarrow> \<not> unat v - 0x28 < 31"
      using u by (auto simp: word_less_nat_alt word_le_nat_alt unat_sub_le)
    have "(ucast (ucast (ucast (w :: u8) :: u16) AND NOT (push_bit k 1) :: u32) :: u8) = w" if "8 \<le> k" for w k
      using that by (auto intro!: bit_word_eqI simp: bit_simps)
    moreover have "8 \<le> unat v - 0x28" using u by simp
    ultimately show ?thesis
      unfolding irq_clear_mask_def l(1,2,4) by (simp add: io_defs pic_ports int_bit_def Let_def l(3))
  qed
  show "handler_install isr dev v h (t, st) = None" if "v \<ge> 0x47"
  proof -
    have "v \<ge> 0x30" "v \<ge> 0x20" using that by (simp_all add: word_le_nat_alt)
    then show ?thesis using irq that by (simp add: handler_install_def)
  qed
  show "\<exists>st'. handler_install isr dev v h (t, st) = Some (t @ [Inb 0xA1, Outb 0xA1 (ucast (dev t 0xA1))], st')"
    if "0x30 \<le> v \<and> v < 0x47"
  proof -
    have "v \<ge> 0x30" "v \<ge> 0x20" "\<not> v \<ge> 0x47" using that by (simp_all add: word_le_nat_alt word_less_nat_alt)
    then show ?thesis using irq by (simp add: handler_install_def Let_def)
  qed
qed

lemma handler_install_high_vectors_witness:
  "handler_install (\<lambda>n. of_nat n) two_pics 0x80 (\<lambda>r x. Some x) ([], no_interrupts :: unit interrupts) = None"
  using handler_install_high_vectors [of "0x80" "\<lambda>n. of_nat n" two_pics "\<lambda>r x. Some x" "[]" no_interrupts]
  by simp

end
