(* ===== verification/Keyboard.thy ===== *)
theory Keyboard
  imports RingBuffer Idt
begin

text \<open>
  The keyboard driver, \<^verbatim>\<open>drivers/ps2_keyboard.c\<close>.  \<^verbatim>\<open>kbd\<close> holds its globals; its interrupt handler
  reads one scan code from port \<^verbatim>\<open>0x60\<close>, keeps track of the modifier keys, and writes a three-byte
  \<^verbatim>\<open>key_event\<close> to the ring buffer for every other key.  A read behind the end of a key table is
  \<^term>\<open>None\<close>.
\<close>

section \<open>State and operations\<close>

definition PS2_REG_DATA :: u16 where "PS2_REG_DATA = 0x60"

record kbd =
  is_shift_down :: bool
  is_alt_down :: bool
  is_ctrl_down :: bool
  keyboard_buffer :: ringbuffer

record key_event =
  ev_c :: u8
  ev_mode :: u8
  ev_release :: u8

definition ascii_table :: "u8 list" where
  "ascii_table = map of_char (''e'' @ [CHR 0x1B] @ ''1234567890-='' @ [CHR 0x08, CHR 0x09] @
     ''qwertyuiop'' @ ''[]'' @ [CHR 0x0A] @ ''C'' @
     ''asdfghjkl'' @ '';'' @ [CHR 0x27, CHR 0x60] @ ''D'' @ [CHR 0x5C] @
     ''zxcvbnm'' @ '',./UUU '')"

definition capital_ascii_table :: "u8 list" where
  "capital_ascii_table = map of_char (''e'' @ [CHR 0x1B] @ ''!@#$%^&*()_+'' @ [CHR 0x08, CHR 0x09] @
     ''QWERTYUIOP'' @ ''{}'' @ [CHR 0x0A] @ ''C'' @
     ''ASDFGHJKL'' @ '':'' @ [CHR 0x22] @ ''~'' @ ''D'' @ ''|'' @
     ''ZXCVBNM'' @ ''<>?UUU '')"

definition table_read :: "u8 list \<Rightarrow> nat \<Rightarrow> u8 option" where
  "table_read xs i = (if i < length xs then Some (xs ! i) else None)"

definition keyboard_to_ascii :: "u16 \<Rightarrow> bool \<Rightarrow> u8 option" where
  "keyboard_to_ascii key capital =
     (if unat (key AND 0xFF) > length ascii_table then Some (of_char CHR ''U'')
      else if capital then table_read capital_ascii_table (unat (key AND 0xFF))
      else table_read ascii_table (unat (key AND 0xFF)))"

text \<open>The event as the bytes that \<^verbatim>\<open>ringbuffer_write\<close> sees.\<close>

definition event_bytes :: "key_event \<Rightarrow> u8 list" where
  "event_bytes ev = [ev_c ev, ev_mode ev, ev_release ev]"

definition keyboard_handler :: "device \<Rightarrow> kbd handler" where
  "keyboard_handler dev r s = do {
     let (t, k) = s;
     let (c, t) = inb dev PS2_REG_DATA t;
     let t = outb 0x20 0x20 t;
     let code = (c AND NOT 0x80) AND 0xFF;
     let down = (c AND 0x80 = 0);
     (if code = 0x2A \<or> code = 0x36 then Some (t, k\<lparr>is_shift_down := down\<rparr>)
      else if code = 0x38 then Some (t, k\<lparr>is_alt_down := down\<rparr>)
      else if code = 0x1D then Some (t, k\<lparr>is_ctrl_down := down\<rparr>)
      else do {
        a \<leftarrow> keyboard_to_ascii code (is_shift_down k);
        let ev = \<lparr>ev_c = a,
          ev_mode = push_bit 0 (of_bool (is_shift_down k)) OR push_bit 1 (of_bool (is_alt_down k)) OR
            push_bit 2 (of_bool (is_ctrl_down k)),
          ev_release = (if down then 0 else 1)\<rparr>;
        (rb, _) \<leftarrow> ringbuffer_write (keyboard_buffer k) (event_bytes ev) 3;
        Some (t, k\<lparr>keyboard_buffer := rb\<rparr>)
      })
   }"

definition ps2_keyboard_init ::
  "(nat \<Rightarrow> u64) \<Rightarrow> device \<Rightarrow> (u32 \<Rightarrow> u8 list option) \<Rightarrow> trace \<times> kbd interrupts \<times> kbd \<Rightarrow>
     ((trace \<times> kbd interrupts \<times> kbd) \<times> bool) option" where
  "ps2_keyboard_init isr dev kmalloc s = do {
     let (t, st, k) = s;
     let (ok, rb) = ringbuffer_init kmalloc (3 * 128);
     let k = k\<lparr>keyboard_buffer := rb\<rparr>;
     (if \<not> ok then Some ((t, st, k), False)
      else do {
        (t, st) \<leftarrow> handler_install isr dev 0x21 (keyboard_handler dev) (t, st);
        Some ((t, st, k), True)
      })
   }"

section \<open>What the keys mean\<close>

text \<open>
  The abstract keyboard: the state of the three modifiers, and one event for each code that is
  not a modifier.  Bit 7 of a scan code tells a release from a press.
\<close>

record mods =
  shift :: bool
  alt :: bool
  ctrl :: bool

definition key_code :: "u8 \<Rightarrow> nat" where
  "key_code c = unat (c AND 0x7F)"

definition pressed :: "u8 \<Rightarrow> bool" where
  "pressed c \<longleftrightarrow> \<not> bit c 7"

definition key_char :: "nat \<Rightarrow> bool \<Rightarrow> u8" where
  "key_char code up =
     (if code < 58 then (if up then capital_ascii_table else ascii_table) ! code else of_char CHR ''U'')"

definition key_mods :: "u8 \<Rightarrow> mods \<Rightarrow> mods" where
  "key_mods c m =
     (if key_code c \<in> {0x2A, 0x36} then m\<lparr>shift := pressed c\<rparr>
      else if key_code c = 0x38 then m\<lparr>alt := pressed c\<rparr>
      else if key_code c = 0x1D then m\<lparr>ctrl := pressed c\<rparr>
      else m)"

definition key_events :: "u8 \<Rightarrow> mods \<Rightarrow> key_event list" where
  "key_events c m =
     (if key_code c \<in> {0x2A, 0x36, 0x38, 0x1D} then []
      else [\<lparr>ev_c = key_char (key_code c) (shift m),
        ev_mode = (if shift m then 1 else 0) + (if alt m then 2 else 0) + (if ctrl m then 4 else 0),
        ev_release = (if pressed c then 0 else 1)\<rparr>])"

fun type_keys :: "u8 list \<Rightarrow> mods \<Rightarrow> mods \<times> key_event list" where
  "type_keys [] m = (m, [])"
| "type_keys (c # cs) m = (let (m', evs) = type_keys cs (key_mods c m) in (m', key_events c m @ evs))"

text \<open>The codes that the controller delivers to the next \<^verbatim>\<open>n\<close> interrupts after \<^verbatim>\<open>t\<close>, and these interrupts.\<close>

fun scancodes :: "device \<Rightarrow> nat \<Rightarrow> trace \<Rightarrow> u8 list" where
  "scancodes dev 0 t = []"
| "scancodes dev (Suc n) t = ucast (dev t 0x60) # scancodes dev n (t @ [Inb 0x60, Outb 0x20 0x20])"

fun key_interrupts :: "device \<Rightarrow> cpu_status list \<Rightarrow> trace \<times> kbd \<Rightarrow> (trace \<times> kbd) option" where
  "key_interrupts dev [] s = Some s"
| "key_interrupts dev (r # rs) s = do { s \<leftarrow> keyboard_handler dev r s; key_interrupts dev rs s }"

definition mods_of :: "kbd \<Rightarrow> mods" where
  "mods_of k = \<lparr>shift = is_shift_down k, alt = is_alt_down k, ctrl = is_ctrl_down k\<rparr>"

section \<open>The handler implements the abstract keyboard\<close>

lemma table_lengths: "length ascii_table = 58" "length capital_ascii_table = 58"
  by (simp_all add: ascii_table_def capital_ascii_table_def)

lemma code_bits:
  fixes b :: u8
  defines "c \<equiv> ucast b :: u16"
  shows "unat ((c AND NOT 0x80) AND 0xFF) = key_code b" "c AND 0x80 = 0 \<longleftrightarrow> pressed b"
    "((c AND NOT 0x80) AND 0xFF) AND 0xFF = (c AND NOT 0x80) AND 0xFF" "key_code b < 128"
proof -
  have m: "0xFF = (mask 8 :: u16)" "0x7F = (mask 7 :: u8)" by (simp_all add: mask_eq_exp_minus_1)
  have "0x80 = (2 :: int) ^ 7" by simp
  then have b80: "bit (0x80 :: int) n \<longleftrightarrow> n = 7" for n by (simp only: bit_exp_iff) auto
  have "(c AND NOT 0x80) AND 0xFF = ucast (b AND 0x7F)"
    unfolding m c_def by (rule bit_word_eqI) (auto simp: bit_simps b80)
  then show "unat ((c AND NOT 0x80) AND 0xFF) = key_code b"
    by (simp add: key_code_def unsigned_ucast_eq take_bit_nat_eq_self unsigned_less [THEN order_less_trans])
  show "c AND 0x80 = 0 \<longleftrightarrow> pressed b"
    unfolding bit_eq_iff [of "c AND 0x80" 0] by (auto simp: c_def pressed_def bit_simps b80 dest: spec [of _ 7])
  show "((c AND NOT 0x80) AND 0xFF) AND 0xFF = (c AND NOT 0x80) AND 0xFF" by (simp add: ac_simps)
  have "b AND 0x7F < 2 ^ 7" unfolding m by (rule and_mask_less_size) (simp add: word_size)
  then show "key_code b < 128" by (simp add: key_code_def word_less_nat_alt)
qed

lemma key_char_ok:
  assumes "code \<noteq> 58" and "unat key = code" and "key AND 0xFF = key"
  shows "keyboard_to_ascii key up = Some (key_char code up)"
  using assms by (auto simp: keyboard_to_ascii_def key_char_def table_read_def table_lengths)

lemma mode_bits:
  "push_bit 0 (of_bool a) OR push_bit 1 (of_bool b) OR push_bit 2 (of_bool c) =
     ((if a then 1 else 0) + (if b then 2 else 0) + (if c then 4 else 0) :: u8)"
  by (cases a; cases b; cases c) simp_all

text \<open>One interrupt, whatever the state of the buffer.\<close>

lemma keyboard_handler_step:
  assumes inv: "rb_inv (keyboard_buffer k)" and code: "key_code (ucast (dev t 0x60)) \<noteq> 58"
  defines "c \<equiv> ucast (dev t 0x60)"
  shows "\<exists>k'. keyboard_handler dev r (t, k) = Some (t @ [Inb 0x60, Outb 0x20 0x20], k') \<and>
    rb_inv (keyboard_buffer k') \<and> rb_cap (keyboard_buffer k') = rb_cap (keyboard_buffer k) \<and>
    mods_of k' = key_mods c (mods_of k) \<and>
    contents (keyboard_buffer k') = contents (keyboard_buffer k) @
      take (rb_cap (keyboard_buffer k) - length (contents (keyboard_buffer k)))
        (concat (map event_bytes (key_events c (mods_of k))))"
proof -
  note b = code_bits [of c]
  let ?code = "(ucast c AND NOT 0x80) AND 0xFF :: u16"
  have cmp: "?code = w \<longleftrightarrow> key_code c = unat w" for w using b(1) by (metis word_unat_eq_iff)
  note ch = key_char_ok [OF _ b(1,3), of "is_shift_down k"]
  show ?thesis
  proof (cases "key_code c \<in> {0x2A, 0x36, 0x38, 0x1D}")
    case True
    then show ?thesis
      using b(2) inv cmp [of "0x2A"] cmp [of "0x36"] cmp [of "0x38"] cmp [of "0x1D"]
      by (auto simp: keyboard_handler_def io_defs PS2_REG_DATA_def Let_def key_mods_def key_events_def
          mods_of_def simp flip: c_def)
  next
    case False
    let ?ev = "hd (key_events c (mods_of k))"
    have ev: "key_events c (mods_of k) = [?ev]" using False by (simp add: key_events_def)
    obtain rb n where w: "ringbuffer_write (keyboard_buffer k) (event_bytes ?ev) 3 = Some (rb, n)"
        "unat n = min 3 (rb_cap (keyboard_buffer k) - length (contents (keyboard_buffer k)))" "rb_inv rb"
        "rb_cap rb = rb_cap (keyboard_buffer k)"
        "contents rb = contents (keyboard_buffer k) @ take (unat n) (event_bytes ?ev)"
      using ringbuffer_write_Some [OF inv, of 3 "event_bytes ?ev"] by (auto simp: event_bytes_def)
    have tk: "take (unat n) (event_bytes ?ev) =
        take (rb_cap (keyboard_buffer k) - length (contents (keyboard_buffer k))) (concat (map event_bytes [?ev]))"
      using w(2) by (simp add: event_bytes_def min_def)
    have "keyboard_to_ascii ?code (is_shift_down k) = Some (ev_c ?ev)"
      using ch code False by (simp add: key_events_def mods_of_def c_def)
    moreover have "?ev = \<lparr>ev_c = ev_c ?ev,
          ev_mode = push_bit 0 (of_bool (is_shift_down k)) OR push_bit 1 (of_bool (is_alt_down k)) OR
            push_bit 2 (of_bool (is_ctrl_down k)),
          ev_release = (if ucast c AND (0x80 :: u16) = 0 then 0 else 1)\<rparr>"
      unfolding mode_bits b(2) using False by (simp add: key_events_def mods_of_def)
    ultimately have "keyboard_handler dev r (t, k) =
        Some (t @ [Inb 0x60, Outb 0x20 0x20], k\<lparr>keyboard_buffer := rb\<rparr>)"
      using w(1) cmp [of "0x2A"] cmp [of "0x36"] cmp [of "0x38"] cmp [of "0x1D"] False
      by (simp add: keyboard_handler_def io_defs PS2_REG_DATA_def Let_def flip: c_def)
    moreover have "key_mods c (mods_of k) = mods_of k" using False by (simp add: key_mods_def)
    moreover have "contents rb = contents (keyboard_buffer k) @
        take (rb_cap (keyboard_buffer k) - length (contents (keyboard_buffer k)))
          (concat (map event_bytes (key_events c (mods_of k))))"
      using w(5) tk ev by simp
    ultimately show ?thesis using w(3,4)
      by (intro exI [of _ "k\<lparr>keyboard_buffer := rb\<rparr>"]) (simp add: mods_of_def)
  qed
qed

text \<open>Any number of interrupts: what does not fit into the buffer is dropped, byte by byte.\<close>

lemma take_take_append: "take n (take n xs @ ys) = take n (xs @ ys)"
  by (simp add: min_def)

lemma key_interrupts_run:
  assumes "rb_inv (keyboard_buffer k)" and "\<forall>c \<in> set (scancodes dev (length rs) t). key_code c \<noteq> 58"
    and "type_keys (scancodes dev (length rs) t) (mods_of k) = (m, evs)"
  shows "\<exists>t' k'. key_interrupts dev rs (t, k) = Some (t', k') \<and> rb_inv (keyboard_buffer k') \<and>
    rb_cap (keyboard_buffer k') = rb_cap (keyboard_buffer k) \<and> mods_of k' = m \<and>
    contents (keyboard_buffer k') =
      take (rb_cap (keyboard_buffer k)) (contents (keyboard_buffer k) @ concat (map event_bytes evs))"
  using assms
proof (induction rs arbitrary: t k evs)
  case Nil
  then show ?case using rb.within_cap [of "keyboard_buffer k"] by simp
next
  case (Cons r rs)
  let ?c = "ucast (dev t 0x60) :: u8" and ?t = "t @ [Inb 0x60, Outb 0x20 0x20]"
  obtain evs' where evs: "type_keys (scancodes dev (length rs) ?t) (key_mods ?c (mods_of k)) = (m, evs')"
      "evs = key_events ?c (mods_of k) @ evs'"
    using Cons.prems(3) by (auto split: prod.splits)
  obtain k1 where k1: "keyboard_handler dev r (t, k) = Some (?t, k1)" "rb_inv (keyboard_buffer k1)"
      "rb_cap (keyboard_buffer k1) = rb_cap (keyboard_buffer k)" "mods_of k1 = key_mods ?c (mods_of k)"
      "contents (keyboard_buffer k1) = contents (keyboard_buffer k) @
        take (rb_cap (keyboard_buffer k) - length (contents (keyboard_buffer k)))
          (concat (map event_bytes (key_events ?c (mods_of k))))"
    using keyboard_handler_step [OF Cons.prems(1), of dev t r] Cons.prems(2) by auto
  have c1: "contents (keyboard_buffer k1) = take (rb_cap (keyboard_buffer k))
      (contents (keyboard_buffer k) @ concat (map event_bytes (key_events ?c (mods_of k))))"
    using k1(5) rb.within_cap [OF Cons.prems(1)] by simp
  obtain t' k' where "key_interrupts dev rs (?t, k1) = Some (t', k')" "rb_inv (keyboard_buffer k')"
      "rb_cap (keyboard_buffer k') = rb_cap (keyboard_buffer k1)" "mods_of k' = m"
      "contents (keyboard_buffer k') =
         take (rb_cap (keyboard_buffer k1)) (contents (keyboard_buffer k1) @ concat (map event_bytes evs'))"
    using Cons.IH [OF k1(2), of ?t evs'] Cons.prems(2) evs(1) k1(4) by auto
  then show ?case unfolding c1 k1(3) take_take_append using k1(1) evs(2) by simp
qed

section \<open>Properties\<close>

text \<open>
  C19 (keyboard_events_in_order): For any sequence of interrupts without the code of the Caps Lock key,
  the handler returns each time, the modifier flags end up as the last press or release of each
  modifier says, and the buffer holds, after what it held before, exactly the events of the keys in
  order, cut off where the buffer is full; a reader gets them out as they went in.
\<close>

theorem keyboard_events_in_order:
  assumes "rb_inv (keyboard_buffer k)" and "\<forall>c \<in> set (scancodes dev (length rs) t). key_code c \<noteq> 58"
    and "type_keys (scancodes dev (length rs) t) (mods_of k) = (m, evs)"
  shows "\<exists>t' k' q. key_interrupts dev rs (t, k) = Some (t', k') \<and> rb_inv (keyboard_buffer k') \<and> mods_of k' = m \<and>
    contents (keyboard_buffer k') =
      take (rb_cap (keyboard_buffer k)) (contents (keyboard_buffer k) @ concat (map event_bytes evs)) \<and>
    rb_pop (keyboard_buffer k') (length (contents (keyboard_buffer k'))) = Some (q, contents (keyboard_buffer k'))"
proof -
  obtain t' k' where r: "key_interrupts dev rs (t, k) = Some (t', k')" "rb_inv (keyboard_buffer k')" "mods_of k' = m"
    "contents (keyboard_buffer k') =
      take (rb_cap (keyboard_buffer k)) (contents (keyboard_buffer k) @ concat (map event_bytes evs))"
    using key_interrupts_run [OF assms] by blast
  have "length (contents (keyboard_buffer k')) < 2 ^ 32"
    by (simp add: unsigned_less [THEN order_less_le_trans])
  then obtain q where
    "rb_pop (keyboard_buffer k') (length (contents (keyboard_buffer k'))) = Some (q, contents (keyboard_buffer k'))"
    using rb.pop_law [OF r(2), of "length (contents (keyboard_buffer k'))"] take_all_iff by fastforce
  then show ?thesis using r by blast
qed

definition fresh_kbd :: "kbd" where
  "fresh_kbd = \<lparr>is_shift_down = False, is_alt_down = False, is_ctrl_down = False,
     keyboard_buffer = \<lparr>buffer = Some (replicate 384 0), buffer_size = 384, read_ptr = 0, write_ptr = 0\<rparr>\<rparr>"

lemma fresh_kbd_buffer:
  "rb_inv (keyboard_buffer fresh_kbd)" "contents (keyboard_buffer fresh_kbd) = []"
  "rb_cap (keyboard_buffer fresh_kbd) = 383"
  by (simp_all add: fresh_kbd_def rb_inv_def contents_def ringbuffer_used_def rb_cap_def ringbuffer_capacity_def)

text \<open>Shift down, then the key \<^verbatim>\<open>a\<close>.\<close>

theorem keyboard_events_in_order_witness:
  "\<exists>t' k' q. key_interrupts (\<lambda>t p. if t = [] then 0x2A else 0x1E) [undefined, undefined] ([], fresh_kbd) = Some (t', k') \<and>
     is_shift_down k' \<and> rb_pop (keyboard_buffer k') 3 = Some (q, [0x41, 1, 0])"
proof -
  let ?dev = "\<lambda>t p. if t = [] then 0x2A else 0x1E" and ?rs = "[undefined, undefined] :: cpu_status list"
  have sc: "scancodes ?dev (length ?rs) [] = [0x2A, 0x1E]" by simp
  have kc: "key_code 0x2A = 0x2A" "key_code 0x1E = 0x1E" "pressed 0x2A" "pressed 0x1E"
    by (simp_all add: key_code_def pressed_def)
  have ch: "key_char 0x1E True = 0x41" by code_simp
  have ty: "type_keys [0x2A, 0x1E] (mods_of fresh_kbd) =
      (\<lparr>shift = True, alt = False, ctrl = False\<rparr>, [\<lparr>ev_c = 0x41, ev_mode = 1, ev_release = 0\<rparr>])"
    by (simp add: mods_of_def fresh_kbd_def key_mods_def key_events_def kc ch)
  have "\<forall>c \<in> set (scancodes ?dev (length ?rs) []). key_code c \<noteq> 58" unfolding sc by (simp add: key_code_def)
  from keyboard_events_in_order [OF fresh_kbd_buffer(1) this ty [folded sc]]
  obtain t' k' q where r: "key_interrupts ?dev ?rs ([], fresh_kbd) = Some (t', k')" "is_shift_down k'"
      "contents (keyboard_buffer k') = [0x41, 1, 0]"
      "rb_pop (keyboard_buffer k') (length (contents (keyboard_buffer k'))) = Some (q, contents (keyboard_buffer k'))"
    by (auto simp: fresh_kbd_buffer event_bytes_def mods_of_def simp del: key_interrupts.simps length_contents)
  have "length (contents (keyboard_buffer k')) = 3" by (simp add: r(3) del: length_contents)
  then show ?thesis using r(1,2) r(4) [unfolded r(3)] by (metis r(3))
qed

text \<open>
  After \<^verbatim>\<open>ps2_keyboard_init\<close> on a controller pair that is ready, the keyboard's
  line is unmasked and no other, the buffer is empty and well-formed with room for 383 bytes, and
  interrupt \<^verbatim>\<open>0x21\<close> runs \<^verbatim>\<open>keyboard_handler\<close>; without memory nothing is installed.
\<close>

theorem keyboard_init_delivers:
  assumes "pic_device dev m s" and "pics_ready m s t"
    and "length (idt st) = 256" and "length (list_of_handlers st) = 256"
  shows "(kmalloc 384 = None \<longrightarrow> (\<exists>k'. ps2_keyboard_init isr dev kmalloc (t, st, k) = Some ((t, st, k'), False))) \<and>
    (\<forall>buf. kmalloc 384 = Some buf \<and> length buf = 384 \<longrightarrow>
      (\<exists>t' st' k'. ps2_keyboard_init isr dev kmalloc (t, st, k) = Some ((t', st', k'), True) \<and>
        rb_inv (keyboard_buffer k') \<and> contents (keyboard_buffer k') = [] \<and> rb_cap (keyboard_buffer k') = 383 \<and>
        (\<forall>i < 16. line_masked (master_after m t') (slave_after s t') i \<longleftrightarrow>
           i \<noteq> 1 \<and> line_masked (master_after m t) (slave_after s t) i) \<and>
        (\<forall>r x. unat (vector_number r) = 0x21 \<longrightarrow> interrupt_dispatch dev st' r x = keyboard_handler dev r x)))"
proof (intro conjI allI impI)
  assume "kmalloc 384 = None"
  then show "\<exists>k'. ps2_keyboard_init isr dev kmalloc (t, st, k) = Some ((t, st, k'), False)"
    by (simp add: ps2_keyboard_init_def ringbuffer_init_def Let_def)
next
  fix buf
  assume "kmalloc 384 = Some buf \<and> length buf = 384"
  then have b: "kmalloc 384 = Some buf" "length buf = 384" by simp_all
  let ?rb = "\<lparr>buffer = Some buf, buffer_size = 384, read_ptr = 0, write_ptr = 0\<rparr>"
  have rb: "rb_inv ?rb" "contents ?rb = []" "rb_cap ?rb = 383"
    using b(2) by (simp_all add: rb_inv_def contents_def ringbuffer_used_def rb_cap_def ringbuffer_capacity_def)
  have "(1 :: nat) < 16" by simp
  from handler_install_delivers_aux [OF assms this, of isr "keyboard_handler dev"]
  obtain t' st' where i: "handler_install isr dev 0x21 (keyboard_handler dev) (t, st) = Some (t', st')"
      "\<forall>i < 16. line_masked (master_after m t') (slave_after s t') i \<longleftrightarrow>
           i \<noteq> 1 \<and> line_masked (master_after m t) (slave_after s t) i"
      "\<forall>r x. interrupt_dispatch dev st' r x =
         (if unat (vector_number r) = 0x21 then keyboard_handler dev r x else interrupt_dispatch dev st r x)"
    by auto
  have "ps2_keyboard_init isr dev kmalloc (t, st, k) = Some ((t', st', k\<lparr>keyboard_buffer := ?rb\<rparr>), True)"
    using b(1) i(1) by (simp add: ps2_keyboard_init_def ringbuffer_init_def Let_def)
  then show "\<exists>t' st' k'. ps2_keyboard_init isr dev kmalloc (t, st, k) = Some ((t', st', k'), True) \<and>
        rb_inv (keyboard_buffer k') \<and> contents (keyboard_buffer k') = [] \<and> rb_cap (keyboard_buffer k') = 383 \<and>
        (\<forall>i < 16. line_masked (master_after m t') (slave_after s t') i \<longleftrightarrow>
           i \<noteq> 1 \<and> line_masked (master_after m t) (slave_after s t) i) \<and>
        (\<forall>r x. unat (vector_number r) = 0x21 \<longrightarrow> interrupt_dispatch dev st' r x = keyboard_handler dev r x)"
    using rb i(2,3) by (intro exI [of _ t'] exI [of _ st'] exI [of _ "k\<lparr>keyboard_buffer := ?rb\<rparr>"]) simp
qed

theorem keyboard_init_delivers_witness:
  "\<exists>t' st' k'. ps2_keyboard_init (\<lambda>n. of_nat n) two_pics (\<lambda>n. Some (replicate (unat n) 0)) ([], no_interrupts, fresh_kbd) =
     Some ((t', st', k'), True) \<and> contents (keyboard_buffer k') = []"
  using keyboard_init_delivers [OF two_pics_ok, of "no_interrupts :: kbd interrupts" "\<lambda>n. Some (replicate (unat n) 0)"
      "\<lambda>n. of_nat n" fresh_kbd]
  by (fastforce simp: no_interrupts_def)

text \<open>
  The code of the Caps Lock key, \<^verbatim>\<open>0x3A\<close>, passes the bounds check of
  \<^verbatim>\<open>keyboard_to_ascii\<close> although both tables end just before it: the handler reads behind the table.
  Every other code is safe.
\<close>

theorem caps_lock_reads_past_table:
  "rb_inv (keyboard_buffer k) \<Longrightarrow>
     keyboard_handler dev r (t, k) = None \<longleftrightarrow> key_code (ucast (dev t 0x60)) = 58"
proof
  assume inv: "rb_inv (keyboard_buffer k)" and none: "keyboard_handler dev r (t, k) = None"
  show "key_code (ucast (dev t 0x60)) = 58"
  proof (rule ccontr)
    assume "key_code (ucast (dev t 0x60)) \<noteq> 58"
    then show False using keyboard_handler_step [OF inv, of dev t r] none by auto
  qed
next
  assume c: "key_code (ucast (dev t 0x60)) = 58"
  let ?code = "(ucast (ucast (dev t 0x60) :: u8) AND NOT 0x80) AND 0xFF :: u16"
  note b = code_bits [of "ucast (dev t 0x60)"]
  have u: "unat ?code = 58" using b(1) c by simp
  then have "?code = 58" using word_unat_eq_iff [of ?code 58] by simp
  then show "keyboard_handler dev r (t, k) = None"
    using u b(3) by (simp add: keyboard_handler_def io_defs PS2_REG_DATA_def Let_def keyboard_to_ascii_def
        table_read_def table_lengths)
qed

theorem caps_lock_reads_past_table_witness:
  "\<forall>r. keyboard_handler (\<lambda>t p. 0x3A) r ([], fresh_kbd) = None"
proof
  fix r
  show "keyboard_handler (\<lambda>t p. 0x3A) r ([], fresh_kbd) = None"
    using caps_lock_reads_past_table [OF fresh_kbd_buffer(1), of "\<lambda>t p. 0x3A" r "[]"] by (simp add: key_code_def)
qed

end
