(* ===== verification/Gdt.thy ===== *)
theory Gdt
  imports Prelude
begin

text \<open>
  The segment descriptors of \<^verbatim>\<open>arch/amd64/gdt.c\<close> and what the processor reads in them.
\<close>

section \<open>The table\<close>

record gdtr =
  gdtr_limit :: u16
  gdtr_address :: u64

text \<open>The globals of the file and the register that \<^verbatim>\<open>lgdt\<close> loads.\<close>

record gdt =
  num_gdt_entries :: u64
  gdt_entries :: "u64 list"
  gdt_register :: "gdtr option"

definition load_gdt :: "gdtr \<Rightarrow> gdt \<Rightarrow> gdt" where
  "load_gdt r st = st\<lparr>gdt_register := Some r\<rparr>"

text \<open>The shifts of \<^verbatim>\<open>int\<close> constants are small and positive, so they are the same on 64 bits.\<close>

definition gdt_init :: "u64 \<Rightarrow> gdt \<Rightarrow> gdt" where
  "gdt_init address st =
     (let st = st\<lparr>gdt_entries := (gdt_entries st)[0 := 0]\<rparr>;
          kernel_code = 0;
          kernel_code = kernel_code OR push_bit 8 3;
          kernel_code = kernel_code OR push_bit 11 1;
          kernel_code = kernel_code OR push_bit 12 1;
          kernel_code = kernel_code OR push_bit 13 0;
          kernel_code = kernel_code OR push_bit 15 1;
          kernel_code = kernel_code OR push_bit 21 1;
          st = st\<lparr>gdt_entries := (gdt_entries st)[1 := push_bit 32 kernel_code]\<rparr>;
          kernel_data = 0;
          kernel_data = kernel_data OR push_bit 8 3;
          kernel_data = kernel_data OR push_bit 12 1;
          kernel_data = kernel_data OR push_bit 13 0;
          kernel_data = kernel_data OR push_bit 15 1;
          kernel_data = kernel_data OR push_bit 21 1;
          st = st\<lparr>gdt_entries := (gdt_entries st)[2 := push_bit 32 kernel_data]\<rparr>;
          r = \<lparr>gdtr_limit = ucast (num_gdt_entries st * 8 - 1), gdtr_address = address\<rparr>
      in load_gdt r st)"

section \<open>How the processor reads a descriptor\<close>

text \<open>
  The fields of a segment descriptor of the amd64 architecture: the type with its code bit, the
  system bit, the privilege level, the present bit, and the long-mode and default-size bits.
\<close>

record segment =
  seg_code :: bool
  seg_writable_readable :: bool
  seg_accessed :: bool
  seg_user :: bool
  seg_dpl :: u64
  seg_present :: bool
  seg_long :: bool
  seg_default32 :: bool

definition segment_of :: "u64 \<Rightarrow> segment" where
  "segment_of e =
     \<lparr>seg_code = bit e 43, seg_writable_readable = bit e 41, seg_accessed = bit e 40,
      seg_user = bit e 44, seg_dpl = drop_bit 45 e AND 3, seg_present = bit e 47,
      seg_long = bit e 53, seg_default32 = bit e 54\<rparr>"

text \<open>The descriptor that a selector names: the limit counts the last valid byte.\<close>

definition selected_segment :: "gdt \<Rightarrow> u16 \<Rightarrow> segment option" where
  "selected_segment st sel =
     (let i = unat (drop_bit 3 sel)
      in case gdt_register st of
           None \<Rightarrow> None
         | Some r \<Rightarrow> if 8 * i + 7 \<le> unat (gdtr_limit r) \<and> i < length (gdt_entries st) \<and> i \<noteq> 0
                    then Some (segment_of (gdt_entries st ! i)) else None)"

text \<open>
  After \<^verbatim>\<open>gdt_init\<close> selector 8 names a present 64-bit code segment of ring 0 (the
  selector of every interrupt gate), selector \<^verbatim>\<open>0x10\<close> a present writable data segment of ring 0,
  and no other selector of the table is valid.
\<close>

theorem gdt_init_segments:
  assumes "length (gdt_entries st) = 3" "num_gdt_entries st = 3"
  shows "selected_segment (gdt_init a st) 8 =
       Some \<lparr>seg_code = True, seg_writable_readable = True, seg_accessed = True, seg_user = True,
             seg_dpl = 0, seg_present = True, seg_long = True, seg_default32 = False\<rparr> \<and>
     selected_segment (gdt_init a st) 0x10 =
       Some \<lparr>seg_code = False, seg_writable_readable = True, seg_accessed = True, seg_user = True,
             seg_dpl = 0, seg_present = True, seg_long = True, seg_default32 = False\<rparr> \<and>
     (\<forall>sel. drop_bit 3 sel \<noteq> 1 \<and> drop_bit 3 sel \<noteq> 2 \<longrightarrow> selected_segment (gdt_init a st) sel = None)"
proof -
  obtain x y z where e: "gdt_entries st = [x, y, z]"
    using assms(1) by (auto simp: length_Suc_conv numeral_3_eq_3)
  have g: "gdt_entries (gdt_init a st) = [0, 0x00209B0000000000, 0x0020930000000000]"
    "gdt_register (gdt_init a st) = Some \<lparr>gdtr_limit = 23, gdtr_address = a\<rparr>"
    using assms(2) by (simp_all add: gdt_init_def load_gdt_def Let_def e)
  have "\<forall>sel. drop_bit 3 sel \<noteq> 1 \<and> drop_bit 3 sel \<noteq> 2 \<longrightarrow> selected_segment (gdt_init a st) sel = None"
  proof (intro allI impI)
    fix sel :: u16
    assume n: "drop_bit 3 sel \<noteq> 1 \<and> drop_bit 3 sel \<noteq> 2"
    have "unat (drop_bit 3 sel) \<noteq> 1" "unat (drop_bit 3 sel) \<noteq> 2"
      using n unfolding word_unat_eq_iff by simp_all
    then have "unat (drop_bit 3 sel) = 0 \<or> 8 * unat (drop_bit 3 sel) + 7 > 23" by linarith
    then show "selected_segment (gdt_init a st) sel = None"
      by (auto simp: selected_segment_def g Let_def)
  qed
  then show ?thesis
    by (simp add: selected_segment_def g Let_def segment_of_def)
qed

theorem gdt_init_segments_witness:
  "selected_segment (gdt_init 0x1000 \<lparr>num_gdt_entries = 3, gdt_entries = [0, 0, 0], gdt_register = None\<rparr>) 0 = None"
proof -
  let ?st = "\<lparr>num_gdt_entries = 3, gdt_entries = [0, 0, 0], gdt_register = None\<rparr>"
  have "length (gdt_entries ?st) = 3" "num_gdt_entries ?st = 3" by simp_all
  from gdt_init_segments [OF this, where a = "0x1000"] show ?thesis by simp
qed

end
