(* ===== verification/Kernel.thy ===== *)
theory Kernel
  imports AhciCommand PageHeap Keyboard Gdt
begin

text \<open>
  The start of the kernel, \<^verbatim>\<open>kernel.c\<close>: \<^verbatim>\<open>kmain\<close> and, on the new stack, \<^verbatim>\<open>kmain2\<close>, over the states of
  all components.  The page tables are the page source of the heap, and the seed of \<^verbatim>\<open>prng.c\<close> is
  one variable for both.
\<close>

section \<open>The state of the kernel\<close>

record kernel =
  k_io :: trace
  k_csprng :: csprng
  k_gdt :: gdt
  k_int :: "kbd interrupts"
  k_kbd :: kbd
  k_heap :: "mmu kheap"
  k_regs :: "mmio list"
  k_hba :: u64

text \<open>
  What the kernel finds when it is started: the devices, the functions that the disk driver does
  not define, the addresses the linker and the loader have chosen, the number of page table
  allocations that may nest (see \<^verbatim>\<open>Paging\<close>), the value of the oversized shifts of \<^verbatim>\<open>int\<close>, the registers
  of the first stack, and the contents of the uninitialized locals of \<^verbatim>\<open>ahci_init\<close>.
\<close>

record boot_machine =
  ports :: device
  controller_of :: controller
  disk_lib :: ahci_lib
  isr_address :: "nat \<Rightarrow> u64"
  idt_address :: u64
  gdt_address :: u64
  first_table :: u64
  kernel_end :: u64
  nesting :: nat
  shifted_one :: "nat \<Rightarrow> u64"
  first_stack :: "u64 \<times> u64 \<times> u64"
  local_device :: pci_device
  local_bar :: pci_base_address_register

definition MULTIBOOT2_BOOTLOADER_MAGIC :: u32 where
  "MULTIBOOT2_BOOTLOADER_MAGIC = 0x36d76289"

section \<open>The second half, on the new stack\<close>

text \<open>
  The keyboard's buffer is allocated on the heap: its model takes the contents of the new block.
\<close>

definition init_keyboard :: "boot_machine \<Rightarrow> kernel \<Rightarrow> (kernel \<times> bool) option" where
  "init_keyboard mc k = do {
     (h, p) \<leftarrow> kmalloc (page_sbrk (shifted_one mc) (nesting mc)) (3 * 128) (k_heap k);
     let k = k\<lparr>k_heap := h\<rparr>;
     let block = (if p = 0 then None else Some (load_bytes (kmem h) p (3 * 128)));
     ((t, st, kb), ok) \<leftarrow> ps2_keyboard_init (isr_address mc) (ports mc) (\<lambda>_. block)
       (k_io k, k_int k, k_kbd k);
     Some (k\<lparr>k_io := t, k_int := st, k_kbd := kb\<rparr>, ok)
   }"

definition init_disk :: "boot_machine \<Rightarrow> kernel \<Rightarrow> (bool \<times> kernel) option" where
  "init_disk mc k = do {
     let st = \<lparr>ah_io = k_io k, ah_regs = k_regs k, ah_mem = kmem (k_heap k),
       ah_mmu = heap_mmu (k_heap k), hba = k_hba k\<rparr>;
     (ok, st) \<leftarrow> ahci_init (disk_lib mc) (ports mc) (controller_of mc) (shifted_one mc) (nesting mc)
       (local_device mc) (local_bar mc) st;
     Some (ok, k\<lparr>k_io := ah_io st, k_regs := ah_regs st, k_hba := hba st,
       k_heap := with_mmu (ah_mmu st) ((k_heap k)\<lparr>kmem := ah_mem st\<rparr>)\<rparr>)
   }"

definition kmain2 :: "boot_machine \<Rightarrow> kernel \<Rightarrow> kernel option" where
  "kmain2 mc k = do {
     (h, ok) \<leftarrow> kmalloc_init (page_sbrk (shifted_one mc) (nesting mc)) (k_heap k);
     let k = k\<lparr>k_heap := h\<rparr>;
     c_assert ok;
     (k, ok) \<leftarrow> init_keyboard mc k;
     c_assert ok;
     (_, k) \<leftarrow> init_disk mc k;
     (_, t) \<leftarrow> kprintf (ports mc) ''Hello, world!\<newline>'' [] (k_io k);
     Some (k\<lparr>k_io := t\<rparr>)
   }"

section \<open>The first half\<close>

definition init_random :: "kernel \<Rightarrow> kernel option" where
  "init_random k = do {
     let k = k\<lparr>k_csprng := csprng_init (k_csprng k)\<rparr>;
     (c, seed) \<leftarrow> prng_init (k_csprng k);
     Some (k\<lparr>k_csprng := c, k_heap := (k_heap k)\<lparr>kseed := seed\<rparr>\<rparr>)
   }"

definition kmain :: "boot_machine \<Rightarrow> u32 \<Rightarrow> u64 \<Rightarrow> kernel \<Rightarrow> kernel option" where
  "kmain mc magic arg k =
     (if MULTIBOOT2_BOOTLOADER_MAGIC \<noteq> magic then do {
        (_, t) \<leftarrow> kprintf (ports mc) ''Invalid magic: %x\<newline>'' [Num (ucast magic)] (k_io k);
        Some (k\<lparr>k_io := t\<rparr>)
      }
      else do {
        k \<leftarrow> init_random k;
        let (_, t) = serial_init (ports mc) (k_io k);
        let k = k\<lparr>k_io := t\<rparr>;
        let k = k\<lparr>k_gdt := gdt_init (gdt_address mc) (k_gdt k)\<rparr>;
        (t, st) \<leftarrow> idt_init (isr_address mc) (idt_address mc) (ports mc) (k_io k, k_int k);
        let k = k\<lparr>k_io := t, k_int := st\<rparr>;
        (m, ok) \<leftarrow> mmu_init (shifted_one mc) (nesting mc) (first_table mc) (kernel_end mc) arg
          (heap_mmu (k_heap k));
        c_assert (ok \<noteq> 0);
        mmu_update_stack (shifted_one mc) (nesting mc)
          (\<lambda>m. kmain2 mc (k\<lparr>k_heap := with_mmu m (k_heap k)\<rparr>)) (first_stack mc) m
      })"

section \<open>What is known after the start\<close>

lemma magic_line:
  "vkcprintf collect ''Invalid magic: %x\<newline>'' [Num w] [] =
     Some (int (length (hex_of w)) + 16, ''Invalid magic: '' @ hex_of w @ ''\<newline>'')"
  by (simp add: vk_run conv_hex_def print_uhex_def print_unum_eq Let_def hex_of send_def collect_def)

text \<open>
  Started by anything but a Multiboot2 loader, the kernel reports the value it
  got in hexadecimal, returns, and has touched nothing else: no component is initialized.
\<close>

theorem kmain_rejects_magic:
  assumes "magic \<noteq> 0x36d76289" "\<forall>t. ready (ports mc) t"
  shows "kmain mc magic arg k =
     Some (k\<lparr>k_io := k_io k @ sent (''Invalid magic: '' @ hex_of (ucast magic) @ ''\<newline>'')\<rparr>)"
  using assms(1) kprintf_ready [OF assms(2) magic_line]
  by (simp add: kmain_def MULTIBOOT2_BOOTLOADER_MAGIC_def)

theorem kmain_rejects_magic_witness:
  "\<forall>mc k. kmain (mc\<lparr>ports := (\<lambda>t p. 0x20)\<rparr>) 0x2BADB002 0 k =
     Some (k\<lparr>k_io := k_io k @ sent (''Invalid magic: '' @ hex_of 0x2BADB002 @ ''\<newline>'')\<rparr>)"
proof (intro allI)
  fix mc :: boot_machine and k :: kernel
  have "\<forall>t. ready (ports (mc\<lparr>ports := (\<lambda>t p. 0x20)\<rparr>)) t" using always_ready by simp
  from kmain_rejects_magic [OF _ this, of "0x2BADB002" 0 k]
  show "kmain (mc\<lparr>ports := (\<lambda>t p. 0x20)\<rparr>) 0x2BADB002 0 k =
     Some (k\<lparr>k_io := k_io k @ sent (''Invalid magic: '' @ hex_of 0x2BADB002 @ ''\<newline>'')\<rparr>)" by simp
qed

text \<open>
  \<^verbatim>\<open>kmain\<close> seeds \<^verbatim>\<open>prng.c\<close> before any entropy has been added: on every start the
  page and heap allocators draw from the same seed, a function of the constants in the source.
\<close>

theorem boot_seed_is_constant:
  assumes "internal_chacha_block (k_csprng k) = initial_chacha_block"
  shows "\<exists>k'. init_random k = Some k' \<and>
     kseed (k_heap k') = seed_of_bytes (take 32 (keystream initial_chacha_block 1))"
proof -
  let ?c = "csprng_init (k_csprng k)"
  have c: "internal_chacha_block ?c = initial_chacha_block" using assms by (simp add: csprng_init_def)
  have "block_ok initial_chacha_block" by (simp add: block_ok_def initial_chacha_block_def chacha_layout)
  then have "csprng_get_random ?c 32 =
      Some (?c\<lparr>internal_chacha_block := (advance_block ^^ blocks_for 32) initial_chacha_block\<rparr>,
            take 32 (keystream initial_chacha_block (blocks_for 32)))"
    using csprng_get_random_eq [of ?c 32] c by simp
  moreover have "blocks_for 32 = 1" by (simp add: blocks_for_def)
  ultimately show ?thesis by (simp add: init_random_def prng_init_def)
qed

theorem boot_seed_is_constant_witness:
  "\<forall>k. \<exists>k1 k2. init_random (k\<lparr>k_csprng := (k_csprng k)\<lparr>internal_chacha_block := initial_chacha_block\<rparr>\<rparr>) = Some k1 \<and>
     init_random (k\<lparr>k_io := [], k_csprng := (k_csprng k)\<lparr>internal_chacha_block := initial_chacha_block,
       entropy_fast_state := 7\<rparr>\<rparr>) = Some k2 \<and> kseed (k_heap k1) = kseed (k_heap k2)"
proof
  fix k :: kernel
  let ?k1 = "k\<lparr>k_csprng := (k_csprng k)\<lparr>internal_chacha_block := initial_chacha_block\<rparr>\<rparr>"
  let ?k2 = "k\<lparr>k_io := [], k_csprng := (k_csprng k)\<lparr>internal_chacha_block := initial_chacha_block,
       entropy_fast_state := 7\<rparr>\<rparr>"
  have "internal_chacha_block (k_csprng ?k1) = initial_chacha_block"
    "internal_chacha_block (k_csprng ?k2) = initial_chacha_block" by simp_all
  from this [THEN boot_seed_is_constant]
  show "\<exists>k1 k2. init_random ?k1 = Some k1 \<and> init_random ?k2 = Some k2 \<and> kseed (k_heap k1) = kseed (k_heap k2)"
    by auto
qed

end
