(* ===== verification/BootMap.thy ===== *)
theory BootMap
  imports PageSupply
begin

text \<open>
  The memory map of the boot loader: what \<^verbatim>\<open>mmu_init\<close> makes of a list of Multiboot2 tags.
\<close>

section \<open>Freeing a range\<close>

lemma translate_frames [simp]: "translate (st\<lparr>frames := fr\<rparr>) a = translate st a"
  by (simp add: translate_def)

lemma vload_frames [simp]:
  "vload32 (st\<lparr>frames := fr\<rparr>) a = vload32 st a" "vload64 (st\<lparr>frames := fr\<rparr>) a = vload64 st a"
  by (simp_all add: vload32_def vload64_def vload_run_def)

definition clear_frames :: "(nat \<Rightarrow> u64) \<Rightarrow> nat list \<Rightarrow> bitmap \<Rightarrow> bitmap" where
  "clear_frames bit1 ks = fold (\<lambda>k fr. fst (set_frame bit1 (page_offset k) False fr)) ks"

lemma clear_frames_simps [simp]:
  "clear_frames bit1 [] fr = fr"
  "clear_frames bit1 (k # ks) fr = clear_frames bit1 ks (fst (set_frame bit1 (page_offset k) False fr))"
  "clear_frames bit1 (ks @ ls) fr = clear_frames bit1 ls (clear_frames bit1 ks fr)"
  by (simp_all add: clear_frames_def)

lemma length_clear_frames [simp]: "length (clear_frames bit1 ks fr) = length fr"
  by (induction ks arbitrary: fr) simp_all

lemma clear_frame_at: "k < 16384 \<Longrightarrow> fst (set_frame bit1 (page_offset k) False fr) =
    fr[k div 64 := fr ! (k div 64) AND NOT (bit1 (k mod 64))]"
  by (simp add: page_offset_frame set_frame_at)

text \<open>The frames of a range: from the one of the first address on, while the address is below the limit.\<close>

definition range_frames :: "nat \<Rightarrow> nat \<Rightarrow> nat list" where
  "range_frames a l = filter (\<lambda>k. 4096 * k + a mod 4096 < l) [a div 4096..<16384]"

lemma range_frames_set: "set (range_frames a l) = {k. a div 4096 \<le> k \<and> k < 16384 \<and> 4096 * k + a mod 4096 < l}"
  by (auto simp: range_frames_def)

lemma range_frames_step:
  assumes "a < l" and "a < 67108864"
  shows "range_frames a l = a div 4096 # range_frames (a + 4096) l"
proof -
  have "a div 4096 < 16384" using assms(2) by (simp add: div_less_iff_less_mult)
  then have "[a div 4096..<16384] = a div 4096 # [Suc (a div 4096)..<16384]" by (rule upt_conv_Cons)
  moreover have "4096 * (a div 4096) + a mod 4096 < l" using assms(1) by simp
  moreover have "(a + 4096) div 4096 = Suc (a div 4096)" "(a + 4096) mod 4096 = a mod 4096" by simp_all
  ultimately show ?thesis unfolding range_frames_def by simp
qed

lemma range_frames_end:
  assumes "l \<le> a \<or> 67108864 \<le> a"
  shows "range_frames a l = []"
proof -
  have "4096 * k + a mod 4096 \<ge> a" if "a div 4096 \<le> k" for k
  proof -
    have "4096 * (a div 4096) + a mod 4096 = a" by simp
    moreover have "4096 * (a div 4096) \<le> 4096 * k" using that by simp
    ultimately show ?thesis by linarith
  qed
  moreover have "16384 \<le> a div 4096" if "67108864 \<le> a" using div_le_mono [OF that, of 4096] by simp
  ultimately show ?thesis
    using assms unfolding range_frames_def filter_empty_conv by (auto simp: not_less elim: order_trans)
qed

text \<open>A frame is found by its number.\<close>

lemma set_frame_number: "set_frame bit1 a s fr = set_frame bit1 (of_nat (unat a div 4096) * 0x1000) s fr"
proof -
  have "unat a div 4096 < 2 ^ 52" using unat_u64_lt [of a] by (simp add: div_less_iff_less_mult)
  then have "unat (of_nat (unat a div 4096) * 0x1000 :: u64) = unat a div 4096 * 4096"
    using unat_page_offset [of "unat a div 4096"] by (simp add: page_offset_def mult.commute)
  then have "(of_nat (unat a div 4096) * 0x1000 :: u64) div 0x1000 = a div 0x1000"
    by (simp add: word_unat_eq_iff unat_div)
  then show ?thesis by (simp add: set_frame_def)
qed

lemma unat_ucast_up: "unat (ucast p :: u64) = unat p" for p :: u32
proof -
  have "unat p < 2 ^ 32" using unsigned_less [of p, where ?'a = nat] by simp
  then show ?thesis by (simp add: unsigned_ucast_eq take_bit_nat_eq_self)
qed

lemma free_range_frames:
  "free_range bit1 p limit st =
     Some (st\<lparr>frames := clear_frames bit1 (range_frames (unat p) (unat limit)) (frames st)\<rparr>)"
proof (induction "16384 - unat p div 4096" arbitrary: p st rule: less_induct)
  case less
  have lt: "ucast p < limit \<longleftrightarrow> unat p < unat limit" by (simp add: word_less_nat_alt unat_ucast_up)
  consider (stop) "\<not> unat p < unat limit" | (fail) "unat p < unat limit" "67108864 \<le> unat p"
    | (step) "unat p < unat limit" "unat p < 67108864" by linarith
  then show ?case
  proof cases
    case stop
    then show ?thesis using range_frames_end [of "unat limit" "unat p"] by (subst free_range.simps) (simp add: lt)
  next
    case fail
    have "set_frame bit1 (ucast p) False (frames st) = (frames st, False)"
      using fail(2) by (intro set_frame_outside) (simp add: unat_ucast_up)
    then show ?thesis
      using fail range_frames_end [of "unat limit" "unat p"]
      by (subst free_range.simps) (simp add: lt mark_def)
  next
    case step
    let ?k = "unat p div 4096"
    have k: "?k < 16384" using step(2) by (simp add: div_less_iff_less_mult)
    have p': "unat (p + 0x1000) = unat p + 4096" using step(2) by (subst unat_add_le) simp_all
    have "set_frame bit1 (ucast p) False (frames st) = set_frame bit1 (page_offset ?k) False (frames st)"
      using set_frame_number [of bit1 "ucast p" False "frames st"] by (simp add: unat_ucast_up page_offset_frame)
    then have m: "mark bit1 (ucast p) False st =
        (st\<lparr>frames := fst (set_frame bit1 (page_offset ?k) False (frames st))\<rparr>, True)"
      using k by (simp add: mark_def page_offset_frame set_frame_at)
    have "16384 - unat (p + 0x1000) div 4096 < 16384 - ?k" using k p' by simp
    note IH = less [OF this]
    show ?thesis
      using step m IH p' by (subst free_range.simps) (simp add: lt range_frames_step)
  qed
qed


section \<open>The list of tags\<close>

text \<open>
  An entry of the map is a base address, a length and a type; only available memory is looked at.  A
  tag is a type, a size and, for the memory map, its entries.  \<^verbatim>\<open>tags_at\<close>: the memory of \<^verbatim>\<open>st\<close> holds
  this list of tags at \<^verbatim>\<open>a\<close>, closed by the end tag.
\<close>

type_synonym map_area = "u64 \<times> u64 \<times> u32"

fun area_at :: "mmu \<Rightarrow> u64 \<Rightarrow> map_area \<Rightarrow> bool" where
  "area_at st e (addr, len, ty) \<longleftrightarrow> vload32 st (e + 16) = Some ty \<and>
     (ty = MULTIBOOT_MEMORY_AVAILABLE \<longrightarrow>
        vload64 st e = Some addr \<and> vload64 st (e + 8) = Some len \<and> vload32 st (e + 20) = Some 0)"

fun areas_at :: "mmu \<Rightarrow> u64 \<Rightarrow> map_area list \<Rightarrow> bool" where
  "areas_at st e [] \<longleftrightarrow> True"
| "areas_at st e (x # xs) \<longleftrightarrow> area_at st e x \<and> areas_at st (e + 24) xs"

fun tags_at :: "mmu \<Rightarrow> u64 \<Rightarrow> (u32 \<times> u32 \<times> map_area list) list \<Rightarrow> bool" where
  "tags_at st a [] \<longleftrightarrow> vload32 st a = Some MULTIBOOT_TAG_TYPE_END"
| "tags_at st a ((ty, bytes, xs) # ts) \<longleftrightarrow>
     ty \<noteq> MULTIBOOT_TAG_TYPE_END \<and> vload32 st a = Some ty \<and> vload32 st (a + 4) = Some bytes \<and>
     (ty = MULTIBOOT_TAG_TYPE_MMAP \<longrightarrow>
        (case vload32 st (a + 8) of None \<Rightarrow> False
         | Some n \<Rightarrow> n \<noteq> 0 \<and> areas_at st (a + 16) xs \<and>
             unat (ucast ((ucast bytes - 16) div ucast n :: u64) :: u32) = length xs)) \<and>
     tags_at st (a + ucast ((bytes + 7) AND NOT 7)) ts"

definition area_frames :: "map_area \<Rightarrow> nat list" where
  "area_frames = (\<lambda>(addr, len, ty).
     if ty = MULTIBOOT_MEMORY_AVAILABLE then range_frames (unat (ucast addr :: u32)) (unat (addr + len)) else [])"

definition freed_frames :: "(u32 \<times> u32 \<times> map_area list) list \<Rightarrow> nat list" where
  "freed_frames ts = concat (map (\<lambda>(ty, bytes, xs).
     if ty = MULTIBOOT_TAG_TYPE_MMAP then concat (map area_frames xs) else []) ts)"

lemma area_at_frames [simp]: "area_at (st\<lparr>frames := fr\<rparr>) e x = area_at st e x"
  by (cases x) simp

lemma areas_at_frames [simp]: "areas_at (st\<lparr>frames := fr\<rparr>) e xs = areas_at st e xs"
  by (induction xs arbitrary: e) simp_all

lemma tags_at_frames [simp]: "tags_at (st\<lparr>frames := fr\<rparr>) a ts = tags_at st a ts"
  by (induction st a ts rule: tags_at.induct) (simp_all split: option.split)

lemma mmap_entry_frames:
  "area_at st e x \<Longrightarrow> mmap_entry bit1 e st = Some (st\<lparr>frames := clear_frames bit1 (area_frames x) (frames st)\<rparr>)"
  by (cases x) (auto simp: mmap_entry_def free_range_frames area_frames_def)

lemma areas_frames:
  "areas_at st (e + 24 * of_nat i) xs \<Longrightarrow>
     for_each (\<lambda>i. mmap_entry bit1 (e + 24 * of_nat i)) [i..<i + length xs] st =
       Some (st\<lparr>frames := clear_frames bit1 (concat (map area_frames xs)) (frames st)\<rparr>)"
proof (induction xs arbitrary: i st)
  case (Cons x xs)
  have upt: "[i..<i + length (x # xs)] = i # [Suc i..<Suc i + length xs]"
    by (simp add: upt_conv_Cons del: upt_Suc)
  have "e + 24 * of_nat i + 24 = e + 24 * of_nat (Suc i)" by (simp add: algebra_simps)
  then have x: "area_at st (e + 24 * of_nat i) x" "areas_at st (e + 24 * of_nat (Suc i)) xs"
    using Cons.prems by (simp_all only: areas_at.simps)
  then show ?case
    unfolding upt using Cons.IH [of "st\<lparr>frames := clear_frames bit1 (area_frames x) (frames st)\<rparr>" "Suc i"]
    by (simp add: mmap_entry_frames del: upt_Suc of_nat_Suc)
qed simp

lemma multiboot_tags_frames:
  "tags_at st a ts \<Longrightarrow>
     multiboot_tags bit1 a st = Some (st\<lparr>frames := clear_frames bit1 (freed_frames ts) (frames st)\<rparr>)"
proof (induction ts arbitrary: a st)
  case Nil
  then show ?case by (subst multiboot_tags.simps) (simp add: freed_frames_def)
next
  case (Cons t ts)
  obtain ty bytes xs where t: "t = (ty, bytes, xs)" by (cases t)
  let ?ks = "if ty = MULTIBOOT_TAG_TYPE_MMAP then concat (map area_frames xs) else []"
  let ?st = "st\<lparr>frames := clear_frames bit1 ?ks (frames st)\<rparr>"
  have h: "ty \<noteq> MULTIBOOT_TAG_TYPE_END" "vload32 st a = Some ty" "vload32 st (a + 4) = Some bytes"
    "tags_at st (a + ucast ((bytes + 7) AND NOT 7)) ts" using Cons.prems by (simp_all add: t)
  have "(if ty \<noteq> MULTIBOOT_TAG_TYPE_MMAP then Some st else mmap_tag bit1 a st) = Some ?st"
  proof (cases "ty = MULTIBOOT_TAG_TYPE_MMAP")
    case True
    then obtain n where n: "vload32 st (a + 8) = Some n" "n \<noteq> 0" "areas_at st (a + 16) xs"
        "unat (ucast ((ucast bytes - 16) div ucast n :: u64) :: u32) = length xs"
      using Cons.prems by (auto simp: t split: option.splits)
    then show ?thesis
      using True h(3) areas_frames [of st "a + 16" 0 xs bit1] by (simp add: mmap_tag_def)
  qed simp
  then show ?case
    using h Cons.IH [of ?st "a + ucast ((bytes + 7) AND NOT 7)"]
    by (subst multiboot_tags.simps) (simp add: freed_frames_def t)
qed

section \<open>What is free afterwards\<close>

lemma clear_bit:
  assumes "b < 64"
  shows "((w :: u64) AND NOT (push_bit a 1)) AND push_bit b 1 \<noteq> 0 \<longleftrightarrow> w AND push_bit b 1 \<noteq> 0 \<and> a \<noteq> b"
proof -
  have "v AND push_bit b 1 \<noteq> 0 \<longleftrightarrow> bit v b" for v :: u64
    by (simp add: push_bit_eq_mult and_exp_eq_0_iff_not_bit)
  then show ?thesis using assms by (auto simp: bit_simps)
qed

lemma clear_frame_used:
  assumes "j < 16384" and "k < 16384" and "length fr = 256"
  shows "frame_used shl_intended (fst (set_frame shl_intended (page_offset j) False fr)) k \<longleftrightarrow>
    frame_used shl_intended fr k \<and> k \<noteq> j"
proof (cases "k div 64 = j div 64")
  case True
  have "k = j \<longleftrightarrow> k mod 64 = j mod 64" using True by (metis div_mult_mod_eq)
  moreover have "j div 64 < 256" using assms(1) by simp
  ultimately show ?thesis
    unfolding frame_used_def clear_frame_at [OF assms(1)] shl_intended_def True
    using clear_bit [of "k mod 64" "fr ! (j div 64)" "j mod 64"] assms(3) by auto
next
  case False
  then show ?thesis using assms(1) by (auto simp: frame_used_def clear_frame_at)
qed

lemma clear_frames_used:
  assumes "\<forall>k\<in>set ks. k < 16384" and "length fr = 256" and "k < 16384"
  shows "frame_used shl_intended (clear_frames shl_intended ks fr) k \<longleftrightarrow>
    frame_used shl_intended fr k \<and> k \<notin> set ks"
  using assms(1,2)
proof (induction ks arbitrary: fr)
  case (Cons j ks)
  then show ?case using clear_frame_used [OF _ assms(3), of j fr] by auto
qed simp

lemma area_frames_iff:
  "k \<in> set (area_frames (addr, len, ty)) \<longleftrightarrow> ty = MULTIBOOT_MEMORY_AVAILABLE \<and> k < 16384 \<and>
     unat addr mod 2 ^ 32 div 4096 \<le> k \<and> 4096 * k + unat addr mod 4096 < unat (addr + len)"
proof -
  have "unat (ucast addr :: u32) = unat addr mod 2 ^ 32" by (simp add: unsigned_ucast_eq take_bit_eq_mod)
  moreover have "unat addr mod 2 ^ 32 mod 4096 = unat addr mod 4096" by (simp add: mod_mod_cancel)
  ultimately show ?thesis by (auto simp: area_frames_def range_frames_set)
qed

lemma freed_frames_iff:
  "k \<in> set (freed_frames ts) \<longleftrightarrow> (\<exists>ty bytes xs addr len. (ty, bytes, xs) \<in> set ts \<and> ty = MULTIBOOT_TAG_TYPE_MMAP \<and>
     (addr, len, MULTIBOOT_MEMORY_AVAILABLE) \<in> set xs \<and>
     k \<in> set (area_frames (addr, len, MULTIBOOT_MEMORY_AVAILABLE)))"
proof -
  have area: "(\<exists>x\<in>set xs. k \<in> set (area_frames x)) \<longleftrightarrow>
      (\<exists>addr len. (addr, len, MULTIBOOT_MEMORY_AVAILABLE) \<in> set xs \<and>
        k \<in> set (area_frames (addr, len, MULTIBOOT_MEMORY_AVAILABLE)))" for xs
    by (simp add: Bex_def split_paired_Ex area_frames_iff)
  have "k \<in> set (freed_frames ts) \<longleftrightarrow>
      (\<exists>t\<in>set ts. fst t = MULTIBOOT_TAG_TYPE_MMAP \<and> (\<exists>x\<in>set (snd (snd t)). k \<in> set (area_frames x)))"
    by (auto simp: freed_frames_def split_beta)
  also have "\<dots> \<longleftrightarrow> (\<exists>ty bytes xs. (ty, bytes, xs) \<in> set ts \<and> ty = MULTIBOOT_TAG_TYPE_MMAP \<and>
      (\<exists>x\<in>set xs. k \<in> set (area_frames x)))"
    by (simp add: Bex_def split_paired_Ex)
  finally show ?thesis unfolding area by blast
qed

lemma freed_frames_below: "k \<in> set (freed_frames ts) \<Longrightarrow> k < 16384"
  by (auto simp: freed_frames_iff area_frames_iff)

end
