(* ===== verification/BootTables.thy ===== *)
theory BootTables
  imports BootMap
begin

text \<open>
  The page tables of \<^verbatim>\<open>boot.s\<close>, on which \<^verbatim>\<open>mmu_init\<close> starts, and a machine that has just been booted.
\<close>

section \<open>The first two megabytes\<close>

text \<open>The virtual page of frame \<^verbatim>\<open>j\<close>.\<close>

definition kpage :: "nat \<Rightarrow> u64" where
  "kpage j = KERNEL_VMA + page_offset j"

text \<open>
  The tables of \<^verbatim>\<open>boot.s\<close>: four tables from frame \<^verbatim>\<open>b\<close> on, each but the last with a page behind it.  They
  map the first 511 frames in the upper half and, if \<^verbatim>\<open>low\<close>, at address 0 as well.
\<close>

definition boot_slots :: "bool \<Rightarrow> nat \<Rightarrow> mem \<Rightarrow> bool" where
  "boot_slots low b m \<longleftrightarrow> (\<forall>i. index_ok i \<longrightarrow>
     slot m (page_offset b) i = (if i = 511 \<or> low \<and> i = 0 then page_offset (b + 2) OR 0x3 else 0) \<and>
     slot m (page_offset (b + 2)) i = (if i = 0 then page_offset (b + 4) OR 0x3 else 0) \<and>
     slot m (page_offset (b + 4)) i = (if i = 0 then page_offset (b + 6) OR 0x3 else 0) \<and>
     slot m (page_offset (b + 6)) i = (if i = 511 then 0 else i * 0x1000 OR 0x3))"

lemma boot_slotsD:
  assumes "boot_slots low b m" and "index_ok i"
  shows "slot m (page_offset b) i = (if i = 511 \<or> low \<and> i = 0 then page_offset (b + 2) OR 0x3 else 0)"
    "slot m (page_offset (b + 2)) i = (if i = 0 then page_offset (b + 4) OR 0x3 else 0)"
    "slot m (page_offset (b + 4)) i = (if i = 0 then page_offset (b + 6) OR 0x3 else 0)"
    "slot m (page_offset (b + 6)) i = (if i = 511 then 0 else i * 0x1000 OR 0x3)"
  using assms unfolding boot_slots_def by blast+

lemma aligned_kpage [simp]: "aligned (kpage j)"
  unfolding kpage_def by (rule aligned_page_offset) (simp add: aligned_def KERNEL_VMA_def)

lemma page_base_offset [simp]: "page_base (page_offset j) = page_offset j" "page_base (kpage j) = kpage j"
  using page_of_sum(2) [of "page_offset j" 0] page_of_sum(2) [of "kpage j" 0] by simp_all

lemma path_kpage: "j < 512 \<Longrightarrow> path_of (kpage j) = [511, 0, 0, of_nat j]"
  using small_path [of j] by (simp add: path_of_def kpage_def KERNEL_VMA_def)

lemma index_of_nat: "j < 512 \<Longrightarrow> index_ok (of_nat j)" "j < 512 \<Longrightarrow> (of_nat j :: u64) = of_nat k \<Longrightarrow> k < 512 \<Longrightarrow> j = k"
proof -
  have u: "unat (of_nat i :: u64) = i" if "i < 512" for i using that by (intro unat_of_nat_u64) simp
  show "j < 512 \<Longrightarrow> index_ok (of_nat j)" by (simp add: index_ok_def word_less_nat_alt u)
  assume "j < 512" "(of_nat j :: u64) = of_nat k" "k < 512"
  then show "j = k" using u by metis
qed

lemma walk_boot:
  assumes "boot_slots low b m" and "j < 511"
  shows "walk m (page_offset b) (path_of (kpage j)) = Some (page_offset j)"
proof -
  note d = boot_slotsD [OF assms(1), unfolded slot_def]
  have i: "index_ok 511" "index_ok 0" "index_ok (of_nat j)" using index_of_nat(1) [of j] assms(2) by (simp_all add: index_ok_def)
  have "(of_nat j :: u64) \<noteq> 511" using index_of_nat(2) [of j 511] assms(2) by auto
  moreover have "of_nat j * 0x1000 = page_offset j" by (simp add: page_offset_def)
  ultimately show ?thesis
    using path_kpage [of j] d(1) [OF i(1)] d(2,3) [OF i(2)] d(4) [OF i(3)] assms(2)
    by (simp add: Let_def present_flags)
qed

lemma translate_boot:
  assumes "boot_slots low b (pmem st)" and "cr3 st = page_offset b" and "j < 511" and "unat o' < 4096"
  shows "translate st (kpage j + o') = Some (page_offset j + o')"
  using walk_boot [OF assms(1,3)] page_of_sum(1,3) [OF aligned_kpage assms(4), of j] page_add [OF aligned_offset assms(4), of j]
  by (simp add: translate_def assms(2))

lemma pages_differ:
  assumes "b + 6 < 511" and "i < 7" and "j < 7"
  shows "page_offset (b + i) = page_offset (b + j) \<longleftrightarrow> i = j"
  using page_offset_inj [of "b + i" "b + j"] assms by simp

text \<open>So the program's accesses reach the slots.\<close>

lemma boot_access:
  assumes "boot_slots low b (pmem st)" and "cr3 st = page_offset b" and "c < 511" and "index_ok i"
  shows "vload64 st (entry_at (kpage c) i) = Some (slot (pmem st) (page_offset c) i)"
    and "vstore64 (entry_at (kpage c) i) x st = Some (st\<lparr>pmem := store64 (pmem st) (page_offset c + 8 * i) x\<rparr>)"
    and "c < 510 \<Longrightarrow> vload64 st (next_at (kpage c) i) = Some (slot (pmem st) (page_offset (Suc c)) i)"
    and "c < 510 \<Longrightarrow> vstore64 (next_at (kpage c) i) x st =
      Some (st\<lparr>pmem := store64 (pmem st) (page_offset (Suc c) + 8 * i) x\<rparr>)"
proof -
  have t: "translate st (kpage j + 8 * i) = Some (page_offset j + 8 * i)" if "j < 511" for j
    by (rule translate_boot [OF assms(1,2) that slot_offset(3) [OF assms(4)]])
  have n: "next_at (kpage c) i = kpage (Suc c) + 8 * i"
    by (simp add: next_at_def kpage_def add.assoc flip: page_offset_simps(3))
  show "vload64 st (entry_at (kpage c) i) = Some (slot (pmem st) (page_offset c) i)"
    "vstore64 (entry_at (kpage c) i) x st = Some (st\<lparr>pmem := store64 (pmem st) (page_offset c + 8 * i) x\<rparr>)"
    using t [OF assms(3)] by (simp_all add: entry_at_def vload64_def vload_run_def slot_def load64_def vstore64_def
      vstore_run_def store64_def)
  show "c < 510 \<Longrightarrow> vload64 st (next_at (kpage c) i) = Some (slot (pmem st) (page_offset (Suc c)) i)"
    "c < 510 \<Longrightarrow> vstore64 (next_at (kpage c) i) x st =
      Some (st\<lparr>pmem := store64 (pmem st) (page_offset (Suc c) + 8 * i) x\<rparr>)"
    using t [of "Suc c"] by (simp_all add: n vload64_def vload_run_def slot_def load64_def vstore64_def
      vstore_run_def store64_def)
qed


section \<open>The code of \<^verbatim>\<open>boot.s\<close>\<close>

text \<open>
  With paging off: \<^verbatim>\<open>rep stosd\<close> clears 16 KiB from \<^verbatim>\<open>PML4T\<close> on, then the entries are stored with 32 bits
  each.  The tables behind the cleared part lie in memory that the loader fills with zeros.
\<close>

fun set_entries :: "nat \<Rightarrow> u64 \<Rightarrow> u32 \<Rightarrow> mem \<Rightarrow> mem" where
  "set_entries 0 edi eax m = m"
| "set_entries (Suc ecx) edi eax m = set_entries ecx (edi + 8) (eax + 0x1000) (store32 m edi eax)"

definition boot_paging :: "u64 \<Rightarrow> mem \<Rightarrow> mem" where
  "boot_paging PML4T m = (
     let PDPT = PML4T + 0x2000;
         PDT = PDPT + 0x2000;
         PT = PDT + 0x2000;
         m = store_bytes m PML4T (replicate 16384 0);
         m = store32 m PML4T (ucast PDPT OR 0x3);
         m = store32 m (PML4T + 4088) (ucast PDPT OR 0x3);
         m = store32 m PDPT (ucast PDT OR 0x3);
         m = store32 m PDT (ucast PT OR 0x3)
     in set_entries 511 PT 0x3 m)"

lemma store32_zero:
  assumes "load64 m a = 0"
  shows "store32 m a v = store64 m a (ucast v)"
proof
  fix x
  have "load_bytes m a 8 = le_bytes 8 (0 :: u64)"
    using le_bytes_of_le_bytes [of "load_bytes m a 8" 8, where ?'a = 64] assms by (simp add: load64_def)
  then have z: "m (a + of_nat i) = 0" if "i < 8" for i
    using that by (metis nth_load_bytes nth_le_bytes drop_bit_of_0 ucast_0)
  let ?i = "unat (x - a)"
  have "(ucast (drop_bit (8 * i) v) :: u8) = ucast (drop_bit (8 * i) (ucast v :: u64))" for i
    by (rule bit_word_eqI) (auto simp: bit_simps dest: bit_imp_le_length)
  moreover have "(0 :: u8) = ucast (drop_bit (8 * i) (ucast v :: u64))" if "4 \<le> i" for i
  proof (rule bit_word_eqI)
    fix n
    show "bit (0 :: u8) n = bit (ucast (drop_bit (8 * i) (ucast v :: u64)) :: u8) n"
      using that bit_imp_le_length [of v "8 * i + n"] by (auto simp: bit_simps)
  qed
  moreover have "m x = 0" if "?i < 8" using z [OF that] by simp
  ultimately show "store32 m a v x = store64 m a (ucast v) x"
    by (auto simp: store32_def store64_def store_bytes_def)
qed

lemma slot_store32:
  assumes "aligned f" and "aligned g" and "index_ok i" and "index_ok j" and "slot m f i = 0"
  shows "slot (store32 m (f + 8 * i) e) g j = (if g = f \<and> j = i then ucast e else slot m g j)"
  using slot_store [OF assms(1-4), of m "ucast e"] store32_zero [of m "f + 8 * i" e] assms(5) by (simp add: slot_def)

lemma ucast_low_page: "c < 1000 \<Longrightarrow> ucast (ucast (page_offset c) OR 0x3 :: u32) = page_offset c OR 0x3"
proof -
  assume "c < 1000"
  then have u: "unat (page_offset c) = 4096 * c" by (intro unat_page_offset) simp
  then have "unat (page_offset c) < 2 ^ 32" using \<open>c < 1000\<close> by simp
  then have "take_bit 32 (unat (page_offset c)) = unat (page_offset c)" by (simp add: take_bit_nat_eq_self)
  then have "take_bit 32 (page_offset c) = page_offset c" by (simp add: word_unat_eq_iff unsigned_take_bit_eq)
  then have b: "bit (page_offset c) k \<Longrightarrow> k < 32" for k by (metis bit_take_bit_iff)
  show ?thesis
  proof (rule bit_word_eqI)
    fix k
    have "bit (3 :: u64) k \<longleftrightarrow> k < 2" "bit (3 :: u32) k \<longleftrightarrow> k < 2"
      using bit_mask_iff [of 2 k, where ?'a = u64] bit_mask_iff [of 2 k, where ?'a = u32]
      by (auto simp: mask_eq_exp_minus_1)
    then show "bit (ucast (ucast (page_offset c) OR 0x3 :: u32) :: u64) k = bit (page_offset c OR 0x3) k"
      using b [of k] by (auto simp: bit_simps)
  qed
qed

lemma entry_word: "i < 511 \<Longrightarrow> ucast (of_nat i * 0x1000 + 3 :: u32) = (of_nat i * 0x1000 OR 3 :: u64)"
proof -
  assume i: "i < 511"
  have u: "unat (of_nat (4096 * i + 3) :: u32) = 4096 * i + 3" "unat (of_nat (4096 * i + 3) :: u64) = 4096 * i + 3"
    by (rule unat_of_nat_u32, use i in simp) (rule unat_of_nat_u64, use i in simp)
  have "of_nat i * 0x1000 + 3 = (of_nat (4096 * i + 3) :: u32)" "of_nat i * 0x1000 + 3 = (of_nat (4096 * i + 3) :: u64)"
    by (simp_all add: mult.commute)
  then have "ucast (of_nat i * 0x1000 + 3 :: u32) = (of_nat i * 0x1000 + 3 :: u64)"
    using u by (simp only: word_unat_eq_iff unat_ucast_up)
  moreover have "of_nat i * 0x1000 = page_offset i" by (simp add: page_offset_def)
  ultimately show ?thesis using page_add [OF aligned_offset [of i], of 3] by simp
qed

lemma set_entries_slots:
  assumes "aligned f"
  shows "s + n \<le> 511 \<Longrightarrow> (\<And>i. s \<le> i \<Longrightarrow> i < s + n \<Longrightarrow> slot m f (of_nat i) = 0) \<Longrightarrow> aligned g \<Longrightarrow> index_ok j \<Longrightarrow>
    slot (set_entries n (f + 8 * of_nat s) (of_nat s * 0x1000 + 3) m) g j =
      (if g = f \<and> s \<le> unat j \<and> unat j < s + n then j * 0x1000 OR 0x3 else slot m g j)"
proof (induction n arbitrary: s m)
  case (Suc n)
  let ?m = "store32 m (f + 8 * of_nat s) (of_nat s * 0x1000 + 3)"
  have s: "s < 511" using Suc.prems(1) by simp
  then have i: "index_ok (of_nat s)" by (intro index_of_nat(1)) simp
  have u: "unat (of_nat s :: u64) = s" using s by (intro unat_of_nat_u64) simp
  have one: "slot ?m g j = (if g = f \<and> j = of_nat s then j * 0x1000 OR 0x3 else slot m g j)" if "aligned g" "index_ok j" for g j
    using slot_store32 [OF assms that(1) i that(2) Suc.prems(2) [of s], of "of_nat s * 0x1000 + 3"] Suc.prems(1)
    by (simp add: entry_word [OF s])
  have "slot ?m f (of_nat i) = 0" if "Suc s \<le> i" "i < Suc s + n" for i
  proof -
    have "(of_nat i :: u64) \<noteq> of_nat s" using index_of_nat(2) [of i s] that Suc.prems(1) by auto
    moreover have "index_ok (of_nat i)" using that Suc.prems(1) by (intro index_of_nat(1)) simp
    ultimately show ?thesis using one [OF assms, of "of_nat i"] Suc.prems(2) [of i] that by simp
  qed
  note IH = Suc.IH [of "Suc s" ?m, OF _ this Suc.prems(3,4)]
  have nxt: "f + 8 * of_nat s + 8 = f + 8 * of_nat (Suc s)"
    "(of_nat s * 0x1000 + 3 :: u32) + 0x1000 = of_nat (Suc s) * 0x1000 + 3" by (simp_all add: algebra_simps)
  have "slot (set_entries (Suc n) (f + 8 * of_nat s) (of_nat s * 0x1000 + 3) m) g j =
      (if g = f \<and> Suc s \<le> unat j \<and> unat j < Suc s + n then j * 0x1000 OR 0x3 else slot ?m g j)"
    unfolding set_entries.simps(2) nxt by (rule IH) (use Suc.prems(1) in simp_all)
  moreover have "j = of_nat s \<longleftrightarrow> unat j = s" using u by (auto simp: word_unat_eq_iff)
  ultimately show ?case using one [OF Suc.prems(3,4)] by auto
qed auto

lemma slot_zero:
  assumes "aligned f" and "index_ok i" and "\<And>x. unat f \<le> unat x \<Longrightarrow> unat x < unat f + 4096 \<Longrightarrow> m x = 0"
  shows "slot m f i = 0"
proof -
  have "load_bytes m (f + 8 * i) 8 = replicate 8 0"
  proof (rule nth_equalityI)
    fix k assume "k < length (load_bytes m (f + 8 * i) 8)"
    then have k: "k < 8" by simp
    have "unat (8 * i) + 8 \<le> 4096" using slot_offset [OF assms(2)] by simp
    then have "unat (f + 8 * i + of_nat k) = unat f + unat (8 * i) + k"
      using unat_page_add [OF assms(1) slot_offset(3) [OF assms(2)]] k
      by (subst unat_add_le) (simp_all add: unat_of_nat_u64)
    then show "load_bytes m (f + 8 * i) 8 ! k = replicate 8 0 ! k"
      using k assms(3) [of "f + 8 * i + of_nat k"] \<open>unat (8 * i) + 8 \<le> 4096\<close> by simp
  qed simp
  then show ?thesis by (simp add: slot_def load64_def numeral_eq_Suc)
qed

text \<open>The tables that \<^verbatim>\<open>boot.s\<close> leaves behind.\<close>

lemma boot_paging_slots:
  assumes b: "b + 6 < 511" and zero: "\<And>x. 4096 * (b + 4) \<le> unat x \<Longrightarrow> unat x < 4096 * (b + 7) \<Longrightarrow> m x = 0"
  shows "boot_slots True b (boot_paging (page_offset b) m)"
proof -
  let ?p = "\<lambda>c. page_offset (b + c)"
  let ?m0 = "store_bytes m (page_offset b) (replicate 16384 0)"
  have u: "unat (?p c) = 4096 * (b + c)" if "c < 7" for c using that b by (intro unat_page_offset) simp
  have z: "slot ?m0 (?p c) i = 0" if "c \<in> {0, 2, 4, 6}" "index_ok i" for c i
  proof (rule slot_zero [OF aligned_offset that(2)])
    fix x :: u64
    assume "unat (?p c) \<le> unat x" "unat x < unat (?p c) + 4096"
    then have x: "4096 * (b + c) \<le> unat x" "unat x < 4096 * (b + c) + 4096" using u [of c] that by auto
    have "unat (x - page_offset b) = unat x - 4096 * b" using u [of 0] x by (subst unat_sub_le) simp_all
    then show "?m0 x = 0" using x zero [of x] that by (auto simp: store_bytes_def)
  qed
  have a: "aligned (?p c)" for c by simp
  have i: "index_ok 0" "index_ok 511" by (simp_all add: index_ok_def)
  note d = pages_differ [OF b]
  define m1 where "m1 = store32 ?m0 (page_offset b + 8 * 0) (ucast (?p 2) OR 0x3)"
  define m2 where "m2 = store32 m1 (page_offset b + 8 * 511) (ucast (?p 2) OR 0x3)"
  define m3 where "m3 = store32 m2 (?p 2 + 8 * 0) (ucast (?p 4) OR 0x3)"
  define m4 where "m4 = store32 m3 (?p 4 + 8 * 0) (ucast (?p 6) OR 0x3)"
  have w: "ucast (ucast (?p c) OR 0x3 :: u32) = ?p c OR 0x3" if "c < 7" for c using that b by (intro ucast_low_page) simp
  have s1: "slot m1 g j = (if g = ?p 0 \<and> j = 0 then ?p 2 OR 0x3 else slot ?m0 g j)" if "aligned g" "index_ok j" for g j
    unfolding m1_def using slot_store32 [OF a [of 0] that(1) i(1) that(2) z [of 0 0]] i w [of 2] by simp
  have s2: "slot m2 g j = (if g = ?p 0 \<and> j = 511 then ?p 2 OR 0x3 else slot m1 g j)" if "aligned g" "index_ok j" for g j
    unfolding m2_def using slot_store32 [OF a [of 0] that(1) i(2) that(2)] s1 [OF a [of 0] i(2)] z [of 0 511] i w [of 2] by simp
  have s3: "slot m3 g j = (if g = ?p 2 \<and> j = 0 then ?p 4 OR 0x3 else slot m2 g j)" if "aligned g" "index_ok j" for g j
    unfolding m3_def
    using slot_store32 [OF a [of 2] that(1) i(1) that(2)] s1 [OF a [of 2] i(1)] s2 [OF a [of 2] i(1)] z [of 2 0] i w [of 4] d [of 2 0]
    by simp
  have s4: "slot m4 g j = (if g = ?p 4 \<and> j = 0 then ?p 6 OR 0x3 else slot m3 g j)" if "aligned g" "index_ok j" for g j
    unfolding m4_def
    using slot_store32 [OF a [of 4] that(1) i(1) that(2)] s1 [OF a [of 4] i(1)] s2 [OF a [of 4] i(1)] s3 [OF a [of 4] i(1)]
      z [of 4 0] i w [of 6] d [of 4 0] d [of 4 2] by simp
  have z6: "slot m4 (?p 6) j = 0" if "index_ok j" for j
    using s1 [OF a [of 6] that] s2 [OF a [of 6] that] s3 [OF a [of 6] that] s4 [OF a [of 6] that] z [of 6 j] that
      d [of 6 0] d [of 6 2] d [of 6 4] by simp
  have s5: "slot (set_entries 511 (?p 6) 0x3 m4) g j = (if g = ?p 6 \<and> unat j < 511 then j * 0x1000 OR 0x3 else slot m4 g j)"
    if "aligned g" "index_ok j" for g j
    using set_entries_slots [OF a [of 6], of 0 511 m4 g j] z6 index_of_nat(1) that by simp
  have p: "page_offset b + 0x2000 = ?p 2" "?p 2 + 0x2000 = ?p 4" "?p 4 + 0x2000 = ?p 6"
    "page_offset b + 8 * 0 = page_offset b" "page_offset b + 8 * 511 = page_offset b + 4088" "?p c + 8 * 0 = ?p c" for c
    by (simp_all add: page_offset_def algebra_simps)
  have run: "boot_paging (page_offset b) m = set_entries 511 (?p 6) 0x3 m4"
    unfolding boot_paging_def Let_def m4_def m3_def m2_def m1_def p ..
  show ?thesis
    unfolding run boot_slots_def
  proof (intro allI impI)
    fix j :: u64 assume j: "index_ok j"
    have ne: "unat j < 511 \<longleftrightarrow> j \<noteq> 511" using j by (auto simp: index_ok_def word_less_nat_alt word_unat_eq_iff)
    let ?m = "set_entries 511 (?p 6) 0x3 m4"
    note s = s1 [OF a j] s2 [OF a j] s3 [OF a j] s4 [OF a j] s5 [OF a j]
    have "slot ?m (?p 0) j = (if j = 511 \<or> j = 0 then ?p 2 OR 0x3 else 0)"
      using s [of 0] z [of 0 j] j d [of 0 2] d [of 0 4] d [of 0 6] by auto
    moreover have "slot ?m (?p 2) j = (if j = 0 then ?p 4 OR 0x3 else 0)"
      using s [of 2] z [of 2 j] j d [of 2 0] d [of 2 4] d [of 2 6] by auto
    moreover have "slot ?m (?p 4) j = (if j = 0 then ?p 6 OR 0x3 else 0)"
      using s [of 4] z [of 4 j] j d [of 4 0] d [of 4 2] d [of 4 6] by auto
    moreover have "slot ?m (?p 6) j = (if j = 511 then 0 else j * 0x1000 OR 0x3)"
      using s5 [OF a j, of 6] z6 [OF j] ne by (cases "j = 511") simp_all
    ultimately show "slot ?m (page_offset b) j = (if j = 511 \<or> True \<and> j = 0 then ?p 2 OR 0x3 else 0) \<and>
       slot ?m (?p 2) j = (if j = 0 then ?p 4 OR 0x3 else 0) \<and> slot ?m (?p 4) j = (if j = 0 then ?p 6 OR 0x3 else 0) \<and>
       slot ?m (?p 6) j = (if j = 511 then 0 else j * 0x1000 OR 0x3)" by simp
  qed
qed


section \<open>A booted machine\<close>

lemma store_bytes_below:
  "unat x < unat a \<Longrightarrow> unat a + length bs \<le> 2 ^ 64 \<Longrightarrow> store_bytes m a bs x = m x"
  using unat_sub_if' [of x a] by (auto simp: store_bytes_def word_le_nat_alt)

lemma set_entries_below:
  "unat x < unat edi \<Longrightarrow> unat edi + 8 * n < 2 ^ 63 \<Longrightarrow> set_entries n edi eax m x = m x"
proof (induction n arbitrary: edi eax m)
  case (Suc n)
  have "unat (edi + 8) = unat edi + 8" using Suc.prems(2) by (subst unat_add_le) simp_all
  then show ?case using Suc by (simp add: store32_def store_bytes_below)
qed simp

lemma boot_paging_below:
  assumes "unat x < unat p" and "unat p < 2 ^ 62"
  shows "boot_paging p m x = m x"
proof -
  have u: "unat (p + 4088) = unat p + 4088" "unat (p + 0x2000) = unat p + 0x2000" "unat (p + 0x4000) = unat p + 0x4000"
    "unat (p + 0x6000) = unat p + 0x6000"
    using assms(2) by (subst unat_add_le; simp)+
  show ?thesis
    unfolding boot_paging_def Let_def
    using assms u by (simp add: set_entries_below store_bytes_below store32_def add.assoc)
qed

text \<open>
  The loader leaves a list of one memory map behind, at \<^verbatim>\<open>0x9000\<close>: 63 megabytes from the first one on.
  The image ends at \<^verbatim>\<open>0x130000\<close>, its tables are at \<^verbatim>\<open>0x101000\<close>.
\<close>

definition boot_bytes :: mem where
  "boot_bytes = (\<lambda>_. 0)(0x9008 := 6, 0x900C := 40, 0x9010 := 24, 0x901A := 0x10, 0x9022 := 0xF0, 0x9023 := 3,
     0x9028 := 1)"

definition booted :: mmu where
  "booted = \<lparr>pmem = boot_paging 0x101000 boot_bytes, cr3 = 0x101000, frames = replicate 256 (NOT 0), heap_end = 0,
     directories = Map.empty, active_directory = 0, prng_seed = (0, 0, 0, 0)\<rparr>"

lemma booted_slots: "boot_slots True 257 (pmem booted)"
proof -
  have "boot_bytes x = 0" if "4096 * (257 + 4) \<le> unat x" for x
  proof -
    have "x \<noteq> a" if "unat a < 0x100000" for a using that \<open>4096 * (257 + 4) \<le> unat x\<close> by auto
    then show ?thesis by (simp add: boot_bytes_def)
  qed
  moreover have "page_offset 257 = 0x101000" by (simp add: page_offset_def)
  ultimately show ?thesis using boot_paging_slots [of 257 boot_bytes] by (simp add: booted_def)
qed

lemma booted_view: "unat o' < 4096 \<Longrightarrow> translate booted (KERNEL_VMA + 0x9000 + o') = Some (0x9000 + o')"
  using translate_boot [OF booted_slots, of 9 o'] by (simp add: booted_def kpage_def page_offset_def)

lemma booted_byte: "unat x < 0x100000 \<Longrightarrow> pmem booted x = boot_bytes x"
  unfolding booted_def by (simp add: boot_paging_below)

definition booted_tags :: "(u32 \<times> u32 \<times> map_area list) list" where
  "booted_tags = [(6, 40, [(0x100000, 0x3F00000, 1)])]"

lemma booted_loads:
  assumes "unat k < 4000"
  shows "vload32 booted (0xFFFFFF8000009000 + k) = Some (load32 boot_bytes (0x9000 + k))"
    "vload64 booted (0xFFFFFF8000009000 + k) = Some (load64 boot_bytes (0x9000 + k))"
proof -
  have t: "translate booted (0xFFFFFF8000009000 + k) = Some (0x9000 + k)"
    using booted_view [of k] assms by (simp add: KERNEL_VMA_def)
  have "unat (0x9000 + k + of_nat i) < 0x100000" if "i < 8" for i
  proof -
    have "unat (0x9000 + k) = 0x9000 + unat k" using assms by (subst unat_add_le) simp_all
    then show ?thesis using assms that by (subst unat_add_le) (simp_all add: unat_of_nat_u64)
  qed
  then have "load_bytes (pmem booted) (0x9000 + k) n = load_bytes boot_bytes (0x9000 + k) n" if "n \<le> 8" for n
    using that by (intro nth_equalityI) (simp_all add: booted_byte)
  then show "vload32 booted (0xFFFFFF8000009000 + k) = Some (load32 boot_bytes (0x9000 + k))"
    "vload64 booted (0xFFFFFF8000009000 + k) = Some (load64 boot_bytes (0x9000 + k))"
    by (simp_all add: vload32_def vload64_def vload_run_def t load32_def load64_def)
qed

lemma boot_bytes_loads:
  "load32 boot_bytes 0x9008 = 6" "load32 boot_bytes 0x900C = 40" "load32 boot_bytes 0x9010 = 24"
  "load64 boot_bytes 0x9018 = 0x100000" "load64 boot_bytes 0x9020 = 0x3F00000" "load32 boot_bytes 0x9028 = 1"
  "load32 boot_bytes 0x902C = 0" "load32 boot_bytes 0x9030 = 0"
  by (simp_all add: load32_def load64_def load_bytes_def upt_rec boot_bytes_def push_bit_eq_mult)

lemma booted_tags_at: "tags_at booted (0x9000 + KERNEL_VMA + 8) booted_tags"
  using booted_loads [of 8] booted_loads [of "0xC"] booted_loads [of "0x10"] booted_loads [of "0x18"]
    booted_loads [of "0x20"] booted_loads [of "0x28"] booted_loads [of "0x2C"] booted_loads [of "0x30"] boot_bytes_loads
  by (simp add: booted_tags_def KERNEL_VMA_def MULTIBOOT_TAG_TYPE_END_def MULTIBOOT_TAG_TYPE_MMAP_def
    MULTIBOOT_MEMORY_AVAILABLE_def)



end
