(* ===== verification/MmuInit.thy ===== *)
theory MmuInit
  imports BootTables
begin

text \<open>
  \<^verbatim>\<open>mmu_init\<close>: from the page tables that \<^verbatim>\<open>boot.s\<close> has set up to the state in which \<^verbatim>\<open>ksbrk\<close> works.
\<close>

section \<open>Marking frames\<close>

definition mark_frames :: "(nat \<Rightarrow> u64) \<Rightarrow> nat list \<Rightarrow> bitmap \<Rightarrow> bitmap" where
  "mark_frames bit1 ks = fold (\<lambda>k fr. fst (set_frame bit1 (page_offset k) True fr)) ks"

lemma mark_frames_simps [simp]:
  "mark_frames bit1 [] fr = fr"
  "mark_frames bit1 (k # ks) fr = mark_frames bit1 ks (fst (set_frame bit1 (page_offset k) True fr))"
  by (simp_all add: mark_frames_def)

lemma mark_offset [simp]: "mark bit1 (page_offset k) True st = (st\<lparr>frames := mark_frames bit1 [k] (frames st)\<rparr>, snd (set_frame bit1 (page_offset k) True (frames st)))"
  by (simp add: mark_def split_beta)

text \<open>\<^verbatim>\<open>marks fr fr'\<close>: more frames are used, but only among the first 512.\<close>

definition marks :: "(nat \<Rightarrow> u64) \<Rightarrow> bitmap \<Rightarrow> bitmap \<Rightarrow> bool" where
  "marks bit1 fr fr' \<longleftrightarrow> length fr' = length fr \<and> (\<forall>k. frame_used bit1 fr k \<longrightarrow> frame_used bit1 fr' k) \<and>
     (\<forall>w\<ge>8. fr' ! w = fr ! w)"

lemma marks_refl [simp]: "marks bit1 fr fr"
  by (simp add: marks_def)

lemma marks_trans: "marks bit1 fr fr1 \<Longrightarrow> marks bit1 fr1 fr2 \<Longrightarrow> marks bit1 fr fr2"
  by (simp add: marks_def)

lemma marks_one: "k < 512 \<Longrightarrow> marks bit1 fr (fst (set_frame bit1 (page_offset k) True fr))"
  by (simp add: marks_def used_set_frame) (simp add: page_offset_frame set_frame_at div_less_iff_less_mult)

lemma marks_frames: "\<forall>k\<in>set ks. k < 512 \<Longrightarrow> marks bit1 fr (mark_frames bit1 ks fr)"
proof (induction ks arbitrary: fr)
  case (Cons k ks)
  then show ?case using marks_trans [OF marks_one [of k bit1 fr]] by simp
qed simp

lemma mark_frames_used:
  assumes "bit_ok bit1" and "\<forall>k\<in>set ks. k < 512"
  shows "length fr = 256 \<Longrightarrow> k \<in> set ks \<Longrightarrow> frame_used bit1 (mark_frames bit1 ks fr) k"
  using assms(2)
proof (induction ks arbitrary: fr)
  case (Cons j ks)
  let ?fr = "fst (set_frame bit1 (page_offset j) True fr)"
  have m: "marks bit1 ?fr (mark_frames bit1 ks ?fr)" using Cons.prems(3) by (intro marks_frames) simp
  have "frame_used bit1 ?fr j"
    using Cons.prems set_frame_used [OF assms(1), of fr j] by (simp add: page_offset_frame)
  then have "frame_used bit1 (mark_frames bit1 ks ?fr) j" using m by (simp add: marks_def)
  then show ?case using Cons by auto
qed simp

text \<open>A loop that changes the bitmap only.\<close>

lemma for_each_frames:
  assumes "\<And>x fr. x \<in> set xs \<Longrightarrow> f x (st\<lparr>frames := fr\<rparr>) = Some (st\<lparr>frames := mark_frames bit1 (g x) fr\<rparr>)"
  shows "for_each f xs (st\<lparr>frames := fr\<rparr>) = Some (st\<lparr>frames := mark_frames bit1 (concat (map g xs)) fr\<rparr>)"
  using assms
proof (induction xs arbitrary: fr)
  case (Cons x xs)
  then show ?case by (simp add: mark_frames_def)
qed simp

section \<open>Adopting the tables\<close>

text \<open>
  \<^verbatim>\<open>adopted ps st st'\<close>: frames have been marked and the pointers \<^verbatim>\<open>ps\<close> stored, in the pages behind the
  first three tables; nothing else has changed.
\<close>

type_synonym pointers = "u64 \<times> u64 \<Rightarrow> u64 option"

definition adopted :: "(nat \<Rightarrow> u64) \<Rightarrow> nat \<Rightarrow> pointers \<Rightarrow> mmu \<Rightarrow> mmu \<Rightarrow> bool" where
  "adopted bit1 b ps st st' \<longleftrightarrow> st' = st\<lparr>frames := frames st', pmem := pmem st'\<rparr> \<and>
     marks bit1 (frames st) (frames st') \<and>
     (\<forall>f i. (f, i) \<in> dom ps \<longrightarrow> f \<in> {page_offset (b + 1), page_offset (b + 3), page_offset (b + 5)} \<and> index_ok i) \<and>
     (\<forall>f i. aligned f \<and> index_ok i \<longrightarrow>
        slot (pmem st') f i = (case ps (f, i) of None \<Rightarrow> slot (pmem st) f i | Some x \<Rightarrow> x))"

lemma adopted_refl [simp]: "adopted bit1 b Map.empty st st"
  by (simp add: adopted_def)

lemma adopted_frames: "marks bit1 (frames st) fr \<Longrightarrow> adopted bit1 b Map.empty st (st\<lparr>frames := fr\<rparr>)"
  by (simp add: adopted_def)

lemma adopted_trans:
  assumes "adopted bit1 b ps st st1" and "adopted bit1 b qs st1 st2"
  shows "adopted bit1 b (ps ++ qs) st st2"
proof -
  have 1: "st1 = st\<lparr>frames := frames st1, pmem := pmem st1\<rparr>" "st2 = st1\<lparr>frames := frames st2, pmem := pmem st2\<rparr>"
    using assms by (simp_all add: adopted_def)
  have "st2 = (st\<lparr>frames := frames st1, pmem := pmem st1\<rparr>)\<lparr>frames := frames st2, pmem := pmem st2\<rparr>"
    using 1(2) unfolding 1(1) [symmetric] .
  then have "st2 = st\<lparr>frames := frames st2, pmem := pmem st2\<rparr>" by simp
  moreover have "marks bit1 (frames st) (frames st2)" using assms marks_trans by (auto simp: adopted_def)
  moreover have "slot (pmem st2) f i = (case (ps ++ qs) (f, i) of None \<Rightarrow> slot (pmem st) f i | Some x \<Rightarrow> x)"
    if "aligned f" "index_ok i" for f i
    using assms that by (simp add: adopted_def map_add_def split: option.split)
  moreover have "f \<in> {page_offset (b + 1), page_offset (b + 3), page_offset (b + 5)} \<and> index_ok i"
    if "(f, i) \<in> dom (ps ++ qs)" for f i
    using assms that unfolding adopted_def dom_map_add by blast
  ultimately show ?thesis unfolding adopted_def by blast
qed

lemma adopted_store:
  assumes "f \<in> {page_offset (b + 1), page_offset (b + 3), page_offset (b + 5)}" and "index_ok i"
  shows "adopted bit1 b [(f, i) \<mapsto> x] st (st\<lparr>pmem := store64 (pmem st) (f + 8 * i) x\<rparr>)"
proof -
  have "aligned f" using assms(1) by auto
  then show ?thesis using assms by (auto simp: adopted_def slot_store)
qed

lemma adopted_boot:
  assumes "boot_slots low b (pmem st)" and "adopted bit1 b ps st st'" and "b + 6 < 512"
  shows "boot_slots low b (pmem st')"
proof -
  have ne: "page_offset (b + i) \<noteq> page_offset (b + j)" if "i < 7" "j < 7" "i \<noteq> j" for i j
    using page_offset_inj [of "b + i" "b + j"] that assms(3) by simp
  have "slot (pmem st') (page_offset (b + c)) i = slot (pmem st) (page_offset (b + c)) i"
    if i: "index_ok i" and c: "c \<in> {0, 2, 4, 6}" for c i
  proof -
    have "page_offset (b + c) \<notin> {page_offset (b + 1), page_offset (b + 3), page_offset (b + 5)}"
      using ne [of c 1] ne [of c 3] ne [of c 5] c by auto
    then have "ps (page_offset (b + c), i) = None" using assms(2) unfolding adopted_def by blast
    then show ?thesis using assms(2) i by (simp add: adopted_def)
  qed
  from this [of _ 0] this [of _ 2] this [of _ 4] this [of _ 6] show ?thesis
    using assms(1) unfolding boot_slots_def by simp
qed


definition booting :: "bool \<Rightarrow> nat \<Rightarrow> mmu \<Rightarrow> bool" where
  "booting low b st \<longleftrightarrow> boot_slots low b (pmem st) \<and> cr3 st = page_offset b \<and> length (frames st) = 256 \<and> b + 6 < 511"

lemma adopted_same:
  assumes "adopted bit1 b ps st st'"
  shows "cr3 st' = cr3 st" "heap_end st' = heap_end st" "directories st' = directories st"
    "active_directory st' = active_directory st" "prng_seed st' = prng_seed st"
    "length (frames st') = length (frames st)"
proof -
  have e: "st' = st\<lparr>frames := frames st', pmem := pmem st'\<rparr>" using assms by (simp add: adopted_def)
  show "cr3 st' = cr3 st" "heap_end st' = heap_end st" "directories st' = directories st"
    "active_directory st' = active_directory st" "prng_seed st' = prng_seed st" by (subst e, simp)+
  show "length (frames st') = length (frames st)" using assms by (simp add: adopted_def marks_def)
qed

lemma adopted_booting: "booting low b st \<Longrightarrow> adopted bit1 b ps st st' \<Longrightarrow> booting low b st'"
  using adopted_boot [of low b st bit1 ps st'] adopted_same [of bit1 b ps st st'] by (simp add: booting_def)

lemma indices: "map of_nat [0..<512] = (0 :: u64) # map of_nat [1..<511] @ [511]"
proof -
  have "[0..<512] = 0 # [1..<511] @ [511 :: nat]"
    using upt_conv_Cons [of 0 512] upt_add_eq_append [of 1 511 1] by (simp del: upt_Suc add: upt_rec [of 511 512])
  then show ?thesis by simp
qed

lemma for_each_append: "for_each f (xs @ ys) st = do { st \<leftarrow> for_each f xs st; for_each f ys st }"
proof (induction xs arbitrary: st)
  case (Cons x xs)
  then show ?case by (cases "f x st") simp_all
qed simp

lemma inner_index: "x \<in> of_nat ` {1..<511} \<Longrightarrow> index_ok x \<and> x \<noteq> 0 \<and> x \<noteq> 511"
proof -
  assume "x \<in> of_nat ` {1..<511}"
  then obtain j where j: "x = of_nat j" "1 \<le> j" "j < 511" by auto
  then show ?thesis
    using index_of_nat(1) [of j] index_of_nat(2) [of j 0] index_of_nat(2) [of j 511] by auto
qed

lemma not_present_base: "\<not> present (0 + KERNEL_VMA)" "page_base 0 = page_offset 0"
  by (simp_all add: present_def PAGE_FLAG_PRESENT_def KERNEL_VMA_def page_base_def)

text \<open>The last table: every frame it maps is marked.\<close>

lemma adopt_pt_boot:
  assumes boot: "booting low b st" and bits: "bit_ok bit1"
  shows "\<exists>st'. adopt_pt bit1 (kpage (b + 6)) st = Some st' \<and> adopted bit1 b Map.empty st st' \<and>
    (\<forall>k<511. frame_used bit1 (frames st') k)"
proof -
  define g where "g = (\<lambda>x :: u64. [if x = 511 then 0 else unat x])"
  let ?xs = "map of_nat [0..<512] :: u64 list" and ?f = "\<lambda>k st. do {
       e \<leftarrow> vload64 st (entry_at (kpage (b + 6)) k);
       let (st, _) = mark bit1 (page_base e) True st;
       Some st
     }"
  have B: "boot_slots low b (pmem st)" "cr3 st = page_offset b" "b + 6 < 511" "length (frames st) = 256"
    using boot by (simp_all add: booting_def)
  have "?f x (st\<lparr>frames := fr\<rparr>) = Some (st\<lparr>frames := mark_frames bit1 (g x) fr\<rparr>)" if "x \<in> set ?xs" for x fr
  proof -
    have i: "index_ok x" using that index_of_nat(1) by auto
    have "x * 0x1000 = page_offset (unat x)" by (simp add: page_offset_def)
    then have "page_base (slot (pmem st) (page_offset (b + 6)) x) = page_offset (hd (g x))"
      using boot_slotsD(4) [OF B(1) i] by (simp add: g_def present_flags not_present_base)
    then show ?thesis
      using boot_access(1) [of low b "st\<lparr>frames := fr\<rparr>", OF _ _ B(3) i] B by (simp add: g_def del: vload_frames)
  qed
  then have run: "adopt_pt bit1 (kpage (b + 6)) st =
      Some (st\<lparr>frames := mark_frames bit1 (concat (map g ?xs)) (frames st)\<rparr>)"
    using for_each_frames [of ?xs ?f st bit1 g "frames st"] by (simp add: adopt_pt_def)
  have small: "\<forall>k\<in>set (concat (map g ?xs)). k < 512"
    using unat_of_nat_u64 by (auto simp: g_def)
  have "k \<in> set (concat (map g ?xs))" if "k < 511" for k
  proof -
    have "unat (of_nat k :: u64) = k" "(of_nat k :: u64) \<noteq> 511"
      using that index_of_nat(2) [of k 511] by (auto intro: unat_of_nat_u64)
    then have "k \<in> set (g (of_nat k))" by (simp add: g_def)
    moreover have "(of_nat k :: u64) \<in> set ?xs" using that by auto
    ultimately show ?thesis unfolding set_concat set_map by blast
  qed
  then have "\<forall>k<511. frame_used bit1 (mark_frames bit1 (concat (map g ?xs)) (frames st)) k"
    using mark_frames_used [OF bits small B(4)] by blast
  then show ?thesis
    using run adopted_frames [OF marks_frames [OF small, of bit1 "frames st"], of b] by auto
qed


text \<open>A table with one entry, for the table two pages on.\<close>

definition adopts :: "(nat \<Rightarrow> u64) \<Rightarrow> bool \<Rightarrow> nat \<Rightarrow> pointers \<Rightarrow> (mmu \<Rightarrow> mmu option) \<Rightarrow> bool" where
  "adopts bit1 low b ps f \<longleftrightarrow> (\<forall>st. booting low b st \<longrightarrow>
     (\<exists>st'. f st = Some st' \<and> adopted bit1 b ps st st' \<and> (\<forall>k<511. frame_used bit1 (frames st') k)))"

lemma adoptsD:
  assumes "adopts bit1 low b ps f" and "booting low b st"
  obtains st' where "f st = Some st'" "adopted bit1 b ps st st'" "booting low b st'"
    "\<And>k. k < 511 \<Longrightarrow> frame_used bit1 (frames st') k"
  using assms adopted_booting unfolding adopts_def by blast

lemma link_to_page:
  "present ((page_offset c OR 0x3) + KERNEL_VMA)" "page_base ((page_offset c OR 0x3) + KERNEL_VMA) = kpage c"
  "page_base (page_offset c OR 0x3) = page_offset c"
proof -
  have "(page_offset c OR 0x3) + KERNEL_VMA = kpage c OR 0x3"
    using page_add [OF aligned_offset [of c], of 3] page_add [OF aligned_kpage [of c], of 3] by (simp add: kpage_def)
  then show "present ((page_offset c OR 0x3) + KERNEL_VMA)" "page_base ((page_offset c OR 0x3) + KERNEL_VMA) = kpage c"
    "page_base (page_offset c OR 0x3) = page_offset c" by (simp_all add: present_flags)
qed

lemma adopts_link:
  assumes down: "adopts bit1 low b qs (h)" and boot: "booting low b st"
    and f: "page_offset f \<in> {page_offset (b + 1), page_offset (b + 3), page_offset (b + 5)}" "index_ok i"
  shows "\<exists>st'. h (st\<lparr>pmem := store64 (pmem st) (page_offset f + 8 * i) x\<rparr>) = Some st' \<and>
    adopted bit1 b ([(page_offset f, i) \<mapsto> x] ++ qs) st st' \<and> booting low b st' \<and> (\<forall>k<511. frame_used bit1 (frames st') k)"
proof -
  let ?st = "st\<lparr>pmem := store64 (pmem st) (page_offset f + 8 * i) x\<rparr>"
  have a: "adopted bit1 b [(page_offset f, i) \<mapsto> x] st ?st" by (rule adopted_store [OF f])
  obtain st' where "h ?st = Some st'" "adopted bit1 b qs ?st st'" "booting low b st'"
      "\<And>k. k < 511 \<Longrightarrow> frame_used bit1 (frames st') k"
    by (rule adoptsD [OF down adopted_booting [OF boot a]]) blast
  then show ?thesis using adopted_trans [OF a] by blast
qed

lemma adopt_entries_boot:
  assumes c: "c \<in> {b + 2, b + 4}" and down: "adopts bit1 low b qs (down (kpage (c + 2)))"
  shows "adopts bit1 low b ([(page_offset (Suc c), 0) \<mapsto> kpage (c + 2)] ++ qs) (adopt_entries bit1 down (kpage c))"
  unfolding adopts_def
proof (intro allI impI)
  fix st
  assume boot: "booting low b st"
  let ?f = "\<lambda>j st. do {
       e \<leftarrow> vload64 st (entry_at (kpage c) j);
       let (st, _) = mark bit1 (page_base e) True st;
       e \<leftarrow> vload64 st (entry_at (kpage c) j);
       let p = e + KERNEL_VMA;
       (if \<not> present p then Some st
        else do {
          st \<leftarrow> vstore64 (next_at (kpage c) j) (page_base p) st;
          down (page_base p) st
        })
     }"
  let ?ys = "map of_nat [1..<511] @ [511] :: u64 list"
  have B: "boot_slots low b (pmem st)" "cr3 st = page_offset b" "b + 6 < 511" "length (frames st) = 256"
    using boot by (simp_all add: booting_def)
  have i0: "index_ok 0" by (simp add: index_ok_def)
  have c510: "c < 510" "c < 511" "c + 2 < 512" using c B(3) by auto
  let ?st1 = "st\<lparr>frames := mark_frames bit1 [c + 2] (frames st)\<rparr>"
  have a1: "adopted bit1 b Map.empty st ?st1" by (rule adopted_frames [OF marks_frames]) (use c510 in simp)
  have b1: "booting low b ?st1" by (rule adopted_booting [OF boot a1])
  have B1: "boot_slots low b (pmem ?st1)" "cr3 ?st1 = page_offset b" using B by simp_all
  have e: "slot (pmem st) (page_offset c) 0 = page_offset (c + 2) OR 0x3"
    using c boot_slotsD(2,3) [OF B(1) i0] by (auto simp: eval_nat_numeral)
  have load: "vload64 st (entry_at (kpage c) 0) = Some (page_offset (c + 2) OR 0x3)"
    using boot_access(1) [OF B(1,2) c510(2) i0] by (simp add: e)
  have first: "?f 0 st = down (kpage (c + 2)) (?st1\<lparr>pmem := store64 (pmem ?st1) (page_offset (Suc c) + 8 * 0) (kpage (c + 2))\<rparr>)"
    using load boot_access(4) [OF B1 c510(2) i0, of "kpage (c + 2)"] c510(1)
    by (simp only: bind.bind_lunit link_to_page mark_offset prod.case Let_def vload_frames not_True_eq_False if_False)
  have "page_offset (Suc c) \<in> {page_offset (b + 1), page_offset (b + 3), page_offset (b + 5)}"
    using c by (auto simp: eval_nat_numeral)
  then obtain st2 where 2: "?f 0 st = Some st2" "adopted bit1 b ([(page_offset (Suc c), 0) \<mapsto> kpage (c + 2)] ++ qs) ?st1 st2"
      "booting low b st2" "\<forall>k<511. frame_used bit1 (frames st2) k"
    using adopts_link [where f = "Suc c" and x = "kpage (c + 2)", OF down b1 _ i0] unfolding first by blast
  have B2: "boot_slots low b (pmem st2)" "cr3 st2 = page_offset b" using 2(3) by (simp_all add: booting_def)
  have "?f x (st2\<lparr>frames := fr\<rparr>) = Some (st2\<lparr>frames := mark_frames bit1 [0] fr\<rparr>)" if "x \<in> set ?ys" for x fr
  proof -
    have x: "index_ok x" "x \<noteq> 0" using that inner_index [of x] by (auto simp: index_ok_def)
    have "slot (pmem st2) (page_offset c) x = 0" using c x(2) boot_slotsD(2,3) [OF B2(1) x(1)] by auto
    then have "vload64 st2 (entry_at (kpage c) x) = Some 0" using boot_access(1) [OF B2 c510(2) x(1)] by simp
    then show ?thesis using not_present_base
      by (simp only: bind.bind_lunit mark_offset prod.case Let_def vload_frames not_False_eq_True if_True) simp
  qed
  from for_each_frames [of ?ys ?f st2 bit1 "\<lambda>_. [0]" "frames st2", OF this]
  have rest: "for_each ?f ?ys st2 = Some (st2\<lparr>frames := mark_frames bit1 (concat (map (\<lambda>_. [0]) ?ys)) (frames st2)\<rparr>)"
    by simp
  let ?fr = "mark_frames bit1 (concat (map (\<lambda>_. [0]) ?ys)) (frames st2)"
  have m: "marks bit1 (frames st2) ?fr" by (rule marks_frames) auto
  have "adopted bit1 b (([(page_offset (Suc c), 0) \<mapsto> kpage (c + 2)] ++ qs) ++ Map.empty) ?st1 (st2\<lparr>frames := ?fr\<rparr>)"
    by (rule adopted_trans [OF 2(2) adopted_frames [OF m]])
  from adopted_trans [OF a1 this]
  have "adopted bit1 b ([(page_offset (Suc c), 0) \<mapsto> kpage (c + 2)] ++ qs) st (st2\<lparr>frames := ?fr\<rparr>)"
    by (simp only: map_add_empty empty_map_add)
  moreover have "adopt_entries bit1 down (kpage c) st = Some (st2\<lparr>frames := ?fr\<rparr>)"
    unfolding adopt_entries_def indices for_each.simps using 2(1) rest by simp
  moreover have "\<forall>k<511. frame_used bit1 ?fr k" using 2(4) m by (simp add: marks_def)
  ultimately show "\<exists>st'. adopt_entries bit1 down (kpage c) st = Some st' \<and>
      adopted bit1 b ([(page_offset (Suc c), 0) \<mapsto> kpage (c + 2)] ++ qs) st st' \<and> (\<forall>k<511. frame_used bit1 (frames st') k)"
    by (intro exI [of _ "st2\<lparr>frames := ?fr\<rparr>"]) simp
qed


text \<open>The pointers that are stored behind the last two inner tables.\<close>

definition inner_pointers :: "nat \<Rightarrow> pointers" where
  "inner_pointers b = [(page_offset (b + 3), 0) \<mapsto> kpage (b + 4)] ++ ([(page_offset (b + 5), 0) \<mapsto> kpage (b + 6)] ++ Map.empty)"

lemma adopt_inner:
  assumes "bit_ok bit1"
  shows "adopts bit1 low b (inner_pointers b) (adopt_entries bit1 (adopt_entries bit1 (adopt_pt bit1)) (kpage (b + 2)))"
proof -
  have n: "b + 4 + 2 = b + 6" "b + 2 + 2 = b + 4" "Suc (b + 4) = b + 5" "Suc (b + 2) = b + 3" by simp_all
  have "adopts bit1 low b Map.empty (adopt_pt bit1 (kpage (b + 6)))"
    using adopt_pt_boot [OF _ assms] by (simp add: adopts_def)
  from adopt_entries_boot [of "b + 4" b bit1 low Map.empty "adopt_pt bit1", unfolded n, OF _ this]
  have "adopts bit1 low b ([(page_offset (b + 5), 0) \<mapsto> kpage (b + 6)] ++ Map.empty) (adopt_entries bit1 (adopt_pt bit1) (kpage (b + 4)))"
    by blast
  from adopt_entries_boot [of "b + 2" b bit1 low _ "adopt_entries bit1 (adopt_pt bit1)", unfolded n, OF _ this]
  show ?thesis unfolding inner_pointers_def by blast
qed

lemma adopt_pml4t_boot:
  assumes boot: "booting True b st" and bits: "bit_ok bit1" and act: "pml4t_of st = Some (kpage b)"
  obtains ps st' where "adopt_pml4t bit1 st = Some st'" "adopted bit1 b ps st st'" "booting True b st'"
    "\<And>k. k < 511 \<Longrightarrow> frame_used bit1 (frames st') k"
    "slot (pmem st') (page_offset (b + 1)) 511 = kpage (b + 2)" "slot (pmem st') (page_offset (b + 3)) 0 = kpage (b + 4)"
    "slot (pmem st') (page_offset (b + 5)) 0 = kpage (b + 6)"
proof -
  let ?h = "adopt_entries bit1 (adopt_entries bit1 (adopt_pt bit1))" and ?Q = "inner_pointers b"
  let ?f = "\<lambda>i st. do {
       v \<leftarrow> pml4t_of st;
       e \<leftarrow> vload64 st (entry_at v i);
       let p = e + KERNEL_VMA;
       (if \<not> present p then Some st
        else do {
          st \<leftarrow> vstore64 (next_at v i) (page_base p) st;
          ?h (page_base p) st
        })
     }"
  have b: "b < 510" "b < 511" using boot by (simp_all add: booting_def)
  have i: "index_ok 0" "index_ok 511" by (simp_all add: index_ok_def)
  have hit: "\<exists>st'. ?f i st = Some st' \<and> adopted bit1 b ([(page_offset (b + 1), i) \<mapsto> kpage (b + 2)] ++ ?Q) st st' \<and>
      booting True b st' \<and> pml4t_of st' = Some (kpage b) \<and> (\<forall>k<511. frame_used bit1 (frames st') k)"
    if s: "booting True b st" "pml4t_of st = Some (kpage b)" "i = 0 \<or> i = 511" for st i
  proof -
    have B: "boot_slots True b (pmem st)" "cr3 st = page_offset b" using s(1) by (simp_all add: booting_def)
    have ii: "index_ok i" using s(3) i by auto
    have "slot (pmem st) (page_offset b) i = page_offset (b + 2) OR 0x3" using boot_slotsD(1) [OF B(1) ii] s(3) by auto
    then have load: "vload64 st (entry_at (kpage b) i) = Some (page_offset (b + 2) OR 0x3)"
      using boot_access(1) [OF B b(2) ii] by simp
    have run: "?f i st = ?h (kpage (b + 2)) (st\<lparr>pmem := store64 (pmem st) (page_offset (b + 1) + 8 * i) (kpage (b + 2))\<rparr>)"
      using load boot_access(4) [OF B b(2) ii b(1), of "kpage (b + 2)"] s(2)
      by (simp only: bind.bind_lunit link_to_page Let_def not_True_eq_False if_False Suc_eq_plus1)
    obtain st' where 1: "?f i st = Some st'" "adopted bit1 b ([(page_offset (b + 1), i) \<mapsto> kpage (b + 2)] ++ ?Q) st st'"
        "booting True b st'" "\<forall>k<511. frame_used bit1 (frames st') k"
      using adopts_link [where f = "b + 1" and x = "kpage (b + 2)", OF adopt_inner [OF bits] s(1) _ ii] unfolding run by blast
    then show ?thesis using adopted_same(3,4) [OF 1(2)] s(2) by (auto simp: pml4t_of_def active_def)
  qed
  obtain st1 where 1: "?f 0 st = Some st1" "adopted bit1 b ([(page_offset (b + 1), 0) \<mapsto> kpage (b + 2)] ++ ?Q) st st1"
      "booting True b st1" "pml4t_of st1 = Some (kpage b)"
    using hit [OF boot act, of 0] by blast
  have B1: "boot_slots True b (pmem st1)" "cr3 st1 = page_offset b" using 1(3) by (simp_all add: booting_def)
  have "?f x (st1\<lparr>frames := fr\<rparr>) = Some (st1\<lparr>frames := mark_frames bit1 [] fr\<rparr>)" if "x \<in> set (map of_nat [1..<511])" for x fr
  proof -
    have x: "index_ok x" "x \<noteq> 0" "x \<noteq> 511" using that inner_index [of x] by auto
    then have "slot (pmem st1) (page_offset b) x = 0" using boot_slotsD(1) [OF B1(1) x(1)] by simp
    then have "vload64 st1 (entry_at (kpage b) x) = Some 0" using boot_access(1) [OF B1 b(2) x(1)] by simp
    moreover have "pml4t_of (st1\<lparr>frames := fr\<rparr>) = Some (kpage b)" using 1(4) by (simp add: pml4t_of_def active_def)
    ultimately show ?thesis using not_present_base
      by (simp only: bind.bind_lunit Let_def vload_frames not_False_eq_True if_True) simp
  qed
  note none = for_each_frames [of "map of_nat [1..<511]" ?f st1 bit1 "\<lambda>_. []" "frames st1", OF this]
  have c: "concat (map (\<lambda>_. []) xs) = ([] :: nat list)" for xs :: "u64 list" by (induction xs) simp_all
  have 2: "for_each ?f (map of_nat [1..<511]) st1 = Some st1" using none unfolding c by simp
  obtain st3 where 3: "?f 511 st1 = Some st3" "adopted bit1 b ([(page_offset (b + 1), 511) \<mapsto> kpage (b + 2)] ++ ?Q) st1 st3"
      "booting True b st3" "\<forall>k<511. frame_used bit1 (frames st3) k"
    using hit [OF 1(3,4), of 511] by blast
  have run: "adopt_pml4t bit1 st = Some st3"
    unfolding adopt_pml4t_def indices for_each.simps for_each_append using 1(1) 2 3(1) by simp
  have "b + 6 < 511" using boot by (simp add: booting_def)
  note ne = pages_differ [OF this]
  have s: "slot (pmem st3) f j = x"
    if "([(page_offset (b + 1), 511) \<mapsto> kpage (b + 2)] ++ ?Q) (f, j) = Some x" "aligned f" "index_ok j" for f j x
    using 3(2) that by (simp add: adopted_def)
  show thesis
  proof (rule that [OF run adopted_trans [OF 1(2) 3(2)] 3(3)])
    show "slot (pmem st3) (page_offset (b + 1)) 511 = kpage (b + 2)" "slot (pmem st3) (page_offset (b + 3)) 0 = kpage (b + 4)"
      "slot (pmem st3) (page_offset (b + 5)) 0 = kpage (b + 6)"
      using ne [of 1 3] ne [of 1 5] ne [of 3 5] i by (simp_all add: s inner_pointers_def map_add_def)
  qed (use 3(4) in blast)
qed


section \<open>The tree of the boot tables\<close>

definition boot_node :: "nat \<Rightarrow> tnode" where
  "boot_node c = \<lparr>n_virt = kpage c, n_phys = page_offset c, n_back = page_offset (c + 1)\<rparr>"

lemma boot_node_simps [simp]:
  "n_virt (boot_node c) = kpage c" "n_phys (boot_node c) = page_offset c" "n_back (boot_node c) = page_offset (c + 1)"
  by (simp_all add: boot_node_def)

definition boot_tree :: "nat \<Rightarrow> tree" where
  "boot_tree b = [[] \<mapsto> boot_node b, [511] \<mapsto> boot_node (b + 2), [511, 0] \<mapsto> boot_node (b + 4),
     [511, 0, 0] \<mapsto> boot_node (b + 6)]"

lemma boot_tree_cases:
  assumes "boot_tree b p = Some n"
  obtains i where "i \<in> {0, 2, 4, 6}" "n = boot_node (b + i)" "p = take (i div 2) [511, 0, 0]"
  using assms by (force simp: boot_tree_def split: if_splits)

lemma boot_tree_at:
  "boot_tree b [] = Some (boot_node b)"
  "boot_tree b [i] = (if i = 511 then Some (boot_node (b + 2)) else None)"
  "boot_tree b [i, j] = (if i = 511 \<and> j = 0 then Some (boot_node (b + 4)) else None)"
  "boot_tree b [i, j, k] = (if i = 511 \<and> j = 0 \<and> k = 0 then Some (boot_node (b + 6)) else None)"
  by (simp_all add: boot_tree_def)

text \<open>The last pages of the kernel: what the boot tables do not map.\<close>

definition adopted_slots :: "nat \<Rightarrow> mem \<Rightarrow> bool" where
  "adopted_slots b m \<longleftrightarrow> boot_slots False b m \<and> slot m (page_offset (b + 1)) 511 = kpage (b + 2) \<and>
     slot m (page_offset (b + 3)) 0 = kpage (b + 4) \<and> slot m (page_offset (b + 5)) 0 = kpage (b + 6)"

lemma boot_tree_ok:
  assumes "b + 6 < 511"
  shows "tree_ok (boot_tree b)"
  unfolding tree_ok_def
proof (intro conjI allI impI)
  fix p n
  assume "boot_tree b p = Some n"
  then show "length p \<le> 3" "\<forall>i\<in>set p. index_ok i" "aligned (n_virt n)" "aligned (n_phys n)" "aligned (n_back n)"
    by (auto elim!: boot_tree_cases dest: in_set_takeD simp: index_ok_def)
next
  fix p i n
  assume "boot_tree b (p @ [i]) = Some n"
  then have "p @ [i] = [511] \<or> p @ [i] = [511, 0] \<or> p @ [i] = [511, 0, 0]" by (auto simp: boot_tree_def split: if_splits)
  then have "p = [] \<or> p = [511] \<or> p = [511, 0]" by (metis append1_eq_conv append_Cons append_Nil)
  then show "boot_tree b p \<noteq> None" by (auto simp: boot_tree_at)
next
  fix p n q k
  assume a: "boot_tree b p = Some n \<and> boot_tree b q = Some k"
  obtain i where i: "i \<in> {0, 2, 4, 6}" "n = boot_node (b + i)" "p = take (i div 2) [511, 0, 0]"
    using a boot_tree_cases by blast
  obtain j where j: "j \<in> {0, 2, 4, 6}" "k = boot_node (b + j)" "q = take (j div 2) [511, 0, 0]"
    using a boot_tree_cases by blast
  note d = pages_differ [OF assms]
  show "n_phys n \<noteq> n_phys k" if "p \<noteq> q"
    using that i j d [of i j] by auto
  show "n_back n \<noteq> n_phys k" if "length p < 3"
    using that i j d [of "i + 1" j] by auto
  show "n_back n \<noteq> n_back k" if "p \<noteq> q \<and> length p < 3 \<and> length q < 3"
    using that i j d [of "i + 1" "j + 1"] by auto
qed

lemma boot_linked:
  assumes "adopted_slots b m"
  shows "linked_ok (boot_tree b) m"
  unfolding linked_ok_def
proof (intro allI impI, elim conjE)
  fix p n i
  assume n: "boot_tree b p = Some n" and p: "length p < 3" and i: "index_ok i"
  note d = boot_slotsD [of False b m i, OF _ i] and s = assms [unfolded adopted_slots_def]
  obtain c where c: "c \<in> {0, 2, 4, 6}" "n = boot_node (b + c)" "p = take (c div 2) [511, 0, 0]"
    using n boot_tree_cases by blast
  have no: "\<not> present 0" by (simp add: present_def)
  consider "p = []" "n = boot_node b" | "p = [511]" "n = boot_node (b + 2)" | "p = [511, 0]" "n = boot_node (b + 4)"
    using c p by auto
  then show "case boot_tree b (p @ [i]) of
           None \<Rightarrow> \<not> present (slot m (n_phys n) i)
         | Some k \<Rightarrow> present (slot m (n_phys n) i) \<and> page_base (slot m (n_phys n) i) = n_phys k \<and>
             slot m (n_back n) i = n_virt k"
    using d s no by cases (auto simp: boot_tree_at present_flags eval_nat_numeral)
qed

lemma boot_page_frame:
  assumes "boot_slots low b m" and "j < 512"
  shows "page_frame (boot_tree b) m (kpage j) = (if j < 511 then Some (page_offset j) else None)"
proof -
  have p: "upper_path (kpage j) = [511, 0, 0]" "table_index 12 (kpage j) = of_nat j"
    using small_path [OF assms(2)] by (simp_all add: kpage_def KERNEL_VMA_def)
  have i: "index_ok (of_nat j)" by (rule index_of_nat(1) [OF assms(2)])
  have "(of_nat j :: u64) = 511 \<longleftrightarrow> \<not> j < 511"
    using index_of_nat(2) [of j 511] assms(2) by (cases "j = 511") auto
  moreover have "of_nat j * 0x1000 = page_offset j" by (simp add: page_offset_def)
  moreover have "\<not> present 0" by (simp add: present_def)
  ultimately show ?thesis
    using boot_slotsD(4) [OF assms(1) i] p(2) by (simp add: page_frame_def p boot_tree_at present_flags)
qed

lemma boot_page_frame_cases:
  assumes "boot_slots low b m" and "page_frame (boot_tree b) m a = Some f"
  obtains j where "j < 511" "f = page_offset j"
proof -
  obtain n where "boot_tree b (upper_path a) = Some n" using assms(2) by (auto simp: page_frame_def split: option.splits)
  then have n: "n = boot_node (b + 6)" "upper_path a = [511, 0, 0]" by (auto simp: boot_tree_at split: if_splits)
  let ?i = "table_index 12 a"
  have i: "index_ok ?i" by simp
  have e: "f = page_base (slot m (page_offset (b + 6)) ?i)" "present (slot m (page_offset (b + 6)) ?i)"
    using assms(2) n by (auto simp: page_frame_def Let_def boot_tree_at split: if_splits)
  then have ne: "?i \<noteq> 511" using boot_slotsD(4) [OF assms(1) i] by (auto simp: present_def)
  then have "unat ?i < 511" using i unat_of_nat_u64 [of 511] by (auto simp: index_ok_def word_less_nat_alt word_unat_eq_iff)
  moreover have "?i * 0x1000 = page_offset (unat ?i)" by (simp add: page_offset_def)
  then have "f = page_offset (unat ?i)" using e(1) ne boot_slotsD(4) [OF assms(1) i] by (simp add: present_flags)
  ultimately show thesis by (rule that)
qed

lemma boot_mapped:
  assumes "boot_slots low b m" and "b + 6 < 511"
  shows "mapped_ok (boot_tree b) m"
  unfolding mapped_ok_def
proof (intro allI impI)
  fix p n
  assume "boot_tree b p = Some n"
  then obtain c where c: "c \<in> {0, 2, 4, 6}" "n = boot_node (b + c)" "p = take (c div 2) [511, 0, 0]"
    by (rule boot_tree_cases)
  have "kpage (b + c) + 0x1000 = kpage (b + c + 1)" by (simp add: kpage_def add.assoc flip: page_offset_simps(3))
  then show "page_frame (boot_tree b) m (n_virt n) = Some (n_phys n) \<and>
      (length p < 3 \<longrightarrow> page_frame (boot_tree b) m (n_virt n + 0x1000) = Some (n_back n))"
    using c boot_page_frame [OF assms(1), of "b + c"] boot_page_frame [OF assms(1), of "b + c + 1"] assms(2) by auto
qed

lemma boot_tables_ok:
  assumes "adopted_slots b (pmem st)" and "b + 6 < 511" and "cr3 st = page_offset b"
    and "active st = Some d" and "pml4t d = kpage b"
  shows "tables_ok (boot_tree b) st"
proof -
  have s: "boot_slots False b (pmem st)" using assms(1) by (simp add: adopted_slots_def)
  show ?thesis
    using boot_tree_ok [OF assms(2)] boot_linked [OF assms(1)] boot_mapped [OF s assms(2)] assms(3-5)
    by (simp add: tables_ok_def boot_tree_at)
qed


section \<open>After \<^verbatim>\<open>mmu_init\<close>\<close>

lemma clear_frame_stays:
  assumes "\<not> frame_used bit1 fr k"
  shows "\<not> frame_used bit1 (fst (set_frame bit1 a False fr)) k"
proof -
  have "(x AND NOT c) AND b = 0" if "x AND b = 0" for x b c :: u64
    using that by (simp add: and.assoc and.left_commute [of _ "NOT c"])
  then show ?thesis
    using assms by (auto simp: frame_used_def set_frame_def Let_def nth_list_update list_update_beyond)
      (metis (no_types, lifting) list_update_beyond not_less nth_list_update)
qed

lemma clear_frames_free:
  assumes "bit_defined bit1" and "k mod 64 < 31"
  shows "length fr = 256 \<Longrightarrow> \<forall>j\<in>set ks. j < 16384 \<Longrightarrow> k \<in> set ks \<or> \<not> frame_used bit1 fr k \<Longrightarrow>
    \<not> frame_used bit1 (clear_frames bit1 ks fr) k"
proof (induction ks arbitrary: fr)
  case (Cons j ks)
  have "\<not> frame_used bit1 (fst (set_frame bit1 (page_offset j) False fr)) k" if "j = k"
  proof -
    have b: "bit1 (k mod 64) = push_bit (k mod 64) 1" using assms by (simp add: bit_defined_def)
    have k: "k < 16384" "k div 64 < 256" using Cons.prems(2) that by auto
    have "(w AND NOT c) AND c = 0" for w c :: u64 by (simp add: and.assoc)
    then show ?thesis using that k Cons.prems(1) by (simp add: frame_used_def clear_frame_at [OF k(1)] b)
  qed
  then show ?case using Cons clear_frame_stays [of bit1 fr k "page_offset j"] by auto
qed simp

definition boot_spare :: "(u32 \<times> u32 \<times> map_area list) list \<Rightarrow> nat set" where
  "boot_spare ts = {k \<in> set (freed_frames ts). 512 \<le> k \<and> k mod 64 < 31}"

lemma boot_spare_kept:
  assumes "bit_defined bit1" and "length fr = 256" and "marks bit1 (clear_frames bit1 (freed_frames ts) fr) fr'"
  shows "boot_spare ts \<subseteq> spare bit1 fr'"
proof
  fix k assume k: "k \<in> boot_spare ts"
  then have b: "k < 16384" "k mod 64 < 31" "512 \<le> k" using freed_frames_below by (auto simp: boot_spare_def)
  have "\<not> frame_used bit1 (clear_frames bit1 (freed_frames ts) fr) k"
    using clear_frames_free [OF assms(1) b(2), of fr "freed_frames ts"] assms(2) k freed_frames_below
    by (auto simp: boot_spare_def)
  moreover have "8 \<le> k div 64" using div_le_mono [OF b(3), of 64] by simp
  ultimately show "k \<in> spare bit1 fr'" using assms(3) b by (simp add: spare_def frame_used_def marks_def)
qed

lemma tags_at_same:
  assumes "pmem st' = pmem st" and "cr3 st' = cr3 st"
  shows "tags_at st' a ts \<longleftrightarrow> tags_at st a ts"
proof -
  have v: "vload32 st' a = vload32 st a" "vload64 st' a = vload64 st a" for a
    using assms by (simp_all add: vload32_def vload64_def vload_run_def translate_def)
  have area: "area_at st' e x \<longleftrightarrow> area_at st e x" for e x by (cases x) (simp add: v)
  have areas: "areas_at st' e xs \<longleftrightarrow> areas_at st e xs" for e xs by (induction xs arbitrary: e) (simp_all add: area)
  show ?thesis by (induction ts arbitrary: a) (auto simp: v areas split: option.splits)
qed

lemma kpage_add: "kpage g + page_offset j = kpage (g + j)"
  by (simp add: kpage_def page_offset_add add.assoc)

lemma kpage_address: "j < 512 \<Longrightarrow> unat (kpage j) = 0xFFFFFF8000000000 + 4096 * j" "j < 512 \<Longrightarrow> gb_page (kpage j) = j"
  using small_address [of j] by (simp_all add: kpage_def KERNEL_VMA_def)

lemma frame_marked_low: "j < 511 \<Longrightarrow> (\<And>k. k < 511 \<Longrightarrow> frame_used bit1 fr k) \<Longrightarrow> frame_marked bit1 fr (page_offset j)"
  using unat_page_offset [of j] by (simp add: frame_marked_def)

lemma boot_stocked:
  assumes slots: "adopted_slots b (pmem st)" and b: "b + 6 < 511" and cr3: "cr3 st = page_offset b"
    and act: "active st = Some d" "pml4t d = kpage b" and len: "length (frames st) = 256"
    and used: "\<And>k. k < 511 \<Longrightarrow> frame_used bit1 (frames st) k" and g: "heap_end st = kpage g" "g \<le> 511"
  shows "stocked bit1 (boot_tree b) st (511 - g) 0"
proof -
  have s: "boot_slots False b (pmem st)" using slots by (simp add: adopted_slots_def)
  have hp: "heap_page st j = kpage (g + j)" for j by (simp add: heap_page_def g(1) kpage_add)
  have low: "gb_page (heap_end st) = g" "unat (heap_end st) = 0xFFFFFF8000000000 + 4096 * g"
    using kpage_address [of g] g by simp_all
  have J: "pages_behind st 0 = 512 - g" by (simp add: pages_behind_def low)
  have "room (boot_tree b) st (511 - g) (512 - g)"
    unfolding room_def
  proof (intro conjI allI impI)
    show "heap_end st \<noteq> 0" using low(2) by (auto simp: unat_eq_0)
    show "boot_tree b (upper_path (heap_page st j)) \<noteq> None" if "j < 512 - g" for j
      using path_kpage [of "g + j"] that by (simp add: hp path_of_def boot_tree_at)
    show "page_frame (boot_tree b) (pmem st) (heap_page st j) = None" if "511 - g \<le> j \<and> j < 512 - g" for j
    proof -
      have "g + j < 512" "\<not> g + j < 511" using that g(2) by auto
      then show ?thesis using boot_page_frame [OF s, of "g + j"] by (simp add: hp)
    qed
  qed (use g low in simp_all)
  moreover have "tables_marked bit1 (boot_tree b) (frames st)"
    unfolding tables_marked_def
  proof (intro allI impI)
    fix p n
    assume "boot_tree b p = Some n"
    then obtain c where c: "c \<in> {0, 2, 4, 6}" "n = boot_node (b + c)" "p = take (c div 2) [511, 0, 0]"
      by (rule boot_tree_cases)
    then show "frame_marked bit1 (frames st) (n_phys n) \<and> (length p < 3 \<longrightarrow> frame_marked bit1 (frames st) (n_back n))"
      using frame_marked_low [OF _ used, of "b + c"] frame_marked_low [OF _ used, of "b + c + 1"] b by auto
  qed
  moreover have "mapped_marked bit1 (page_frame (boot_tree b) (pmem st)) (frames st)"
    unfolding mapped_marked_def
  proof (intro allI impI)
    fix a f
    assume "page_frame (boot_tree b) (pmem st) a = Some f"
    then obtain j where "j < 511" "f = page_offset j" by (rule boot_page_frame_cases [OF s])
    then show "frame_marked bit1 (frames st) f" using frame_marked_low [OF _ used] by simp
  qed
  ultimately have "ready_state bit1 (boot_tree b) st (511 - g) (pages_behind st 0)"
    using boot_tables_ok [OF slots b cr3 act] len by (simp add: ready_state_def J)
  moreover have "boot_tree b (leaf_path (heap_end st) l) = None" if "0 < l" "l < 512" for l
  proof -
    have "(of_nat l :: u64) \<noteq> 0" using index_of_nat(2) [of l 0] that by auto
    then show ?thesis using path_kpage [of g] g by (simp add: leaf_path_def path_of_def boot_tree_at)
  qed
  ultimately show ?thesis using low(1) g(2) by (simp add: stocked_def)
qed


lemma heap_page_0: "heap_page st 0 = heap_end st"
  by (simp add: heap_page_def)

text \<open>The last call of \<^verbatim>\<open>mmu_init\<close>, \<^verbatim>\<open>ksbrk(0)\<close>: the table behind the boot tables.\<close>

lemma ksbrk_zero:
  assumes st: "stocked bit1 T st t L" and bits: "bit_ok bit1" and fits: "t + 1 \<le> pages_behind st L"
    and low: "gb_page (heap_end st) < 511 * 512" and free: "\<exists>q. free_run bit1 (frames st) q 1"
  shows "\<exists>T' st' L'. ksbrk bit1 (Suc (Suc m)) 0 st = Some (st', 0) \<and>
    stocked bit1 T' st' (t + 1) L' \<and> grown bit1 T st T' st' \<and> gb_page (heap_end st) div 512 < L' \<and>
    (frames st' = frames st \<or> (\<exists>rc. get_frame bit1 True 1 (frames st) = Some (rc, frames st'))) \<and>
    dom T' \<subseteq> dom T \<union> range (leaf_path (heap_end st))"
proof -
  note d = stockedD [OF st]
  have z: "pages_of 0 = 0" by (simp add: pages_of_def)
  then have "t + pages_of 0 \<le> pages_behind st L" using fits by simp
  then obtain k where k: "find_free bit1 (allocate_pt bit1 (Suc (Suc m))) 0 st = Some (st, heap_page st k)"
      "\<And>l. l < k \<Longrightarrow> \<exists>j<pages_of 0. page_frame T (pmem st) (heap_page st (l + j)) \<noteq> None"
    by (rule find_free_spec [OF d(5,4), of 0 bit1 "Suc m"]) blast
  have "k = 0" using k(2) [of 0] z by (cases k) auto
  then have find: "mmu_find_free_virtual_region bit1 (Suc (Suc m)) 0 st = Some (st, heap_end st)"
    using k(1) by (simp add: mmu_find_free_virtual_region_def heap_page_0)
  obtain T' st' L' where "allocate_next_pt bit1 (Suc (Suc m)) (heap_end st) st = Some st'"
      "stocked bit1 T' st' (t + 1) L'" "grown bit1 T st T' st'" "gb_page (heap_end st) div 512 < L'"
      "frames st' = frames st \<or> (\<exists>rc. get_frame bit1 True 1 (frames st) = Some (rc, frames st'))"
      "dom T' \<subseteq> dom T \<union> range (leaf_path (heap_end st))"
    using stocked_next [OF st bits fits low free, of m] by blast
  then show ?thesis using find
    by (intro exI [of _ T'] exI [of _ st'] exI [of _ L']) (simp add: ksbrk_def ksbrk_physical_def)
qed

text \<open>The state after the tables have been adopted, with the entry for the low half removed.\<close>

lemma boot_adopted:
  assumes bits: "bit_defined bit1" and boot: "boot_slots True b (pmem st)" "b + 6 < 511" "cr3 st = page_offset b"
    and tags: "tags_at st (header + KERNEL_VMA + 8) ts" and kernel: "align_up kernel_end 0x1000 + 0x1000 = kpage g"
  obtains st' where
    "mmu_init bit1 n (page_offset b) kernel_end header st = do { (st, _) \<leftarrow> ksbrk bit1 n 0 st'; Some (st, 1) }"
    "adopted_slots b (pmem st')" "cr3 st' = page_offset b" "length (frames st') = 256" "heap_end st' = kpage g"
    "\<And>k. k < 511 \<Longrightarrow> frame_used bit1 (frames st') k" "boot_spare ts \<subseteq> spare bit1 (frames st')"
    "active st' = Some \<lparr>pml4t = kpage b, dir_physical = page_offset b\<rparr>"
proof -
  let ?dir = "\<lparr>pml4t = page_offset b + KERNEL_VMA, dir_physical = page_offset b\<rparr>"
  let ?fr0 = "replicate NUM_OF_FRAMES (NOT 0) :: bitmap"
  let ?st0 = "st\<lparr>directories := (directories st)(active_directory st \<mapsto> ?dir), heap_end := kpage g, frames := ?fr0\<rparr>"
  let ?fr1 = "clear_frames bit1 (freed_frames ts) ?fr0"
  let ?st1 = "?st0\<lparr>frames := ?fr1\<rparr>"
  have k: "page_offset b + KERNEL_VMA = kpage b" by (simp add: kpage_def add.commute)
  have "tags_at ?st0 (header + KERNEL_VMA + 8) ts" using tags tags_at_same [of ?st0 st] by simp
  then have 1: "multiboot_tags bit1 (header + KERNEL_VMA + 8) ?st0 = Some ?st1"
    using multiboot_tags_frames [of ?st0 "header + KERNEL_VMA + 8" ts bit1] by simp
  have ok: "bit_ok bit1" using bits by (simp add: bit_defined_def)
  have b1: "booting True b ?st1" using boot by (simp add: booting_def NUM_OF_FRAMES_def)
  have act1: "pml4t_of ?st1 = Some (kpage b)" by (simp add: pml4t_of_def active_def k)
  obtain ps st2 where 2: "adopt_pml4t bit1 ?st1 = Some st2" "adopted bit1 b ps ?st1 st2" "booting True b st2"
      "\<And>k. k < 511 \<Longrightarrow> frame_used bit1 (frames st2) k"
      "slot (pmem st2) (page_offset (b + 1)) 511 = kpage (b + 2)" "slot (pmem st2) (page_offset (b + 3)) 0 = kpage (b + 4)"
      "slot (pmem st2) (page_offset (b + 5)) 0 = kpage (b + 6)"
    by (rule adopt_pml4t_boot [OF b1 ok act1]) blast
  note same = adopted_same [OF 2(2)]
  define fr3 where "fr3 = mark_frames bit1 [b] (frames st2)"
  let ?st3 = "st2\<lparr>frames := fr3\<rparr>"
  have m3: "marks bit1 (frames st2) fr3" unfolding fr3_def using boot(2) by (intro marks_frames) simp
  have B3: "boot_slots True b (pmem ?st3)" "cr3 ?st3 = page_offset b" using 2(3) by (simp_all add: booting_def)
  have i: "index_ok 0" "index_ok 511" by (simp_all add: index_ok_def)
  let ?m4 = "store64 (pmem st2) (page_offset (b + 1) + 8 * 0) 0"
  let ?st4 = "?st3\<lparr>pmem := ?m4\<rparr>"
  let ?m5 = "store64 ?m4 (page_offset b + 8 * 0) 0"
  let ?st5 = "?st4\<lparr>pmem := ?m5\<rparr>"
  note d = pages_differ [OF boot(2)]
  have s4: "slot ?m4 f j = (if f = page_offset (b + 1) \<and> j = 0 then 0 else slot (pmem st2) f j)" if "aligned f" "index_ok j" for f j
    using slot_store [OF aligned_offset that(1) i(1) that(2)] .
  have s5: "slot ?m5 f j = (if f = page_offset b \<and> j = 0 then 0 else slot ?m4 f j)" if "aligned f" "index_ok j" for f j
    using slot_store [OF aligned_offset that(1) i(1) that(2)] .
  have B4: "boot_slots True b ?m4" using B3(1) s4 d [of 0 1] d [of 2 1] d [of 4 1] d [of 6 1] unfolding boot_slots_def by simp
  have store4: "vstore64 (next_at (kpage b) 0) 0 ?st3 = Some ?st4"
    using boot_access(4) [OF B3 _ i(1), of b 0] boot(2) by simp
  have store5: "vstore64 (entry_at (kpage b) 0) 0 ?st4 = Some ?st5"
    using boot_access(2) [of True b ?st4 b 0 0] B4 B3(2) i(1) boot(2) by simp
  have "boot_slots False b ?m5"
    using B4 s5 d [of 2 0] d [of 4 0] d [of 6 0] unfolding boot_slots_def by simp
  moreover have "slot ?m5 (page_offset (b + 1)) 511 = kpage (b + 2)" "slot ?m5 (page_offset (b + 3)) 0 = kpage (b + 4)"
    "slot ?m5 (page_offset (b + 5)) 0 = kpage (b + 6)"
    using 2(5-7) s4 s5 i d [of 1 0] d [of 3 0] d [of 5 0] d [of 3 1] d [of 5 1] by simp_all
  ultimately have slots: "adopted_slots b (pmem ?st5)" by (simp add: adopted_slots_def)
  have v: "pml4t_of ?st3 = Some (kpage b)" using same by (simp add: pml4t_of_def active_def k)
  have run: "mmu_init bit1 n (page_offset b) kernel_end header st = do { (st, _) \<leftarrow> ksbrk bit1 n 0 ?st5; Some (st, 1) }"
    using 1 2(1) v store4 store5 by (simp add: mmu_init_def kernel Let_def fr3_def)
  have "marks bit1 ?fr1 fr3" using 2(2) m3 marks_trans by (auto simp: adopted_def)
  then have sp: "boot_spare ts \<subseteq> spare bit1 fr3" by (intro boot_spare_kept [OF bits]) (simp_all add: NUM_OF_FRAMES_def)
  show thesis
  proof (rule that [of ?st5, OF run slots])
    show "frame_used bit1 (frames ?st5) k" if "k < 511" for k using 2(4) [OF that] m3 by (simp add: marks_def)
    show "active ?st5 = Some \<lparr>pml4t = kpage b, dir_physical = page_offset b\<rparr>" using same by (simp add: active_def k)
    show "length (frames ?st5) = 256" using 2(3) m3 by (simp add: booting_def marks_def)
  qed (use B3(2) same sp in simp_all)
qed

text \<open>
  The state after \<^verbatim>\<open>mmu_init\<close>.  Behind the heap every page but at most one is mapped up to the second
  megabyte, and the tree has grown under the last entry of its root only.
\<close>

lemma mmu_init_run:
  assumes bits: "bit_defined bit1" and boot: "boot_slots True b (pmem st)" "b + 6 < 511" "cr3 st = page_offset b"
    and tags: "tags_at st (header + KERNEL_VMA + 8) ts" and kernel: "align_up kernel_end 0x1000 + 0x1000 = kpage g" "g \<le> 511"
    and some: "boot_spare ts \<noteq> {}"
  obtains T st' t L fr where "mmu_init bit1 (Suc (Suc m)) (page_offset b) kernel_end header st = Some (st', 1)"
    "stocked bit1 T st' t L" "t + 262 \<le> pages_behind st' L" "gb_page (heap_end st') + t = 512"
    "\<And>j. j + 1 < t \<Longrightarrow> page_frame T (pmem st') (heap_page st' j) \<noteq> None"
    "\<And>j. j < 511 \<Longrightarrow> page_frame T (pmem st') (kpage j) = Some (page_offset j)"
    "\<And>j. j < 511 \<Longrightarrow> frame_used bit1 (frames st') j" "\<And>i p. T (i # p) \<noteq> None \<Longrightarrow> i = 511"
    "boot_spare ts \<subseteq> spare bit1 fr" "length fr = 256"
    "frames st' = fr \<or> (\<exists>rc. get_frame bit1 True 1 fr = Some (rc, frames st'))"
proof -
  obtain st1 where 1: "mmu_init bit1 (Suc (Suc m)) (page_offset b) kernel_end header st =
        do { (st, _) \<leftarrow> ksbrk bit1 (Suc (Suc m)) 0 st1; Some (st, 1) }"
      "adopted_slots b (pmem st1)" "cr3 st1 = page_offset b" "length (frames st1) = 256" "heap_end st1 = kpage g"
      "\<And>k. k < 511 \<Longrightarrow> frame_used bit1 (frames st1) k" "boot_spare ts \<subseteq> spare bit1 (frames st1)"
      "active st1 = Some \<lparr>pml4t = kpage b, dir_physical = page_offset b\<rparr>"
    by (rule boot_adopted [OF bits boot tags kernel(1), of "Suc (Suc m)"]) blast
  have ok: "bit_ok bit1" using bits by (simp add: bit_defined_def)
  have st: "stocked bit1 (boot_tree b) st1 (511 - g) 0"
    by (rule boot_stocked [OF 1(2) boot(2) 1(3,8) _ 1(4,6,5) kernel(2)]) simp_all
  have low: "gb_page (heap_end st1) = g" using kpage_address(2) [of g] kernel(2) by (simp add: 1(5))
  have "spare bit1 (frames st1) \<noteq> {}" using 1(7) some by blast
  note free = spare_free_run [OF this]
  have fits: "511 - g + 1 \<le> pages_behind st1 0" "gb_page (heap_end st1) < 511 * 512"
    using low kernel(2) by (simp_all add: pages_behind_def)
  obtain T st' L where 2: "ksbrk bit1 (Suc (Suc m)) 0 st1 = Some (st', 0)" "stocked bit1 T st' (511 - g + 1) L"
      "grown bit1 (boot_tree b) st1 T st'" "gb_page (heap_end st1) div 512 < L"
      "frames st' = frames st1 \<or> (\<exists>rc. get_frame bit1 True 1 (frames st1) = Some (rc, frames st'))"
      "dom T \<subseteq> dom (boot_tree b) \<union> range (leaf_path (heap_end st1))"
    using ksbrk_zero [OF st ok fits free, of m] by blast
  have s: "boot_slots False b (pmem st1)" using 1(2) by (simp add: adopted_slots_def)
  have keep: "page_frame T (pmem st') (kpage j) = Some (page_offset j)" if "j < 511" for j
    using 2(3) boot_page_frame [OF s, of j] that by (simp add: grown_def)
  have e: "heap_end st' = heap_end st1" using 2(3) by (simp add: grown_def)
  have hp: "heap_page st' j = kpage (g + j)" for j by (simp add: heap_page_def e 1(5) kpage_add)
  have run: "mmu_init bit1 (Suc (Suc m)) (page_offset b) kernel_end header st = Some (st', 1)"
    using 1(1) 2(1) by simp
  have root: "i = 511" if "T (i # p) \<noteq> None" for i p
  proof -
    have "i # p \<in> dom (boot_tree b) \<union> range (leaf_path (heap_end st1))" using that 2(6) by blast
    moreover have "leaf_path (heap_end st1) l = i # p \<Longrightarrow> i = 511" for l
      using path_kpage [of g] kernel(2) by (simp add: leaf_path_def path_of_def 1(5))
    ultimately show ?thesis by (auto simp: boot_tree_def split: if_splits)
  qed
  show thesis
  proof (rule that [OF run 2(2) _ _ _ keep _ root 1(7,4) 2(5)])
    show "511 - g + 1 + 262 \<le> pages_behind st' L" using 2(4) kernel(2) low by (simp add: pages_behind_def e)
    show "gb_page (heap_end st') + (511 - g + 1) = 512" using kernel(2) by (simp add: e low)
    show "page_frame T (pmem st') (heap_page st' j) \<noteq> None" if "j + 1 < 511 - g + 1" for j
      using keep [of "g + j"] that by (simp add: hp)
    show "frame_used bit1 (frames st') j" if "j < 511" for j using 2(3) 1(6) [OF that] by (simp add: grown_def)
  qed
qed

text \<open>What a call for one frame costs.\<close>

lemma take_one_left:
  assumes "bit_defined bit1" and "length fr = 256" and "fr' = fr \<or> (\<exists>rc. get_frame bit1 True 1 fr = Some (rc, fr'))"
  shows "card (spare bit1 fr) \<le> card (spare bit1 fr') + 1" and "card (free_words bit1 fr) \<le> card (free_words bit1 fr') + 2"
proof -
  show "card (spare bit1 fr) \<le> card (spare bit1 fr') + 1"
    using assms(3)
  proof (elim disjE exE)
    fix rc assume "get_frame bit1 True 1 fr = Some (rc, fr')"
    then show ?thesis by (rule take_one_spare [OF assms(1,2)]) (simp add: card_spare_one)
  qed simp
  show "card (free_words bit1 fr) \<le> card (free_words bit1 fr') + 2"
    using assms get_frame_words [of bit1 fr 1] by (auto simp: bit_defined_def)
qed

text \<open>
  C9 (mmu_init_supplies): Started on the page tables of \<^verbatim>\<open>boot.s\<close>, with any well-formed list of tags that
  offers some memory above two megabytes, \<^verbatim>\<open>mmu_init\<close> succeeds.  Then the program's tables and the
  processor's are the same tree, \<^verbatim>\<open>ksbrk\<close> finds the state it needs, the first 511 pages of the kernel
  half are where they were and their frames are in use, and of the frames the loader offers at most
  one has been spent.
\<close>

theorem mmu_init_supplies:
  assumes "bit_defined bit1" and "boot_slots True b (pmem st)" and "b + 6 < 511" and "cr3 st = page_offset b"
    and "tags_at st (header + KERNEL_VMA + 8) ts" and "align_up kernel_end 0x1000 + 0x1000 = kpage g" and "g \<le> 511"
    and "boot_spare ts \<noteq> {}"
  shows "\<exists>T st'. mmu_init bit1 (Suc (Suc m)) (page_offset b) kernel_end header st = Some (st', 1) \<and>
    supplied bit1 T st' 512 \<and> card (boot_spare ts) \<le> card (spare bit1 (frames st')) + 1 \<and>
    (\<forall>j<511. frame_used bit1 (frames st') j \<and>
       (\<forall>x. unat x < 4096 \<longrightarrow> translate st' (kpage j + x) = Some (page_offset j + x)))"
proof -
  obtain T st' t L fr where r: "mmu_init bit1 (Suc (Suc m)) (page_offset b) kernel_end header st = Some (st', 1)"
      "stocked bit1 T st' t L" "t + 262 \<le> pages_behind st' L" "gb_page (heap_end st') + t = 512"
      "\<And>j. j + 1 < t \<Longrightarrow> page_frame T (pmem st') (heap_page st' j) \<noteq> None"
      "\<And>j. j < 511 \<Longrightarrow> page_frame T (pmem st') (kpage j) = Some (page_offset j)"
      "\<And>j. j < 511 \<Longrightarrow> frame_used bit1 (frames st') j"
      "boot_spare ts \<subseteq> spare bit1 fr" "length fr = 256"
      "frames st' = fr \<or> (\<exists>rc. get_frame bit1 True 1 fr = Some (rc, frames st'))"
    by (rule mmu_init_run [OF assms, of m]) (rule that; assumption)
  have "supplied bit1 T st' 512"
    unfolding supplied_def using r(2-5) by (intro exI [of _ t] exI [of _ L]) simp
  moreover from this have "translate st' (kpage j + x) = Some (page_offset j + x)" if "j < 511" "unat x < 4096" for j x
    using translate_page [OF supplied_ok aligned_kpage r(6)] that by blast
  moreover have "card (boot_spare ts) \<le> card (spare bit1 (frames st')) + 1"
    using card_mono [OF finite_spare r(8)] take_one_left(1) [OF assms(1) r(9,10)] by linarith
  ultimately show ?thesis using r(1,7) by (intro exI [of _ T] exI [of _ st']) simp
qed

text \<open>The booted machine has 63 megabytes to offer.\<close>

lemma booted_spare: "7688 \<le> card (boot_spare booted_tags)"
proof -
  let ?p = "\<lambda>(w, b). 64 * w + b :: nat"
  have "inj_on ?p ({8..<256} \<times> {0..<31})"
    by (rule inj_on_inverseI [of _ "\<lambda>n. (n div 64, n mod 64)"]) auto
  then have "card (?p ` ({8..<256} \<times> {0..<31})) = 7688" by (simp add: card_image)
  moreover have "?p ` ({8..<256} \<times> {0..<31}) \<subseteq> boot_spare booted_tags"
    by (auto simp: boot_spare_def freed_frames_def booted_tags_def area_frames_def range_frames_set
      MULTIBOOT_TAG_TYPE_MMAP_def MULTIBOOT_MEMORY_AVAILABLE_def)
  moreover have "finite (boot_spare booted_tags)" by (simp add: boot_spare_def)
  ultimately show ?thesis by (metis card_mono)
qed

theorem mmu_init_supplies_witness:
  "\<exists>T st. mmu_init shl_intended (Suc (Suc 0)) 0x101000 (KERNEL_VMA + 0x130000) 0x9000 booted = Some (st, 1) \<and>
     supplied shl_intended T st 512 \<and> 7687 \<le> card (spare shl_intended (frames st)) \<and>
     translate st (KERNEL_VMA + 0x9000) = Some 0x9000"
proof -
  have p: "page_offset 257 = 0x101000" "kpage 9 = KERNEL_VMA + 0x9000" "page_offset 9 = 0x9000" "cr3 booted = page_offset 257"
    by (simp_all add: page_offset_def kpage_def booted_def)
  have e: "align_up (KERNEL_VMA + 0x130000) 0x1000 + 0x1000 = kpage 305"
    by (simp add: align_up_def kpage_def page_offset_def KERNEL_VMA_def)
  have ne: "boot_spare booted_tags \<noteq> {}" using booted_spare by auto
  obtain T st where r: "mmu_init shl_intended (Suc (Suc 0)) (page_offset 257) (KERNEL_VMA + 0x130000) 0x9000 booted = Some (st, 1)"
    "supplied shl_intended T st 512" "card (boot_spare booted_tags) \<le> card (spare shl_intended (frames st)) + 1"
    "\<forall>j<511. \<forall>x. unat x < 4096 \<longrightarrow> translate st (kpage j + x) = Some (page_offset j + x)"
    using mmu_init_supplies [OF bit_defined_intended booted_slots _ p(4) booted_tags_at e _ ne, of 0] by auto
  have "translate st (kpage 9 + 0) = Some (page_offset 9 + 0)" using r(4) [rule_format, of 9 0] by simp
  then show ?thesis using r(1-3) booted_spare by (intro exI [of _ T] exI [of _ st]) (simp add: p)
qed

end
