(* ===== verification/BootMemory.thy ===== *)
theory BootMemory
  imports MmuInit PageHeap
begin

text \<open>
  From the page tables of \<^verbatim>\<open>boot.s\<close> to the first heap: \<^verbatim>\<open>mmu_init\<close>, \<^verbatim>\<open>mmu_update_stack\<close> and \<^verbatim>\<open>kmalloc_init\<close> in
  the order in which \<^verbatim>\<open>kernel.c\<close> calls them.
\<close>

section \<open>Words of free frames\<close>

lemma free_words_spare: "31 * card (free_words bit1 fr) \<le> card (spare bit1 fr)"
proof -
  let ?p = "\<lambda>(w, b). 64 * w + b :: nat"
  have "inj_on ?p (free_words bit1 fr \<times> {0..<31})"
    by (rule inj_on_inverseI [of _ "\<lambda>n. (n div 64, n mod 64)"]) auto
  then have "card (?p ` (free_words bit1 fr \<times> {0..<31})) = 31 * card (free_words bit1 fr)"
    by (simp add: card_image)
  moreover have "?p ` (free_words bit1 fr \<times> {0..<31}) \<subseteq> spare bit1 fr"
    by (auto simp: free_words_def spare_def)
  ultimately show ?thesis by (metis card_mono finite_spare)
qed

text \<open>The words of the bitmap that a memory map frees, as far as \<^verbatim>\<open>1 << offset\<close> is defined.\<close>

definition boot_words :: "(u32 \<times> u32 \<times> map_area list) list \<Rightarrow> nat set" where
  "boot_words ts = {w. \<forall>b<31. 64 * w + b \<in> boot_spare ts}"

lemma boot_words_free:
  assumes "boot_spare ts \<subseteq> spare bit1 fr"
  shows "boot_words ts \<subseteq> free_words bit1 fr"
proof
  fix w assume "w \<in> boot_words ts"
  then have "64 * w + b \<in> spare bit1 fr" if "b < 31" for b using that assms by (auto simp: boot_words_def)
  then have "64 * w + b < 16384" "\<not> frame_used bit1 fr (64 * w + b)" if "b < 31" for b
    using that by (auto simp: spare_def)
  from this(1) [of 0] this(2) show "w \<in> free_words bit1 fr" by (simp add: free_words_def)
qed

section \<open>The pages of the stack\<close>

definition stack_page :: "nat \<Rightarrow> u64" where
  "stack_page k = new_stack - of_nat k * 0x1000"

lemma stack_page_path:
  assumes "1 \<le> k" and "k < 9"
  shows "upper_path (stack_page k) = [510, 511, 511]" "table_index 12 (stack_page k) = of_nat (512 - k)" "aligned (stack_page k)"
proof -
  have "k \<in> {1, 2, 3, 4, 5, 6, 7, 8}" using assms by auto
  then have "upper_path (stack_page k) = [510, 511, 511] \<and> table_index 12 (stack_page k) = of_nat (512 - k) \<and>
      aligned (stack_page k)"
    by (elim insertE emptyE) (simp_all add: stack_page_def new_stack_def table_index_def aligned_def)
  then show "upper_path (stack_page k) = [510, 511, 511]" "table_index 12 (stack_page k) = of_nat (512 - k)" "aligned (stack_page k)"
    by simp_all
qed

lemma stack_paths_differ:
  assumes "1 \<le> k" "k < 9" "1 \<le> j" "j < 9" "j \<noteq> k"
  shows "path_of (stack_page j) \<noteq> path_of (stack_page k)"
proof -
  have "(of_nat (512 - j) :: u64) \<noteq> of_nat (512 - k)" using index_of_nat(2) [of "512 - j" "512 - k"] assms by auto
  then show ?thesis using stack_page_path(2) assms by (simp add: path_of_def)
qed

definition stack_step :: "(nat \<Rightarrow> u64) \<Rightarrow> nat \<Rightarrow> u64 \<Rightarrow> mmu \<Rightarrow> mmu option" where
  "stack_step bit1 n i st = do {
     (st, ok, _) \<leftarrow> check_virtual_region_is_free bit1 n (new_stack - i) True False 0 st;
     c_assert ok;
     Some st
   }"

lemma stack_pages_step: "stack_pages bit1 n st = page_loop (stack_step bit1 n) 0x8000 0x1000 st"
  by (simp add: stack_pages_def stack_step_def [abs_def])

text \<open>The loop, once the tables of the stack exist.\<close>

lemma stack_loop:
  assumes bits: "bit_defined bit1" and n: "T [510, 511, 511] = Some n" and i: "1 \<le> i" "i \<le> 8"
    and ready: "ready_state bit1 T st t J" and unm: "\<And>k. i \<le> k \<Longrightarrow> k < 8 \<Longrightarrow> page_frame T (pmem st) (stack_page k) = None"
    and far: "\<And>j. j < J \<Longrightarrow> upper_path (heap_page st j) \<noteq> [510, 511, 511]"
    and words: "2 * (8 - i) < card (free_words bit1 (frames st))"
  shows "\<exists>st'. page_loop (stack_step bit1 (Suc m)) 0x8000 (of_nat i * 0x1000) st = Some st' \<and> ready_state bit1 T st' t J \<and>
    grown bit1 T st T st' \<and> card (free_words bit1 (frames st)) \<le> card (free_words bit1 (frames st')) + 2 * (8 - i) \<and>
    (\<forall>k. i \<le> k \<and> k < 8 \<longrightarrow>
       (\<exists>q. page_frame T (pmem st') (stack_page k) = Some (page_offset q) \<and> off_tables T (page_offset q) 4096)) \<and>
    (\<forall>b. (\<forall>k. i \<le> k \<and> k < 8 \<longrightarrow> path_of b \<noteq> path_of (stack_page k)) \<longrightarrow>
       page_frame T (pmem st') b = page_frame T (pmem st) b)"
  using i ready unm far words
proof (induction "8 - i" arbitrary: i st)
  case 0
  then have "i = 8" by simp
  then show ?case using 0 by (intro exI [of _ st]) (subst page_loop.simps; auto)
next
  case (Suc x)
  let ?a = "stack_page i"
  have i: "1 \<le> i" "i < 8" "i < 9" using Suc.hyps(2) Suc.prems(1) by simp_all
  have u: "unat (of_nat i :: u64) = i" using i by (simp add: unat_of_nat_u64)
  have lt: "(of_nat i * 0x1000 :: u64) < 0x8000"
    using i(2) unat_page_offset [of i] by (simp add: word_less_nat_alt page_offset_def)
  have nxt: "(of_nat i * 0x1000 :: u64) + PAGE_SIZE = of_nat (Suc i) * 0x1000" by (simp add: PAGE_SIZE_def algebra_simps)
  have up: "T (upper_path ?a) = Some n" using stack_page_path(1) [OF i(1,3)] n by simp
  have nonempty: "free_words bit1 (frames st) \<noteq> {}" using Suc.prems(6) by auto
  then have one: "\<exists>q. free_run bit1 (frames st) q 1" by (rule free_words_run) simp
  obtain q rc st1 where r: "check_virtual_region_is_free bit1 (Suc m) ?a True False 0 st = Some (st1, True, Some (page_offset q))"
      "grown bit1 T st T st1" "page_frame T (pmem st1) ?a = Some (page_offset q)"
      "\<And>b. path_of b \<noteq> path_of ?a \<Longrightarrow> page_frame T (pmem st1) b = page_frame T (pmem st) b"
      "\<And>t'. t \<le> t' \<Longrightarrow> (\<And>j. t' \<le> j \<Longrightarrow> j < J \<Longrightarrow> path_of (heap_page st j) \<noteq> path_of ?a) \<Longrightarrow> ready_state bit1 T st1 t' J"
      "get_frame bit1 True 1 (frames st) = Some (rc, frames st1)" "off_tables T (page_offset q) 4096"
    by (rule map_fresh [OF bits Suc.prems(3) up Suc.prems(4) [OF order_refl i(2)] one, of m]) (rule that; (assumption | blast))
  have len: "length (frames st) = 256" using Suc.prems(3) by (simp add: ready_state_def)
  note left = take_one_left(2) [OF bits len, of "frames st1"]
  have w1: "card (free_words bit1 (frames st)) \<le> card (free_words bit1 (frames st1)) + 2" using left r(6) by blast
  have e: "heap_end st1 = heap_end st" using r(2) by (simp add: grown_def)
  have "path_of (heap_page st j) \<noteq> path_of ?a" if "j < J" for j
    using Suc.prems(5) [OF that] stack_page_path(1) [OF i(1,3)] by (auto simp: path_of_def)
  then have ready1: "ready_state bit1 T st1 t J" using r(5) [of t] by simp
  have unm1: "page_frame T (pmem st1) (stack_page k) = None" if "Suc i \<le> k" "k < 8" for k
    using r(4) [OF stack_paths_differ [of i k]] Suc.prems(4) [of k] i that by simp
  have far1: "upper_path (heap_page st1 j) \<noteq> [510, 511, 511]" if "j < J" for j
    using Suc.prems(5) [OF that] by (simp add: heap_page_def e)
  have words1: "2 * (8 - Suc i) < card (free_words bit1 (frames st1))" using w1 Suc.prems(6) i(2) by simp
  have x: "x = 8 - Suc i" "1 \<le> Suc i" "Suc i \<le> 8" using Suc.hyps(2) i by simp_all
  obtain st' where st': "page_loop (stack_step bit1 (Suc m)) 0x8000 (of_nat (Suc i) * 0x1000) st1 = Some st'"
      "ready_state bit1 T st' t J" "grown bit1 T st1 T st'"
      "card (free_words bit1 (frames st1)) \<le> card (free_words bit1 (frames st')) + 2 * (8 - Suc i)"
      "\<forall>k. Suc i \<le> k \<and> k < 8 \<longrightarrow>
         (\<exists>q. page_frame T (pmem st') (stack_page k) = Some (page_offset q) \<and> off_tables T (page_offset q) 4096)"
      "\<forall>b. (\<forall>k. Suc i \<le> k \<and> k < 8 \<longrightarrow> path_of b \<noteq> path_of (stack_page k)) \<longrightarrow>
         page_frame T (pmem st') b = page_frame T (pmem st1) b"
    using Suc.hyps(1) [OF x ready1 unm1 far1 words1] by blast
  have "stack_step bit1 (Suc m) (of_nat i * 0x1000) st = Some st1"
    using r(1) by (simp add: stack_step_def stack_page_def)
  then have "page_loop (stack_step bit1 (Suc m)) 0x8000 (of_nat i * 0x1000) st = Some st'"
    using lt st'(1) by (subst page_loop.simps) (simp only: nxt if_True bind.bind_lunit)
  moreover have "card (free_words bit1 (frames st)) \<le> card (free_words bit1 (frames st')) + 2 * (8 - i)"
    using w1 st'(4) i(2) by simp
  moreover have "\<exists>q. page_frame T (pmem st') (stack_page k) = Some (page_offset q) \<and> off_tables T (page_offset q) 4096"
    if "i \<le> k" "k < 8" for k
  proof (cases "k = i")
    case True
    have "page_frame T (pmem st') ?a = Some (page_offset q)" using st'(3) r(3) by (simp add: grown_def)
    then show ?thesis using True r(7) by blast
  qed (use st'(5) that in simp)
  moreover have "page_frame T (pmem st') b = page_frame T (pmem st) b"
    if "\<forall>k. i \<le> k \<and> k < 8 \<longrightarrow> path_of b \<noteq> path_of (stack_page k)" for b
    using st'(6) r(4) [of b] that i by simp
  moreover have "grown bit1 T st T st'" using grown_trans r(2) st'(3) by blast
  ultimately show ?case using st'(2) by (intro exI [of _ st']) blast
qed


text \<open>A word that is stored to and read from a page that holds no table.\<close>

lemma word_on_page:
  fixes x :: u64
  assumes ok: "tables_ok T st" and al: "aligned v" and pf: "page_frame T (pmem st) v = Some f"
    and off: "off_tables T f 4096" and w: "unat w + 8 \<le> 4096"
  defines "st' \<equiv> st\<lparr>pmem := store64 (pmem st) (f + w) x\<rparr>"
  shows "vstore64 (v + w) x st = Some st'" "tables_ok T st'" "page_frame T (pmem st') b = page_frame T (pmem st) b"
proof -
  have t: "translate st (v + w) = Some (f + w)" using w by (intro translate_page [OF ok al pf]) simp
  show "vstore64 (v + w) x st = Some st'" by (simp add: t st'_def vstore64_def vstore_run_def store64_def)
  have "off_tables T (f + of_nat (unat w)) 8" by (rule off_tables_part [OF off w]) simp
  then have "off_tables T (f + w) (length (le_bytes 8 x))" by simp
  from store_off_tables [OF ok this]
  show "tables_ok T st'" "page_frame T (pmem st') b = page_frame T (pmem st) b"
    by (simp_all add: st'_def store64_def)
qed

lemma load_on_page:
  assumes "tables_ok T st" and "aligned v" and "page_frame T (pmem st) v = Some f" and "unat w + 8 \<le> 4096"
  shows "vload64 st (v + w) = Some (load64 (pmem st) (f + w))"
proof -
  have "translate st (v + w) = Some (f + w)" using assms(4) by (intro translate_page [OF assms(1-3)]) simp
  then show ?thesis by (simp add: vload64_def vload_run_def load64_def)
qed

lemma words_apart:
  assumes "aligned f" and "unat v + 8 \<le> unat w" and "unat w + 8 \<le> 4096"
  shows "load64 (store64 m (f + v) x) (f + w) = load64 m (f + w)" "load64 (store64 m (f + w) x) (f + v) = load64 m (f + v)"
proof -
  have "unat (f + v) = unat f + unat v" "unat (f + w) = unat f + unat w" "unat f + 4096 \<le> 2 ^ 64"
    using unat_page_add [OF assms(1), of v] unat_page_add [OF assms(1), of w] assms(2,3) by simp_all
  then have "apart (f + v) 8 (f + w) 8" using assms(2,3) by (simp add: apart_def region_def)
  then show "load64 (store64 m (f + v) x) (f + w) = load64 m (f + w)" "load64 (store64 m (f + w) x) (f + v) = load64 m (f + v)"
    by (simp_all add: load64_apart apart_sym)
qed

text \<open>The tables of the stack come first, with the first page.\<close>

lemma stack_tables:
  assumes bits: "bit_ok bit1" and st: "stocked bit1 T st t L" and fits: "t + 6 \<le> pages_behind st L"
    and root: "\<forall>i p. T (i # p) \<noteq> None \<longrightarrow> i = 511" and words: "5 \<le> card (free_words bit1 (frames st))"
  obtains T' st' n where "stack_pages bit1 (Suc (Suc m)) st = stack_pages bit1 (Suc (Suc m)) st'"
    "stocked bit1 T' st' (t + 6) L" "grown bit1 T st T' st'" "T' [510, 511, 511] = Some n"
    "\<And>b. upper_path b = [510, 511, 511] \<Longrightarrow> page_frame T' (pmem st') b = None"
    "\<And>l. leaf_path (heap_end st) l \<noteq> [510, 511, 511]"
    "card (free_words bit1 (frames st)) \<le> card (free_words bit1 (frames st')) + 6"
proof -
  note d = stockedD [OF st]
  have i: "index_ok 510" "index_ok 511" by (simp_all add: index_ok_def)
  have none: "T [510, 511, 511] = None" using root [rule_format, of 510 "[511, 511]"] by (cases "T [510, 511, 511]") simp_all
  have "\<exists>T' st'. allocate_pt bit1 (Suc (Suc m)) 510 511 511 st = Some (st', T [510, 511, 511] = None) \<and>
    ready_state bit1 T' st' (t + 6) (pages_behind st L) \<and> grown bit1 T st T' st' \<and>
    dom T' = dom T \<union> {[510], [510, 511], [510, 511, 511]} \<and>
    card (free_words bit1 (frames st)) \<le> card (free_words bit1 (frames st')) + 6 \<and>
    (T [510, 511, 511] = None \<longrightarrow> (\<forall>b. upper_path b = [510, 511, 511] \<longrightarrow> page_frame T' (pmem st') b = None))"
    by (rule allocate_pt_spec [OF d(1) bits i(1,2,2) fits words])
  then obtain T' st' where 1: "allocate_pt bit1 (Suc (Suc m)) 510 511 511 st = Some (st', T [510, 511, 511] = None)"
      "ready_state bit1 T' st' (t + 6) (pages_behind st L)" "grown bit1 T st T' st'"
      "dom T' = dom T \<union> {[510], [510, 511], [510, 511, 511]}"
      "card (free_words bit1 (frames st)) \<le> card (free_words bit1 (frames st')) + 6"
      "T [510, 511, 511] = None \<longrightarrow> (\<forall>b. upper_path b = [510, 511, 511] \<longrightarrow> page_frame T' (pmem st') b = None)"
    by (elim exE conjE) (rule that)
  have e: "heap_end st' = heap_end st" using 1(3) by (simp add: grown_def)
  have "T (upper_path (heap_page st 0)) \<noteq> None" using roomD(5) [OF d(4), of 0] fits by auto
  then have "table_index 39 (heap_end st) = 511" using root by (simp only: heap_page_0)
  then have leaf: "leaf_path (heap_end st) l = [511, table_index 30 (heap_end st), of_nat l]" for l by (simp add: leaf_path_def)
  have "T' (leaf_path (heap_end st) l) = None" if "L < l" "l < 512" for l
  proof -
    have "leaf_path (heap_end st) l \<notin> dom T" using d(9) [OF that] by blast
    then have "leaf_path (heap_end st) l \<notin> dom T'" unfolding 1(4) by (simp add: leaf)
    then show ?thesis by blast
  qed
  then have stocked: "stocked bit1 T' st' (t + 6) L"
    using 1(2) d(2,3) by (simp add: stocked_def pages_behind_def e)
  have "[510, 511, 511] \<in> dom T'" using 1(4) by simp
  then obtain n where n: "T' [510, 511, 511] = Some n" by blast
  have ok: "tables_ok T' st'" using 1(2) by (simp add: ready_state_def)
  have again: "allocate_pt bit1 (Suc (Suc m)) 510 511 511 st' = Some (st', False)"
    by (rule allocate_pt_present [OF ok i(1,2,2) n])
  have p: "table_index 39 (stack_page 1) = 510" "table_index 30 (stack_page 1) = 511" "table_index 21 (stack_page 1) = 511"
    using stack_page_path(1) [of 1] by simp_all
  have "stack_step bit1 (Suc (Suc m)) 0x1000 st = stack_step bit1 (Suc (Suc m)) 0x1000 st'"
    using 1(1) again p by (simp add: stack_step_def stack_page_def check_virtual_region_is_free_def check_region_def)
  then have same: "stack_pages bit1 (Suc (Suc m)) st = stack_pages bit1 (Suc (Suc m)) st'"
    unfolding stack_pages_step by (subst (1 2) page_loop.simps) simp
  show thesis by (rule that [OF same stocked 1(3) n _ _ 1(5)]) (use 1(6) none leaf in simp_all)
qed


text \<open>\<^verbatim>\<open>mmu_update_stack\<close> calls its argument on a state like the old one, with a stack.\<close>

definition stack_ready :: "u64 \<times> u64 \<times> u64 \<Rightarrow> mmu \<Rightarrow> bool" where
  "stack_ready = (\<lambda>(rsp, rbp, ret) m.
     (\<forall>k w. 1 \<le> k \<and> k < 8 \<and> unat w < 4096 \<longrightarrow> translate m (stack_page k + w) \<noteq> None) \<and>
     (\<forall>w. unat w < 4096 \<longrightarrow> translate m (stack_page 8 + w) = None) \<and>
     vload64 m (new_stack - 8) = Some rsp \<and> vload64 m (new_stack - 16) = Some rbp \<and> vload64 m (new_stack - 24) = Some ret)"

lemma first_words:
  assumes ok: "tables_ok T st" and pf: "page_frame T (pmem st) (stack_page 1) = Some (page_offset q)"
    and off: "off_tables T (page_offset q) 4096"
  obtains m where "\<And>f :: mmu \<Rightarrow> 's option. goto_function_with_stack f new_stack (rsp, rbp, ret) st = f (st\<lparr>pmem := m\<rparr>)"
    "tables_ok T (st\<lparr>pmem := m\<rparr>)" "\<And>b. page_frame T m b = page_frame T (pmem st) b"
    "vload64 (st\<lparr>pmem := m\<rparr>) (new_stack - 8) = Some rsp" "vload64 (st\<lparr>pmem := m\<rparr>) (new_stack - 16) = Some rbp"
    "vload64 (st\<lparr>pmem := m\<rparr>) (new_stack - 24) = Some ret"
proof -
  let ?p = "page_offset q"
  have al: "aligned (stack_page 1)" by (rule stack_page_path(3)) simp_all
  define m1 where "m1 = store64 (pmem st) (?p + 0xFF8) rsp"
  define m2 where "m2 = store64 m1 (?p + 0xFF0) rbp"
  define m3 where "m3 = store64 m2 (?p + 0xFE8) ret"
  have a: "new_stack - 8 = stack_page 1 + 0xFF8" "new_stack - 16 = stack_page 1 + 0xFF0" "new_stack - 24 = stack_page 1 + 0xFE8"
    by (simp_all add: stack_page_def new_stack_def)
  note s1 = word_on_page [OF ok al pf off, of "0xFF8" rsp, folded m1_def]
  have pf1: "page_frame T (pmem (st\<lparr>pmem := m1\<rparr>)) (stack_page 1) = Some ?p" using s1(3) pf by simp
  note s2 = word_on_page [OF s1(2) al pf1 off, of "0xFF0" rbp, simplified, folded m2_def]
  have pf2: "page_frame T (pmem (st\<lparr>pmem := m2\<rparr>)) (stack_page 1) = Some ?p" using s2(3) pf1 by simp
  note s3 = word_on_page [OF s2(2) al pf2 off, of "0xFE8" ret, simplified, folded m3_def]
  have pf3: "page_frame T (pmem (st\<lparr>pmem := m3\<rparr>)) (stack_page 1) = Some ?p" using s3(3) pf2 by simp
  have run: "goto_function_with_stack f new_stack (rsp, rbp, ret) st = f (st\<lparr>pmem := m3\<rparr>)" for f :: "mmu \<Rightarrow> 's option"
    using s1(1) s2(1) s3(1) by (simp add: goto_function_with_stack_def a)
  have load: "vload64 (st\<lparr>pmem := m3\<rparr>) (stack_page 1 + w) = Some (load64 m3 (?p + w))" if "unat w + 8 \<le> 4096" for w
    using load_on_page [OF s3(2) al pf3 that] by simp
  have "load64 m3 (?p + 0xFE8) = ret" by (simp add: m3_def)
  moreover have "load64 m3 (?p + 0xFF0) = rbp"
    using words_apart(1) [of ?p "0xFE8" "0xFF0" m2 ret] by (simp add: m3_def m2_def)
  moreover have "load64 m3 (?p + 0xFF8) = rsp"
    using words_apart(1) [of ?p "0xFE8" "0xFF8" m2 ret] words_apart(1) [of ?p "0xFF0" "0xFF8" m1 rbp]
    by (simp add: m3_def m2_def m1_def)
  moreover have "page_frame T m3 b = page_frame T (pmem st) b" for b using s1(3) s2(3) s3(3) by simp
  ultimately show thesis using that [OF run s3(2)] load by (simp add: a)
qed


lemma stack_built:
  assumes bits: "bit_defined bit1" and st: "stocked bit1 T st t L" and fits: "t + 6 \<le> pages_behind st L"
    and root: "\<forall>i p. T (i # p) \<noteq> None \<longrightarrow> i = 511" and words: "20 < card (free_words bit1 (frames st))"
  obtains T' st' where "\<And>f :: mmu \<Rightarrow> 's option. mmu_update_stack bit1 (Suc (Suc m)) f regs st = f st'"
    "stocked bit1 T' st' (t + 6) L" "heap_end st' = heap_end st" "adds_views st st'" "stack_ready regs st'"
    "\<And>b f. page_frame T (pmem st) b = Some f \<Longrightarrow> page_frame T' (pmem st') b = Some f"
    "\<And>j. frame_used bit1 (frames st) j \<Longrightarrow> frame_used bit1 (frames st') j"
    "card (free_words bit1 (frames st)) \<le> card (free_words bit1 (frames st')) + 20"
proof -
  obtain rsp rbp ret where regs: "regs = (rsp, rbp, ret)" by (cases regs)
  have ok0: "tables_ok T st" using st by (rule stockedD(5))
  have bok: "bit_ok bit1" and w5: "5 \<le> card (free_words bit1 (frames st))" using bits words by (simp_all add: bit_defined_def)
  obtain T' st1 n where 1: "stack_pages bit1 (Suc (Suc m)) st = stack_pages bit1 (Suc (Suc m)) st1"
      "stocked bit1 T' st1 (t + 6) L" "grown bit1 T st T' st1" "T' [510, 511, 511] = Some n"
      "\<And>b. upper_path b = [510, 511, 511] \<Longrightarrow> page_frame T' (pmem st1) b = None"
      "\<And>l. leaf_path (heap_end st) l \<noteq> [510, 511, 511]"
      "card (free_words bit1 (frames st)) \<le> card (free_words bit1 (frames st1)) + 6"
    by (rule stack_tables [OF bok st fits root w5, where m = m]) (rule that; (assumption | blast))
  have e1: "heap_end st1 = heap_end st" using 1(3) by (simp add: grown_def)
  have far: "upper_path (heap_page st1 j) \<noteq> [510, 511, 511]" if "j < pages_behind st1 L" for j
    using stocked_page(4) [OF 1(2) that] 1(6) by (simp add: e1)
  have unm: "page_frame T' (pmem st1) (stack_page k) = None" if "1 \<le> k" "k < 8" for k
    by (rule 1(5)) (rule stack_page_path(1); use that in simp)
  have w1: "2 * (8 - 1) < card (free_words bit1 (frames st1))" using words 1(7) by simp
  obtain st2 where 2: "page_loop (stack_step bit1 (Suc (Suc m))) 0x8000 (of_nat 1 * 0x1000) st1 = Some st2"
      "ready_state bit1 T' st2 (t + 6) (pages_behind st1 L)" "grown bit1 T' st1 T' st2"
      "card (free_words bit1 (frames st1)) \<le> card (free_words bit1 (frames st2)) + 2 * (8 - 1)"
      "\<forall>k. 1 \<le> k \<and> k < 8 \<longrightarrow>
         (\<exists>q. page_frame T' (pmem st2) (stack_page k) = Some (page_offset q) \<and> off_tables T' (page_offset q) 4096)"
      "\<forall>b. (\<forall>k. 1 \<le> k \<and> k < 8 \<longrightarrow> path_of b \<noteq> path_of (stack_page k)) \<longrightarrow>
         page_frame T' (pmem st2) b = page_frame T' (pmem st1) b"
    using stack_loop [OF bits 1(4) _ _ stockedD(1) [OF 1(2)] unm far w1, where m = "Suc m"] by auto
  have g2: "grown bit1 T st T' st2" using grown_trans 1(3) 2(3) by blast
  have e2: "heap_end st2 = heap_end st" using g2 by (simp add: grown_def)
  have ok2: "tables_ok T' st2" using 2(2) by (simp add: ready_state_def)
  obtain q where q: "page_frame T' (pmem st2) (stack_page 1) = Some (page_offset q)" "off_tables T' (page_offset q) 4096"
    using 2(5) by fastforce
  obtain mm where 3: "\<And>f :: mmu \<Rightarrow> 's option. goto_function_with_stack f new_stack (rsp, rbp, ret) st2 = f (st2\<lparr>pmem := mm\<rparr>)"
      "tables_ok T' (st2\<lparr>pmem := mm\<rparr>)" "\<And>b. page_frame T' mm b = page_frame T' (pmem st2) b"
      "vload64 (st2\<lparr>pmem := mm\<rparr>) (new_stack - 8) = Some rsp" "vload64 (st2\<lparr>pmem := mm\<rparr>) (new_stack - 16) = Some rbp"
      "vload64 (st2\<lparr>pmem := mm\<rparr>) (new_stack - 24) = Some ret"
    by (rule first_words [OF ok2 q]) (rule that; assumption)
  let ?st = "st2\<lparr>pmem := mm\<rparr>"
  have tr: "translate ?st a = translate st2 a" for a
    by (simp add: translate_frame [OF ok2] translate_frame [OF 3(2)] 3(3))
  have "stocked bit1 T' st2 (t + 6) L"
    using 1(2) 2(2) stockedD [OF 1(2)] unfolding stocked_def by (simp add: pages_behind_def e1 e2)
  from stocked_memory [OF this 3(2,3), of "prng_seed st2"]
  have stocked: "stocked bit1 T' ?st (t + 6) L" by simp
  have "adds_views st st2" by (rule kept_adds_views [OF ok0 ok2 grown_kept [OF g2]])
  then have views: "adds_views st ?st" unfolding adds_views_def tr .
  have run: "mmu_update_stack bit1 (Suc (Suc m)) f regs st = f ?st" for f :: "mmu \<Rightarrow> 's option"
    using 2(1) 3(1) by (simp add: mmu_update_stack_def regs 1(1)) (simp add: stack_pages_step)
  have "translate ?st (stack_page k + w) \<noteq> None" if k: "1 \<le> k" "k < 8" and w: "unat w < 4096" for k w
  proof -
    obtain q where "page_frame T' (pmem st2) (stack_page k) = Some (page_offset q)" using 2(5) k by blast
    then show ?thesis using translate_page [OF ok2 stack_page_path(3) _ w] k by (simp add: tr)
  qed
  moreover have "translate ?st (stack_page 8 + w) = None" if w: "unat w < 4096" for w
  proof -
    have p: "path_of (stack_page 8 + w) = path_of (stack_page 8)" by (rule page_of_sum(3) [OF stack_page_path(3) w]) simp_all
    have "path_of (stack_page 8) \<noteq> path_of (stack_page k)" if "1 \<le> k" "k < 8" for k
      by (rule stack_paths_differ) (use that in simp_all)
    then have "page_frame T' (pmem st2) (stack_page 8) = page_frame T' (pmem st1) (stack_page 8)" using 2(6) by blast
    then have "page_frame T' (pmem st2) (stack_page 8 + w) = None"
      using 1(5) [OF stack_page_path(1) [of 8]] page_frame_cong [OF p] by simp
    then show ?thesis by (simp add: tr translate_frame [OF ok2])
  qed
  ultimately have stack: "stack_ready regs ?st" using 3(4-6) by (simp add: stack_ready_def regs)
  have w2: "card (free_words bit1 (frames st)) \<le> card (free_words bit1 (frames ?st)) + 20" using 1(7) 2(4) by simp
  show thesis
  proof (rule that [OF run stocked _ views stack _ _ w2])
    show "heap_end ?st = heap_end st" using e2 by simp
    show "page_frame T' (pmem ?st) b = Some f" if "page_frame T (pmem st) b = Some f" for b f
      using g2 that by (simp add: 3(3) grown_def)
    show "frame_used bit1 (frames ?st) j" if "frame_used bit1 (frames st) j" for j using g2 that by (simp add: grown_def)
  qed
qed

section \<open>The kernel's memory after the start\<close>

lemma memory_starts:
  fixes h :: "mmu kheap"
  assumes "bit_defined bit1" and "boot_slots True b (pmem st)" and "b + 6 < 511" and "cr3 st = page_offset b"
    and "tags_at st (header + KERNEL_VMA + 8) ts" and "align_up kernel_end 0x1000 + 0x1000 = kpage g" and "g \<le> 511"
    and "32 \<le> card (boot_words ts)"
  obtains m1 m2 h1 T n where "mmu_init bit1 (Suc (Suc nest)) (page_offset b) kernel_end header st = Some (m1, 1)"
    "\<And>f :: mmu \<Rightarrow> 's option. mmu_update_stack bit1 (Suc (Suc nest)) f regs m1 = f m2" "stack_ready regs m2"
    "kmalloc_init (page_sbrk bit1 (Suc (Suc nest))) (with_mmu m2 h) = Some (h1, True)"
    "heap_run (page_good bit1) (page_sbrk bit1 (Suc (Suc nest))) (with_mmu m2 h) h1 {} 0x40000"
    "\<And>j. j < 511 \<Longrightarrow> frame_used bit1 (frames m2) j"
    "\<And>j x. j < 511 \<Longrightarrow> unat x < 4096 \<Longrightarrow> translate m2 (kpage j + x) = Some (page_offset j + x)"
    "adds_views m2 (kbrk h1)" "supplied bit1 T (kbrk h1) n" "n \<le> 583" "240 < card (spare bit1 (frames (kbrk h1)))"
proof -
  have "boot_words ts \<noteq> {}" using assms(8) by auto
  then obtain w where "\<forall>b<31. 64 * w + b \<in> boot_spare ts" by (auto simp: boot_words_def)
  then have "64 * w + 0 \<in> boot_spare ts" by (rule allE [of _ 0]) simp
  then have "boot_spare ts \<noteq> {}" by blast
  obtain T m1 t L fr where 1: "mmu_init bit1 (Suc (Suc nest)) (page_offset b) kernel_end header st = Some (m1, 1)"
      "stocked bit1 T m1 t L" "t + 262 \<le> pages_behind m1 L" "gb_page (heap_end m1) + t = 512"
      "\<And>j. j + 1 < t \<Longrightarrow> page_frame T (pmem m1) (heap_page m1 j) \<noteq> None"
      "\<And>j. j < 511 \<Longrightarrow> page_frame T (pmem m1) (kpage j) = Some (page_offset j)"
      "\<And>j. j < 511 \<Longrightarrow> frame_used bit1 (frames m1) j" "\<And>i p. T (i # p) \<noteq> None \<Longrightarrow> i = 511"
      "boot_spare ts \<subseteq> spare bit1 fr" "length fr = 256"
      "frames m1 = fr \<or> (\<exists>rc. get_frame bit1 True 1 fr = Some (rc, frames m1))"
    by (rule mmu_init_run [OF assms(1-7) \<open>boot_spare ts \<noteq> {}\<close>, of nest]) (rule that; (assumption | blast))
  have "32 \<le> card (free_words bit1 fr)"
    using card_mono [OF finite_free_words boot_words_free [OF 1(9)]] assms(8) by linarith
  then have w1: "30 \<le> card (free_words bit1 (frames m1))" using take_one_left(2) [OF assms(1) 1(10,11)] by linarith
  have fits: "t + 6 \<le> pages_behind m1 L" and root: "\<forall>i p. T (i # p) \<noteq> None \<longrightarrow> i = 511" and w: "20 < card (free_words bit1 (frames m1))"
    using 1(3,8) w1 by simp_all
  obtain T2 m2 where 2: "\<And>f :: mmu \<Rightarrow> 's option. mmu_update_stack bit1 (Suc (Suc nest)) f regs m1 = f m2"
      "stocked bit1 T2 m2 (t + 6) L" "heap_end m2 = heap_end m1" "stack_ready regs m2"
      "\<And>b f. page_frame T (pmem m1) b = Some f \<Longrightarrow> page_frame T2 (pmem m2) b = Some f"
      "\<And>j. frame_used bit1 (frames m1) j \<Longrightarrow> frame_used bit1 (frames m2) j"
      "card (free_words bit1 (frames m1)) \<le> card (free_words bit1 (frames m2)) + 20"
    by (rule stack_built [OF assms(1) 1(2) fits root w, where m = nest and regs = regs]) (rule that; (assumption | blast))
  have hp: "heap_page m2 j = heap_page m1 j" for j by (simp add: heap_page_def 2(3))
  have "page_frame T2 (pmem m2) (heap_page m2 j) \<noteq> None" if "j + 8 < t + 6" for j
    using 1(5) [of j] 2(5) that by (auto simp: hp)
  then have sup: "supplied bit1 T2 m2 518"
    unfolding supplied_def using 2(2) 1(3,4) by (intro exI [of _ "t + 6"] exI [of _ L]) (simp add: pages_behind_def 2(3))
  have spare: "310 \<le> card (spare bit1 (frames m2))"
    using free_words_spare [of bit1 "frames m2"] 2(7) w1 by linarith
  then have can: "can_supply bit1 T2 NEW_ALLOC_SIZE (kbrk (with_mmu m2 h)) 518"
    using sup by (simp add: can_supply_def with_mmu_def pages_of_def NEW_ALLOC_SIZE_def)
  obtain h1 T3 n where h1: "kmalloc_init (page_sbrk bit1 (Suc (Suc nest))) (with_mmu m2 h) = Some (h1, True)"
      "heap_run (page_good bit1) (page_sbrk bit1 (Suc (Suc nest))) (with_mmu m2 h) h1 {} 0x40000"
      "supplied bit1 T3 (kbrk h1) n" "n \<le> 518 + 65"
      "card (spare bit1 (frames (kbrk (with_mmu m2 h)))) \<le> card (spare bit1 (frames (kbrk h1))) + 65"
    by (rule page_heap_starts [OF assms(1) can, of nest]) blast
  have b: "kbrk (with_mmu m2 h) = m2" by (simp add: with_mmu_def)
  show thesis
  proof (rule that [OF 1(1) 2(1,4) h1(1,2) _ _ _ h1(3)])
    show "frame_used bit1 (frames m2) j" if "j < 511" for j using 1(7) 2(6) that by blast
    show "translate m2 (kpage j + x) = Some (page_offset j + x)" if "j < 511" "unat x < 4096" for j x
      by (rule translate_page [OF supplied_ok [OF sup] aligned_kpage 2(5) [OF 1(6) [OF that(1)]] that(2)])
    show "adds_views m2 (kbrk h1)" using page_run_views [OF h1(2)] by (simp add: b)
    show "240 < card (spare bit1 (frames (kbrk h1)))" using h1(5) spare by (simp add: b)
  qed (use h1(4) in simp)
qed

text \<open>
  C7 (kernel_memory_starts): Booted on the tables of \<^verbatim>\<open>boot.s\<close>, with a memory map that frees eight
  megabytes above the second (32 words of the frame bitmap, as far as the shift of \<^verbatim>\<open>set_frame\<close> is
  defined), the kernel gets its memory: \<^verbatim>\<open>mmu_init\<close> succeeds, \<^verbatim>\<open>mmu_update_stack\<close> reaches the function it
  is given, on a stack of seven pages with the old registers on it and an unmapped page below, and
  \<^verbatim>\<open>kmalloc_init\<close> then succeeds and starts a heap that clients may use.  All the while the first 511
  pages of the kernel half stay where they were, and the frames behind them stay reserved.
\<close>

theorem kernel_memory_starts:
  assumes "bit_defined bit1" and "boot_slots True b (pmem st)" and "b + 6 < 511" and "cr3 st = page_offset b"
    and "tags_at st (header + KERNEL_VMA + 8) ts" and "align_up kernel_end 0x1000 + 0x1000 = kpage g" and "g \<le> 511"
    and "32 \<le> card (boot_words ts)"
  shows "\<exists>m1 m2 h1. mmu_init bit1 (Suc (Suc nest)) (page_offset b) kernel_end header st = Some (m1, 1) \<and>
    (\<forall>f :: mmu \<Rightarrow> 's option. mmu_update_stack bit1 (Suc (Suc nest)) f regs m1 = f m2) \<and> stack_ready regs m2 \<and>
    kmalloc_init (page_sbrk bit1 (Suc (Suc nest))) (with_mmu m2 h) = Some (h1, True) \<and>
    heap_run (page_good bit1) (page_sbrk bit1 (Suc (Suc nest))) (with_mmu m2 h) h1 {} 0x40000 \<and>
    (\<forall>j<511. frame_used bit1 (frames m2) j \<and>
       (\<forall>x. unat x < 4096 \<longrightarrow> translate (kbrk h1) (kpage j + x) = Some (page_offset j + x)))"
proof -
  obtain m1 m2 h1 where r: "mmu_init bit1 (Suc (Suc nest)) (page_offset b) kernel_end header st = Some (m1, 1)"
      "\<And>f :: mmu \<Rightarrow> 's option. mmu_update_stack bit1 (Suc (Suc nest)) f regs m1 = f m2" "stack_ready regs m2"
      "kmalloc_init (page_sbrk bit1 (Suc (Suc nest))) (with_mmu m2 h) = Some (h1, True)"
      "heap_run (page_good bit1) (page_sbrk bit1 (Suc (Suc nest))) (with_mmu m2 h) h1 {} 0x40000"
      "\<And>j. j < 511 \<Longrightarrow> frame_used bit1 (frames m2) j"
      "\<And>j x. j < 511 \<Longrightarrow> unat x < 4096 \<Longrightarrow> translate m2 (kpage j + x) = Some (page_offset j + x)"
      "adds_views m2 (kbrk h1)"
    by (rule memory_starts [OF assms]) (rule that; (assumption | blast))
  have "translate (kbrk h1) (kpage j + x) = Some (page_offset j + x)" if "j < 511" "unat x < 4096" for j x
    using r(7) [OF that] r(8) unfolding adds_views_def by blast
  then show ?thesis using r(1-6) by (intro exI [of _ m1] exI [of _ m2] exI [of _ h1]) simp
qed

section \<open>The booted machine\<close>

lemma booted_words: "248 \<le> card (boot_words booted_tags)"
proof -
  have "{8..<256} \<subseteq> boot_words booted_tags"
    by (auto simp: boot_words_def boot_spare_def freed_frames_def booted_tags_def area_frames_def range_frames_set
      MULTIBOOT_TAG_TYPE_MMAP_def MULTIBOOT_MEMORY_AVAILABLE_def)
  moreover have "finite (boot_words booted_tags)"
    by (rule finite_subset [OF boot_words_free [of _ shl_intended "replicate 256 0"]])
      (auto simp: boot_spare_def spare_def frame_used_def dest: freed_frames_below)
  ultimately have "card {8..<256 :: nat} \<le> card (boot_words booted_tags)" by (intro card_mono)
  then show ?thesis by simp
qed

lemma booted_layout:
  "cr3 booted = page_offset 257" "align_up (KERNEL_VMA + 0x130000) 0x1000 + 0x1000 = kpage 305"
  by (simp_all add: booted_def align_up_def kpage_def page_offset_def KERNEL_VMA_def)

theorem kernel_memory_starts_witness:
  "\<exists>m1 m2 h1. mmu_init shl_intended (Suc (Suc 0)) 0x101000 (KERNEL_VMA + 0x130000) 0x9000 booted = Some (m1, 1) \<and>
     mmu_update_stack shl_intended (Suc (Suc 0)) Some (1, 2, 3) m1 = Some m2 \<and> vload64 m2 (new_stack - 8) = Some 1 \<and>
     kmalloc_init (page_sbrk shl_intended (Suc (Suc 0))) (with_mmu m2 small_heap) = Some (h1, True)"
proof -
  have "32 \<le> card (boot_words booted_tags)" using booted_words by simp
  from kernel_memory_starts [OF bit_defined_intended booted_slots _ booted_layout(1) booted_tags_at booted_layout(2) _ this,
      where nest = 0 and regs = "(1, 2, 3)" and h = small_heap and ?'s = mmu]
  obtain m1 m2 h1 where "mmu_init shl_intended (Suc (Suc 0)) (page_offset 257) (KERNEL_VMA + 0x130000) 0x9000 booted = Some (m1, 1)"
      "mmu_update_stack shl_intended (Suc (Suc 0)) Some (1, 2, 3) m1 = Some m2" "stack_ready (1, 2, 3) m2"
      "kmalloc_init (page_sbrk shl_intended (Suc (Suc 0))) (with_mmu m2 small_heap) = Some (h1, True)"
    by auto
  moreover have "page_offset 257 = 0x101000" by (simp add: page_offset_def)
  ultimately show ?thesis by (intro exI [of _ m1] exI [of _ m2] exI [of _ h1]) (simp add: stack_ready_def)
qed

end
