(* ===== verification/KernelBoot.thy ===== *)
theory KernelBoot
  imports Kernel BootMemory
begin

text \<open>
  A complete start: \<^verbatim>\<open>kmain\<close> and \<^verbatim>\<open>kmain2\<close> on the page tables of \<^verbatim>\<open>boot.s\<close>, with interrupt controllers, a serial
  port and a PCI bus, through every component they initialize.
\<close>

section \<open>Machines the kernel can start on\<close>

text \<open>
  What the kernel finds: the tables of \<^verbatim>\<open>boot.s\<close>, an image within the first two megabytes, a list of tags
  that frees eight megabytes above them, a pair of interrupt controllers, a serial port that takes
  every character, and a PCI bus on which no function ever has the class of an AHCI controller; and
  the statically initialized key block and a table of 256 gates.
\<close>

definition booted_memory :: "u64 \<Rightarrow> u64 \<Rightarrow> u64 \<Rightarrow> mmu \<Rightarrow> bool" where
  "booted_memory table image_end arg st \<longleftrightarrow> (\<exists>b ts g. table = page_offset b \<and> b + 6 < 511 \<and>
     boot_slots True b (pmem st) \<and> cr3 st = page_offset b \<and> tags_at st (arg + KERNEL_VMA + 8) ts \<and>
     align_up image_end 0x1000 + 0x1000 = kpage g \<and> g \<le> 511 \<and> 32 \<le> card (boot_words ts))"

definition bootable :: "boot_machine \<Rightarrow> u64 \<Rightarrow> kernel \<Rightarrow> bool" where
  "bootable mc arg k \<longleftrightarrow> bit_defined (shifted_one mc) \<and> 2 \<le> nesting mc \<and>
     booted_memory (first_table mc) (kernel_end mc) arg (kbrk (k_heap k)) \<and>
     (\<exists>m s. pic_device (ports mc) m s \<and> pics_ready m s (k_io k)) \<and> (\<forall>t. ready (ports mc) t) \<and>
     (\<exists>wr c. pci_bus_device (ports mc) wr c \<and> (\<forall>t p. \<not> has_class (regs_after wr c t) 1 6 p)) \<and>
     block_ok (internal_chacha_block (k_csprng k)) \<and> length (idt (k_int k)) = 256"

section \<open>Up to the new stack\<close>

lemma init_random_returns:
  assumes "block_ok (internal_chacha_block (k_csprng k))"
  obtains c seed where "init_random k = Some (k\<lparr>k_csprng := c, k_heap := (k_heap k)\<lparr>kseed := seed\<rparr>\<rparr>)"
proof -
  have "block_ok (internal_chacha_block (csprng_init (k_csprng k)))" using assms by (simp add: csprng_init_def)
  from csprng_get_random_eq [OF this, of 32] show thesis
    by (intro that) (simp add: init_random_def prng_init_def)
qed

lemma serial_init_pics: "pics_ready m s t \<Longrightarrow> pics_ready m s (snd (serial_init dev t))"
  by (simp add: serial_init_def Let_def outb_def inb_def pics_ready_def pic_simps PORT_def)

lemma booted_memory_same:
  "pmem st' = pmem st \<Longrightarrow> cr3 st' = cr3 st \<Longrightarrow> booted_memory table image_end arg st' = booted_memory table image_end arg st"
  using tags_at_same [of st' st] by (simp add: booted_memory_def)

lemma kmain_first:
  assumes "bootable mc arg k"
  defines "sbrk \<equiv> page_sbrk (shifted_one mc) (nesting mc)"
  obtains k1 h1 T n where "kmain mc 0x36d76289 arg k = kmain2 mc k1" "stack_ready (first_stack mc) (kbrk (k_heap k1))"
    "kmalloc_init sbrk (k_heap k1) = Some (h1, True)"
    "heap_run (page_good (shifted_one mc)) sbrk (k_heap k1) h1 {} 0x40000"
    "supplied (shifted_one mc) T (kbrk h1) n" "n \<le> 583" "240 < card (spare (shifted_one mc) (frames (kbrk h1)))"
    "\<exists>m s. pic_device (ports mc) m s \<and> pics_ready m s (k_io k1)"
    "length (idt (k_int k1)) = 256" "length (list_of_handlers (k_int k1)) = 256" "loaded (k_int k1)" "enabled (k_int k1)"
proof -
  have "block_ok (internal_chacha_block (k_csprng k))" using assms(1) by (simp add: bootable_def)
  then obtain c seed where rnd: "init_random k = Some (k\<lparr>k_csprng := c, k_heap := (k_heap k)\<lparr>kseed := seed\<rparr>\<rparr>)"
    by (rule init_random_returns)
  let ?h = "(k_heap k)\<lparr>kseed := seed\<rparr>"
  obtain nest where nest: "nesting mc = Suc (Suc nest)"
    using assms(1) by (metis bootable_def add_2_eq_Suc le_Suc_ex)
  have bits: "bit_defined (shifted_one mc)" using assms(1) by (simp add: bootable_def)
  have "booted_memory (first_table mc) (kernel_end mc) arg (heap_mmu ?h)"
    using assms(1) booted_memory_same [of "heap_mmu ?h" "kbrk (k_heap k)"] by (simp add: bootable_def heap_mmu_def)
  then obtain b ts g where b: "first_table mc = page_offset b" "b + 6 < 511" "boot_slots True b (pmem (heap_mmu ?h))"
      "cr3 (heap_mmu ?h) = page_offset b" "tags_at (heap_mmu ?h) (arg + KERNEL_VMA + 8) ts"
      "align_up (kernel_end mc) 0x1000 + 0x1000 = kpage g" "g \<le> 511" "32 \<le> card (boot_words ts)"
    unfolding booted_memory_def by blast
  let ?S = "page_sbrk (shifted_one mc) (Suc (Suc nest))"
  obtain m1 m2 h1 T n where mem: "mmu_init (shifted_one mc) (Suc (Suc nest)) (page_offset b) (kernel_end mc) arg (heap_mmu ?h) = Some (m1, 1)"
      "\<And>f :: mmu \<Rightarrow> kernel option. mmu_update_stack (shifted_one mc) (Suc (Suc nest)) f (first_stack mc) m1 = f m2"
      "stack_ready (first_stack mc) m2" "kmalloc_init ?S (with_mmu m2 ?h) = Some (h1, True)"
      "heap_run (page_good (shifted_one mc)) ?S (with_mmu m2 ?h) h1 {} 0x40000"
      "supplied (shifted_one mc) T (kbrk h1) n" "n \<le> 583" "240 < card (spare (shifted_one mc) (frames (kbrk h1)))"
    by (rule memory_starts [OF bits b(3,2,4-8), where nest = nest and regs = "first_stack mc" and h = ?h and ?'s = kernel])
      (rule that; (assumption | blast))
  obtain m s where pic: "pic_device (ports mc) m s" "pics_ready m s (k_io k)" using assms(1) by (auto simp: bootable_def)
  let ?t = "snd (serial_init (ports mc) (k_io k))"
  have "length (idt (k_int k)) = 256" using assms(1) by (simp add: bootable_def)
  from idt_init_quiet [OF pic(1) serial_init_pics [OF pic(2)] this]
  obtain t2 st2 where int: "idt_init (isr_address mc) (idt_address mc) (ports mc) (?t, k_int k) = Some (t2, st2)"
      "pics_ready m s t2" "list_of_handlers st2 = (replicate 256 None)[0x0E := Some (page_fault (ports mc))]"
      "loaded st2" "enabled st2" "length (idt st2) = 256"
    by blast
  define k1 where "k1 = k\<lparr>k_csprng := c, k_gdt := gdt_init (gdt_address mc) (k_gdt k), k_io := t2, k_int := st2,
    k_heap := with_mmu m2 ?h\<rparr>"
  have run: "kmain mc 0x36d76289 arg k = kmain2 mc k1"
    using rnd int(1) mem(1,2)
    by (simp add: kmain_def MULTIBOOT2_BOOTLOADER_MAGIC_def k1_def Let_def split_beta nest b(1))
  show thesis
  proof (rule that [OF run _ _ _ mem(6-8)])
    show "\<exists>m s. pic_device (ports mc) m s \<and> pics_ready m s (k_io k1)" using pic(1) int(2) by (auto simp: k1_def)
  qed (use int(3-6) mem(3-5) in \<open>simp_all add: k1_def sbrk_def nest with_mmu_def\<close>)
qed


section \<open>On the new stack\<close>

lemma kmalloc_serves:
  assumes "bit_defined bit1" and "nest = Suc (Suc n)" and "heap_run (page_good bit1) (page_sbrk bit1 nest) h0 h1 {} 0x40000"
    and "supplied bit1 T (kbrk h1) g" and "g \<le> 583" and "240 < card (spare bit1 (frames (kbrk h1)))"
  obtains h2 p where "kmalloc (page_sbrk bit1 nest) 384 h1 = Some (h2, p)" "p \<noteq> 0"
    "heap_run (page_good bit1) (page_sbrk bit1 nest) h0 h2 {(p, 384)} 0xC1000"
proof -
  have u: "unat (grow_size 384) = 0x81000" by (simp add: grow_size_def delta_page_def HEADER_def NEW_ALLOC_SIZE_def)
  then have "can_supply bit1 T (grow_size 384) (kbrk h1) g"
    using assms(4-6) by (auto simp: can_supply_def pages_of_def)
  then have good: "page_good bit1 (grow_size 384) (kbrk h1)" unfolding page_good_def using assms(1) by blast
  have b: "0x40000 + unat (grow_size 384) < 2 ^ 32" "unat (384 :: u64) \<le> 0xFFF00000" by (simp_all add: u)
  obtain h2 p where r: "kmalloc (page_sbrk bit1 nest) 384 h1 = Some (h2, p)" "p \<noteq> 0"
    using page_run_serves [OF assms(3) [unfolded assms(2)] b(2,1) good] assms(2) by blast
  have "heap_run (page_good bit1) (page_sbrk bit1 nest) h0 h2 (if p = 0 then {} else insert (p, 384) {})
      (0x40000 + unat (grow_size 384))"
    by (rule heap_run.alloc [OF assms(3) b(2,1) good r(1)])
  then show thesis using that r u by simp
qed

lemma init_keyboard_returns:
  assumes "kmalloc (page_sbrk (shifted_one mc) (nesting mc)) 384 (k_heap k) = Some (h, p)" and "p \<noteq> 0"
    and "pic_device (ports mc) m s" and "pics_ready m s (k_io k)"
    and "length (idt (k_int k)) = 256" and "length (list_of_handlers (k_int k)) = 256"
  obtains t st kb where "init_keyboard mc k = Some (k\<lparr>k_heap := h, k_io := t, k_int := st, k_kbd := kb\<rparr>, True)"
    "loaded st = loaded (k_int k)" "enabled st = enabled (k_int k)"
    "rb_inv (keyboard_buffer kb)" "contents (keyboard_buffer kb) = []" "rb_cap (keyboard_buffer kb) = 383"
    "\<And>r x. unat (vector_number r) = 0x21 \<Longrightarrow> interrupt_dispatch (ports mc) st r x = keyboard_handler (ports mc) r x"
proof -
  let ?rb = "\<lparr>buffer = Some (load_bytes (kmem h) p 384), buffer_size = 384, read_ptr = 0, write_ptr = 0\<rparr>"
  have rb: "rb_inv ?rb" "contents ?rb = []" "rb_cap ?rb = 383"
    by (simp_all add: rb_inv_def contents_def ringbuffer_used_def rb_cap_def ringbuffer_capacity_def)
  have "(1 :: nat) < 16" by simp
  from handler_install_delivers_aux [OF assms(3-6) this, of "isr_address mc" "keyboard_handler (ports mc)"]
  obtain t st where i: "handler_install (isr_address mc) (ports mc) 0x21 (keyboard_handler (ports mc)) (k_io k, k_int k) = Some (t, st)"
      "\<forall>r x. interrupt_dispatch (ports mc) st r x =
         (if unat (vector_number r) = 0x21 then keyboard_handler (ports mc) r x else interrupt_dispatch (ports mc) (k_int k) r x)"
    by auto
  note g = handler_install_gate(7,8) [OF assms(5,6) i(1)]
  have "ps2_keyboard_init (isr_address mc) (ports mc) (\<lambda>_. Some (load_bytes (kmem h) p 384)) (k_io k, k_int k, k_kbd k) =
      Some ((t, st, (k_kbd k)\<lparr>keyboard_buffer := ?rb\<rparr>), True)"
    using i(1) by (simp add: ps2_keyboard_init_def ringbuffer_init_def Let_def)
  then have "init_keyboard mc k = Some (k\<lparr>k_heap := h, k_io := t, k_int := st, k_kbd := (k_kbd k)\<lparr>keyboard_buffer := ?rb\<rparr>\<rparr>, True)"
    using assms(1,2) by (simp add: init_keyboard_def Let_def)
  then show thesis by (rule that) (use g rb i(2) in auto)
qed

text \<open>Without a controller on the bus, \<^verbatim>\<open>ahci_init\<close> looks at every function and gives up.\<close>

lemma init_disk_without:
  assumes "pci_bus_device (ports mc) wr c" and "\<And>t p. \<not> has_class (regs_after wr c t) 1 6 p"
  obtains t where "init_disk mc k = Some (False, k\<lparr>k_io := t, k_heap := with_mmu (heap_mmu (k_heap k)) (k_heap k)\<rparr>)"
proof -
  have none: "find (has_class (regs_after wr c (k_io k)) 1 6) ps = None" for ps
    using assms(2) by (simp add: find_None_iff)
  from scan_buses_find [OF assms(1) refl, where t = "k_io k" and ci = 1 and si = 6 and buses = "map of_nat [0..<255]"
      and d = "local_device mc"]
  obtain t d where "pci_devices_by_id (ports mc) 1 6 (k_io k, local_device mc) = (False, t, d)"
    unfolding none pci_devices_by_id_def by auto
  then have "init_disk mc k = Some (False, k\<lparr>k_io := t, k_regs := k_regs k, k_hba := k_hba k,
      k_heap := with_mmu (heap_mmu (k_heap k)) ((k_heap k)\<lparr>kmem := kmem (k_heap k)\<rparr>)\<rparr>)"
    by (simp add: init_disk_def ahci_init_def Let_def)
  then show thesis by (intro that) simp
qed

section \<open>The whole start\<close>

text \<open>
  C1 (kernel_boots): On such a machine the kernel starts completely: \<^verbatim>\<open>kmain\<close> gets through the random
  numbers, the tables, the memory management and its new stack, no assertion fails, and \<^verbatim>\<open>kmain2\<close>
  returns after it has sent its greeting.  Then interrupts are on, the keyboard's interrupt runs
  \<^verbatim>\<open>keyboard_handler\<close> on an empty buffer of 383 bytes, and the heap, on the page tables that
  \<^verbatim>\<open>mmu_init\<close> made, has handed out one block, the memory of this buffer.
\<close>

theorem kernel_boots:
  assumes "bootable mc arg k"
  shows "\<exists>k' t h0 h p. kmain mc 0x36d76289 arg k = Some k' \<and> k_io k' = t @ sent ''Hello, world!\<newline>'' \<and>
    loaded (k_int k') \<and> enabled (k_int k') \<and>
    (\<forall>r x. unat (vector_number r) = 0x21 \<longrightarrow>
       interrupt_dispatch (ports mc) (k_int k') r x = keyboard_handler (ports mc) r x) \<and>
    rb_inv (keyboard_buffer (k_kbd k')) \<and> contents (keyboard_buffer (k_kbd k')) = [] \<and>
    rb_cap (keyboard_buffer (k_kbd k')) = 383 \<and>
    k_heap k' = with_mmu (heap_mmu h) h \<and> stack_ready (first_stack mc) (kbrk h0) \<and>
    heap_run (page_good (shifted_one mc)) (page_sbrk (shifted_one mc) (nesting mc)) h0 h {(p, 384)} 0xC1000"
proof -
  let ?S = "page_sbrk (shifted_one mc) (nesting mc)"
  obtain k1 h1 T n m s where 1: "kmain mc 0x36d76289 arg k = kmain2 mc k1" "stack_ready (first_stack mc) (kbrk (k_heap k1))"
      "kmalloc_init ?S (k_heap k1) = Some (h1, True)"
      "heap_run (page_good (shifted_one mc)) ?S (k_heap k1) h1 {} 0x40000"
      "supplied (shifted_one mc) T (kbrk h1) n" "n \<le> 583" "240 < card (spare (shifted_one mc) (frames (kbrk h1)))"
      "pic_device (ports mc) m s" "pics_ready m s (k_io k1)"
      "length (idt (k_int k1)) = 256" "length (list_of_handlers (k_int k1)) = 256" "loaded (k_int k1)" "enabled (k_int k1)"
    by (rule kmain_first [OF assms]) blast
  have bits: "bit_defined (shifted_one mc)" and ready: "\<forall>t. ready (ports mc) t" using assms by (simp_all add: bootable_def)
  obtain nest where nest: "nesting mc = Suc (Suc nest)"
    using assms by (metis bootable_def add_2_eq_Suc le_Suc_ex)
  obtain wr c where pci: "pci_bus_device (ports mc) wr c" "\<And>t p. \<not> has_class (regs_after wr c t) 1 6 p"
    using assms by (auto simp: bootable_def)
  obtain h2 p where 2: "kmalloc ?S 384 h1 = Some (h2, p)" "p \<noteq> 0"
      "heap_run (page_good (shifted_one mc)) ?S (k_heap k1) h2 {(p, 384)} 0xC1000"
    by (rule kmalloc_serves [OF bits nest 1(4-7)])
  let ?k1 = "k1\<lparr>k_heap := h1\<rparr>"
  have same: "kmalloc ?S 384 (k_heap ?k1) = Some (h2, p)" "pics_ready m s (k_io ?k1)"
    "length (idt (k_int ?k1)) = 256" "length (list_of_handlers (k_int ?k1)) = 256"
    using 2(1) 1(9-11) by simp_all
  obtain t st kb where 3: "init_keyboard mc ?k1 = Some (?k1\<lparr>k_heap := h2, k_io := t, k_int := st, k_kbd := kb\<rparr>, True)"
      "loaded st = loaded (k_int ?k1)" "enabled st = enabled (k_int ?k1)"
      "rb_inv (keyboard_buffer kb)" "contents (keyboard_buffer kb) = []" "rb_cap (keyboard_buffer kb) = 383"
      "\<And>r x. unat (vector_number r) = 0x21 \<Longrightarrow> interrupt_dispatch (ports mc) st r x = keyboard_handler (ports mc) r x"
    by (rule init_keyboard_returns [OF same(1) 2(2) 1(8) same(2-4)]) (rule that; (assumption | blast))
  let ?k2 = "k1\<lparr>k_heap := h2, k_io := t, k_int := st, k_kbd := kb\<rparr>"
  obtain t3 where 4: "init_disk mc ?k2 = Some (False, ?k2\<lparr>k_io := t3, k_heap := with_mmu (heap_mmu (k_heap ?k2)) (k_heap ?k2)\<rparr>)"
    by (rule init_disk_without [OF pci])
  have hello: "kprintf (ports mc) ''Hello, world!\<newline>'' [] t3 = Some (14, t3 @ sent ''Hello, world!\<newline>'')"
    using kprintf_plain [OF ready, of "''Hello, world!\<newline>''"] by (simp add: NUL_def)
  have "kmain2 mc k1 = Some (?k2\<lparr>k_io := t3 @ sent ''Hello, world!\<newline>'', k_heap := with_mmu (heap_mmu h2) h2\<rparr>)"
    using 1(3) 3(1) 4 hello by (simp add: kmain2_def Let_def)
  then show ?thesis
    using 1(1,2,12,13) 2(3) 3(2-7)
    by (intro exI [of _ "?k2\<lparr>k_io := t3 @ sent ''Hello, world!\<newline>'', k_heap := with_mmu (heap_mmu h2) h2\<rparr>"]
        exI [of _ t3] exI [of _ "k_heap k1"] exI [of _ h2] exI [of _ p]) simp
qed


text \<open>
  A machine with two interrupt controllers, a serial port that is always ready and an empty PCI bus,
  booted as in \<^verbatim>\<open>BootTables\<close>.
\<close>

definition quiet_ports :: device where
  "quiet_ports t p = (if p = 0xCFC then 0xFFFFFFFF else if p = 0x21 then ucast (imr (master_after power_up t))
     else if p = 0xA1 then ucast (imr (slave_after power_up t)) else 0x20)"

definition empty_bus :: config_space where
  "empty_bus = \<lparr>selected = 0, registers = (\<lambda>_. 0xFFFFFFFF)\<rparr>"

lemma empty_bus_after: "registers (space_after (\<lambda>a old v. old) empty_bus t) = (\<lambda>_. 0xFFFFFFFF)"
proof -
  have "registers (fold (pci_event (\<lambda>a old v. old)) t c) = (\<lambda>_. 0xFFFFFFFF)" if "registers c = (\<lambda>_. 0xFFFFFFFF)" for c
    using that
  proof (induction t arbitrary: c)
    case (Cons e t)
    have "registers (pci_event (\<lambda>a old v. old) e c) = (\<lambda>_. 0xFFFFFFFF)" using Cons.prems by (cases e) auto
    then show ?case using Cons.IH by simp
  qed simp
  then show ?thesis by (simp add: space_after_def empty_bus_def)
qed

lemma quiet_ports_ok:
  "pic_device quiet_ports power_up power_up" "\<forall>t. ready quiet_ports t"
  "pci_bus_device quiet_ports (\<lambda>a old v. old) empty_bus"
  "\<not> has_class (regs_after (\<lambda>a old v. old) empty_bus t) 1 6 p"
proof -
  have c: "(ucast (ucast v :: u32) :: u8) = v" for v by (rule bit_word_eqI) (simp add: bit_simps)
  show "pic_device quiet_ports power_up power_up" by (simp add: pic_device_def quiet_ports_def c)
  show "\<forall>t. ready quiet_ports t" by (simp add: ready_def is_transmit_empty_def inb_def quiet_ports_def PORT_def)
  show "pci_bus_device quiet_ports (\<lambda>a old v. old) empty_bus"
    by (simp add: pci_bus_device_def quiet_ports_def empty_bus_after)
  show "\<not> has_class (regs_after (\<lambda>a old v. old) empty_bus t) 1 6 p"
    by (simp add: has_class_def regs_after_def empty_bus_after)
qed

lemma booted_ok: "booted_memory 0x101000 (KERNEL_VMA + 0x130000) 0x9000 booted"
proof -
  have "32 \<le> card (boot_words booted_tags)" using booted_words by simp
  moreover have "page_offset 257 = 0x101000" by (simp add: page_offset_def)
  ultimately show ?thesis
    unfolding booted_memory_def using booted_slots booted_layout booted_tags_at
    by (intro exI [of _ 257] exI [of _ booted_tags] exI [of _ 305]) simp
qed

theorem kernel_boots_witness:
  "\<forall>mc k. \<exists>k'. kmain (mc\<lparr>ports := quiet_ports, first_table := 0x101000, kernel_end := KERNEL_VMA + 0x130000,
       nesting := 2, shifted_one := shl_intended\<rparr>) 0x36d76289 0x9000
     (k\<lparr>k_io := [], k_csprng := (k_csprng k)\<lparr>internal_chacha_block := initial_chacha_block\<rparr>,
        k_heap := (k_heap k)\<lparr>kbrk := booted\<rparr>, k_int := no_interrupts\<rparr>) = Some k' \<and>
     enabled (k_int k') \<and> contents (keyboard_buffer (k_kbd k')) = []"
proof (intro allI)
  fix mc :: boot_machine and k :: kernel
  let ?mc = "mc\<lparr>ports := quiet_ports, first_table := 0x101000, kernel_end := KERNEL_VMA + 0x130000,
       nesting := 2, shifted_one := shl_intended\<rparr>"
  let ?k = "k\<lparr>k_io := [], k_csprng := (k_csprng k)\<lparr>internal_chacha_block := initial_chacha_block\<rparr>,
        k_heap := (k_heap k)\<lparr>kbrk := booted\<rparr>, k_int := no_interrupts\<rparr>"
  have "block_ok initial_chacha_block" by (simp add: block_ok_def initial_chacha_block_def chacha_layout)
  then have "bootable ?mc 0x9000 ?k"
    using booted_ok bit_defined_intended quiet_ports_ok two_pics_ok(2) unfolding bootable_def
    by (simp add: no_interrupts_def) blast
  from kernel_boots [OF this]
  show "\<exists>k'. kmain ?mc 0x36d76289 0x9000 ?k = Some k' \<and> enabled (k_int k') \<and> contents (keyboard_buffer (k_kbd k')) = []"
    by blast
qed

end
