(* ===== verification/Task.thy ===== *)
theory Task
  imports Prelude
begin

text \<open>
  Tasks: the round-robin list of \<^verbatim>\<open>task.c\<close> and the two assembler routines of
  \<^verbatim>\<open>arch/amd64/task_switch.s\<close> that save and load the registers.  \<^verbatim>\<open>tasks\<close> holds the task structures
  by address; each address space, named by its \<^verbatim>\<open>cr3\<close>, has its own stack memory, in 64-bit words.
  The kernel heap and the memory manager are the part \<open>'k\<close> of the state and reached through
  parameters.  A routine runs from its entry, with the return address on top of the stack, to
  the \<^verbatim>\<open>ret\<close> that leaves it.
\<close>

section \<open>State\<close>

record tcb =
  t_rsp :: u64
  t_cr3 :: u64
  t_rsp0 :: u64

record task =
  tcb :: tcb
  directory :: u64
  next_task :: u64

record machine =
  reg_rax :: u64
  reg_rbx :: u64
  reg_r12 :: u64
  reg_r13 :: u64
  reg_r14 :: u64
  reg_r15 :: u64
  reg_rsp :: u64
  reg_cr3 :: u64
  reg_rip :: u64
  stack :: "u64 \<Rightarrow> u64 \<Rightarrow> u64"
  interrupts_on :: bool

record 'k sched =
  cpu :: machine
  tasks :: "u64 \<Rightarrow> task"
  task_head :: u64
  task_current :: u64
  rest :: 'k

section \<open>The assembler routines\<close>

definition poke :: "u64 \<Rightarrow> u64 \<Rightarrow> machine \<Rightarrow> machine" where
  "poke a v c = c\<lparr>stack := (stack c)(reg_cr3 c := (stack c (reg_cr3 c))(a := v))\<rparr>"

definition peek :: "u64 \<Rightarrow> machine \<Rightarrow> u64" where
  "peek a c = stack c (reg_cr3 c) a"

definition push :: "u64 \<Rightarrow> machine \<Rightarrow> machine" where
  "push v c = poke (reg_rsp c - 8) v (c\<lparr>reg_rsp := reg_rsp c - 8\<rparr>)"

definition pop :: "machine \<Rightarrow> u64 \<times> machine" where
  "pop c = (peek (reg_rsp c) c, c\<lparr>reg_rsp := reg_rsp c + 8\<rparr>)"

definition ret :: "machine \<Rightarrow> machine" where
  "ret c = (let (a, c) = pop c in c\<lparr>reg_rip := a\<rparr>)"

definition push_saved :: "machine \<Rightarrow> machine" where
  "push_saved c = push (reg_r15 c) (push (reg_r14 c) (push (reg_r13 c) (push (reg_r12 c) (push (reg_rbx c) c))))"

definition pop_saved :: "machine \<Rightarrow> machine" where
  "pop_saved c =
     (let (v, c) = pop c; c = c\<lparr>reg_r15 := v\<rparr>;
          (v, c) = pop c; c = c\<lparr>reg_r14 := v\<rparr>;
          (v, c) = pop c; c = c\<lparr>reg_r13 := v\<rparr>;
          (v, c) = pop c; c = c\<lparr>reg_r12 := v\<rparr>;
          (v, c) = pop c
      in c\<lparr>reg_rbx := v\<rparr>)"

abbreviation upd_cpu :: "(machine \<Rightarrow> machine) \<Rightarrow> 'k sched \<Rightarrow> 'k sched" where
  "upd_cpu f st \<equiv> st\<lparr>cpu := f (cpu st)\<rparr>"

definition upd_task :: "u64 \<Rightarrow> (task \<Rightarrow> task) \<Rightarrow> 'k sched \<Rightarrow> 'k sched" where
  "upd_task p f st = st\<lparr>tasks := (tasks st)(p := f (tasks st p))\<rparr>"

definition set_rsp :: "u64 \<Rightarrow> task \<Rightarrow> task" where
  "set_rsp v t = t\<lparr>tcb := (tcb t)\<lparr>t_rsp := v\<rparr>\<rparr>"

definition set_cr3 :: "u64 \<Rightarrow> task \<Rightarrow> task" where
  "set_cr3 v t = t\<lparr>tcb := (tcb t)\<lparr>t_cr3 := v\<rparr>\<rparr>"

definition switch_to_task :: "u64 \<Rightarrow> u64 \<Rightarrow> 'k sched \<Rightarrow> 'k sched" where
  "switch_to_task old new st =
     (let st = upd_cpu push_saved st;
          st = upd_task old (set_rsp (reg_rsp (cpu st))) st;
          st = upd_task old (set_cr3 (reg_cr3 (cpu st))) st;
          st = upd_cpu (\<lambda>c. c\<lparr>reg_rsp := t_rsp (tcb (tasks st new))\<rparr>) st;
          st = upd_cpu (\<lambda>c. c\<lparr>reg_rax := t_cr3 (tcb (tasks st new))\<rparr>) st;
          st = upd_cpu (\<lambda>c. c\<lparr>reg_rbx := t_rsp0 (tcb (tasks st new))\<rparr>) st;
          st = (if reg_rax (cpu st) = reg_cr3 (cpu st) then st
                else upd_cpu (\<lambda>c. c\<lparr>reg_cr3 := reg_rax c\<rparr>) st);
          st = upd_cpu pop_saved st;
          st = upd_cpu (\<lambda>c. c\<lparr>interrupts_on := True\<rparr>) st
      in upd_cpu ret st)"

text \<open>
  The memory manager's part: \<^verbatim>\<open>clone\<close> is \<^verbatim>\<open>mmu_clone_directory\<close>, \<^verbatim>\<open>phys\<close> reads a directory's
  \<^verbatim>\<open>physical\<close> field.
\<close>

definition task_create_directory ::
  "(u64 \<Rightarrow> 'k sched \<Rightarrow> ('k sched \<times> u64) option) \<Rightarrow> ('k \<Rightarrow> u64 \<Rightarrow> u64) \<Rightarrow> u64 \<Rightarrow> u64 \<Rightarrow>
     'k sched \<Rightarrow> 'k sched option" where
  "task_create_directory clone phys task parent st = do {
     (st, d) \<leftarrow> clone (directory (tasks st parent)) st;
     let st = upd_task task (\<lambda>t. t\<lparr>directory := d\<rparr>) st;
     Some (upd_task task (set_cr3 (phys (rest st) (directory (tasks st task)))) st)
   }"

text \<open>
  \<^verbatim>\<open>weird_return\<close> is the address of that label, \<^verbatim>\<open>back\<close> the one behind the call of
  \<^verbatim>\<open>weird_switch2\<close>; the call pushes it and the \<^verbatim>\<open>ret\<close> of \<^verbatim>\<open>weird_switch2\<close> takes it again.
\<close>

definition weird_switch2 ::
  "u64 \<Rightarrow> (u64 \<Rightarrow> 'k sched \<Rightarrow> ('k sched \<times> u64) option) \<Rightarrow> ('k \<Rightarrow> u64 \<Rightarrow> u64) \<Rightarrow> u64 \<Rightarrow> u64 \<Rightarrow>
     'k sched \<Rightarrow> 'k sched option" where
  "weird_switch2 weird_return clone phys task parent st = do {
     let st = upd_cpu (\<lambda>c. c\<lparr>reg_rbx := task\<rparr>) st;
     st \<leftarrow> task_create_directory clone phys task parent st;
     let r8 = reg_cr3 (cpu st);
     let st = upd_cpu (\<lambda>c. c\<lparr>reg_cr3 := t_cr3 (tcb (tasks st task))\<rparr>) st;
     let st = upd_cpu (\<lambda>c. poke (reg_rsp c) weird_return c) st;
     let st = upd_cpu push_saved st;
     let st = upd_task task (set_rsp (reg_rsp (cpu st))) st;
     let st = upd_cpu (\<lambda>c. c\<lparr>reg_rsp := reg_rsp c + 40\<rparr>) st;
     let st = upd_cpu (\<lambda>c. c\<lparr>reg_cr3 := r8\<rparr>) st;
     Some (upd_cpu ret st)
   }"

definition weird_switch ::
  "u64 \<Rightarrow> u64 \<Rightarrow> (u64 \<Rightarrow> 'k sched \<Rightarrow> ('k sched \<times> u64) option) \<Rightarrow> ('k \<Rightarrow> u64 \<Rightarrow> u64) \<Rightarrow> u64 \<Rightarrow> u64 \<Rightarrow>
     'k sched \<Rightarrow> 'k sched option" where
  "weird_switch back weird_return clone phys task parent st = do {
     let st = upd_cpu (push back) st;
     st \<leftarrow> weird_switch2 weird_return clone phys task parent st;
     let st = upd_cpu (\<lambda>c. c\<lparr>reg_rax := 0\<rparr>) st;
     Some (upd_cpu ret st)
   }"

text \<open>The two instructions at \<^verbatim>\<open>weird_return\<close>, where a new task starts.\<close>

definition weird_return_code :: "'k sched \<Rightarrow> 'k sched" where
  "weird_return_code st = upd_cpu ret (upd_cpu (\<lambda>c. c\<lparr>reg_rax := 1\<rparr>) st)"

section \<open>The task list\<close>

text \<open>\<^verbatim>\<open>alloc\<close> is \<^verbatim>\<open>kmalloc(sizeof(struct task))\<close>; \<^verbatim>\<open>active\<close> is \<^verbatim>\<open>mmu_get_active_directory\<close>.\<close>

definition task_init :: "('k \<Rightarrow> ('k \<times> u64) option) \<Rightarrow> ('k \<Rightarrow> u64) \<Rightarrow> 'k sched \<Rightarrow> ('k sched \<times> bool) option" where
  "task_init alloc active st = do {
     (k, p) \<leftarrow> alloc (rest st);
     let st = st\<lparr>rest := k, task_head := p\<rparr>;
     (if p = 0 then Some (st, False)
      else do {
        let st = upd_task p (\<lambda>t. t\<lparr>next_task := 0\<rparr>) st;
        let st = upd_task p (\<lambda>t. t\<lparr>directory := active (rest st)\<rparr>) st;
        Some (st\<lparr>task_current := p\<rparr>, True)
      })
   }"

text \<open>\<^verbatim>\<open>task_create\<close> up to its call of \<^verbatim>\<open>weird_switch\<close>, and the whole function with the call at \<^verbatim>\<open>site\<close>.\<close>

definition task_link :: "('k \<Rightarrow> ('k \<times> u64) option) \<Rightarrow> 'k sched \<Rightarrow> ('k sched \<times> u64) option" where
  "task_link alloc st = do {
     c_assert (task_current st \<noteq> 0);
     (k, p) \<leftarrow> alloc (rest st);
     let st = st\<lparr>rest := k\<rparr>;
     (if p = 0 then Some (st, 0)
      else do {
        let st = upd_task p (\<lambda>t. t\<lparr>next_task := task_head st\<rparr>) st;
        Some (st\<lparr>task_head := p\<rparr>, p)
      })
   }"

definition task_create ::
  "u64 \<Rightarrow> u64 \<Rightarrow> u64 \<Rightarrow> ('k \<Rightarrow> ('k \<times> u64) option) \<Rightarrow> (u64 \<Rightarrow> 'k sched \<Rightarrow> ('k sched \<times> u64) option) \<Rightarrow>
     ('k \<Rightarrow> u64 \<Rightarrow> u64) \<Rightarrow> 'k sched \<Rightarrow> ('k sched \<times> bool) option" where
  "task_create site back weird_return alloc clone phys st = do {
     let parent = task_current st;
     (st, task) \<leftarrow> task_link alloc st;
     (if task = 0 then Some (st, False)
      else do {
        st \<leftarrow> weird_switch back weird_return clone phys task parent (upd_cpu (push site) st);
        Some (st, reg_rax (cpu st) \<noteq> 0)
      })
   }"

definition task_fork ::
  "u64 \<Rightarrow> u64 \<Rightarrow> u64 \<Rightarrow> ('k \<Rightarrow> ('k \<times> u64) option) \<Rightarrow> (u64 \<Rightarrow> 'k sched \<Rightarrow> ('k sched \<times> u64) option) \<Rightarrow>
     ('k \<Rightarrow> u64 \<Rightarrow> u64) \<Rightarrow> 'k sched \<Rightarrow> ('k sched \<times> bool) option" where
  "task_fork site back weird_return alloc clone phys st =
     task_create site back weird_return alloc clone phys st"

definition task_next :: "u64 \<Rightarrow> 'k sched \<Rightarrow> u64" where
  "task_next p st = (let q = next_task (tasks st p) in if q = 0 then task_head st else q)"

definition task_switch :: "u64 \<Rightarrow> u64 \<Rightarrow> 'k sched \<Rightarrow> 'k sched" where
  "task_switch site p st =
     (let old = task_current st;
          st = st\<lparr>task_current := p\<rparr>
      in switch_to_task old p (upd_cpu (push site) st))"

definition task_legacy_switch :: "u64 \<Rightarrow> 'k sched \<Rightarrow> 'k sched" where
  "task_legacy_switch site st = task_switch site (task_next (task_current st) st) st"

section \<open>Saving and loading registers\<close>

named_theorems cpu_defs \<open>the instructions\<close>

lemmas [cpu_defs] = poke_def peek_def push_def pop_def ret_def push_saved_def pop_saved_def upd_task_def
  set_rsp_def set_cr3_def

text \<open>
  \<^verbatim>\<open>suspended t c a m\<close>: the stack \<^verbatim>\<open>m\<close> and the saved fields \<^verbatim>\<open>t\<close> of a task hold the registers of \<^verbatim>\<open>c\<close>
  and the address \<^verbatim>\<open>a\<close> to continue at.
\<close>

definition suspended :: "tcb \<Rightarrow> machine \<Rightarrow> u64 \<Rightarrow> (u64 \<Rightarrow> u64) \<Rightarrow> bool" where
  "suspended t c a m \<longleftrightarrow> (let s = t_rsp t in
     m s = reg_r15 c \<and> m (s + 8) = reg_r14 c \<and> m (s + 16) = reg_r13 c \<and> m (s + 24) = reg_r12 c \<and>
     m (s + 32) = reg_rbx c \<and> m (s + 40) = a \<and> s + 48 = reg_rsp c)"

lemma stack_slots:
  "x - 40 \<noteq> x - (32 :: u64)" "x - 40 \<noteq> x - (24 :: u64)" "x - 40 \<noteq> x - (16 :: u64)" "x - 40 \<noteq> x - (8 :: u64)"
  "x - 32 \<noteq> x - (24 :: u64)" "x - 32 \<noteq> x - (16 :: u64)" "x - 32 \<noteq> x - (8 :: u64)"
  "x - 24 \<noteq> x - (16 :: u64)" "x - 24 \<noteq> x - (8 :: u64)" "x - 16 \<noteq> x - (8 :: u64)"
  "x - 40 \<noteq> x" "x - 32 \<noteq> x" "x - 24 \<noteq> x" "x - 16 \<noteq> x" "x - 8 \<noteq> x"
  for x :: u64
  by simp_all

lemma push_saved_effect:
  "reg_rsp (push_saved c) = reg_rsp c - 40" "reg_cr3 (push_saved c) = reg_cr3 c"
  "\<lbrakk>d = c\<lparr>reg_rsp := reg_rsp c + 8\<rparr>; a = peek (reg_rsp c) c\<rbrakk> \<Longrightarrow>
     suspended \<lparr>t_rsp = reg_rsp c - 40, t_cr3 = k, t_rsp0 = r\<rparr> d a (stack (push_saved c) (reg_cr3 c))"
  "y \<notin> {reg_rsp c - 40, reg_rsp c - 32, reg_rsp c - 24, reg_rsp c - 16, reg_rsp c - 8} \<or> z \<noteq> reg_cr3 c \<Longrightarrow>
     stack (push_saved c) z y = stack c z y"
  "interrupts_on (push_saved c) = interrupts_on c"
  by (auto simp: cpu_defs suspended_def Let_def stack_slots)

lemma pop_saved_effect:
  assumes "suspended t d a (stack c (reg_cr3 c))" and "t_rsp t = reg_rsp c"
  shows "ret ((pop_saved c)\<lparr>interrupts_on := i\<rparr>) = c\<lparr>reg_r15 := reg_r15 d, reg_r14 := reg_r14 d,
      reg_r13 := reg_r13 d, reg_r12 := reg_r12 d, reg_rbx := reg_rbx d, reg_rsp := reg_rsp d, reg_rip := a,
      interrupts_on := i\<rparr>"
  using assms by (simp add: cpu_defs suspended_def Let_def add.commute)

text \<open>What a switch does to the task structures, the machine and everything else.\<close>

lemma switch_to_task_parts:
  "tasks (switch_to_task old new st) = (tasks st)(old := (tasks st old)\<lparr>tcb := (tcb (tasks st old))
     \<lparr>t_rsp := reg_rsp (cpu st) - 40, t_cr3 := reg_cr3 (cpu st)\<rparr>\<rparr>)"
  "task_head (switch_to_task old new st) = task_head st"
  "task_current (switch_to_task old new st) = task_current st"
  "rest (switch_to_task old new st) = rest st"
  "stack (cpu (switch_to_task old new st)) = stack (push_saved (cpu st))"
  by (simp_all add: switch_to_task_def cpu_defs Let_def)

lemma switch_to_task_cpu:
  assumes ne: "new \<noteq> old"
    and s: "suspended (tcb (tasks st new)) d a (stack (push_saved (cpu st)) (t_cr3 (tcb (tasks st new))))"
  shows "(let c = cpu (switch_to_task old new st) in
    reg_rbx c = reg_rbx d \<and> reg_r12 c = reg_r12 d \<and> reg_r13 c = reg_r13 d \<and> reg_r14 c = reg_r14 d \<and>
    reg_r15 c = reg_r15 d \<and> reg_rsp c = reg_rsp d \<and> reg_rip c = a \<and>
    reg_cr3 c = t_cr3 (tcb (tasks st new)) \<and> interrupts_on c)"
proof -
  let ?t = "tcb (tasks st new)"
  let ?c = "(push_saved (cpu st))\<lparr>reg_rsp := t_rsp ?t, reg_rax := t_cr3 ?t, reg_rbx := t_rsp0 ?t, reg_cr3 := t_cr3 ?t\<rparr>"
  have "cpu (switch_to_task old new st) = ret ((pop_saved ?c)\<lparr>interrupts_on := True\<rparr>)"
    using ne by (simp add: switch_to_task_def upd_task_def Let_def)
  also have "\<dots> = ?c\<lparr>reg_r15 := reg_r15 d, reg_r14 := reg_r14 d, reg_r13 := reg_r13 d, reg_r12 := reg_r12 d,
      reg_rbx := reg_rbx d, reg_rsp := reg_rsp d, reg_rip := a, interrupts_on := True\<rparr>"
    by (rule pop_saved_effect [of ?t]) (use s in simp_all)
  finally show ?thesis by (simp add: Let_def)
qed

text \<open>The words that a routine entered with stack pointer \<^verbatim>\<open>s\<close> pushes, and those plus its return address.\<close>

definition pushed_words :: "u64 \<Rightarrow> u64 set" where
  "pushed_words s = {s - 40, s - 32, s - 24, s - 16, s - 8}"

definition frame_words :: "u64 \<Rightarrow> u64 set" where
  "frame_words s = insert s (pushed_words s)"

definition same_registers :: "machine \<Rightarrow> machine \<Rightarrow> bool" where
  "same_registers c d \<longleftrightarrow> reg_rbx c = reg_rbx d \<and> reg_r12 c = reg_r12 d \<and> reg_r13 c = reg_r13 d \<and>
     reg_r14 c = reg_r14 d \<and> reg_r15 c = reg_r15 d \<and> reg_cr3 c = reg_cr3 d"

lemma suspended_frame:
  assumes "suspended t d a m" and "\<forall>y \<in> frame_words (t_rsp t + 40). m' y = m y"
  shows "suspended t d a m'"
  using assms by (simp add: suspended_def Let_def frame_words_def pushed_words_def add.commute)


definition idle_machine :: "u64 \<Rightarrow> u64 \<Rightarrow> machine" where
  "idle_machine sp dir = \<lparr>reg_rax = 0, reg_rbx = 1, reg_r12 = 2, reg_r13 = 3, reg_r14 = 4, reg_r15 = 5,
     reg_rsp = sp, reg_cr3 = dir, reg_rip = 0, stack = (\<lambda>_ _. 7), interrupts_on = False\<rparr>"

definition two_tasks :: "unit sched" where
  "two_tasks = \<lparr>cpu = idle_machine 0x8000 0x1000,
     tasks = (\<lambda>p. \<lparr>tcb = \<lparr>t_rsp = 0x4000, t_cr3 = (if p = 0x10 then 0x1000 else 0x2000), t_rsp0 = 0\<rparr>,
       directory = 0, next_task = (if p = 0x20 then 0x10 else 0)\<rparr>),
     task_head = 0x20, task_current = 0x10, rest = ()\<rparr>"


section \<open>Fork\<close>

text \<open>
  What is relied on in \<^verbatim>\<open>mmu_clone_directory\<close>: the new directory is another address space with a
  copy of the stack, as far as it is in use; the registers and the task structures stay as they are.
\<close>

definition in_use :: "u64 \<Rightarrow> u64 \<Rightarrow> bool" where
  "in_use sp y \<longleftrightarrow> y - sp < 2 ^ 63"

definition clone_ok :: "(u64 \<Rightarrow> 'k sched \<Rightarrow> ('k sched \<times> u64) option) \<Rightarrow> ('k \<Rightarrow> u64 \<Rightarrow> u64) \<Rightarrow> bool" where
  "clone_ok clone phys \<longleftrightarrow> (\<forall>dir st st' d. clone dir st = Some (st', d) \<longrightarrow>
     tasks st' = tasks st \<and> task_head st' = task_head st \<and> task_current st' = task_current st \<and>
     (\<exists>m. cpu st' = cpu st\<lparr>stack := m\<rparr> \<and> phys (rest st') d \<noteq> reg_cr3 (cpu st) \<and>
       (\<forall>y. in_use (reg_rsp (cpu st)) y \<longrightarrow>
          m (reg_cr3 (cpu st)) y = stack (cpu st) (reg_cr3 (cpu st)) y \<and>
          m (phys (rest st') d) y = stack (cpu st) (reg_cr3 (cpu st)) y)))"

lemma task_create_directory_eq:
  assumes "clone_ok clone phys" and "clone (directory (tasks st parent)) st = Some (st', d)"
  shows "task_create_directory clone phys task parent st =
    Some (upd_task task (\<lambda>t. t\<lparr>directory := d, tcb := (tcb t)\<lparr>t_cr3 := phys (rest st') d\<rparr>\<rparr>) st')"
  using assms(2) by (simp add: task_create_directory_def upd_task_def set_cr3_def Let_def)

text \<open>
  \<^verbatim>\<open>weird_switch\<close> entered with the return address \<^verbatim>\<open>site\<close> on top of the stack: it returns to it, and
  leaves the new task suspended at \<^verbatim>\<open>weird_return\<close> on a stack that leads there too.
\<close>

lemma weird_switch_effect:
  assumes ok: "clone_ok clone phys"
    and c: "clone (directory (tasks st parent)) (upd_cpu (\<lambda>c. (push back c)\<lparr>reg_rbx := task\<rparr>) st) = Some (st1, d)"
    and site: "peek (reg_rsp (cpu st)) (cpu st) = site"
  defines "k \<equiv> phys (rest st1) d" and "sp \<equiv> reg_rsp (cpu st)"
  shows "\<exists>st'. weird_switch back weird_return clone phys task parent st = Some st' \<and>
    reg_rax (cpu st') = 0 \<and> reg_rip (cpu st') = site \<and> reg_rsp (cpu st') = sp + 8 \<and>
    same_registers (cpu st') ((cpu st)\<lparr>reg_rbx := task\<rparr>) \<and> k \<noteq> reg_cr3 (cpu st) \<and>
    t_cr3 (tcb (tasks st' task)) = k \<and> stack (cpu st') k sp = site \<and> t_rsp (tcb (tasks st' task)) = sp - 48 \<and>
    suspended (tcb (tasks st' task)) ((cpu st)\<lparr>reg_rbx := task, reg_rsp := sp\<rparr>) weird_return (stack (cpu st') k) \<and>
    task_head st' = task_head st \<and> task_current st' = task_current st \<and>
    rest st' = rest st1 \<and> (\<forall>p. next_task (tasks st' p) = next_task (tasks st p))"
proof -
  let ?c = "(push back (cpu st))\<lparr>reg_rbx := task\<rparr>"
  have "clone (directory (tasks st parent)) (st\<lparr>cpu := ?c\<rparr>) = Some (st1, d)" using c by simp
  then obtain m where m: "tasks st1 = tasks st" "task_head st1 = task_head st" "task_current st1 = task_current st"
      "cpu st1 = ?c\<lparr>stack := m\<rparr>" "k \<noteq> reg_cr3 (cpu st)"
      "\<forall>y. in_use (sp - 8) y \<longrightarrow> m (reg_cr3 (cpu st)) y = stack ?c (reg_cr3 (cpu st)) y \<and>
          m k y = stack ?c (reg_cr3 (cpu st)) y"
    using ok unfolding clone_ok_def by (fastforce simp: cpu_defs k_def sp_def)
  have use: "in_use (sp - 8) (sp - 8)" "in_use (sp - 8) sp" by (simp_all add: in_use_def)
  have st: "m (reg_cr3 (cpu st)) (sp - 8) = back" "m (reg_cr3 (cpu st)) sp = site" "m k sp = site"
    using m(6) [rule_format, OF use(1)] m(6) [rule_format, OF use(2)] site
    by (simp_all add: cpu_defs sp_def)
  define cx where "cx = (cpu st1)\<lparr>reg_cr3 := k, stack := m(k := (m k)(sp - 8 := weird_return))\<rparr>"
  have cx: "reg_rsp cx = sp - 8" "reg_cr3 cx = k" "stack cx = m(k := (m k)(sp - 8 := weird_return))"
    by (simp_all add: cx_def m(4) cpu_defs sp_def)
  define M where "M = stack (push_saved cx)"
  have push: "push_saved cx = cx\<lparr>reg_rsp := sp - 48, stack := M\<rparr>"
    using cx unfolding M_def by (simp add: push_saved_def push_def poke_def)
  have old: "M (reg_cr3 (cpu st)) = m (reg_cr3 (cpu st))"
    using push_saved_effect(4) [of _ cx "reg_cr3 (cpu st)"] m(5) cx by (auto simp: M_def)
  have above: "M k sp = site"
    using push_saved_effect(4) [of sp cx k] cx st(3) stack_slots(15) [of sp] by (simp add: M_def)
  have susp: "suspended \<lparr>t_rsp = sp - 48, t_cr3 = k, t_rsp0 = r\<rparr> (cx\<lparr>reg_rsp := sp\<rparr>) weird_return (M k)" for r
    using push_saved_effect(3) [of "cx\<lparr>reg_rsp := sp\<rparr>" cx weird_return k r] cx
    by (simp add: M_def peek_def)
  have "suspended t ((cpu st)\<lparr>reg_rbx := task, reg_rsp := sp\<rparr>) weird_return (M k)"
    if "t_rsp t = sp - 48" for t
    using susp [of 0] that by (simp add: suspended_def cx_def m(4) cpu_defs)
  moreover have w: "weird_switch back weird_return clone phys task parent st =
     Some (st1\<lparr>cpu := (cpu st1)\<lparr>reg_rax := 0, reg_rip := site, reg_rsp := sp + 8, stack := M\<rparr>,
       tasks := (tasks st1)(task := (tasks st1 task)\<lparr>directory := d,
         tcb := (tcb (tasks st1 task))\<lparr>t_cr3 := k, t_rsp := sp - 48\<rparr>\<rparr>)\<rparr>)"
  proof -
    have cr: "reg_cr3 (cpu st1) = reg_cr3 (cpu st)" "reg_rsp (cpu st1) = sp - 8" "stack (cpu st1) = m"
      by (simp_all add: m(4) cpu_defs sp_def)
    have tc: "task_create_directory clone phys task parent (st\<lparr>cpu := ?c\<rparr>) =
        Some (upd_task task (\<lambda>t. t\<lparr>directory := d, tcb := (tcb t)\<lparr>t_cr3 := k\<rparr>\<rparr>) st1)"
      using task_create_directory_eq [OF ok, of "st\<lparr>cpu := ?c\<rparr>" parent st1 d task] c by (simp add: k_def)
    have px: "poke (sp - 8) weird_return ((cpu st1)\<lparr>reg_cr3 := k\<rparr>) = cx"
      by (simp add: cx_def poke_def cr)
    have "weird_switch2 weird_return clone phys task parent (upd_cpu (push back) st) =
        Some (st1\<lparr>cpu := (cpu st1)\<lparr>reg_rip := back, reg_rsp := sp, stack := M\<rparr>,
         tasks := (tasks st1)(task := (tasks st1 task)\<lparr>directory := d,
           tcb := (tcb (tasks st1 task))\<lparr>t_cr3 := k, t_rsp := sp - 48\<rparr>\<rparr>)\<rparr>)"
      using st(1) by (simp add: weird_switch2_def tc upd_task_def cr px push Let_def ret_def pop_def peek_def
          set_rsp_def old) (simp add: cx_def cr)
    then show ?thesis using st(2) old
      by (simp add: weird_switch_def cr ret_def pop_def peek_def Let_def)
  qed
  ultimately show ?thesis using m above
    by (simp add: same_registers_def cpu_defs)
qed


text \<open>A memory manager that copies the current stack to the address space with the next number.\<close>

definition copy_clone :: "u64 \<Rightarrow> 'k sched \<Rightarrow> ('k sched \<times> u64) option" where
  "copy_clone dir st = (let c = cpu st; n = reg_cr3 c + 1 in
     Some (st\<lparr>cpu := c\<lparr>stack := (stack c)(n := stack c (reg_cr3 c))\<rparr>\<rparr>, n))"

lemma copy_clone_ok: "clone_ok copy_clone (\<lambda>k d. d)"
  by (auto simp: clone_ok_def copy_clone_def Let_def)


section \<open>Scheduling\<close>

fun task_chain :: "(u64 \<Rightarrow> task) \<Rightarrow> u64 \<Rightarrow> u64 list \<Rightarrow> bool" where
  "task_chain ts p [] \<longleftrightarrow> p = 0"
| "task_chain ts p (q # qs) \<longleftrightarrow> p = q \<and> q \<noteq> 0 \<and> task_chain ts (next_task (ts q)) qs"

text \<open>The abstract scheduler: the list of tasks, oldest last, and the position of the running one.\<close>

definition sched_rel :: "'k sched \<Rightarrow> u64 list \<Rightarrow> nat \<Rightarrow> bool" where
  "sched_rel st ps i \<longleftrightarrow> task_chain (tasks st) (task_head st) ps \<and> distinct ps \<and> i < length ps \<and>
     task_current st = ps ! i"

lemma task_chain_cong:
  "(\<And>q. q \<in> set qs \<Longrightarrow> next_task (ts' q) = next_task (ts q)) \<Longrightarrow> task_chain ts' p qs = task_chain ts p qs"
  by (induction qs arbitrary: p) auto

lemma task_chain_nth:
  "task_chain ts p qs \<Longrightarrow> i < length qs \<Longrightarrow>
     qs ! i \<noteq> 0 \<and> next_task (ts (qs ! i)) = (if Suc i < length qs then qs ! Suc i else 0)"
proof (induction qs arbitrary: p i)
  case (Cons q qs)
  show ?case
  proof (cases i)
    case 0
    then show ?thesis using Cons.prems by (cases qs) auto
  next
    case (Suc j)
    then show ?thesis using Cons.IH [of "next_task (ts q)" j] Cons.prems by simp
  qed
qed simp

lemma task_next_position:
  assumes "sched_rel st ps i"
  shows "task_next (task_current st) st = ps ! (Suc i mod length ps)"
proof -
  have c: "task_chain (tasks st) (task_head st) ps" "i < length ps" "task_current st = ps ! i"
    using assms by (simp_all add: sched_rel_def)
  have n: "next_task (tasks st (ps ! i)) = (if Suc i < length ps then ps ! Suc i else 0)"
    using task_chain_nth [OF c(1,2)] by simp
  show ?thesis
  proof (cases "Suc i < length ps")
    case True
    then show ?thesis using n c task_chain_nth [OF c(1) True] by (simp add: task_next_def)
  next
    case False
    then have "Suc i = length ps" using c(2) by simp
    moreover have "task_head st = ps ! 0" using c(1,2) by (cases ps) auto
    ultimately show ?thesis using n c by (simp add: task_next_def)
  qed
qed

lemma switch_refines:
  assumes "sched_rel st ps i"
  shows "sched_rel (task_legacy_switch site st) ps (Suc i mod length ps)"
proof -
  let ?st = "task_legacy_switch site st"
  have "task_current ?st = ps ! (Suc i mod length ps)" "task_head ?st = task_head st"
    "\<And>q. next_task (tasks ?st q) = next_task (tasks st q)"
    using task_next_position [OF assms]
    by (simp_all add: task_legacy_switch_def task_switch_def switch_to_task_parts Let_def)
  moreover have "Suc i mod length ps < length ps" using assms by (intro mod_less_divisor) (auto simp: sched_rel_def)
  ultimately show ?thesis using assms task_chain_cong [of ps "tasks ?st" "tasks st"] by (simp add: sched_rel_def)
qed

text \<open>
  What is relied on in \<^verbatim>\<open>kmalloc\<close>, with \<^verbatim>\<open>live k\<close> the blocks in use: a block that it returns was not in
  use before; and no one releases a task structure (the source has no code that does).
\<close>

definition alloc_ok :: "('k \<Rightarrow> u64 set) \<Rightarrow> ('k \<Rightarrow> ('k \<times> u64) option) \<Rightarrow> bool" where
  "alloc_ok live alloc \<longleftrightarrow> (\<forall>k k' p. alloc k = Some (k', p) \<longrightarrow> live k \<subseteq> live k' \<and>
     (p \<noteq> 0 \<longrightarrow> p \<notin> live k \<and> p \<in> live k'))"

definition keeps_live :: "('k \<Rightarrow> u64 set) \<Rightarrow> (u64 \<Rightarrow> 'k sched \<Rightarrow> ('k sched \<times> u64) option) \<Rightarrow> bool" where
  "keeps_live live clone \<longleftrightarrow> (\<forall>dir st st' d. clone dir st = Some (st', d) \<longrightarrow> live (rest st) \<subseteq> live (rest st'))"

lemma fork_refines:
  assumes rel: "sched_rel st ps i" and l: "set ps \<subseteq> live (rest st)"
    and ok: "clone_ok clone phys" "alloc_ok live alloc" "keeps_live live clone"
    and f: "task_fork site back weird_return alloc clone phys st = Some (st', b)"
  shows "\<exists>new. length new \<le> 1 \<and> sched_rel st' (new @ ps) (length new + i) \<and> set (new @ ps) \<subseteq> live (rest st')"
proof -
  have cur: "task_current st \<noteq> 0"
    using rel task_chain_nth [of "tasks st" "task_head st" ps i] by (simp add: sched_rel_def)
  obtain k p where a: "alloc (rest st) = Some (k, p)"
    using f cur by (auto simp: task_fork_def task_create_def task_link_def split: bind_splits)
  have k: "live (rest st) \<subseteq> live k" "p \<noteq> 0 \<Longrightarrow> p \<notin> live (rest st) \<and> p \<in> live k"
    using ok(2) a unfolding alloc_ok_def by blast+
  show ?thesis
  proof (cases "p = 0")
    case True
    then have "st' = st\<lparr>rest := k\<rparr>"
      using f a cur by (simp add: task_fork_def task_create_def task_link_def Let_def)
    then show ?thesis using rel l k(1) by (intro exI [of _ "[]"]) (auto simp: sched_rel_def)
  next
    case False
    define st0 where "st0 = (upd_task p (\<lambda>t. t\<lparr>next_task := task_head st\<rparr>) (st\<lparr>rest := k\<rparr>))\<lparr>task_head := p\<rparr>"
    have link: "task_link alloc st = Some (st0, p)"
      using cur a False by (simp add: task_link_def st0_def Let_def)
    let ?sc = "st0\<lparr>cpu := push site (cpu st0)\<rparr>"
    have w: "weird_switch back weird_return clone phys p (task_current st) ?sc = Some st'"
      using f link False by (auto simp: task_fork_def task_create_def Let_def split: bind_splits)
    then obtain s1 d where c: "clone (directory (tasks ?sc (task_current st)))
        (upd_cpu (\<lambda>c. (push back c)\<lparr>reg_rbx := p\<rparr>) ?sc) = Some (s1, d)"
      by (auto simp: weird_switch_def weird_switch2_def task_create_directory_def Let_def split: bind_splits)
    from weird_switch_effect [OF ok(1) this refl, of weird_return] w
    have e: "task_head st' = p" "task_current st' = task_current st" "rest st' = rest s1"
      "\<And>q. next_task (tasks st' q) = next_task (tasks st0 q)"
      by (auto simp: st0_def upd_task_def)
    have "live k \<subseteq> live (rest st')"
      using ok(3) c unfolding keeps_live_def e(3) by (fastforce simp: st0_def upd_task_def)
    moreover have fresh: "p \<notin> set ps" using k(2) False l by auto
    moreover have "next_task (tasks st' q) = next_task (tasks st q)" if "q \<in> set ps" for q
      using e(4) [of q] fresh that by (auto simp: st0_def upd_task_def)
    then have "task_chain (tasks st') (task_head st) ps"
      using rel task_chain_cong [of ps "tasks st'" "tasks st" "task_head st"] by (simp add: sched_rel_def)
    ultimately show ?thesis
      using rel l k False e by (intro exI [of _ "[p]"]) (auto simp: sched_rel_def st0_def upd_task_def)
  qed
qed

text \<open>
  \<^verbatim>\<open>sched_run \<dots> st k f cs\<close>: from \<^verbatim>\<open>st\<close>, a run of the kernel with \<^verbatim>\<open>k\<close> task switches and \<^verbatim>\<open>f\<close> forks, during
  which the tasks \<^verbatim>\<open>cs\<close> were running, in this order.  Between them the running task does whatever
  it likes with the machine and the rest of the kernel.
\<close>

inductive sched_run ::
  "('k \<Rightarrow> u64 set) \<Rightarrow> ('k \<Rightarrow> ('k \<times> u64) option) \<Rightarrow> (u64 \<Rightarrow> 'k sched \<Rightarrow> ('k sched \<times> u64) option) \<Rightarrow>
     ('k \<Rightarrow> u64 \<Rightarrow> u64) \<Rightarrow> 'k sched \<Rightarrow> nat \<Rightarrow> nat \<Rightarrow> u64 list \<Rightarrow> bool"
  for live :: "'k \<Rightarrow> u64 set" and alloc :: "'k \<Rightarrow> ('k \<times> u64) option"
    and clone :: "u64 \<Rightarrow> 'k sched \<Rightarrow> ('k sched \<times> u64) option" and phys :: "'k \<Rightarrow> u64 \<Rightarrow> u64" where
  stop: "sched_run live alloc clone phys st 0 0 [task_current st]"
| switch: "sched_run live alloc clone phys (task_legacy_switch site st) k f cs \<Longrightarrow>
    sched_run live alloc clone phys st (Suc k) f (task_current st # cs)"
| fork: "task_fork site back weird_return alloc clone phys st = Some (st', b) \<Longrightarrow>
    sched_run live alloc clone phys st' k f cs \<Longrightarrow>
    sched_run live alloc clone phys st k (Suc f) (task_current st # cs)"
| work: "tasks st' = tasks st \<Longrightarrow> task_head st' = task_head st \<Longrightarrow> task_current st' = task_current st \<Longrightarrow>
    live (rest st) \<subseteq> live (rest st') \<Longrightarrow> sched_run live alloc clone phys st' k f cs \<Longrightarrow>
    sched_run live alloc clone phys st k f (task_current st # cs)"

text \<open>How many switches it takes from position \<^verbatim>\<open>i\<close> to position \<^verbatim>\<open>j\<close> of a list of \<^verbatim>\<open>n\<close> tasks.\<close>

definition switches_to :: "nat \<Rightarrow> nat \<Rightarrow> nat \<Rightarrow> nat" where
  "switches_to n i j = (if i \<le> j then j - i else n - i + j)"

lemma switches_to_step:
  assumes "i < n" "j < n" "i \<noteq> j"
  shows "switches_to n i j = Suc (switches_to n (Suc i mod n) j)"
  using assms by (cases "Suc i = n") (auto simp: switches_to_def)

lemma run_reaches:
  assumes "sched_run live alloc clone phys st k f cs"
    and "sched_rel st ps i" and "set ps \<subseteq> live (rest st)" and "j < length ps"
    and ok: "clone_ok clone phys" "alloc_ok live alloc" "keeps_live live clone"
    and "switches_to (length ps) i j + f \<le> k"
  shows "ps ! j \<in> set cs"
  using assms(1-4,8)
proof (induction arbitrary: ps i j rule: sched_run.induct)
  case (stop st)
  then have "i = j" by (auto simp: switches_to_def sched_rel_def split: if_splits)
  then show ?case using stop by (simp add: sched_rel_def)
next
  case (switch site st k f cs)
  show ?case
  proof (cases "i = j")
    case True
    then show ?thesis using switch.prems(1) by (simp add: sched_rel_def)
  next
    case False
    have r: "rest (task_legacy_switch site st) = rest st"
      by (simp add: task_legacy_switch_def task_switch_def switch_to_task_parts Let_def)
    have "i < length ps" using switch.prems(1) by (simp add: sched_rel_def)
    then have "switches_to (length ps) (Suc i mod length ps) j + f \<le> k"
      using switches_to_step [OF _ switch.prems(3) False] switch.prems(4) by simp
    then have "ps ! j \<in> set cs"
      using switch.IH [OF switch_refines [OF switch.prems(1)]] switch.prems(2,3) r by simp
    then show ?thesis by simp
  qed
next
  case (fork site bk wr st st' b k f cs)
  obtain new where n: "length new \<le> 1" "sched_rel st' (new @ ps) (length new + i)"
      "set (new @ ps) \<subseteq> live (rest st')"
    using fork_refines [OF fork.prems(1,2) ok fork.hyps(1)] by blast
  have "switches_to (length (new @ ps)) (length new + i) (length new + j) + f \<le> k"
    using n(1) fork.prems(4) by (auto simp: switches_to_def split: if_splits)
  then have "(new @ ps) ! (length new + j) \<in> set cs"
    using fork.IH [OF n(2,3), of "length new + j"] fork.prems(3) by simp
  then show ?case by simp
next
  case (work st' st k f cs)
  have "sched_rel st' ps i" using work by (simp add: sched_rel_def)
  then have "ps ! j \<in> set cs" using work by (intro work.IH) auto
  then show ?case by simp
qed



end
