(* ===== verification/Spec2Isabelle.thy ===== *)
theory Spec2Isabelle
  imports KernelBoot Task
begin

text \<open>
  A verification library for the kernel in \<^verbatim>\<open>src/kernel\<close>, a small x86-64 kernel in C: it boots from
  Multiboot2, keeps a bitmap of page frames and four-level page tables, a heap on top of them,
  interrupts, a keyboard, cooperative tasks, random numbers, a formatted output over the serial
  port, and drivers for the PCI bus and AHCI disks.

  \<^bold>\<open>How the parts interact.\<close>  \<^verbatim>\<open>kernel.c\<close> runs \<^verbatim>\<open>kmain\<close> on the boot stack: seed of the random numbers, serial
  port, segment and interrupt tables, \<^verbatim>\<open>mmu_init\<close> on the page tables of \<^verbatim>\<open>boot.s\<close> and the tags of the boot
  loader, then a stack of its own on which \<^verbatim>\<open>kmain2\<close> sets up the heap, the keyboard and the disks.
  (\<^verbatim>\<open>task.c\<close> is there for the parts to come: nothing starts it yet.)  The heap asks
  \<^verbatim>\<open>ksbrk\<close> of \<^verbatim>\<open>mmu.c\<close> for pages; \<^verbatim>\<open>mmu.c\<close> takes frames from its bitmap and enters them in the page tables,
  which it can only reach through the same page tables.  Ring buffers, tasks and the disk driver
  take memory from the heap; the keyboard handler is called through the interrupt table and fills a
  ring buffer; \<^verbatim>\<open>task_create\<close> clones the page tables of its parent; the random number generators use
  ChaCha20, SHA-1 and xoshiro256++; every failed assertion prints and spins.

  \<^bold>\<open>Conventions\<close> (\<^verbatim>\<open>Prelude\<close>).  C integers are words of their width (\<^verbatim>\<open>u8\<close> to \<^verbatim>\<open>u64\<close>), so that
  wrap-around is the one of the code; signed arithmetic whose overflow is undefined is written in
  \<^verbatim>\<open>int\<close> with a check.  An operation returns an option: \<^verbatim>\<open>None\<close> is a run that does not come back with a
  defined result (a failed assertion, which spins for ever; an access outside an object; an
  undefined operation; a loop that does not end).  So a theorem that states \<^verbatim>\<open>Some\<close> states that the code
  returns.  Error returns of the code (null pointers, \<^verbatim>\<open>false\<close>, \<^verbatim>\<open>-1\<close>) are values.  State is passed
  explicitly, one record for the globals of a file.  Devices are functions of the history of
  accesses: a port read is answered from the trace of port accesses (\<^verbatim>\<open>PortIO\<close>), a read of a memory-mapped
  register from the log of register accesses (\<^verbatim>\<open>Ahci\<close>), so a device may do anything that depends on
  what it has seen.

  \<^bold>\<open>The theories.\<close>
  \<^item> \<^verbatim>\<open>Prelude\<close>, \<^verbatim>\<open>CMemory\<close>: shared vocabulary; byte memory, little-endian words, and \<^verbatim>\<open>string.c\<close> (the four
    loops of \<^verbatim>\<open>memcpy\<close>, \<^verbatim>\<open>memset\<close>, \<^verbatim>\<open>strlen\<close>).
  \<^item> \<^verbatim>\<open>RingBuffer\<close>: \<^verbatim>\<open>ringbuffer.c\<close>.  A well-formed buffer is a queue of bytes; reads and writes refine
    the queue operations, and no interleaving loses or reorders a byte.
  \<^item> \<^verbatim>\<open>PortIO\<close>, \<^verbatim>\<open>Kprintf\<close>, \<^verbatim>\<open>Log\<close>: \<^verbatim>\<open>io.h\<close> and \<^verbatim>\<open>serial.c\<close>; \<^verbatim>\<open>kprintf.c\<close> over an abstract writer, with the
    buffer and the serial port as instances; \<^verbatim>\<open>log.c\<close>.  The output does not depend on the writer;
    numerals read back; the buffer version is cut and terminated.
  \<^item> \<^verbatim>\<open>Xoshiro\<close>, \<^verbatim>\<open>Prng\<close>, \<^verbatim>\<open>ChaCha20\<close>, \<^verbatim>\<open>Sha1\<close>, \<^verbatim>\<open>Csprng\<close>: \<^verbatim>\<open>crypto/\<close>, \<^verbatim>\<open>prng.c\<close> and \<^verbatim>\<open>csprng.c\<close>.  SHA-1 and HMAC against
    FIPS 180-4 and RFC 2104 stated on whole messages, through the locale \<^verbatim>\<open>stream_hash\<close> for the
    buffering; the generator as ChaCha20 in counter mode with its re-keying.
  \<^item> \<^verbatim>\<open>Frames\<close>, \<^verbatim>\<open>Paging\<close>, \<^verbatim>\<open>PageTables\<close>, \<^verbatim>\<open>PageAlloc\<close>, \<^verbatim>\<open>PageGrow\<close>, \<^verbatim>\<open>Mmu\<close>, \<^verbatim>\<open>PageSupply\<close>: \<^verbatim>\<open>mmu.c\<close>.  \<^verbatim>\<open>Frames\<close> is the bitmap,
    \<^verbatim>\<open>Paging\<close> every other function over physical memory that is reached through the tables,
    \<^verbatim>\<open>PageTables\<close> the invariant: the tables of the program (virtual pointers) and of the processor
    (physical entries) describe the same tree \<^verbatim>\<open>T\<close>, a map from paths to tables, whose pages are
    disjoint and mapped.  \<^verbatim>\<open>PageAlloc\<close> and \<^verbatim>\<open>PageGrow\<close> follow one allocation through the search of a
    region, the mapping of its pages and the entry of a new table, and show that no byte of a frame
    in use changes on the way (tables apart); \<^verbatim>\<open>Mmu\<close> holds the properties and a concrete machine on
    which they are applied.  \<^verbatim>\<open>PageSupply\<close> is \<^verbatim>\<open>ksbrk\<close>: how many tables and frames a call needs, which
    pages it returns, and the state (\<^verbatim>\<open>supplied\<close>) that each call finds and leaves.
  \<^item> \<^verbatim>\<open>Kmalloc\<close>, \<^verbatim>\<open>HeapClient\<close>: \<^verbatim>\<open>kmalloc.c\<close>.  The heap is a chain of headers in byte memory; \<^verbatim>\<open>Kmalloc\<close> shows
    that every operation keeps the chain, \<^verbatim>\<open>HeapClient\<close> states the contracts over the page source
    (\<^verbatim>\<open>sbrk_ok\<close>, the locale \<^verbatim>\<open>page_source\<close>) and proves safety and progress of every reachable heap.
  \<^item> \<^verbatim>\<open>PageHeap\<close>: the heap on the page tables.  \<^verbatim>\<open>ksbrk\<close> meets the contract of the page source, so what is
    proved of the heap holds of the two together, down to physical memory.  Two bounds: at most 240
    pages a request, because \<^verbatim>\<open>ksbrk\<close> adds one page table ahead per call, and the heap stays below the
    last table of its gigabyte, because \<^verbatim>\<open>allocate_next_pt\<close> does not carry into the next one.
  \<^item> \<^verbatim>\<open>BootMap\<close>, \<^verbatim>\<open>BootTables\<close>, \<^verbatim>\<open>MmuInit\<close>: the start of the memory management.  \<^verbatim>\<open>BootMap\<close> is the list of tags of
    the loader and the frames it frees, \<^verbatim>\<open>BootTables\<close> the page tables that \<^verbatim>\<open>boot.s\<close> builds and a concrete
    machine that has just been booted, and \<^verbatim>\<open>MmuInit\<close> shows that \<^verbatim>\<open>mmu_init\<close> turns these tables into a
    tree of the invariant and leaves the state that \<^verbatim>\<open>ksbrk\<close> needs.
  \<^item> \<^verbatim>\<open>BootMemory\<close>: \<^verbatim>\<open>mmu_init\<close>, \<^verbatim>\<open>mmu_update_stack\<close> and \<^verbatim>\<open>kmalloc_init\<close> one after the other.  The bound is in words
    of the frame bitmap, 32 of them: two for \<^verbatim>\<open>ksbrk(0)\<close>, six for the tables of the stack, fourteen for its
    seven pages, and the rest for the 64 pages of the first heap and the 129 of the first block.
  \<^item> \<^verbatim>\<open>Idt\<close>, \<^verbatim>\<open>Keyboard\<close>, \<^verbatim>\<open>Gdt\<close>: \<^verbatim>\<open>idt.c\<close> with the pair of interrupt controllers as an environment,
    \<^verbatim>\<open>ps2_keyboard.c\<close> on top of the interrupt table and the ring buffer, \<^verbatim>\<open>gdt.c\<close>.
  \<^item> \<^verbatim>\<open>Task\<close>: \<^verbatim>\<open>task.c\<close> and the two assembler routines \<^verbatim>\<open>switch_to_task\<close> and \<^verbatim>\<open>weird_switch\<close>, instruction by
    instruction: resuming, the two returns of a fork, and the fairness of the rotation.
  \<^item> \<^verbatim>\<open>Pci\<close>, \<^verbatim>\<open>Polling\<close>, \<^verbatim>\<open>Ahci\<close>, \<^verbatim>\<open>AhciCommand\<close>, \<^verbatim>\<open>AhciPort\<close>, \<^verbatim>\<open>AhciSetup\<close>: \<^verbatim>\<open>pci.c\<close> and \<^verbatim>\<open>ahci.c\<close>.  The layout of
    a command in memory, the order of register accesses, when a transfer returns, and how a port is
    programmed; \<^verbatim>\<open>Polling\<close> has the rules for loops that wait for a device.
  \<^item> \<^verbatim>\<open>Kernel\<close>, \<^verbatim>\<open>KernelBoot\<close>: \<^verbatim>\<open>kernel.c\<close> over the product of all states; and a complete start on a machine
    that meets the hypotheses of all components at once (\<^verbatim>\<open>bootable\<close>), down to the greeting of \<^verbatim>\<open>kmain2\<close>.

  \<^bold>\<open>Loops.\<close>  Loops over arrays are recursions on lists or numbers.  Loops that may not end are
  \<^verbatim>\<open>partial_function (option)\<close>: the scan of the heap, the search of a virtual region, the format
  interpreter, the generator that calls itself at the end of its counter, and the waits for a device
  (\<^verbatim>\<open>poll\<close>); that they return is part of the theorems about them.  Loops with a counter in the code
  (10000 polls of a disk, 0xFFFFFF polls of the serial port) keep this counter.  \<^verbatim>\<open>allocate_pt\<close> and
  \<^verbatim>\<open>safe_allocation\<close> call each other; the model is indexed by the depth of the calls, and
  \<^verbatim>\<open>allocate_pt_keeps_views\<close> shows for every depth from two on that the code returns with the same
  result: the tables that hold new tables exist or are created one level down.

  \<^bold>\<open>Parameters.\<close>  What is not C code of the repository is an argument: the devices on the ports, the
  disk controller, the bus of \<^verbatim>\<open>pci.c\<close>, the addresses of the interrupt stubs and of the linker script,
  the processor that enters a handler.  Hypotheses on them are named predicates that state their
  documentation (\<^verbatim>\<open>pic_device\<close>, \<^verbatim>\<open>config_space\<close>, ...), and each theorem with such a hypothesis is
  applied to a concrete device next to it.  Two things the C language leaves open are parameters
  too: the value of \<^verbatim>\<open>1 << k\<close> for \<^verbatim>\<open>k\<close> from 31 on (\<^verbatim>\<open>bit1\<close>, with \<^verbatim>\<open>bit_ok\<close> true of every x86 compiler's
  choice), and the functions that \<^verbatim>\<open>ahci.c\<close> and \<^verbatim>\<open>log.c\<close> call and the repository does not define.
  A variadic argument is a 64-bit slot; arguments of 32 bits are taken as zero-extended.

  \<^bold>\<open>Not modelled.\<close>  The control registers that \<^verbatim>\<open>boot.s\<close> sets to enter long mode (its page tables are
  modelled), and the assembly that saves registers around interrupt handlers (\<^verbatim>\<open>idt_asm.s\<close>, \<^verbatim>\<open>regs.s\<close>):
  it runs before or outside the C code; the assembler
  routines that C code calls are part of their callers.  The string instructions of \<^verbatim>\<open>io.s\<close>, which
  nothing calls.  \<^verbatim>\<open>ahci_read\<close> and \<^verbatim>\<open>ahci_write\<close>, which are commented out, and the debug version of
  \<^verbatim>\<open>kmalloc\<close>, which is not compiled.  The declarations of \<^verbatim>\<open>multiboot2.h\<close> and \<^verbatim>\<open>idt.h\<close> that no code uses.
  Caches, the translation buffer and interrupts that arrive in the middle of a C function: handlers
  run between the operations of the model.
\<close>

end
